(* ===== verification/Prelude.thy ===== *)
theory Prelude
  imports Main "HOL-Library.Word" "HOL-Library.Sublist" "HOL-Library.Monad_Syntax"
begin

text \<open>
  Shared vocabulary of the development: the machine types of the C code, string literals
  over code units and bytes, the result type of code that may abort, and the collections of
  simplification rules the component theories fill and use.

  A value of type \<open>'a run\<close> is what a C function does: \<open>Some x\<close> when it returns \<open>x\<close>,
  \<open>None\<close> when it calls \<open>moonbit_panic\<close> or \<open>abort\<close>, or does not return.
\<close>

named_theorems run_simps \<open>the value a routine returns, when it is known to return\<close>
named_theorems path_simps \<open>rules about path strings and their segments\<close>

type_synonym byte = "8 word"
type_synonym bytes = "8 word list"

text \<open>A MoonBit string is an array of UTF-16 code units, a character a code point.\<close>

type_synonym code_unit = "16 word"
type_synonym mstring = "16 word list"

type_synonym 'a run = "'a option"

text \<open>A string literal of the source, over code units or over bytes.\<close>

definition str :: "string \<Rightarrow> 'a::len word list" where
  "str s = map of_char s"

lemma str_Nil [simp]: "str [] = []"
  by (simp add: str_def)

lemma str_Cons [simp]: "str (c # s) = of_char c # str s"
  by (simp add: str_def)

lemma str_eq_Nil [simp]: "str s = [] \<longleftrightarrow> s = []" "[] = str s \<longleftrightarrow> s = []"
  by (cases s; simp)+

lemma length_str [simp]: "length (str s) = length s"
  by (simp add: str_def)

subsection \<open>Segments of a list\<close>

definition occurs_at :: "'a list \<Rightarrow> 'a list \<Rightarrow> nat \<Rightarrow> bool" where
  "occurs_at h n i \<longleftrightarrow> take (length n) (drop i h) = n"

lemma occurs_at_Nil [simp]: "occurs_at h [] i"
  by (simp add: occurs_at_def)

lemma occurs_at_length:
  assumes "occurs_at h n i" and "n \<noteq> []"
  shows "i + length n \<le> length h"
proof -
  have "length n = min (length n) (length h - i)"
    using assms(1) by (metis occurs_at_def length_drop length_take min.commute)
  moreover have "0 < length n" using assms(2) by simp
  ultimately show ?thesis by linarith
qed

lemma occurs_at_nth_iff:
  assumes "i + length n \<le> length h"
  shows "occurs_at h n i \<longleftrightarrow> (\<forall>j < length n. h ! (i + j) = n ! j)"
  using assms by (auto simp: occurs_at_def list_eq_iff_nth_eq)

lemma occurs_at_nth:
  assumes "occurs_at h n i" and "j < length n"
  shows "h ! (i + j) = n ! j"
proof -
  have "i + length n \<le> length h" using assms occurs_at_length by fastforce
  with assms show ?thesis by (simp add: occurs_at_nth_iff)
qed

lemma occurs_at_0: "occurs_at h n 0 \<longleftrightarrow> prefix n h"
  by (metis append_eq_conv_conj drop_0 occurs_at_def prefix_def)

lemma occurs_at_last:
  assumes "length n \<le> length h"
  shows "occurs_at h n (length h - length n) \<longleftrightarrow> suffix n h"
proof
  assume "occurs_at h n (length h - length n)"
  then have "drop (length h - length n) h = n"
    using assms by (simp add: occurs_at_def)
  then show "suffix n h" by (metis suffix_drop)
next
  assume "suffix n h"
  then show "occurs_at h n (length h - length n)"
    by (auto simp: occurs_at_def suffix_def)
qed

text \<open>The first and the last position at which a list occurs in another.\<close>

definition first_occ :: "'a list \<Rightarrow> 'a list \<Rightarrow> nat option" where
  "first_occ h n = List.find (occurs_at h n) [0..<Suc (length h)]"

definition last_occ :: "'a list \<Rightarrow> 'a list \<Rightarrow> nat option" where
  "last_occ h n = List.find (occurs_at h n) (rev [0..<Suc (length h)])"

lemma first_occ_Some_iff:
  "first_occ h n = Some i \<longleftrightarrow> i \<le> length h \<and> occurs_at h n i \<and> (\<forall>j < i. \<not> occurs_at h n j)"
proof -
  have nth: "k < Suc (length h) \<Longrightarrow> [0..<Suc (length h)] ! k = k" for k
    by (subst nth_upt) auto
  have "first_occ h n = Some i \<longleftrightarrow>
      (\<exists>k < Suc (length h). occurs_at h n k \<and> i = k \<and> (\<forall>j<k. \<not> occurs_at h n j))"
    unfolding first_occ_def find_Some_iff
    by (rule ex_cong1) (auto simp: nth simp del: upt_Suc)
  then show ?thesis by auto
qed

lemma first_occ_None_iff:
  "first_occ h n = None \<longleftrightarrow> (\<forall>i \<le> length h. \<not> occurs_at h n i)"
  unfolding first_occ_def find_None_iff set_upt by fastforce

lemma last_occ_Some_iff:
  "last_occ h n = Some i \<longleftrightarrow>
    i \<le> length h \<and> occurs_at h n i \<and> (\<forall>j. i < j \<and> j \<le> length h \<longrightarrow> \<not> occurs_at h n j)"
proof -
  let ?m = "length h"
  have nth: "k < Suc ?m \<Longrightarrow> rev [0..<Suc ?m] ! k = ?m - k" for k
    by (simp add: rev_nth del: upt_Suc)
  have "last_occ h n = Some i \<longleftrightarrow>
      (\<exists>k < Suc ?m. occurs_at h n (?m - k) \<and> i = ?m - k \<and> (\<forall>j<k. \<not> occurs_at h n (?m - j)))"
    by (auto simp: last_occ_def find_Some_iff nth simp del: upt_Suc)
  also have "\<dots> \<longleftrightarrow> i \<le> ?m \<and> occurs_at h n i \<and> (\<forall>j. i < j \<and> j \<le> ?m \<longrightarrow> \<not> occurs_at h n j)"
    (is "?L \<longleftrightarrow> ?R")
  proof
    assume ?L
    then obtain k where k: "k < Suc ?m" "occurs_at h n (?m - k)" "i = ?m - k"
      and lt: "\<forall>j<k. \<not> occurs_at h n (?m - j)" by blast
    have "\<not> occurs_at h n j" if "i < j" "j \<le> ?m" for j
      using lt [rule_format, of "?m - j"] that k by simp
    with k show ?R by auto
  next
    assume R: ?R
    then have "\<forall>j < ?m - i. \<not> occurs_at h n (?m - j)" by auto
    with R show ?L by (intro exI [of _ "?m - i"]) auto
  qed
  finally show ?thesis .
qed

lemma last_occ_None_iff:
  "last_occ h n = None \<longleftrightarrow> (\<forall>i \<le> length h. \<not> occurs_at h n i)"
  unfolding last_occ_def find_None_iff set_rev set_upt by fastforce

lemma first_occ_0: "first_occ h n = Some 0 \<longleftrightarrow> prefix n h"
  by (simp add: first_occ_Some_iff occurs_at_0)

end
