(* ===== verification/String_Search.thy ===== *)
theory String_Search
  imports Prelude
begin

text \<open>
  The string search of the compiled runtime (\<open>mulp.c\<close>): brute force for needles of at most
  four code units, Boyer-Moore-Horspool with a 256-entry skip table otherwise, both in a
  forward and a backward version, and the prefix and suffix tests built on them.
  A string view is the list of its code units; a position is a \<open>nat\<close>.  Strings are shorter
  than \<open>2 ^ 31\<close> units, so the \<open>int32_t\<close> indices never wrap.
\<close>

subsection \<open>The routines\<close>

text \<open>The inner comparison loop: \<open>h[i + j] = n[j]\<close> for the remaining \<open>j\<close>.\<close>

function match_from :: "mstring \<Rightarrow> mstring \<Rightarrow> nat \<Rightarrow> nat \<Rightarrow> bool" where
  "match_from h n i j =
     (if j < length n then (if h ! (i + j) \<noteq> n ! j then False else match_from h n i (Suc j))
      else True)"
  by pat_completeness auto
termination by (relation "measure (\<lambda>(h, n, i, j). length n - j)") auto

declare match_from.simps [simp del]

function brute_go :: "mstring \<Rightarrow> mstring \<Rightarrow> nat \<Rightarrow> nat option" where
  "brute_go h n i =
     (if i \<le> length h - length n then
        (if h ! i \<noteq> n ! 0 then brute_go h n (Suc i)
         else if match_from h n i 1 then Some i
         else brute_go h n (Suc i))
      else None)"
  by pat_completeness auto
termination by (relation "measure (\<lambda>(h, n, i). Suc (length h - length n) - i)") auto

declare brute_go.simps [simp del]

definition brute_force_find :: "mstring \<Rightarrow> mstring \<Rightarrow> nat option" where
  "brute_force_find h n =
     (if 0 < length n then
        (if length n \<le> length h then brute_go h n 0 else None)
      else Some 0)"

text \<open>The backward loop counts down to 0 and stops below it; \<open>k\<close> is the index plus one.\<close>

fun brute_rev_go :: "mstring \<Rightarrow> mstring \<Rightarrow> nat \<Rightarrow> nat option" where
  "brute_rev_go h n 0 = None"
| "brute_rev_go h n (Suc i) =
     (if h ! i \<noteq> n ! 0 then brute_rev_go h n i
      else if match_from h n i 1 then Some i
      else brute_rev_go h n i)"

definition brute_force_rev_find :: "mstring \<Rightarrow> mstring \<Rightarrow> nat option" where
  "brute_force_rev_find h n =
     (if 0 < length n then
        (if length n \<le> length h then brute_rev_go h n (Suc (length h - length n)) else None)
      else Some (length h))"

text \<open>The skip table is indexed by the low byte of a code unit.\<close>

definition low_byte :: "code_unit \<Rightarrow> nat" where
  "low_byte c = unat (and c 255)"

function skip_fill :: "mstring \<Rightarrow> nat \<Rightarrow> nat list \<Rightarrow> nat list" where
  "skip_fill n i t =
     (if i < length n - 1
      then skip_fill n (Suc i) (t[low_byte (n ! i) := length n - 1 - i])
      else t)"
  by pat_completeness auto
termination by (relation "measure (\<lambda>(n, i, t). length n - 1 - i)") auto

declare skip_fill.simps [simp del]

definition skip_table :: "mstring \<Rightarrow> nat list" where
  "skip_table n = skip_fill n 0 (replicate 256 (length n))"

text \<open>The main loop, whose return is part of what has to be proved.\<close>

partial_function (option) bmh_go :: "mstring \<Rightarrow> mstring \<Rightarrow> nat list \<Rightarrow> nat \<Rightarrow> nat option run" where
  "bmh_go h n t i =
     (if i \<le> length h - length n then
        (if match_from h n i 0 then Some (Some i)
         else bmh_go h n t (i + t ! low_byte (h ! (i + length n - 1))))
      else Some None)"

declare bmh_go.simps [code]

definition boyer_moore_horspool_find :: "mstring \<Rightarrow> mstring \<Rightarrow> nat option run" where
  "boyer_moore_horspool_find h n =
     (if 0 < length n then
        (if length n \<le> length h then bmh_go h n (skip_table n) 0 else Some None)
      else Some (Some 0))"

text \<open>The backward table runs from the last index down to 1.\<close>

fun rev_skip_fill :: "mstring \<Rightarrow> nat \<Rightarrow> nat list \<Rightarrow> nat list" where
  "rev_skip_fill n 0 t = t"
| "rev_skip_fill n (Suc i) t = rev_skip_fill n i (t[low_byte (n ! Suc i) := Suc i])"

definition rev_skip_table :: "mstring \<Rightarrow> nat list" where
  "rev_skip_table n = rev_skip_fill n (length n - 1) (replicate 256 (length n))"

partial_function (option) bmh_rev_go :: "mstring \<Rightarrow> mstring \<Rightarrow> nat list \<Rightarrow> int \<Rightarrow> nat option run" where
  "bmh_rev_go h n t i =
     (if 0 \<le> i then
        (if match_from h n (nat i) 0 then Some (Some (nat i))
         else bmh_rev_go h n t (i - int (t ! low_byte (h ! nat i))))
      else Some None)"

declare bmh_rev_go.simps [code]

definition boyer_moore_horspool_rev_find :: "mstring \<Rightarrow> mstring \<Rightarrow> nat option run" where
  "boyer_moore_horspool_rev_find h n =
     (if 0 < length n then
        (if length n \<le> length h
         then bmh_rev_go h n (rev_skip_table n) (int (length h) - int (length n))
         else Some None)
      else Some (Some (length h)))"

definition view_find :: "mstring \<Rightarrow> mstring \<Rightarrow> nat option run" where
  "view_find h n =
     (if length n \<le> 4 then Some (brute_force_find h n) else boyer_moore_horspool_find h n)"

definition view_rev_find :: "mstring \<Rightarrow> mstring \<Rightarrow> nat option run" where
  "view_rev_find h n =
     (if length n \<le> 4 then Some (brute_force_rev_find h n)
      else boyer_moore_horspool_rev_find h n)"

definition view_has_prefix :: "mstring \<Rightarrow> mstring \<Rightarrow> bool run" where
  "view_has_prefix s p =
     do { r \<leftarrow> view_find s p;
          case r of None \<Rightarrow> Some False | Some i \<Rightarrow> Some (i = 0) }"

definition view_has_suffix :: "mstring \<Rightarrow> mstring \<Rightarrow> bool run" where
  "view_has_suffix s p =
     do { r \<leftarrow> view_rev_find s p;
          case r of None \<Rightarrow> Some False
          | Some i \<Rightarrow> Some (int i = int (length s) - int (length p)) }"

definition has_prefix :: "mstring \<Rightarrow> mstring \<Rightarrow> bool run" where
  "has_prefix s p = view_has_prefix s p"

definition has_suffix :: "mstring \<Rightarrow> mstring \<Rightarrow> bool run" where
  "has_suffix s p = view_has_suffix s p"

definition string_find :: "mstring \<Rightarrow> mstring \<Rightarrow> nat option run" where
  "string_find s n = view_find s n"

subsection \<open>Correctness\<close>

lemma match_from_iff:
  "match_from h n i j \<longleftrightarrow> (\<forall>k. j \<le> k \<and> k < length n \<longrightarrow> h ! (i + k) = n ! k)"
proof (induction h n i j rule: match_from.induct)
  case (1 h n i j)
  show ?case
  proof (cases "j < length n \<and> h ! (i + j) = n ! j")
    case True
    then have "match_from h n i j \<longleftrightarrow> match_from h n i (Suc j)"
      by (subst match_from.simps) simp
    with True 1 show ?thesis by (metis Suc_leD Suc_leI le_neq_implies_less)
  next
    case False
    then show ?thesis by (subst match_from.simps) auto
  qed
qed

lemma match_from_0: "i + length n \<le> length h \<Longrightarrow> match_from h n i 0 \<longleftrightarrow> occurs_at h n i"
  by (simp add: match_from_iff occurs_at_nth_iff)

lemma match_from_1:
  assumes "i + length n \<le> length h" and "h ! i = n ! 0"
  shows "match_from h n i 1 \<longleftrightarrow> occurs_at h n i"
proof -
  have "(\<forall>k. 1 \<le> k \<and> k < length n \<longrightarrow> h ! (i + k) = n ! k) \<longleftrightarrow>
      (\<forall>k < length n. h ! (i + k) = n ! k)"
    using assms(2) by (metis One_nat_def add.right_neutral less_one not_le)
  then show ?thesis using assms(1) by (simp add: match_from_iff occurs_at_nth_iff)
qed

lemma not_occurs_first:
  assumes "n \<noteq> []" and "h ! i \<noteq> n ! 0"
  shows "\<not> occurs_at h n i"
  using assms occurs_at_nth [of h n i 0] by auto

lemma first_occ_eqI:
  assumes "n \<noteq> []"
    and "\<And>i. r = Some i \<Longrightarrow> occurs_at h n i \<and> (\<forall>j<i. \<not> occurs_at h n j)"
    and "r = None \<Longrightarrow> \<forall>i. i + length n \<le> length h \<longrightarrow> \<not> occurs_at h n i"
  shows "r = first_occ h n"
proof (cases r)
  case None
  then have "first_occ h n = None"
    using assms by (auto simp: first_occ_None_iff dest: occurs_at_length)
  with None show ?thesis by simp
next
  case (Some i)
  then have "first_occ h n = Some i"
    using assms occurs_at_length [of h n i] by (auto simp: first_occ_Some_iff)
  with Some show ?thesis by simp
qed

lemma last_occ_eqI:
  assumes "n \<noteq> []"
    and "\<And>i. r = Some i \<Longrightarrow> occurs_at h n i \<and> (\<forall>j>i. \<not> occurs_at h n j)"
    and "r = None \<Longrightarrow> \<forall>i. i + length n \<le> length h \<longrightarrow> \<not> occurs_at h n i"
  shows "r = last_occ h n"
proof (cases r)
  case None
  then have "last_occ h n = None"
    using assms by (auto simp: last_occ_None_iff dest: occurs_at_length)
  with None show ?thesis by simp
next
  case (Some i)
  then have "last_occ h n = Some i"
    using assms occurs_at_length [of h n i] by (auto simp: last_occ_Some_iff)
  with Some show ?thesis by simp
qed

lemma brute_go_spec:
  assumes "n \<noteq> []" and "length n \<le> length h" and "\<forall>j<i. \<not> occurs_at h n j"
  shows "brute_go h n i = first_occ h n"
  using assms
proof (induction h n i rule: brute_go.induct)
  case (1 h n i)
  show ?case
  proof (cases "i \<le> length h - length n")
    case False
    have "None = first_occ h n"
      using 1(3,4,5) False by (intro first_occ_eqI) auto
    with False show ?thesis by (subst brute_go.simps) simp
  next
    case True
    with 1(4) have fits: "i + length n \<le> length h" by linarith
    show ?thesis
    proof (cases "occurs_at h n i")
      case occ: True
      then have hd: "h ! i = n ! 0" using 1(3) not_occurs_first by blast
      have "Some i = first_occ h n"
        using 1(3,5) occ by (intro first_occ_eqI) auto
      with True occ hd fits show ?thesis
        by (subst brute_go.simps) (simp add: match_from_1 [simplified])
    next
      case occ: False
      then have later: "\<forall>j<Suc i. \<not> occurs_at h n j"
        using 1(5) by (auto simp: less_Suc_eq)
      have "brute_go h n i = brute_go h n (Suc i)"
        using True occ fits by (subst brute_go.simps) (auto simp: match_from_1 [simplified])
      moreover have "brute_go h n (Suc i) = first_occ h n"
        using 1(1,2) True later occ fits 1(3,4)
        by (cases "h ! i = n ! 0") (auto simp: match_from_1 [simplified])
      ultimately show ?thesis by simp
    qed
  qed
qed

lemma first_occ_Nil: "first_occ h [] = Some 0"
  by (simp add: first_occ_0)

lemma brute_force_find_spec [run_simps]: "brute_force_find h n = first_occ h n"
proof -
  consider "n = []" | "n \<noteq> []" "length n \<le> length h" | "n \<noteq> []" "length h < length n"
    by fastforce
  then show ?thesis
  proof cases
    case 1
    then show ?thesis by (simp add: brute_force_find_def first_occ_Nil)
  next
    case 2
    then show ?thesis by (simp add: brute_force_find_def brute_go_spec)
  next
    case 3
    then have "None = first_occ h n" by (intro first_occ_eqI) auto
    with 3 show ?thesis by (simp add: brute_force_find_def)
  qed
qed

lemma brute_rev_go_spec:
  assumes "n \<noteq> []" and "k + length n \<le> Suc (length h)" and "\<forall>j\<ge>k. \<not> occurs_at h n j"
  shows "brute_rev_go h n k = last_occ h n"
  using assms
proof (induction k)
  case 0
  then have "None = last_occ h n" by (intro last_occ_eqI) auto
  then show ?case by simp
next
  case (Suc i)
  from Suc.prems(2) have fits: "i + length n \<le> length h" by simp
  show ?case
  proof (cases "occurs_at h n i")
    case True
    then have hd: "h ! i = n ! 0" using Suc.prems(1) not_occurs_first by blast
    have "Some i = last_occ h n"
      using Suc.prems True by (intro last_occ_eqI) auto
    with True hd fits show ?thesis by (simp add: match_from_1 [simplified])
  next
    case False
    then have "\<forall>j\<ge>i. \<not> occurs_at h n j"
      using Suc.prems(3) by (metis Suc_leI le_neq_implies_less)
    with Suc.IH Suc.prems fits have "brute_rev_go h n i = last_occ h n" by simp
    with False fits show ?thesis by (auto simp: match_from_1 [simplified])
  qed
qed

lemma last_occ_Nil: "last_occ h [] = Some (length h)"
  by (simp add: last_occ_Some_iff)

lemma brute_force_rev_find_spec [run_simps]: "brute_force_rev_find h n = last_occ h n"
proof -
  consider "n = []" | "n \<noteq> []" "length n \<le> length h" | "n \<noteq> []" "length h < length n"
    by fastforce
  then show ?thesis
  proof cases
    case 1
    then show ?thesis by (simp add: brute_force_rev_find_def last_occ_Nil)
  next
    case 2
    then have "\<forall>j\<ge>Suc (length h - length n). \<not> occurs_at h n j"
      by (auto dest: occurs_at_length)
    with 2 have "brute_rev_go h n (Suc (length h - length n)) = last_occ h n"
      by (intro brute_rev_go_spec) auto
    with 2 show ?thesis by (simp add: brute_force_rev_find_def)
  next
    case 3
    then have "None = last_occ h n" by (intro last_occ_eqI) auto
    with 3 show ?thesis by (simp add: brute_force_rev_find_def)
  qed
qed

subsection \<open>The skip tables\<close>

lemma low_byte_less: "low_byte c < 256"
proof -
  have "unat (and c 255) \<le> unat (255 :: code_unit)"
    by (rule word_le_nat_alt [THEN iffD1, OF word_and_le1])
  then show ?thesis by (simp add: low_byte_def)
qed

text \<open>
  What the main loops need of a table: every entry is a positive shift, and the entry of a
  unit of the needle does not exceed that unit's distance to the aligned end.
\<close>

definition skips_ok :: "mstring \<Rightarrow> nat list \<Rightarrow> nat \<Rightarrow> bool" where
  "skips_ok n t i \<longleftrightarrow> length t = 256 \<and> (\<forall>k<256. 0 < t ! k \<and> t ! k \<le> length n) \<and>
     (\<forall>j<i. t ! low_byte (n ! j) \<le> length n - 1 - j)"

lemma skip_fill_ok:
  "skips_ok n t i \<Longrightarrow> i \<le> length n - 1 \<Longrightarrow> skips_ok n (skip_fill n i t) (length n - 1)"
proof (induction n i t rule: skip_fill.induct)
  case (1 n i t)
  show ?case
  proof (cases "i < length n - 1")
    case True
    let ?t = "t[low_byte (n ! i) := length n - 1 - i]"
    have "skips_ok n ?t (Suc i)"
      using 1(2) True by (auto simp: skips_ok_def nth_list_update low_byte_less less_Suc_eq)
    with 1(1) True have "skips_ok n (skip_fill n (Suc i) ?t) (length n - 1)" by simp
    with True show ?thesis by (simp add: skip_fill.simps [of n i t])
  next
    case False
    with 1(2,3) show ?thesis by (subst skip_fill.simps) simp
  qed
qed

lemma skip_table_ok: "n \<noteq> [] \<Longrightarrow> skips_ok n (skip_table n) (length n - 1)"
  unfolding skip_table_def by (rule skip_fill_ok) (auto simp: skips_ok_def)

definition rev_skips_ok :: "mstring \<Rightarrow> nat list \<Rightarrow> nat \<Rightarrow> bool" where
  "rev_skips_ok n t i \<longleftrightarrow> length t = 256 \<and> (\<forall>k<256. 0 < t ! k \<and> t ! k \<le> length n) \<and>
     (\<forall>j. i < j \<and> j < length n \<longrightarrow> t ! low_byte (n ! j) \<le> j)"

lemma rev_skip_fill_ok:
  "rev_skips_ok n t i \<Longrightarrow> i < length n \<Longrightarrow> rev_skips_ok n (rev_skip_fill n i t) 0"
proof (induction n i t rule: rev_skip_fill.induct)
  case (2 n i t)
  have "rev_skips_ok n (t[low_byte (n ! Suc i) := Suc i]) i"
    using 2(2,3)
    by (auto simp: rev_skips_ok_def nth_list_update low_byte_less)
      (metis Suc_lessI le_SucI less_imp_le_nat)+
  with 2 show ?case by simp
qed simp

lemma rev_skip_table_ok: "n \<noteq> [] \<Longrightarrow> rev_skips_ok n (rev_skip_table n) 0"
  unfolding rev_skip_table_def by (rule rev_skip_fill_ok) (auto simp: rev_skips_ok_def)

text \<open>A shift never jumps over an occurrence.\<close>

lemma skip_safe:
  assumes "skips_ok n t (length n - 1)" and "n \<noteq> []"
    and "\<not> occurs_at h n i" and "i \<le> j" and "j < i + t ! low_byte (h ! (i + length n - 1))"
  shows "\<not> occurs_at h n j"
proof
  assume occ: "occurs_at h n j"
  let ?c = "h ! (i + length n - 1)"
  let ?k = "length n - 1 - (j - i)"
  have bound: "t ! low_byte ?c \<le> length n"
    using assms(1) low_byte_less by (auto simp: skips_ok_def)
  have "i \<noteq> j" using assms(3) occ by auto
  with assms(4,5) bound have k: "?k < length n - 1" and pos: "j + ?k = i + length n - 1"
    by linarith+
  have "h ! (j + ?k) = n ! ?k"
    using occ k by (intro occurs_at_nth) auto
  then have eq: "?c = n ! ?k" by (simp only: pos)
  have "\<forall>j<length n - 1. t ! low_byte (n ! j) \<le> length n - 1 - j"
    using assms(1) by (simp add: skips_ok_def)
  then have "t ! low_byte ?c \<le> length n - 1 - ?k"
    unfolding eq using k by blast
  also have "\<dots> = j - i" using k assms(4,5) bound by linarith
  finally show False using assms(4,5) by linarith
qed

lemma rev_skip_safe:
  assumes "rev_skips_ok n t 0" and "n \<noteq> []"
    and "\<not> occurs_at h n i" and "j \<le> i" and "i < j + t ! low_byte (h ! i)"
  shows "\<not> occurs_at h n j"
proof
  assume occ: "occurs_at h n j"
  have bound: "t ! low_byte (h ! i) \<le> length n"
    using assms(1) low_byte_less by (auto simp: rev_skips_ok_def)
  have "i \<noteq> j" using assms(3) occ by auto
  with assms(4,5) bound have k: "0 < i - j" "i - j < length n" by linarith+
  have "h ! (j + (i - j)) = n ! (i - j)"
    using occ k by (intro occurs_at_nth) auto
  then have "t ! low_byte (h ! i) \<le> i - j"
    using assms(1,4) k by (simp add: rev_skips_ok_def)
  with assms(4,5) show False by linarith
qed

subsection \<open>The main loops return, and return the right position\<close>

lemma bmh_go_spec:
  assumes "skips_ok n t (length n - 1)" and "n \<noteq> []" and "length n \<le> length h"
    and "\<forall>j<i. \<not> occurs_at h n j"
  shows "bmh_go h n t i = Some (first_occ h n)"
  using assms(4)
proof (induction "Suc (length h) - i" arbitrary: i rule: less_induct)
  case less
  show ?case
  proof (cases "i \<le> length h - length n")
    case False
    have "None = first_occ h n"
      using less.prems False assms(2,3) by (intro first_occ_eqI) auto
    with False show ?thesis by (subst bmh_go.simps) simp
  next
    case True
    with assms(3) have fits: "i + length n \<le> length h" by linarith
    show ?thesis
    proof (cases "occurs_at h n i")
      case occ: True
      have "Some i = first_occ h n"
        using less.prems occ assms(2) by (intro first_occ_eqI) auto
      with True occ fits show ?thesis by (subst bmh_go.simps) (simp add: match_from_0)
    next
      case occ: False
      let ?s = "t ! low_byte (h ! (i + length n - 1))"
      have pos: "0 < ?s" using assms(1) low_byte_less by (simp add: skips_ok_def)
      have "\<forall>j<i + ?s. \<not> occurs_at h n j"
        using less.prems skip_safe [OF assms(1,2) occ] by (meson not_le)
      moreover have "Suc (length h) - (i + ?s) < Suc (length h) - i"
        using pos True assms(3) by linarith
      ultimately have "bmh_go h n t (i + ?s) = Some (first_occ h n)"
        using less.hyps by blast
      with True occ fits show ?thesis by (subst bmh_go.simps) (simp add: match_from_0)
    qed
  qed
qed

lemma boyer_moore_horspool_find_spec [run_simps]:
  "boyer_moore_horspool_find h n = Some (first_occ h n)"
proof -
  consider "n = []" | "n \<noteq> []" "length n \<le> length h" | "n \<noteq> []" "length h < length n"
    by fastforce
  then show ?thesis
  proof cases
    case 1
    then show ?thesis by (simp add: boyer_moore_horspool_find_def first_occ_Nil)
  next
    case 2
    then show ?thesis
      using bmh_go_spec [OF skip_table_ok, of n h 0] by (simp add: boyer_moore_horspool_find_def)
  next
    case 3
    then have "None = first_occ h n" by (intro first_occ_eqI) auto
    with 3 show ?thesis by (simp add: boyer_moore_horspool_find_def)
  qed
qed

lemma bmh_rev_go_spec:
  assumes "rev_skips_ok n t 0" and "n \<noteq> []"
    and "i + int (length n) \<le> int (length h)" and "\<forall>j. i < int j \<longrightarrow> \<not> occurs_at h n j"
  shows "bmh_rev_go h n t i = Some (last_occ h n)"
  using assms(3,4)
proof (induction "nat (i + 1)" arbitrary: i rule: less_induct)
  case less
  show ?case
  proof (cases "0 \<le> i")
    case False
    have "None = last_occ h n"
      using less.prems False assms(2) by (intro last_occ_eqI) auto
    with False show ?thesis by (subst bmh_rev_go.simps) simp
  next
    case True
    with less.prems have fits: "nat i + length n \<le> length h" by linarith
    show ?thesis
    proof (cases "occurs_at h n (nat i)")
      case occ: True
      have "Some (nat i) = last_occ h n"
        using less.prems occ assms(2) by (intro last_occ_eqI) auto
      with True occ fits show ?thesis by (subst bmh_rev_go.simps) (simp add: match_from_0)
    next
      case occ: False
      let ?s = "t ! low_byte (h ! nat i)"
      have pos: "0 < ?s" using assms(1) low_byte_less by (simp add: rev_skips_ok_def)
      have "\<not> occurs_at h n j" if "i - int ?s < int j" for j
      proof (cases "int j \<le> i")
        case le: True
        then show ?thesis
          using that True by (intro rev_skip_safe [OF assms(1,2) occ]) linarith+
      next
        case False
        then show ?thesis using less.prems(2) by auto
      qed
      moreover have "nat (i - int ?s + 1) < nat (i + 1)"
        using pos True by linarith
      moreover have "i - int ?s + int (length n) \<le> int (length h)"
        using pos less.prems(1) by linarith
      ultimately have "bmh_rev_go h n t (i - int ?s) = Some (last_occ h n)"
        using less.hyps by blast
      with True occ fits show ?thesis by (subst bmh_rev_go.simps) (simp add: match_from_0)
    qed
  qed
qed

lemma boyer_moore_horspool_rev_find_spec [run_simps]:
  "boyer_moore_horspool_rev_find h n = Some (last_occ h n)"
proof -
  consider "n = []" | "n \<noteq> []" "length n \<le> length h" | "n \<noteq> []" "length h < length n"
    by fastforce
  then show ?thesis
  proof cases
    case 1
    then show ?thesis by (simp add: boyer_moore_horspool_rev_find_def last_occ_Nil)
  next
    case 2
    then have "\<forall>j. int (length h) - int (length n) < int j \<longrightarrow> \<not> occurs_at h n j"
      by (auto dest: occurs_at_length)
    with 2 show ?thesis
      by (simp add: boyer_moore_horspool_rev_find_def bmh_rev_go_spec rev_skip_table_ok)
  next
    case 3
    then have "None = last_occ h n" by (intro last_occ_eqI) auto
    with 3 show ?thesis by (simp add: boyer_moore_horspool_rev_find_def)
  qed
qed

lemma view_find_spec [run_simps]: "view_find h n = Some (first_occ h n)"
  by (simp add: view_find_def run_simps)

lemma view_rev_find_spec [run_simps]: "view_rev_find h n = Some (last_occ h n)"
  by (simp add: view_rev_find_def run_simps)

lemma string_find_spec [run_simps]: "string_find h n = Some (first_occ h n)"
  by (simp add: string_find_def run_simps)

lemma view_has_prefix_spec [run_simps]: "view_has_prefix s p = Some (prefix p s)"
  using first_occ_0 [of s p] by (auto simp: view_has_prefix_def run_simps split: option.split)

lemma view_has_suffix_spec [run_simps]: "view_has_suffix s p = Some (suffix p s)"
proof (cases "length p \<le> length s")
  case True
  have "last_occ s p = Some (length s - length p) \<longleftrightarrow> suffix p s"
  proof
    assume "last_occ s p = Some (length s - length p)"
    then show "suffix p s" using True by (auto simp: last_occ_Some_iff occurs_at_last)
  next
    assume "suffix p s"
    moreover have "\<not> occurs_at s p j" if "length s - length p < j" "j \<le> length s" for j
    proof (cases "p = []")
      case False
      then show ?thesis using that True by (auto dest: occurs_at_length)
    qed (use that in simp)
    ultimately show "last_occ s p = Some (length s - length p)"
      using True by (simp add: last_occ_Some_iff occurs_at_last)
  qed
  then show ?thesis
    using True by (auto simp: view_has_suffix_def run_simps split: option.split)
next
  case False
  then have "p \<noteq> []" by auto
  with False have "None = last_occ s p" by (intro last_occ_eqI) auto
  moreover have "\<not> suffix p s" using False suffix_length_le by blast
  ultimately show ?thesis by (auto simp: view_has_suffix_def run_simps split: option.split)
qed

lemma has_prefix_spec [run_simps]: "has_prefix s p = Some (prefix p s)"
  by (simp add: has_prefix_def run_simps)

lemma has_suffix_spec [run_simps]: "has_suffix s p = Some (suffix p s)"
  by (simp add: has_suffix_def run_simps)

subsection \<open>Properties\<close>

text \<open>
  Property C29. The Boyer-Moore-Horspool searches, forward and backward, return on every input and give
  what the brute-force loops give, so the threshold at which \<open>find\<close> and \<open>rev_find\<close> switch
  between the two does not show.
\<close>

theorem horspool_equals_brute_force:
  "boyer_moore_horspool_find h n = Some (brute_force_find h n) \<and>
   boyer_moore_horspool_rev_find h n = Some (brute_force_rev_find h n)"
  by (simp add: run_simps)

definition match_offsets :: "mstring \<Rightarrow> mstring \<Rightarrow> nat set" where
  "match_offsets h n = {i. i \<le> length h \<and> occurs_at h n i}"

lemma match_offsets_finite [simp]: "finite (match_offsets h n)"
  by (simp add: match_offsets_def)

lemma first_occ_Min:
  "first_occ h n = (if match_offsets h n = {} then None else Some (Min (match_offsets h n)))"
proof (cases "match_offsets h n = {}")
  case True
  then show ?thesis by (auto simp: first_occ_None_iff match_offsets_def)
next
  case False
  define m where "m = Min (match_offsets h n)"
  have m: "m \<in> match_offsets h n" unfolding m_def using False by (intro Min_in) simp_all
  have least: "j \<notin> match_offsets h n" if "j < m" for j
    using Min_le [OF match_offsets_finite, of j h n] that unfolding m_def by linarith
  have "first_occ h n = Some m"
    using m least unfolding first_occ_Some_iff match_offsets_def by auto
  then show ?thesis using False by (simp add: m_def)
qed

lemma last_occ_Max:
  "last_occ h n = (if match_offsets h n = {} then None else Some (Max (match_offsets h n)))"
proof (cases "match_offsets h n = {}")
  case True
  then show ?thesis by (auto simp: last_occ_None_iff match_offsets_def)
next
  case False
  define m where "m = Max (match_offsets h n)"
  have m: "m \<in> match_offsets h n" unfolding m_def using False by (intro Max_in) simp_all
  have least: "j \<notin> match_offsets h n" if "m < j" for j
    using Max_ge [OF match_offsets_finite, of j h n] that unfolding m_def by linarith
  have "last_occ h n = Some m"
    using m least unfolding last_occ_Some_iff match_offsets_def by auto
  then show ?thesis using False by (simp add: m_def)
qed

text \<open>
  \<open>StringView::find\<close> returns the least offset at which the needle occurs and
  \<open>rev_find\<close> the greatest, \<open>None\<close> exactly when it occurs nowhere; neither fails.
\<close>

theorem find_is_extremal_occurrence:
  "view_find h n = Some (if match_offsets h n = {} then None else Some (Min (match_offsets h n))) \<and>
   view_rev_find h n = Some (if match_offsets h n = {} then None else Some (Max (match_offsets h n)))"
  by (simp only: view_find_spec view_rev_find_spec first_occ_Min last_occ_Max)

text \<open>
  \<open>has_prefix\<close> and \<open>has_suffix\<close>, which the compiled code answers with a search for
  the first, respectively the last occurrence, hold exactly for prefixes and suffixes.
\<close>

theorem prefix_and_suffix_tests:
  "has_prefix s p = Some (prefix p s) \<and> has_suffix s p = Some (suffix p s)"
  by (simp add: run_simps)

end
