(* ===== verification/String_Ops.thy ===== *)
theory String_Ops
  imports String_Search
begin

text \<open>
  The other string routines of the compiled runtime the program calls: substrings with their
  surrogate checks, code points, the \<open>split\<close> iterator, \<open>join\<close> and \<open>trim\<close>.
\<close>

subsection \<open>Code units and code points\<close>

definition is_trailing_surrogate :: "code_unit \<Rightarrow> bool" where
  "is_trailing_surrogate c \<longleftrightarrow> 56320 \<le> c \<and> c \<le> 57343"

definition is_leading_surrogate :: "code_unit \<Rightarrow> bool" where
  "is_leading_surrogate c \<longleftrightarrow> 55296 \<le> c \<and> c \<le> 56319"

definition code_point_of_surrogate_pair :: "code_unit \<Rightarrow> code_unit \<Rightarrow> int" where
  "code_point_of_surrogate_pair l t = (uint l - 55296) * 1024 + uint t - 56320 + 65536"

text \<open>The character at an index; \<open>None\<close> where the code would read past the view.\<close>

definition unsafe_char_at :: "mstring \<Rightarrow> nat \<Rightarrow> int run" where
  "unsafe_char_at s i =
     (if is_leading_surrogate (s ! i)
      then (if Suc i < length s then Some (code_point_of_surrogate_pair (s ! i) (s ! Suc i)) else None)
      else Some (uint (s ! i)))"

text \<open>The iterator over characters, run to its end; \<open>to_array\<close> collects it.\<close>

fun string_chars :: "mstring \<Rightarrow> int list" where
  "string_chars [] = []"
| "string_chars [c] = [uint c]"
| "string_chars (c1 # c2 # s) =
     (if is_leading_surrogate c1 \<and> is_trailing_surrogate c2
      then code_point_of_surrogate_pair c1 c2 # string_chars s
      else uint c1 # string_chars (c2 # s))"

text \<open>Writing one character to a string builder: one unit, a pair, or an abort.\<close>

definition write_char :: "mstring \<Rightarrow> int \<Rightarrow> mstring run" where
  "write_char buf ch =
     (let code = (word_of_int ch :: 32 word) in
      if code \<le> 65535 then Some (buf @ [ucast code])
      else if code \<le> 1114111 then
        (let c = code - 65536 in
         Some (buf @ [ucast (55296 + drop_bit 10 c), ucast (56320 + and c 1023)]))
      else None)"

definition char_to_string :: "int \<Rightarrow> mstring run" where
  "char_to_string ch = write_char [] ch"

text \<open>Well-formed UTF-16: surrogates come in pairs only.\<close>

fun utf16_ok :: "mstring \<Rightarrow> bool" where
  "utf16_ok [] = True"
| "utf16_ok [c] = (\<not> is_leading_surrogate c \<and> \<not> is_trailing_surrogate c)"
| "utf16_ok (c1 # c2 # s) =
     (if is_leading_surrogate c1 then is_trailing_surrogate c2 \<and> utf16_ok s
      else \<not> is_trailing_surrogate c1 \<and> utf16_ok (c2 # s))"

lemma surrogates_disjoint: "is_leading_surrogate c \<Longrightarrow> \<not> is_trailing_surrogate c"
  unfolding is_leading_surrogate_def is_trailing_surrogate_def word_le_nat_alt by simp

subsection \<open>Substrings\<close>

definition slice :: "'a list \<Rightarrow> nat \<Rightarrow> nat \<Rightarrow> 'a list" where
  "slice s i j = take (j - i) (drop i s)"

text \<open>
  \<open>String::sub\<close>: negative indices count from the end, an index out of range or at the second
  half of a surrogate pair aborts.
\<close>

definition string_sub :: "mstring \<Rightarrow> int \<Rightarrow> int option \<Rightarrow> mstring run" where
  "string_sub s start end =
     (let len = int (length s);
          e = (case end of None \<Rightarrow> len | Some e \<Rightarrow> if e < 0 then len + e else e);
          b = (if start < 0 then len + start else start)
      in if 0 \<le> b \<and> b \<le> e \<and> e \<le> len then
           (if b < len \<and> is_trailing_surrogate (s ! nat b) then None
            else if e < len \<and> is_trailing_surrogate (s ! nat e) then None
            else Some (slice s (nat b) (nat e)))
         else None)"

text \<open>A view cut at offsets relative to it: range check only.\<close>

definition view_view :: "mstring \<Rightarrow> int \<Rightarrow> int option \<Rightarrow> mstring run" where
  "view_view s start end =
     (let len = int (length s);
          e = (case end of None \<Rightarrow> len | Some e \<Rightarrow> e)
      in if 0 \<le> start \<and> start \<le> e \<and> e \<le> len then Some (slice s (nat start) (nat e)) else None)"

lemma slice_0 [simp]: "slice s 0 j = take j s"
  by (simp add: slice_def)

lemma slice_length [simp]: "slice s i (length s) = drop i s"
  by (simp add: slice_def)

lemma slice_nth_single: "i < length s \<Longrightarrow> slice s i (Suc i) = [s ! i]"
  by (simp add: slice_def take_Suc_conv_app_nth Cons_nth_drop_Suc [symmetric])

definition cut_ok :: "mstring \<Rightarrow> nat \<Rightarrow> bool" where
  "cut_ok s i \<longleftrightarrow> i \<le> length s \<and> (i < length s \<longrightarrow> \<not> is_trailing_surrogate (s ! i))"

lemma string_sub_eq:
  "i \<le> j \<Longrightarrow> j \<le> length s \<Longrightarrow>
   string_sub s (int i) (Some (int j)) =
     (if cut_ok s i \<and> cut_ok s j then Some (slice s i j) else None)"
  by (auto simp: string_sub_def cut_ok_def Let_def)

lemma string_sub_from:
  "i \<le> length s \<Longrightarrow> string_sub s (int i) None = (if cut_ok s i then Some (drop i s) else None)"
  by (auto simp: string_sub_def cut_ok_def Let_def)

lemma view_view_eq:
  "i \<le> j \<Longrightarrow> j \<le> length s \<Longrightarrow> view_view s (int i) (Some (int j)) = Some (slice s i j)"
  by (simp add: view_view_def)

lemma view_view_from: "i \<le> length s \<Longrightarrow> view_view s (int i) None = Some (drop i s)"
  by (simp add: view_view_def)

definition no_surrogates :: "mstring \<Rightarrow> bool" where
  "no_surrogates s \<longleftrightarrow> (\<forall>c \<in> set s. \<not> is_trailing_surrogate c \<and> \<not> is_leading_surrogate c)"

lemma cut_ok_no_surrogates: "no_surrogates s \<Longrightarrow> i \<le> length s \<Longrightarrow> cut_ok s i"
  by (simp add: cut_ok_def no_surrogates_def)

subsection \<open>Splitting\<close>

text \<open>
  The iterator behind \<open>split\<close> keeps the text still to be searched, or nothing when it is done.
\<close>

definition split_next :: "mstring \<Rightarrow> mstring option \<Rightarrow> (mstring option \<times> mstring option) run" where
  "split_next sep rem =
     (case rem of
        None \<Rightarrow> Some (None, None)
      | Some view \<Rightarrow>
          do { r \<leftarrow> view_find view sep;
               case r of
                 None \<Rightarrow> Some (None, Some view)
               | Some e \<Rightarrow>
                   do { rest \<leftarrow> view_view view (int e + int (length sep)) None;
                        part \<leftarrow> view_view view 0 (Some (int e));
                        Some (Some rest, Some part) } })"

text \<open>A \<open>for\<close> loop over the iterator: the parts it delivers, in order.\<close>

partial_function (option) split_loop :: "mstring \<Rightarrow> mstring option \<Rightarrow> mstring list run" where
  "split_loop sep rem =
     do { step \<leftarrow> split_next sep rem;
          case snd step of
            None \<Rightarrow> Some []
          | Some part \<Rightarrow> do { parts \<leftarrow> split_loop sep (fst step); Some (part # parts) } }"

declare split_loop.simps [code]

fun chars_to_strings :: "int list \<Rightarrow> mstring list run" where
  "chars_to_strings [] = Some []"
| "chars_to_strings (c # cs) =
     do { s \<leftarrow> char_to_string c; ss \<leftarrow> chars_to_strings cs; Some (s # ss) }"

definition string_split :: "mstring \<Rightarrow> mstring \<Rightarrow> mstring list run" where
  "string_split s sep =
     (if length sep = 0 then chars_to_strings (string_chars s) else split_loop sep (Some s))"

subsection \<open>Joining\<close>

text \<open>\<open>ArrayView::join\<close>: the separator is skipped altogether when it is empty.\<close>

fun join_loop :: "mstring \<Rightarrow> mstring \<Rightarrow> mstring list \<Rightarrow> mstring" where
  "join_loop buf sep [] = buf"
| "join_loop buf sep (s # ss) = join_loop ((buf @ sep) @ s) sep ss"

fun join_plain :: "mstring \<Rightarrow> mstring list \<Rightarrow> mstring" where
  "join_plain buf [] = buf"
| "join_plain buf (s # ss) = join_plain (buf @ s) ss"

fun array_join :: "mstring list \<Rightarrow> mstring \<Rightarrow> mstring" where
  "array_join [] sep = []"
| "array_join (x # xs) sep =
     (if length sep = 0 then join_plain x xs else join_loop x sep xs)"

subsection \<open>Trimming\<close>

text \<open>
  \<open>contains_char\<close>: a character beyond the BMP is looked up as its two units.
\<close>

fun contains_pair :: "mstring \<Rightarrow> int \<Rightarrow> int \<Rightarrow> bool" where
  "contains_pair (a # b # s) high low =
     (if uint a = high then (if uint b = low then True else contains_pair s high low)
      else contains_pair (b # s) high low)"
| "contains_pair _ high low = False"

definition contains_char :: "mstring \<Rightarrow> int \<Rightarrow> bool" where
  "contains_char s c =
     (if 0 < length s then
        (if c \<le> 65535 then c \<in> uint ` set s
         else if 2 \<le> length s then
           contains_pair s (55296 + (c - 65536) div 1024) (56320 + (c - 65536) mod 1024)
         else False)
      else False)"

function trim_end :: "mstring \<Rightarrow> mstring \<Rightarrow> mstring run" where
  "trim_end x chars =
     (if x = [] then Some x
      else
        (let off = (if is_trailing_surrogate (last x) then int (length x) - 2 else int (length x) - 1)
         in if off < 0 then None
            else (case unsafe_char_at x (nat off) of
                    None \<Rightarrow> None
                  | Some c \<Rightarrow> if contains_char chars c then trim_end (take (nat off) x) chars
                              else Some x)))"
  by pat_completeness auto
termination
proof (relation "measure (\<lambda>(x, chars). length x)")
  fix x chars :: mstring and off :: int and c :: int
  assume "x \<noteq> []" and "off = (if is_trailing_surrogate (last x) then int (length x) - 2
    else int (length x) - 1)" and "\<not> off < 0"
  moreover from \<open>x \<noteq> []\<close> have "0 < length x" by simp
  ultimately have "nat off < length x" by (simp only: split: if_splits) linarith+
  then show "((take (nat off) x, chars), x, chars) \<in> measure (\<lambda>(x, chars). length x)"
    by simp
qed simp

declare trim_end.simps [simp del]

function trim_start :: "mstring \<Rightarrow> mstring \<Rightarrow> mstring run" where
  "trim_start x chars =
     (if x = [] then Some x
      else (case unsafe_char_at x 0 of
              None \<Rightarrow> None
            | Some c \<Rightarrow>
                (let off = (if is_leading_surrogate (hd x) then 2 else 1)
                 in if contains_char chars c then trim_start (drop off x) chars else Some x)))"
  by pat_completeness auto
termination
  by (relation "measure (\<lambda>(x, chars). length x)") (auto split: if_splits)

declare trim_start.simps [simp del]

text \<open>The default set of characters: tab, newline, carriage return and space.\<close>

definition trim_default :: mstring where
  "trim_default = [9, 10, 13, 32]"

definition view_trim :: "mstring \<Rightarrow> mstring run" where
  "view_trim s = do { t \<leftarrow> trim_start s trim_default; trim_end t trim_default }"

subsection \<open>What split and join compute\<close>

fun split_on :: "'a \<Rightarrow> 'a list \<Rightarrow> 'a list list" where
  "split_on c [] = [[]]"
| "split_on c (x # xs) =
     (if x = c then [] # split_on c xs
      else (case split_on c xs of [] \<Rightarrow> [[x]] | p # ps \<Rightarrow> (x # p) # ps))"

fun join_with :: "'a list \<Rightarrow> 'a list list \<Rightarrow> 'a list" where
  "join_with sep [] = []"
| "join_with sep [x] = x"
| "join_with sep (x # y # xs) = x @ sep @ join_with sep (y # xs)"

lemma split_on_not_Nil [simp]: "split_on c xs \<noteq> []"
  by (induction xs) (auto split: list.split)

lemma split_on_absent: "c \<notin> set xs \<Longrightarrow> split_on c xs = [xs]"
  by (induction xs) auto

lemma split_on_append: "c \<notin> set xs \<Longrightarrow> split_on c (xs @ c # ys) = xs # split_on c ys"
  by (induction xs) auto

lemma split_on_parts: "p \<in> set (split_on c xs) \<Longrightarrow> c \<notin> set p"
  by (induction xs arbitrary: p) (fastforce split: if_splits list.splits)+

lemma join_with_Cons:
  "xs \<noteq> [] \<Longrightarrow> join_with sep (x # xs) = x @ sep @ join_with sep xs"
  by (cases xs) simp_all

lemma join_split_on: "join_with [c] (split_on c xs) = xs"
proof (induction xs)
  case (Cons x xs)
  show ?case
  proof (cases "split_on c xs")
    case (Cons p ps)
    with Cons.IH show ?thesis by (cases ps) (auto simp: join_with_Cons)
  qed (use split_on_not_Nil [of c xs] in simp)
qed simp

lemma split_on_join:
  "xs \<noteq> [] \<Longrightarrow> \<forall>x \<in> set xs. c \<notin> set x \<Longrightarrow> split_on c (join_with [c] xs) = xs"
  by (induction xs rule: induct_list012) (auto simp: split_on_absent split_on_append)

text \<open>The iterator over a one-unit separator delivers exactly these parts.\<close>

lemma occurs_at_single: "occurs_at h [c] i \<longleftrightarrow> i < length h \<and> h ! i = c"
proof
  assume "occurs_at h [c] i"
  then show "i < length h \<and> h ! i = c"
    using occurs_at_length [of h "[c]" i] occurs_at_nth [of h "[c]" i 0] by auto
qed (auto simp: occurs_at_nth_iff)

lemma first_occ_single:
  "first_occ h [c] = (if c \<in> set h then Some (length (takeWhile (\<lambda>x. x \<noteq> c) h)) else None)"
proof (cases "c \<in> set h")
  case True
  let ?i = "length (takeWhile (\<lambda>x. x \<noteq> c) h)"
  have i: "?i < length h"
    using True by (induction h) auto
  then have "h ! ?i = c" using nth_length_takeWhile [of "\<lambda>x. x \<noteq> c" h] by blast
  moreover have "h ! j \<noteq> c" if "j < ?i" for j
    using that by (metis (mono_tags, lifting) nth_mem set_takeWhileD takeWhile_nth)
  ultimately have "first_occ h [c] = Some ?i"
    using i by (auto simp: first_occ_Some_iff occurs_at_single)
  with True show ?thesis by simp
next
  case False
  then have "first_occ h [c] = None"
    by (auto simp: first_occ_None_iff occurs_at_single)
  with False show ?thesis by simp
qed

lemma split_loop_done [simp]: "split_loop sep None = Some []"
  by (subst split_loop.simps) (simp add: split_next_def)

lemma split_loop_single: "split_loop [c] (Some s) = Some (split_on c s)"
proof (induction "length s" arbitrary: s rule: less_induct)
  case less
  show ?case
  proof (cases "c \<in> set s")
    case False
    then show ?thesis
      by (subst split_loop.simps)
        (simp add: split_next_def run_simps first_occ_single split_on_absent)
  next
    case True
    then obtain xs ys where s: "s = xs @ c # ys" and nin: "c \<notin> set xs"
      by (metis split_list_first)
    then have occ: "first_occ s [c] = Some (length xs)"
      by (auto simp: first_occ_single takeWhile_append)
    have rest: "view_view s (1 + int (length xs)) None = Some ys"
      using view_view_from [of "Suc (length xs)" s] by (simp add: s)
    have part: "view_view s 0 (Some (int (length xs))) = Some xs"
      using view_view_eq [of 0 "length xs" s] by (simp add: s)
    have "split_next [c] (Some s) = Some (Some ys, Some xs)"
      by (simp add: split_next_def run_simps occ rest part add.commute)
    moreover have "split_loop [c] (Some ys) = Some (split_on c ys)"
      using less.hyps [of ys] by (simp add: s)
    ultimately show ?thesis
      by (subst split_loop.simps) (simp add: s split_on_append nin)
  qed
qed

lemma string_split_single [run_simps]: "string_split s [c] = Some (split_on c s)"
  by (simp add: string_split_def split_loop_single)

lemma join_loop_eq: "join_loop buf sep ss = join_with sep (buf # ss)"
proof (induction ss arbitrary: buf)
  case (Cons s ss)
  show ?case using Cons.IH [of "buf @ sep @ s"] by (cases ss) simp_all
qed simp

lemma join_plain_eq: "join_plain buf ss = join_with [] (buf # ss)"
proof (induction ss arbitrary: buf)
  case (Cons s ss)
  show ?case using Cons.IH [of "buf @ s"] by (cases ss) simp_all
qed simp

lemma array_join_eq [run_simps]: "array_join ss sep = join_with sep ss"
  by (cases ss) (simp_all add: join_loop_eq join_plain_eq)

subsection \<open>Single units\<close>

text \<open>Many loops of the program read a string one unit at a time as \<open>s[i:i + 1]\<close>.\<close>

definition unit_at :: "mstring \<Rightarrow> nat \<Rightarrow> mstring run" where
  "unit_at s i = string_sub s (int i) (Some (int (Suc i)))"

lemma unit_at_eq [run_simps]:
  "no_surrogates s \<Longrightarrow> i < length s \<Longrightarrow> unit_at s i = Some [s ! i]"
  unfolding unit_at_def
  by (subst string_sub_eq) (simp_all add: cut_ok_no_surrogates slice_nth_single)

lemma no_surrogates_append [simp]:
  "no_surrogates (s @ t) \<longleftrightarrow> no_surrogates s \<and> no_surrogates t"
  by (auto simp: no_surrogates_def)

lemma no_surrogates_Cons [simp]:
  "no_surrogates (c # s) \<longleftrightarrow>
     \<not> is_trailing_surrogate c \<and> \<not> is_leading_surrogate c \<and> no_surrogates s"
  by (auto simp: no_surrogates_def)

lemma no_surrogates_Nil [simp]: "no_surrogates []"
  by (simp add: no_surrogates_def)

text \<open>A unit below the surrogate range.\<close>

definition plain_unit :: "code_unit \<Rightarrow> bool" where
  "plain_unit c \<longleftrightarrow> c < 55296"

lemma plain_unit_no_surrogate [simp]:
  assumes "plain_unit c"
  shows "\<not> is_trailing_surrogate c" and "\<not> is_leading_surrogate c"
  using assms
  unfolding plain_unit_def is_leading_surrogate_def is_trailing_surrogate_def
    word_le_nat_alt word_less_nat_alt
  by simp_all

lemma no_surrogates_plain: "\<forall>c \<in> set s. plain_unit c \<Longrightarrow> no_surrogates s"
  by (simp add: no_surrogates_def)

subsection \<open>Trimming strings without surrogates\<close>

definition is_blank :: "code_unit \<Rightarrow> bool" where
  "is_blank c \<longleftrightarrow> c = 9 \<or> c = 10 \<or> c = 13 \<or> c = 32"

definition strip :: "mstring \<Rightarrow> mstring" where
  "strip s = rev (dropWhile is_blank (rev (dropWhile is_blank s)))"

lemma contains_blank: "contains_char trim_default (uint c) \<longleftrightarrow> is_blank c"
proof -
  have "uint c \<le> 65535" using uint_lt2p [of c] by simp
  moreover have "uint c \<in> uint ` set trim_default \<longleftrightarrow> c \<in> set trim_default"
    by (auto dest: unsigned_word_eqI)
  ultimately show ?thesis by (auto simp: contains_char_def trim_default_def is_blank_def)
qed

lemma trim_start_plain:
  "no_surrogates s \<Longrightarrow> trim_start s trim_default = Some (dropWhile is_blank s)"
proof (induction s)
  case (Cons c s)
  then show ?case
    by (subst trim_start.simps) (simp add: unsafe_char_at_def contains_blank Let_def)
qed (simp add: trim_start.simps)

lemma trim_end_plain:
  "no_surrogates s \<Longrightarrow> trim_end s trim_default = Some (rev (dropWhile is_blank (rev s)))"
proof (induction s rule: rev_induct)
  case (snoc c s)
  then show ?case
    by (subst trim_end.simps)
      (simp add: unsafe_char_at_def contains_blank Let_def nth_append)
qed (simp add: trim_end.simps)

lemma no_surrogates_sublist: "set t \<subseteq> set s \<Longrightarrow> no_surrogates s \<Longrightarrow> no_surrogates t"
  by (auto simp: no_surrogates_def)

lemma view_trim_plain [run_simps]: "no_surrogates s \<Longrightarrow> view_trim s = Some (strip s)"
  by (simp add: view_trim_def trim_start_plain strip_def)
    (subst trim_end_plain; auto elim!: no_surrogates_sublist [rotated] dest: set_dropWhileD)

lemma strip_no_surrogates: "no_surrogates s \<Longrightarrow> no_surrogates (strip s)"
  by (auto simp: strip_def elim!: no_surrogates_sublist [rotated] dest!: set_dropWhileD)

lemma dropWhile_hd: "xs = [] \<or> \<not> P (hd xs) \<Longrightarrow> dropWhile P xs = xs"
  by (cases xs) auto

lemma strip_id: "s = [] \<or> \<not> is_blank (hd s) \<and> \<not> is_blank (last s) \<Longrightarrow> strip s = s"
  unfolding strip_def by (subst dropWhile_hd, auto simp: hd_rev)+

lemma join_with_parts: "p \<in> set ps \<Longrightarrow> set p \<subseteq> set (join_with sep ps)"
  by (induction ps rule: induct_list012) auto

lemma no_surrogates_split:
  "no_surrogates s \<Longrightarrow> p \<in> set (split_on c s) \<Longrightarrow> no_surrogates p"
  using join_with_parts [of p "split_on c s" "[c]"]
  by (auto simp: join_split_on elim: no_surrogates_sublist [rotated])

subsection \<open>Properties\<close>

text \<open>
  Splitting at a one-unit separator never fails, no part holds the separator, and joining
  the parts gives the string back.
\<close>

theorem join_of_split:
  "\<exists>ps. string_split s [c] = Some ps \<and> c \<notin> \<Union> (set ` set ps) \<and> array_join ps [c] = s"
  by (auto simp: run_simps join_split_on dest: split_on_parts)

text \<open>
  Joining a non-empty array of strings none of which holds the separator, and splitting
  the result, gives the array back.
\<close>

theorem split_of_join:
  assumes "ps \<noteq> []" and "c \<notin> \<Union> (set ` set ps)"
  shows "string_split (array_join ps [c]) [c] = Some ps"
  using assms by (simp add: run_simps split_on_join)

theorem split_of_join_witness:
  "string_split (array_join [[97], [], [98, 99]] [47]) [47] = Some [[97], [], [98, 99 :: code_unit]]"
  by (rule split_of_join) simp_all

end
