(* ===== verification/Mulp_Error.thy ===== *)
theory Mulp_Error
  imports String_Ops
begin

text \<open>The error type of the program (\<open>core\<close>) and the text it renders.\<close>

datatype mulp_error =
    TaskNotFound mstring
  | TaskFailed mstring mstring
  | ParallelFailed "(mstring \<times> mstring) list"
  | FileSystemError mstring
  | GlobError mstring
  | WatchError mstring
  | StreamError mstring
  | ConfigError mstring

type_synonym 'a result = "mulp_error + 'a"

definition config_error :: "mstring \<Rightarrow> mulp_error" where
  "config_error detail = ConfigError detail"

definition stream_error :: "mstring \<Rightarrow> mulp_error" where
  "stream_error detail = StreamError detail"

definition file_system_error :: "mstring \<Rightarrow> mulp_error" where
  "file_system_error detail = FileSystemError detail"

definition task_failed :: "mstring \<Rightarrow> mstring \<Rightarrow> mulp_error" where
  "task_failed name cause = TaskFailed name cause"

fun message :: "mulp_error \<Rightarrow> mstring" where
  "message (TaskNotFound name) = str ''Task not found: '' @ name"
| "message (TaskFailed name cause) = str ''Task failed: '' @ name @ str '': '' @ cause"
| "message (ParallelFailed errors) =
     str ''Parallel failed: '' @
     array_join (map (\<lambda>item. fst item @ str '': '' @ snd item) errors) (str ''; '')"
| "message (FileSystemError detail) = str ''File system error: '' @ detail"
| "message (GlobError detail) = str ''Glob error: '' @ detail"
| "message (WatchError detail) = str ''Watch error: '' @ detail"
| "message (StreamError detail) = str ''Stream error: '' @ detail"
| "message (ConfigError detail) = str ''Config error: '' @ detail"

end
