(* ===== verification/Mulp_Paths.thy ===== *)
theory Mulp_Paths
  imports Mulp_Error
begin

text \<open>
  Path strings of the command (\<open>cmd/mulp\<close>, \<open>cli\<close>): normalisation, parents, joining with the
  working directory, paths relative to the module root, and the search for the configuration
  file in the ancestors of a directory.  Reading a file is a parameter of the search.
\<close>

subsection \<open>The routines\<close>

definition slash :: mstring where
  "slash = str ''/''"

definition normalize_dir :: "mstring \<Rightarrow> mstring run" where
  "normalize_dir path =
     (if path \<noteq> slash
      then do { b \<leftarrow> has_suffix path slash;
                if b then string_sub path 0 (Some (int (length path) - 1)) else Some path }
      else Some path)"

definition default_config_file_name :: mstring where
  "default_config_file_name = str ''mulp.mbtx''"

text \<open>The loop of \<open>parent_dir\<close> runs the index down to 0; \<open>k\<close> is the index plus one.\<close>

fun parent_loop :: "mstring \<Rightarrow> nat \<Rightarrow> mstring option run" where
  "parent_loop path 0 = Some None"
| "parent_loop path (Suc i) =
     do { c \<leftarrow> string_sub path (int i) (Some (int i + 1));
          if c = slash then
            (if i = 0 then Some (Some slash)
             else do { p \<leftarrow> string_sub path 0 (Some (int i)); Some (Some p) })
          else parent_loop path i }"

definition parent_dir :: "mstring \<Rightarrow> mstring option run" where
  "parent_dir p =
     do { path \<leftarrow> normalize_dir p;
          if path = [] \<or> path = slash then Some None else parent_loop path (length path) }"

text \<open>One round of the segment loop of \<open>normalize_path\<close>.\<close>

definition normalize_step :: "mstring list \<Rightarrow> mstring \<Rightarrow> mstring list" where
  "normalize_step parts segment =
     (if segment = [] \<or> segment = str ''.'' then parts
      else if segment = str ''..'' then (if 0 < length parts then butlast parts else parts)
      else parts @ [segment])"

definition normalize_path :: "mstring \<Rightarrow> mstring run" where
  "normalize_path path =
     do { absolute \<leftarrow> has_prefix path slash;
          segments \<leftarrow> string_split path slash;
          let joined = array_join (foldl normalize_step [] segments) slash in
          if absolute then Some (slash @ joined) else Some joined }"

definition join_config_path :: "mstring \<Rightarrow> mstring \<Rightarrow> mstring run" where
  "join_config_path cwd path =
     do { b \<leftarrow> has_prefix path slash;
          if b then normalize_path path
          else do { d \<leftarrow> normalize_dir cwd; normalize_path (d @ slash @ path) } }"

definition is_mulp_script_path :: "mstring \<Rightarrow> bool run" where
  "is_mulp_script_path path = has_suffix path (str ''.mbtx'')"

definition trim_trailing_slash :: "mstring \<Rightarrow> mstring run" where
  "trim_trailing_slash value =
     (if value \<noteq> slash
      then do { b \<leftarrow> has_suffix value slash;
                if b then string_sub value 0 (Some (int (length value) - 1)) else Some value }
      else Some value)"

definition path_relative_to_root :: "mstring \<Rightarrow> mstring \<Rightarrow> mstring run" where
  "path_relative_to_root path moon_root =
     do { root \<leftarrow> trim_trailing_slash moon_root;
          if path = root then Some (str ''.'')
          else do { b \<leftarrow> has_prefix path (root @ slash);
                    if b then string_sub path (int (length root) + 1) None else Some path } }"

definition infer_entry_from_mulp_path :: "mstring \<Rightarrow> mstring \<Rightarrow> mstring run" where
  "infer_entry_from_mulp_path path moon_root =
     do { s \<leftarrow> has_suffix path (str ''/mulp.mbt'');
          dir \<leftarrow> (if s then string_sub path 0
                          (Some (int (length path) - int (length (str ''/mulp.mbt'' :: mstring))))
                  else Some path);
          root \<leftarrow> trim_trailing_slash moon_root;
          if dir = root then Some (str ''.'')
          else do { b \<leftarrow> has_prefix dir (root @ slash);
                    if b then string_sub dir (int (length root) + 1) None else Some dir } }"

subsection \<open>The search through the ancestors\<close>

record config_document =
  doc_path :: mstring
  doc_contents :: mstring

type_synonym reader = "mstring \<Rightarrow> mstring result"

definition discover_candidate :: "mstring \<Rightarrow> mstring" where
  "discover_candidate dir =
     (if dir = slash then slash @ default_config_file_name
      else dir @ slash @ default_config_file_name)"

partial_function (option) discover_loop ::
    "reader \<Rightarrow> mstring \<Rightarrow> mstring \<Rightarrow> config_document result run" where
  "discover_loop read start dir =
     (case read (discover_candidate dir) of
        Inr contents \<Rightarrow> Some (Inr \<lparr>doc_path = discover_candidate dir, doc_contents = contents\<rparr>)
      | Inl e \<Rightarrow>
          do { p \<leftarrow> parent_dir dir;
               case p of
                 Some parent \<Rightarrow> discover_loop read start parent
               | None \<Rightarrow> Some (Inl (config_error (str ''could not find '' @ default_config_file_name
                           @ str '' from '' @ start))) })"

definition discover_real_config :: "reader \<Rightarrow> mstring \<Rightarrow> config_document result run" where
  "discover_real_config read cwd =
     do { start \<leftarrow> normalize_dir cwd; discover_loop read start start }"

definition moon_root_candidate :: "mstring \<Rightarrow> mstring" where
  "moon_root_candidate dir =
     (if dir = slash then str ''/moon.mod.json'' else dir @ str ''/moon.mod.json'')"

partial_function (option) moon_root_loop ::
    "reader \<Rightarrow> mstring \<Rightarrow> mstring \<Rightarrow> mstring result run" where
  "moon_root_loop read start dir =
     (case read (moon_root_candidate dir) of
        Inr _ \<Rightarrow> Some (Inr dir)
      | Inl e \<Rightarrow>
          do { p \<leftarrow> parent_dir dir;
               case p of
                 Some parent \<Rightarrow> moon_root_loop read start parent
               | None \<Rightarrow> Some (Inl (config_error (str ''could not find moon.mod.json from '' @ start))) })"

definition discover_moon_root :: "reader \<Rightarrow> mstring \<Rightarrow> mstring result run" where
  "discover_moon_root read cwd =
     do { start \<leftarrow> normalize_dir cwd; moon_root_loop read start start }"

definition load_real_config ::
    "reader \<Rightarrow> mstring \<Rightarrow> mstring option \<Rightarrow> config_document result run" where
  "load_real_config read cwd config_path =
     (case config_path of
        None \<Rightarrow> discover_real_config read cwd
      | Some path \<Rightarrow>
          do { resolved \<leftarrow> join_config_path cwd path;
               case read resolved of
                 Inr contents \<Rightarrow> Some (Inr \<lparr>doc_path = resolved, doc_contents = contents\<rparr>)
               | Inl e \<Rightarrow> Some (Inl (config_error (str ''could not read config: '' @ resolved))) })"

subsection \<open>Normalisation\<close>

lemma slash_single: "slash = [47]"
  by (simp add: slash_def)

definition segments :: "mstring \<Rightarrow> mstring list" where
  "segments p = split_on 47 p"

text \<open>A segment that survives normalisation.\<close>

definition proper :: "mstring \<Rightarrow> bool" where
  "proper s \<longleftrightarrow> s \<noteq> [] \<and> s \<noteq> str ''.'' \<and> s \<noteq> str ''..'' \<and> 47 \<notin> set s"

text \<open>What a path denotes: whether it is absolute, and its resolved segments.\<close>

definition resolve :: "mstring list \<Rightarrow> mstring list \<Rightarrow> mstring list" where
  "resolve base segs = foldl normalize_step base segs"

definition render :: "bool \<Rightarrow> mstring list \<Rightarrow> mstring" where
  "render absolute parts = (if absolute then [47] else []) @ join_with [47] parts"

definition is_absolute :: "mstring \<Rightarrow> bool" where
  "is_absolute p \<longleftrightarrow> prefix [47] p"

lemma normalize_path_eq [run_simps]:
  "normalize_path p = Some (render (is_absolute p) (resolve [] (segments p)))"
  by (simp add: normalize_path_def run_simps slash_single segments_def resolve_def render_def
      is_absolute_def Let_def)

lemma resolve_Nil [simp]: "resolve b [] = b"
  by (simp add: resolve_def)

lemma resolve_Cons: "resolve b (s # ss) = resolve (normalize_step b s) ss"
  by (simp add: resolve_def)

lemma resolve_append: "resolve b (xs @ ys) = resolve (resolve b xs) ys"
  by (simp add: resolve_def)

lemma normalize_step_proper:
  "list_all proper b \<Longrightarrow> 47 \<notin> set s \<Longrightarrow> list_all proper (normalize_step b s)"
  by (auto simp: normalize_step_def proper_def list_all_iff dest: in_set_butlastD)

lemma resolve_proper:
  "list_all proper b \<Longrightarrow> \<forall>s \<in> set ss. 47 \<notin> set s \<Longrightarrow> list_all proper (resolve b ss)"
  by (induction ss arbitrary: b) (auto simp: resolve_Cons normalize_step_proper)

lemma resolve_proper_id: "list_all proper ss \<Longrightarrow> resolve b ss = b @ ss"
  by (induction ss arbitrary: b) (auto simp: resolve_Cons normalize_step_def proper_def)

lemma segments_free: "s \<in> set (segments p) \<Longrightarrow> 47 \<notin> set s"
  by (simp add: segments_def split_on_parts)

lemma resolve_segments_proper: "list_all proper (resolve [] (segments p))"
  by (intro resolve_proper) (auto dest: segments_free)

lemma proper_free: "list_all proper ss \<Longrightarrow> s \<in> set ss \<Longrightarrow> 47 \<notin> set s"
  by (auto simp: list_all_iff proper_def)

lemma segments_render:
  assumes "list_all proper ss" and "ss \<noteq> []"
  shows "segments (render a ss) = (if a then [[]] else []) @ ss"
proof -
  have "segments (join_with [47] ss) = ss"
    unfolding segments_def using assms by (intro split_on_join) (auto dest: proper_free)
  then show ?thesis by (simp add: segments_def render_def)
qed

lemma resolve_segments_render:
  assumes "list_all proper ss"
  shows "resolve [] (segments (render a ss)) = ss"
proof (cases "ss = []")
  case True
  then show ?thesis
    by (auto simp: render_def segments_def resolve_Cons normalize_step_def)
next
  case False
  then show ?thesis
    using assms by (auto simp: segments_render resolve_Cons normalize_step_def resolve_proper_id)
qed

lemma is_absolute_render:
  assumes "list_all proper ss"
  shows "is_absolute (render a ss) \<longleftrightarrow> a"
proof (cases ss)
  case (Cons s rest)
  then obtain c cs where "s = c # cs" "c \<noteq> 47"
    using assms by (cases s) (auto simp: proper_def)
  then show ?thesis
    using Cons by (cases rest) (auto simp: is_absolute_def render_def)
qed (auto simp: is_absolute_def render_def)

subsection \<open>Directories and their parents\<close>

lemma slash_not_surrogate [simp]: "\<not> is_trailing_surrogate 47"
  by (simp add: is_trailing_surrogate_def)

lemma sub_prefix:
  "cut_ok s 0 \<Longrightarrow> cut_ok s i \<Longrightarrow> string_sub s 0 (Some (int i)) = Some (take i s)"
  using string_sub_eq [of 0 i s] by (simp add: cut_ok_def)

lemma sub_single:
  "cut_ok s i \<Longrightarrow> cut_ok s (Suc i) \<Longrightarrow> i < length s \<Longrightarrow>
   string_sub s (int i) (Some (int i + 1)) = Some [s ! i]"
  using string_sub_eq [of i "Suc i" s] by (simp add: slice_nth_single add.commute)

lemma normalize_dir_eq:
  assumes "cut_ok p 0"
  shows "normalize_dir p = Some (if p \<noteq> slash \<and> suffix slash p then butlast p else p)"
proof (cases "p \<noteq> slash \<and> suffix slash p")
  case True
  then obtain q where p: "p = q @ [47]" by (auto simp: suffix_def slash_single)
  then have "string_sub p 0 (Some (int (length q))) = Some q"
    using sub_prefix [OF assms, of "length q"] by (simp add: cut_ok_def)
  with True show ?thesis
    by (simp add: normalize_dir_def run_simps p)
qed (auto simp: normalize_dir_def run_simps)

lemma cut_ok_absolute: "is_absolute p \<Longrightarrow> cut_ok p 0"
  by (auto simp: is_absolute_def cut_ok_def prefix_def)

lemma parent_loop_down:
  assumes "m < k" and "k \<le> length path" and "path ! m = 47" and "cut_ok path 0"
    and "\<And>j. m < j \<Longrightarrow> j < length path \<Longrightarrow> path ! j \<noteq> 47 \<and> \<not> is_trailing_surrogate (path ! j)"
  shows "parent_loop path k = Some (Some (if m = 0 then slash else take m path))"
  using assms(1,2)
proof (induction k)
  case (Suc i)
  have "\<not> is_trailing_surrogate (path ! j)" if "m \<le> j" "j < length path" for j
    using assms(3,5) that by (cases "j = m") auto
  then have cuts: "cut_ok path i" "cut_ok path (Suc i)"
    using Suc.prems by (auto simp: cut_ok_def)
  have single: "string_sub path (int i) (Some (int i + 1)) = Some [path ! i]"
    using cuts Suc.prems by (intro sub_single) auto
  show ?case
  proof (cases "i = m")
    case True
    then show ?thesis
      using single assms(3,4) cuts(1) sub_prefix [of path i] by (simp add: slash_single)
  next
    case False
    then show ?thesis
      using single assms(5) [of i] Suc by (simp add: slash_single)
  qed
qed simp

lemma parent_loop_none:
  assumes "k \<le> length path" and "47 \<notin> set path" and "no_surrogates path"
  shows "parent_loop path k = Some None"
  using assms(1)
proof (induction k)
  case (Suc i)
  have "string_sub path (int i) (Some (int i + 1)) = Some [path ! i]"
    using Suc.prems assms(3) by (intro sub_single cut_ok_no_surrogates) auto
  moreover have "path ! i \<noteq> 47" using Suc.prems assms(2) by (metis Suc_le_eq nth_mem)
  ultimately show ?case using Suc by (simp add: slash_single)
qed simp

text \<open>The parent of a rendered absolute directory drops its last segment.\<close>

definition plain_dir :: "mstring list \<Rightarrow> bool" where
  "plain_dir ss \<longleftrightarrow> list_all proper ss \<and> list_all no_surrogates ss"

lemma render_snoc:
  "render True (ss @ [s]) = (if ss = [] then [] else render True ss) @ [47] @ s"
proof -
  have "ss \<noteq> [] \<Longrightarrow> join_with [47] (ss @ [s]) = join_with [47] ss @ [47] @ s"
    by (induction ss rule: induct_list012) (simp_all add: join_with_Cons)
  then show ?thesis by (auto simp: render_def)
qed

lemma render_True_absolute [simp]: "is_absolute (render True ss)"
  by (simp add: render_def is_absolute_def)

lemma render_no_trailing_slash:
  assumes "list_all proper ss" and "ss \<noteq> []"
  shows "\<not> suffix slash (render a ss)" and "render True ss \<noteq> slash"
proof -
  obtain ts s where ss: "ss = ts @ [s]" using assms(2) by (metis rev_exhaust)
  then have s: "s \<noteq> []" "47 \<notin> set s" using assms(1) by (auto simp: proper_def)
  then have "last (join_with [47] ss) \<in> set s" "join_with [47] ss \<noteq> []"
    unfolding ss by (induction ts rule: induct_list012) (auto simp: join_with_Cons)
  then have ne: "last (render a ss) \<noteq> 47" "render a ss \<noteq> []" and "last (render True ss) \<noteq> 47"
    using s(2) by (auto simp: render_def)
  then show "\<not> suffix slash (render a ss)" and "render True ss \<noteq> slash"
    by (auto simp: slash_single suffix_def)
qed

lemma parent_dir_render:
  assumes "plain_dir (ss @ [s])"
  shows "parent_dir (render True (ss @ [s])) = Some (Some (render True ss))"
proof -
  let ?p = "render True (ss @ [s])"
  let ?m = "length (if ss = [] then [] else render True ss)"
  have ok: "list_all proper (ss @ [s])" and s: "47 \<notin> set s" "no_surrogates s"
    using assms by (auto simp: plain_dir_def proper_def)
  have nd: "normalize_dir ?p = Some ?p"
    using render_no_trailing_slash(1) [OF ok, of True]
      normalize_dir_eq [OF cut_ok_absolute [OF render_True_absolute], of "ss @ [s]"] by simp
  have ne: "?p \<noteq> slash" "?p \<noteq> []"
    using render_no_trailing_slash(2) [OF ok] by simp (simp add: render_def)
  have tail: "?p ! j \<in> set s" if "?m < j" "j < length ?p" for j
    using that by (auto simp: render_snoc nth_append nth_Cons split: nat.split if_splits)
  have "parent_loop ?p (length ?p) = Some (Some (if ?m = 0 then slash else take ?m ?p))"
  proof (rule parent_loop_down)
    show "?m < length ?p" and "?p ! ?m = 47" by (auto simp: render_snoc)
    show "cut_ok ?p 0" by (simp add: cut_ok_absolute)
    show "?p ! j \<noteq> 47 \<and> \<not> is_trailing_surrogate (?p ! j)" if "?m < j" "j < length ?p" for j
      using tail [OF that] s by (auto simp: no_surrogates_def)
  qed simp
  moreover have "(if ?m = 0 then slash else take ?m ?p) = render True ss"
    by (auto simp: render_snoc) (auto simp: render_def slash_single)
  ultimately show ?thesis
    using nd ne by (simp add: parent_dir_def)
qed

lemma parent_dir_root: "parent_dir slash = Some None"
  by (simp add: parent_dir_def normalize_dir_def)

lemma render_root: "render True [] = slash"
  by (simp add: render_def slash_single)

subsection \<open>The search finds the nearest ancestor that has the file\<close>

definition ancestors :: "mstring list \<Rightarrow> mstring list" where
  "ancestors ss = map (render True) (rev (prefixes ss))"

lemma ancestors_Nil: "ancestors [] = [slash]"
  by (simp add: ancestors_def render_root)

lemma ancestors_snoc: "ancestors (ss @ [s]) = render True (ss @ [s]) # ancestors ss"
  by (simp add: ancestors_def)

fun first_answer :: "(mstring \<Rightarrow> 'r option) \<Rightarrow> 'r \<Rightarrow> mstring list \<Rightarrow> 'r" where
  "first_answer answer miss [] = miss"
| "first_answer answer miss (d # ds) =
     (case answer d of Some r \<Rightarrow> r | None \<Rightarrow> first_answer answer miss ds)"

lemma normalize_dir_render:
  assumes "list_all proper ss"
  shows "normalize_dir (render True ss) = Some (render True ss)"
proof (cases "ss = []")
  case True
  then show ?thesis by (simp add: render_root normalize_dir_def)
next
  case False
  then show ?thesis
    using render_no_trailing_slash(1) [OF assms False, of True]
      normalize_dir_eq [OF cut_ok_absolute [OF render_True_absolute], of ss] by simp
qed

subsection \<open>The search returns for every directory without surrogates\<close>

lemma parent_loop_shorter:
  assumes "parent_loop path k = Some (Some q)" and "k \<le> length path"
    and "no_surrogates path" and "path \<noteq> slash" and "path \<noteq> []"
  shows "length q < length path \<and> no_surrogates q"
  using assms(1,2)
proof (induction k)
  case (Suc i)
  have one: "string_sub path (int i) (Some (int i + 1)) = Some [path ! i]"
    and pre: "string_sub path 0 (Some (int i)) = Some (take i path)"
    using Suc.prems(2) assms(3)
    by (auto intro!: sub_single sub_prefix cut_ok_no_surrogates)
  show ?case
  proof (cases "path ! i = 47")
    case False
    with Suc one show ?thesis by (simp add: slash_single)
  next
    case True
    show ?thesis
    proof (cases "i = 0")
      case i: True
      with Suc.prems(1) one True have q: "q = slash" by (simp add: slash_single)
      have "length path \<noteq> 1"
        using assms(4) True i by (auto simp: slash_single length_Suc_conv)
      then have "length q < length path"
        using assms(5) q by (cases path) (auto simp: slash_single)
      then show ?thesis
        using q by (simp add: slash_single no_surrogates_def is_leading_surrogate_def)
    next
      case False
      with Suc.prems one pre True have "q = take i path" by (simp add: slash_single)
      then show ?thesis
        using Suc.prems(2) assms(3) by (auto simp: no_surrogates_def dest: in_set_takeD)
    qed
  qed
qed simp

lemma parent_loop_returns:
  assumes "k \<le> length path" and "no_surrogates path"
  shows "\<exists>r. parent_loop path k = Some r"
  using assms(1)
proof (induction k)
  case (Suc i)
  have "string_sub path (int i) (Some (int i + 1)) = Some [path ! i]"
    and "string_sub path 0 (Some (int i)) = Some (take i path)"
    using Suc.prems assms(2)
    by (auto intro!: sub_single sub_prefix cut_ok_no_surrogates)
  with Suc show ?case by simp
qed simp

lemma normalize_dir_plain:
  assumes "no_surrogates p"
  shows "\<exists>q. normalize_dir p = Some q \<and> no_surrogates q \<and> length q \<le> length p"
  using assms
  by (subst normalize_dir_eq) (auto simp: cut_ok_no_surrogates no_surrogates_def dest: in_set_butlastD)

lemma parent_dir_returns:
  assumes "no_surrogates p"
  shows "\<exists>r. parent_dir p = Some r \<and>
    (\<forall>q. r = Some q \<longrightarrow> length q < length p \<and> no_surrogates q)"
proof -
  obtain path where p: "normalize_dir p = Some path" "no_surrogates path" "length path \<le> length p"
    using normalize_dir_plain [OF assms] by blast
  show ?thesis
  proof (cases "path = [] \<or> path = slash")
    case True
    with p show ?thesis by (auto simp: parent_dir_def)
  next
    case False
    then obtain r where r: "parent_loop path (length path) = Some r"
      using parent_loop_returns [of "length path" path] p(2) by blast
    then have "length q < length p \<and> no_surrogates q" if "r = Some q" for q
      using that parent_loop_shorter [of path "length path" q] False p by fastforce
    with p r False show ?thesis by (auto simp: parent_dir_def)
  qed
qed

text \<open>
  Both searches of the program climb from a directory to its parents until one of them gives
  an answer.  The interface is that climbing law; its consequences are proved once.
\<close>

locale ancestor_search =
  fixes loop :: "mstring \<Rightarrow> 'r run"
    and answer :: "mstring \<Rightarrow> 'r option"
    and miss :: 'r
  assumes climb: "loop dir =
    (case answer dir of
       Some r \<Rightarrow> Some r
     | None \<Rightarrow> parent_dir dir \<bind>
         (\<lambda>p. case p of None \<Rightarrow> Some miss | Some parent \<Rightarrow> loop parent))"
begin

lemma nearest:
  "plain_dir ss \<Longrightarrow> loop (render True ss) = Some (first_answer answer miss (ancestors ss))"
proof (induction ss rule: rev_induct)
  case Nil
  then show ?case
    by (subst climb) (simp add: render_root parent_dir_root ancestors_Nil split: option.split)
next
  case (snoc s ss)
  then have "plain_dir ss" by (simp add: plain_dir_def)
  with snoc show ?case
    by (subst climb) (simp add: parent_dir_render ancestors_snoc split: option.split)
qed

lemma returns: "no_surrogates dir \<Longrightarrow> \<exists>r. loop dir = Some r"
proof (induction "length dir" arbitrary: dir rule: less_induct)
  case less
  obtain p where p: "parent_dir dir = Some p"
    and shorter: "\<And>q. p = Some q \<Longrightarrow> length q < length dir \<and> no_surrogates q"
    using parent_dir_returns [OF less.prems] by blast
  show ?case
  proof (cases p)
    case None
    with p show ?thesis by (subst climb) (auto split: option.split)
  next
    case (Some q)
    with shorter less.hyps obtain r where "loop q = Some r" by blast
    with p Some show ?thesis by (subst climb) (auto split: option.split)
  qed
qed

end

definition config_answer :: "reader \<Rightarrow> mstring \<Rightarrow> config_document result option" where
  "config_answer read d =
     (case read (discover_candidate d) of
        Inl _ \<Rightarrow> None
      | Inr c \<Rightarrow> Some (Inr \<lparr>doc_path = discover_candidate d, doc_contents = c\<rparr>))"

definition config_miss :: "mstring \<Rightarrow> config_document result" where
  "config_miss start = Inl (ConfigError (str ''could not find '' @ default_config_file_name
     @ str '' from '' @ start))"

interpretation config_search:
  ancestor_search "discover_loop read start" "config_answer read" "config_miss start"
  for read start
  by unfold_locales
    (subst discover_loop.simps, simp add: config_answer_def config_miss_def config_error_def
      split: sum.split)

definition moon_root_answer :: "reader \<Rightarrow> mstring \<Rightarrow> mstring result option" where
  "moon_root_answer read d =
     (case read (moon_root_candidate d) of Inl _ \<Rightarrow> None | Inr _ \<Rightarrow> Some (Inr d))"

definition moon_root_miss :: "mstring \<Rightarrow> mstring result" where
  "moon_root_miss start = Inl (ConfigError (str ''could not find moon.mod.json from '' @ start))"

interpretation moon_search:
  ancestor_search "moon_root_loop read start" "moon_root_answer read" "moon_root_miss start"
  for read start
  by unfold_locales
    (subst moon_root_loop.simps, simp add: moon_root_answer_def moon_root_miss_def
      config_error_def split: sum.split)

subsection \<open>Properties\<close>

text \<open>
  Normalising a path never aborts and gives a canonical path: it is absolute
  exactly when the argument is, all its segments are proper (not empty, not \<open>.\<close>, not
  \<open>..\<close>), and normalising it again changes nothing.
\<close>

theorem normalize_path_canonical:
  "\<exists>ss. list_all proper ss \<and> normalize_path p = Some (render (is_absolute p) ss) \<and>
     is_absolute (render (is_absolute p) ss) = is_absolute p \<and>
     normalize_path (render (is_absolute p) ss) = Some (render (is_absolute p) ss)"
proof -
  let ?ss = "resolve [] (segments p)"
  have ok: "list_all proper ?ss" by (rule resolve_segments_proper)
  then have "normalize_path (render (is_absolute p) ?ss) = Some (render (is_absolute p) ?ss)"
    by (simp add: normalize_path_eq resolve_segments_render is_absolute_render)
  with ok show ?thesis
    by (intro exI [of _ ?ss]) (simp add: normalize_path_eq is_absolute_render)
qed

lemma split_on_middle: "split_on c (xs @ c # ys) = split_on c xs @ split_on c ys"
  by (induction xs) (auto split: list.split)

lemma resolve_normalized_dir:
  assumes "is_absolute cwd" and "normalize_dir cwd = Some d"
  shows "is_absolute (d @ [47] @ path)"
    and "resolve [] (segments (d @ [47] @ path)) =
      resolve (resolve [] (segments cwd)) (segments path)"
proof -
  have d: "d = (if cwd \<noteq> slash \<and> suffix slash cwd then butlast cwd else cwd)"
    using assms normalize_dir_eq [OF cut_ok_absolute] by simp
  show "is_absolute (d @ [47] @ path)"
    using assms(1) unfolding d is_absolute_def by (cases cwd) auto
  have "resolve [] (segments d) = resolve [] (segments cwd)"
  proof (cases "cwd \<noteq> slash \<and> suffix slash cwd")
    case True
    then have "cwd = d @ 47 # []" by (auto simp: d suffix_def slash_single)
    then have "segments cwd = segments d @ [[]]"
      by (simp add: segments_def split_on_middle)
    then show ?thesis by (simp add: resolve_append resolve_Cons normalize_step_def)
  next
    case False
    then have "d = cwd" using d by argo
    then show ?thesis by simp
  qed
  then show "resolve [] (segments (d @ [47] @ path)) =
      resolve (resolve [] (segments cwd)) (segments path)"
    by (simp add: segments_def split_on_middle resolve_append)
qed

lemma join_config_path_rel [run_simps]:
  assumes "is_absolute cwd" and "\<not> is_absolute path"
  shows "join_config_path cwd path =
    Some (render True (resolve (resolve [] (segments cwd)) (segments path)))"
proof -
  obtain d where d: "normalize_dir cwd = Some d"
    using normalize_dir_eq [OF cut_ok_absolute [OF assms(1)]] by blast
  show ?thesis
    using assms(2) resolve_normalized_dir [OF assms(1) d, of path]
    by (simp add: join_config_path_def run_simps slash_single d is_absolute_def)
qed

text \<open>
  A relative configuration path is resolved against an absolute working
  directory: the result is the absolute path whose segments are those of the directory
  followed by those of the path, with \<open>.\<close> and \<open>..\<close> resolved in that order.
\<close>

theorem join_config_path_relative:
  assumes "is_absolute cwd" and "\<not> is_absolute path"
  shows "join_config_path cwd path =
    Some (render True (resolve (resolve [] (segments cwd)) (segments path)))"
  using assms by (rule join_config_path_rel)

theorem join_config_path_relative_witness:
  "join_config_path (str ''/w/app/'') (str ''../x/./m.mbtx'') = Some (str ''/w/x/m.mbtx'')"
  using join_config_path_relative [of "str ''/w/app/''" "str ''../x/./m.mbtx''"]
  by (simp add: is_absolute_def segments_def resolve_def normalize_step_def render_def)

text \<open>
  Property C6. From a plain absolute directory the search for the configuration file returns
  the file of the nearest ancestor (the directory itself first, the root last) that can be
  read, and the error that names the start directory when none can.
\<close>

theorem discover_real_config_nearest:
  assumes "plain_dir ss"
  shows "discover_real_config read (render True ss) =
    Some (first_answer (config_answer read) (config_miss (render True ss)) (ancestors ss))"
  using assms config_search.nearest [OF assms]
  by (simp add: discover_real_config_def normalize_dir_render plain_dir_def)

theorem discover_real_config_nearest_witness:
  "discover_real_config (\<lambda>p. if p = str ''/a/mulp.mbtx'' then Inr (str ''x'') else Inl (StreamError []))
     (str ''/a/b'') =
   Some (Inr \<lparr>doc_path = str ''/a/mulp.mbtx'', doc_contents = str ''x''\<rparr>)"
proof -
  have "plain_dir [str ''a'', str ''b'']"
    by (simp add: plain_dir_def proper_def no_surrogates_def is_trailing_surrogate_def
        is_leading_surrogate_def)
  from discover_real_config_nearest [OF this] show ?thesis
    by (simp add: render_def ancestors_def config_answer_def discover_candidate_def slash_single
        default_config_file_name_def)
qed

text \<open>
  The module root the command runs in is the nearest ancestor directory with a
  readable \<open>moon.mod.json\<close>.
\<close>

theorem discover_moon_root_nearest:
  assumes "plain_dir ss"
  shows "discover_moon_root read (render True ss) =
    Some (first_answer (moon_root_answer read) (moon_root_miss (render True ss)) (ancestors ss))"
  using assms moon_search.nearest [OF assms]
  by (simp add: discover_moon_root_def normalize_dir_render plain_dir_def)

theorem discover_moon_root_nearest_witness:
  "discover_moon_root (\<lambda>p. if p = str ''/moon.mod.json'' then Inr [] else Inl (StreamError []))
     (str ''/a/b'') = Some (Inr (str ''/''))"
proof -
  have "plain_dir [str ''a'', str ''b'']"
    by (simp add: plain_dir_def proper_def no_surrogates_def is_trailing_surrogate_def
        is_leading_surrogate_def)
  from discover_moon_root_nearest [OF this] show ?thesis
    by (simp add: render_def ancestors_def moon_root_answer_def moon_root_candidate_def slash_single)
qed

text \<open>
  Both searches return, whatever can be read, from every directory whose name
  holds no surrogate code units.
\<close>

theorem discovery_returns:
  assumes "no_surrogates cwd"
  shows "(\<exists>r. discover_real_config read cwd = Some r) \<and> (\<exists>r. discover_moon_root read cwd = Some r)"
  using normalize_dir_plain [OF assms] config_search.returns moon_search.returns
  by (fastforce simp: discover_real_config_def discover_moon_root_def)

theorem discovery_returns_witness:
  "(\<exists>r. discover_real_config (\<lambda>_. Inl (StreamError [])) (str ''a/b'') = Some r) \<and>
   (\<exists>r. discover_moon_root (\<lambda>_. Inl (StreamError [])) (str ''a/b'') = Some r)"
  by (rule discovery_returns)
    (simp add: no_surrogates_def is_trailing_surrogate_def is_leading_surrogate_def)

text \<open>
  The directory name has to be free of surrogates: from a directory named by a
  character beyond the basic plane the search aborts when it has to climb, because the
  backward scan takes the second half of the pair as a substring.
\<close>

theorem discover_real_config_aborts_on_pair:
  "discover_real_config (\<lambda>_. Inl e) [47, 55357, 56832] = None"
proof -
  have nd: "normalize_dir [47, 55357, 56832] = Some [47, 55357, 56832]"
    by (subst normalize_dir_eq) (auto simp: cut_ok_def slash_single suffix_def)
  have "string_sub [47, 55357, 56832] 2 (Some 3) = None"
    by (simp add: string_sub_def is_trailing_surrogate_def)
  then have "parent_loop [47, 55357, 56832] (Suc (Suc (Suc 0))) = None"
    by simp
  with nd have "parent_dir [47, 55357, 56832] = None"
    by (simp add: parent_dir_def slash_single)
  with nd show ?thesis
    by (simp add: discover_real_config_def discover_loop.simps)
qed

lemma relative_to_root:
  assumes "plain_dir ss" and "plain_dir ts" and "ss \<noteq> []" and "ts \<noteq> []"
  shows "path_relative_to_root (render True (ss @ ts)) (render True ss) = Some (render False ts) \<and>
    join_config_path (render True ss) (render False ts) = Some (render True (ss @ ts))"
proof -
  let ?p = "render True (ss @ ts)" and ?r = "render True ss"
  have ok: "list_all proper ss" "list_all proper ts" using assms by (auto simp: plain_dir_def)
  have trim: "trim_trailing_slash ?r = Some ?r"
    using normalize_dir_render [OF ok(1)] by (simp add: trim_trailing_slash_def normalize_dir_def)
  have join: "join_with [47] (xs @ ys) = join_with [47] xs @ 47 # join_with [47] ys"
    if "xs \<noteq> []" "ys \<noteq> []" for xs ys :: "mstring list"
    using that by (induction xs rule: induct_list012) (simp_all add: join_with_Cons)
  then have p: "?p = ?r @ 47 # render False ts"
    using assms(3,4) by (simp add: render_def)
  have "no_surrogates (hd ts)" "hd ts \<noteq> []"
    using assms(2,4) ok(2) by (cases ts; auto simp: plain_dir_def proper_def)+
  then have "\<not> is_trailing_surrogate (hd (render False ts))" "render False ts \<noteq> []"
    using assms(4) by (cases ts; cases "tl ts"; auto simp: render_def no_surrogates_def)+
  then have "cut_ok ?p (Suc (length ?r))"
    by (auto simp: cut_ok_def p nth_append hd_conv_nth)
  then have sub: "string_sub ?p (int (length ?r) + 1) None = Some (render False ts)"
    using string_sub_from [of "Suc (length ?r)" ?p] by (simp add: p add.commute)
  have rel: "\<not> is_absolute (render False ts)"
    using is_absolute_render [OF ok(2)] by simp
  have "join_config_path ?r (render False ts) = Some ?p"
    using join_config_path_rel [OF render_True_absolute rel] ok
    by (simp add: resolve_segments_render resolve_proper_id segments_render assms(4))
  moreover have "path_relative_to_root ?p ?r = Some (render False ts)"
    using trim sub p by (simp add: path_relative_to_root_def run_simps slash_single)
  ultimately show ?thesis by simp
qed

text \<open>
  A path below the module root is passed to \<open>moon\<close> relative to the root, and
  joining it with the root again gives the path back.
\<close>

theorem path_relative_to_root_join:
  assumes "plain_dir ss" and "plain_dir ts" and "ss \<noteq> []" and "ts \<noteq> []"
  shows "path_relative_to_root (render True (ss @ ts)) (render True ss) = Some (render False ts) \<and>
    join_config_path (render True ss) (render False ts) = Some (render True (ss @ ts))"
  using assms by (rule relative_to_root)

theorem path_relative_to_root_join_witness:
  "path_relative_to_root (str ''/w/app/gulp.mbtx'') (str ''/w'') = Some (str ''app/gulp.mbtx'') \<and>
   join_config_path (str ''/w'') (str ''app/gulp.mbtx'') = Some (str ''/w/app/gulp.mbtx'')"
  using path_relative_to_root_join [of "[str ''w'']" "[str ''app'', str ''gulp.mbtx'']"]
  by (simp add: plain_dir_def proper_def no_surrogates_def is_trailing_surrogate_def
      is_leading_surrogate_def render_def)

end
