(* ===== verification/Mulp_Args.thy ===== *)
theory Mulp_Args
  imports Mulp_Paths
begin

text \<open>
  The command line (\<open>cli/args\<close> and the argument passes of \<open>cmd/mulp\<close>): the parser of the
  arguments, and the separate scans that pick the working directory, the configuration path
  and the log level and strip their flags before the rest goes to the user's script. Arguments
  are consumed from the front; the index of the code is the number already consumed.
\<close>

datatype cli_action =
    Run mstring
  | ListTasks
  | TasksJson
  | Tree mstring
  | Watch mstring

record cli_args =
  config_path :: "mstring option"
  action :: cli_action
  log_level :: nat

definition is_config_path_flag :: "mstring \<Rightarrow> bool" where
  "is_config_path_flag arg \<longleftrightarrow>
     arg = str ''--config'' \<or> arg = str ''--mulpfile'' \<or> arg = str ''--file'' \<or> arg = str ''--gulpfile''"

definition is_tasks_flag :: "mstring \<Rightarrow> bool" where
  "is_tasks_flag arg \<longleftrightarrow>
     arg = str ''--tasks'' \<or> arg = str ''--tasks-simple'' \<or> arg = str ''-T''"

text \<open>The state of the loop: the three results so far and whether an action was seen.\<close>

fun parse_args_loop ::
    "mstring option \<Rightarrow> cli_action \<Rightarrow> nat \<Rightarrow> bool \<Rightarrow> mstring list \<Rightarrow> cli_args result" where
  "parse_args_loop path act level saw [] =
     Inr \<lparr>config_path = path, action = act, log_level = level\<rparr>"
| "parse_args_loop path act level saw (arg # rest) =
     (if is_config_path_flag arg then
        (case rest of
           [] \<Rightarrow> Inl (config_error (str ''missing value for '' @ arg))
         | value # rest \<Rightarrow> parse_args_loop (Some value) act level saw rest)
      else if is_tasks_flag arg then
        (if saw then Inl (config_error (str ''multiple CLI actions''))
         else parse_args_loop path ListTasks level True rest)
      else if arg = str ''--tasks-json'' then
        (if saw then Inl (config_error (str ''multiple CLI actions''))
         else parse_args_loop path TasksJson level True rest)
      else if arg = str ''--tree'' then
        (if saw then Inl (config_error (str ''multiple CLI actions''))
         else case rest of
           [] \<Rightarrow> Inl (config_error (str ''missing task for --tree''))
         | task # rest \<Rightarrow> parse_args_loop path (Tree task) level True rest)
      else if arg = str ''--watch'' then
        (if saw then Inl (config_error (str ''multiple CLI actions''))
         else case rest of
           [] \<Rightarrow> Inl (config_error (str ''missing task for --watch''))
         | task # rest \<Rightarrow> parse_args_loop path (Watch task) level True rest)
      else if arg = str ''--silent'' then parse_args_loop path act 0 saw rest
      else if arg = str ''--quiet'' then parse_args_loop path act 1 saw rest
      else if prefix (str ''--'') arg then Inl (config_error (str ''unknown flag: '' @ arg))
      else if saw then Inl (config_error (str ''multiple CLI actions''))
      else parse_args_loop path (Run arg) level True rest)"

definition parse_args :: "mstring list \<Rightarrow> mstring \<Rightarrow> cli_args result" where
  "parse_args args default_task = parse_args_loop None (Run default_task) 2 False args"

subsection \<open>The passes of the command\<close>

definition normalize_script_args :: "mstring list \<Rightarrow> mstring list" where
  "normalize_script_args args =
     map (\<lambda>arg. if arg = str ''--tasks-simple'' \<or> arg = str ''-T'' then str ''--tasks'' else arg) args"

fun log_level_from_args :: "mstring list \<Rightarrow> nat" where
  "log_level_from_args [] = 2"
| "log_level_from_args (arg # args) =
     (if arg = str ''--silent'' then 0
      else if arg = str ''--quiet'' then 1
      else log_level_from_args args)"

definition args_without_log_flags :: "mstring list \<Rightarrow> mstring list" where
  "args_without_log_flags args = filter (\<lambda>arg. arg \<noteq> str ''--silent'' \<and> arg \<noteq> str ''--quiet'') args"

fun command_config_path_from_args :: "mstring list \<Rightarrow> mstring option result" where
  "command_config_path_from_args [] = Inr None"
| "command_config_path_from_args (arg # rest) =
     (if is_config_path_flag arg then
        (case rest of
           [] \<Rightarrow> Inl (config_error (str ''missing value for '' @ arg))
         | value # _ \<Rightarrow> Inr (Some value))
      else command_config_path_from_args rest)"

fun command_cwd_from_args :: "mstring \<Rightarrow> mstring list \<Rightarrow> mstring result run" where
  "command_cwd_from_args cwd [] = Some (Inr cwd)"
| "command_cwd_from_args cwd (arg # rest) =
     (if arg = str ''--cwd'' then
        (case rest of
           [] \<Rightarrow> Some (Inl (config_error (str ''missing value for --cwd'')))
         | value # _ \<Rightarrow> do { path \<leftarrow> join_config_path cwd value; Some (Inr path) })
      else command_cwd_from_args cwd rest)"

fun args_without_cwd :: "mstring list \<Rightarrow> mstring list result" where
  "args_without_cwd [] = Inr []"
| "args_without_cwd (arg # rest) =
     (if arg = str ''--cwd'' then
        (case rest of
           [] \<Rightarrow> Inl (config_error (str ''missing value for --cwd''))
         | value # rest \<Rightarrow> args_without_cwd rest)
      else map_sum id ((#) arg) (args_without_cwd rest))"

fun args_without_config_path :: "mstring list \<Rightarrow> mstring list result" where
  "args_without_config_path [] = Inr []"
| "args_without_config_path (arg # rest) =
     (if is_config_path_flag arg then
        (case rest of
           [] \<Rightarrow> Inl (config_error (str ''missing value for '' @ arg))
         | value # rest \<Rightarrow> args_without_config_path rest)
      else map_sum id ((#) arg) (args_without_config_path rest))"

definition watch_task_name :: "mstring list \<Rightarrow> mstring result" where
  "watch_task_name args =
     (if length args \<ge> 2 \<and> args ! 0 = str ''--watch'' then Inr (args ! 1)
      else Inl (config_error (str ''missing watch task'')))"

subsection \<open>The grammar of the command line\<close>

text \<open>One item of a command line: a flag with its value, a log level flag, or an action.\<close>

datatype arg_item =
    Path_Item mstring mstring
  | Level_Item bool
  | Tasks_Item mstring
  | Json_Item
  | Tree_Item mstring
  | Watch_Item mstring
  | Task_Item mstring

fun item_args :: "arg_item \<Rightarrow> mstring list" where
  "item_args (Path_Item flag value) = [flag, value]"
| "item_args (Level_Item silent) = [if silent then str ''--silent'' else str ''--quiet'']"
| "item_args (Tasks_Item flag) = [flag]"
| "item_args Json_Item = [str ''--tasks-json'']"
| "item_args (Tree_Item task) = [str ''--tree'', task]"
| "item_args (Watch_Item task) = [str ''--watch'', task]"
| "item_args (Task_Item task) = [task]"

fun item_ok :: "arg_item \<Rightarrow> bool" where
  "item_ok (Path_Item flag value) \<longleftrightarrow> is_config_path_flag flag"
| "item_ok (Tasks_Item flag) \<longleftrightarrow> is_tasks_flag flag"
| "item_ok (Task_Item task) \<longleftrightarrow> \<not> prefix (str ''--'') task \<and> task \<noteq> str ''-T''"
| "item_ok _ \<longleftrightarrow> True"

fun is_action :: "arg_item \<Rightarrow> bool" where
  "is_action (Path_Item _ _) = False"
| "is_action (Level_Item _) = False"
| "is_action _ = True"

fun apply_item :: "cli_args \<Rightarrow> arg_item \<Rightarrow> cli_args" where
  "apply_item r (Path_Item flag value) = r\<lparr>config_path := Some value\<rparr>"
| "apply_item r (Level_Item silent) = r\<lparr>log_level := if silent then 0 else 1\<rparr>"
| "apply_item r (Tasks_Item flag) = r\<lparr>action := ListTasks\<rparr>"
| "apply_item r Json_Item = r\<lparr>action := TasksJson\<rparr>"
| "apply_item r (Tree_Item task) = r\<lparr>action := Tree task\<rparr>"
| "apply_item r (Watch_Item task) = r\<lparr>action := Watch task\<rparr>"
| "apply_item r (Task_Item task) = r\<lparr>action := Run task\<rparr>"

definition items_args :: "arg_item list \<Rightarrow> mstring list" where
  "items_args items = concat (map item_args items)"

definition actions :: "arg_item list \<Rightarrow> nat" where
  "actions items = length (filter is_action items)"

lemma items_args_simps [simp]:
  "items_args [] = []" "items_args (i # is) = item_args i @ items_args is"
  by (simp_all add: items_args_def)

lemma actions_simps [simp]:
  "actions [] = 0" "actions (i # is) = (if is_action i then Suc (actions is) else actions is)"
  by (simp_all add: actions_def)

lemma flag_words:
  "is_config_path_flag f \<Longrightarrow> \<not> is_tasks_flag f"
  "is_config_path_flag f \<Longrightarrow> prefix (str ''--'') f"
  "\<not> is_config_path_flag (str ''--tasks-json'')" "\<not> is_tasks_flag (str ''--tasks-json'')"
  "\<not> is_config_path_flag (str ''--tree'')" "\<not> is_tasks_flag (str ''--tree'')"
  "\<not> is_config_path_flag (str ''--watch'')" "\<not> is_tasks_flag (str ''--watch'')"
  "\<not> is_config_path_flag (str ''--silent'')" "\<not> is_tasks_flag (str ''--silent'')"
  "\<not> is_config_path_flag (str ''--quiet'')" "\<not> is_tasks_flag (str ''--quiet'')"
  by (auto simp: is_config_path_flag_def is_tasks_flag_def)

lemma task_word:
  assumes "\<not> prefix (str ''--'') t" and "t \<noteq> str ''-T''"
  shows "\<not> is_config_path_flag t" "\<not> is_tasks_flag t" "t \<noteq> str ''--tasks-json''" "t \<noteq> str ''--tree''"
    "t \<noteq> str ''--watch''" "t \<noteq> str ''--silent''" "t \<noteq> str ''--quiet''"
  using assms by (auto simp: is_config_path_flag_def is_tasks_flag_def)

lemma tasks_word:
  assumes "is_tasks_flag t"
  shows "\<not> is_config_path_flag t"
  using assms flag_words(1) by blast

text \<open>One item at a time.\<close>

lemma parse_path_item [simp]:
  "is_config_path_flag f \<Longrightarrow> parse_args_loop path act level saw (f # v # rest) =
     parse_args_loop (Some v) act level saw rest"
  by simp

lemma parse_level_item [simp]:
  "parse_args_loop path act level saw ((if silent then str ''--silent'' else str ''--quiet'') # rest) =
     parse_args_loop path act (if silent then 0 else 1) saw rest"
  by (simp add: is_config_path_flag_def is_tasks_flag_def)

lemma parse_action_item [simp]:
  "is_tasks_flag f \<Longrightarrow> parse_args_loop path act level False (f # rest) =
     parse_args_loop path ListTasks level True rest"
  "parse_args_loop path act level False (str ''--tasks-json'' # rest) =
     parse_args_loop path TasksJson level True rest"
  "parse_args_loop path act level False (str ''--tree'' # t # rest) =
     parse_args_loop path (Tree t) level True rest"
  "parse_args_loop path act level False (str ''--watch'' # t # rest) =
     parse_args_loop path (Watch t) level True rest"
  by (simp_all only: parse_args_loop.simps flag_words tasks_word if_True if_False list.case refl
      simp_thms)
    (simp_all add: is_config_path_flag_def is_tasks_flag_def)

lemma parse_task:
  "\<not> prefix (str ''--'') t \<Longrightarrow> t \<noteq> str ''-T'' \<Longrightarrow>
   parse_args_loop path act level False (t # rest) = parse_args_loop path (Run t) level True rest"
  by (simp add: task_word del: str_Cons)

lemma parse_items:
  assumes "list_all item_ok items" and "actions items + (if saw then 1 else 0) \<le> 1"
  shows "parse_args_loop path act level saw (items_args items) =
    Inr (foldl apply_item \<lparr>config_path = path, action = act, log_level = level\<rparr> items)"
  using assms
proof (induction items arbitrary: path act level saw)
  case (Cons i items)
  then show ?case
    by (cases i; cases saw) (simp_all add: parse_task del: str_Cons parse_args_loop.simps(2))
qed simp

text \<open>The loop consumes one item at a time, and at most one of them an action.\<close>

definition item_step :: "bool \<Rightarrow> cli_args result \<Rightarrow> mstring list \<Rightarrow> arg_item \<Rightarrow> mstring list \<Rightarrow> bool" where
  "item_step saw r args i rest \<longleftrightarrow> item_ok i \<and> args = item_args i @ rest \<and> (is_action i \<longrightarrow> \<not> saw) \<and>
     (\<exists>path act level. parse_args_loop path act level (saw \<or> is_action i) rest = r)"

lemma parse_head:
  assumes "parse_args_loop path act level saw (arg # args) = Inr r"
  shows "\<exists>i rest. item_step saw (Inr r) (arg # args) i rest"
proof -
  note step = item_step_def
  consider (path) "is_config_path_flag arg" | (tasks) "\<not> is_config_path_flag arg" "is_tasks_flag arg"
    | (json) "arg = str ''--tasks-json''" | (tree) "arg = str ''--tree''" | (watch) "arg = str ''--watch''"
    | (silent) "arg = str ''--silent''" | (quiet) "arg = str ''--quiet''"
    | (other) "\<not> is_config_path_flag arg" "\<not> is_tasks_flag arg" "arg \<noteq> str ''--tasks-json''"
        "arg \<noteq> str ''--tree''" "arg \<noteq> str ''--watch''" "arg \<noteq> str ''--silent''" "arg \<noteq> str ''--quiet''"
    by blast
  then show ?thesis
  proof cases
    case path
    with assms obtain v rest where "args = v # rest" by (cases args) auto
    with assms path show ?thesis
      by (intro exI [of _ "Path_Item arg v"] exI [of _ rest]) (auto simp: step)
  next
    case tasks
    with assms show ?thesis
      by (intro exI [of _ "Tasks_Item arg"] exI [of _ args]) (auto simp: step split: if_splits)
  next
    case json
    with assms show ?thesis
      by (intro exI [of _ Json_Item] exI [of _ args])
        (auto simp: step is_config_path_flag_def is_tasks_flag_def split: if_splits)
  next
    case tree
    with assms obtain t rest where "args = t # rest"
      by (cases args) (auto simp: is_config_path_flag_def is_tasks_flag_def split: if_splits)
    with assms tree show ?thesis
      by (intro exI [of _ "Tree_Item t"] exI [of _ rest])
        (auto simp: step is_config_path_flag_def is_tasks_flag_def split: if_splits)
  next
    case watch
    with assms obtain t rest where "args = t # rest"
      by (cases args) (auto simp: is_config_path_flag_def is_tasks_flag_def split: if_splits)
    with assms watch show ?thesis
      by (intro exI [of _ "Watch_Item t"] exI [of _ rest])
        (auto simp: step is_config_path_flag_def is_tasks_flag_def split: if_splits)
  next
    case silent
    with assms show ?thesis
      by (intro exI [of _ "Level_Item True"] exI [of _ args])
        (auto simp: step is_config_path_flag_def is_tasks_flag_def)
  next
    case quiet
    with assms show ?thesis
      by (intro exI [of _ "Level_Item False"] exI [of _ args])
        (auto simp: step is_config_path_flag_def is_tasks_flag_def)
  next
    case other
    then have "arg \<noteq> str ''-T''" by (auto simp: is_tasks_flag_def)
    with assms other show ?thesis
      by (intro exI [of _ "Task_Item arg"] exI [of _ args])
        (auto simp: step simp del: str_Cons split: if_splits)
  qed
qed

lemma items_of_parse:
  "parse_args_loop path act level saw args = Inr r \<Longrightarrow>
   \<exists>items. list_all item_ok items \<and> items_args items = args \<and>
     actions items + (if saw then 1 else 0) \<le> 1"
proof (induction args arbitrary: path act level saw rule: length_induct)
  case (1 args)
  show ?case
  proof (cases args)
    case Nil
    show ?thesis by (rule exI [of _ "[]"]) (simp add: Nil)
  next
    case (Cons arg args')
    obtain i rest where i: "item_step saw (Inr r) args i rest"
      using parse_head 1(2) Cons by blast
    then obtain path' act' level' where p: "item_ok i" "args = item_args i @ rest" "is_action i \<longrightarrow> \<not> saw"
      "parse_args_loop path' act' level' (saw \<or> is_action i) rest = Inr r"
      by (auto simp: item_step_def)
    have "length rest < length args" using p(2) by (cases i) auto
    with 1(1) p(4) obtain items where "list_all item_ok items" "items_args items = rest"
      "actions items + (if saw \<or> is_action i then 1 else 0) \<le> 1" by blast
    then show ?thesis
      using p by (intro exI [of _ "i # items"]) (auto split: if_splits)
  qed
qed

lemma parse_args_Inr_iff:
  "parse_args args d = Inr r \<longleftrightarrow>
   (\<exists>items. list_all item_ok items \<and> items_args items = args \<and> actions items \<le> 1 \<and>
     r = foldl apply_item \<lparr>config_path = None, action = Run d, log_level = 2\<rparr> items)"
proof
  assume p: "parse_args args d = Inr r"
  then obtain items where i: "list_all item_ok items" "items_args items = args" "actions items \<le> 1"
    using items_of_parse [where saw = False] by (fastforce simp: parse_args_def)
  with p parse_items [of items False None "Run d" 2] show "\<exists>items. list_all item_ok items \<and>
      items_args items = args \<and> actions items \<le> 1 \<and>
      r = foldl apply_item \<lparr>config_path = None, action = Run d, log_level = 2\<rparr> items"
    by (auto simp: parse_args_def)
next
  assume "\<exists>items. list_all item_ok items \<and> items_args items = args \<and> actions items \<le> 1 \<and>
     r = foldl apply_item \<lparr>config_path = None, action = Run d, log_level = 2\<rparr> items"
  then show "parse_args args d = Inr r"
    using parse_items [where saw = False] by (auto simp: parse_args_def)
qed

subsection \<open>What reaches the script\<close>

text \<open>A task name of \<open>--tree\<close> or \<open>--watch\<close> that is not itself one of the flags the passes look for.\<close>

fun plain_item :: "arg_item \<Rightarrow> bool" where
  "plain_item (Tree_Item t) \<longleftrightarrow> \<not> is_config_path_flag t \<and> \<not> is_tasks_flag t \<and>
     t \<noteq> str ''--silent'' \<and> t \<noteq> str ''--quiet''"
| "plain_item (Watch_Item t) \<longleftrightarrow> \<not> is_config_path_flag t \<and> \<not> is_tasks_flag t \<and>
     t \<noteq> str ''--silent'' \<and> t \<noteq> str ''--quiet''"
| "plain_item _ \<longleftrightarrow> True"

fun is_path_item :: "arg_item \<Rightarrow> bool" where
  "is_path_item (Path_Item _ _) = True"
| "is_path_item _ = False"

fun script_args :: "arg_item \<Rightarrow> mstring list" where
  "script_args (Path_Item _ _) = []"
| "script_args (Level_Item _) = []"
| "script_args (Tasks_Item _) = [str ''--tasks'']"
| "script_args i = item_args i"

fun first_path :: "arg_item list \<Rightarrow> mstring option" where
  "first_path [] = None"
| "first_path (Path_Item f v # is) = Some v"
| "first_path (_ # is) = first_path is"

lemma item_flagless:
  assumes "item_ok i" and "plain_item i" and "\<not> is_path_item i" and "a \<in> set (item_args i)"
  shows "\<not> is_config_path_flag a"
proof (cases i)
  case (Task_Item t)
  then show ?thesis using assms(1,4) task_word(1) by simp
next
  case (Tasks_Item t)
  then show ?thesis using assms(1,4) tasks_word by simp
qed (use assms in \<open>auto simp: is_config_path_flag_def\<close>)

lemma skip_flagless:
  assumes "\<forall>a \<in> set xs. \<not> is_config_path_flag a"
  shows "args_without_config_path (xs @ rest) = map_sum id ((@) xs) (args_without_config_path rest)"
    and "command_config_path_from_args (xs @ rest) = command_config_path_from_args rest"
  using assms by (induction xs) (cases "args_without_config_path rest"; auto)+

lemma without_config_items:
  assumes "list_all item_ok items" and "list_all plain_item items"
  shows "args_without_config_path (items_args items) =
    Inr (items_args (filter (\<lambda>i. \<not> is_path_item i) items))"
  using assms
proof (induction items)
  case (Cons i items)
  show ?case
  proof (cases "is_path_item i")
    case True
    with Cons show ?thesis by (cases i) auto
  next
    case False
    then have "\<forall>a \<in> set (item_args i). \<not> is_config_path_flag a"
      using item_flagless [of i] Cons.prems by auto
    with False Cons show ?thesis by (simp add: skip_flagless(1))
  qed
qed simp

lemma config_path_items:
  assumes "list_all item_ok items" and "list_all plain_item items"
  shows "command_config_path_from_args (items_args items) = Inr (first_path items)"
  using assms
proof (induction items)
  case (Cons i items)
  show ?case
  proof (cases "is_path_item i")
    case True
    with Cons show ?thesis by (cases i) auto
  next
    case False
    then have "\<forall>a \<in> set (item_args i). \<not> is_config_path_flag a"
      using item_flagless [of i] Cons.prems by auto
    moreover have "first_path (i # items) = first_path items" using False by (cases i) auto
    ultimately show ?thesis using Cons by (simp add: skip_flagless(2))
  qed
qed simp

lemma args_without_log_append [simp]:
  "args_without_log_flags (xs @ ys) = args_without_log_flags xs @ args_without_log_flags ys"
  "normalize_script_args (xs @ ys) = normalize_script_args xs @ normalize_script_args ys"
  by (simp_all add: args_without_log_flags_def normalize_script_args_def)

lemma script_args_item:
  assumes "item_ok i" and "plain_item i" and "\<not> is_path_item i"
  shows "normalize_script_args (args_without_log_flags (item_args i)) = script_args i"
proof (cases i)
  case (Tasks_Item f)
  then show ?thesis using assms(1)
    by (auto simp: is_tasks_flag_def args_without_log_flags_def normalize_script_args_def)
next
  case (Task_Item t)
  with assms(1) have "\<not> prefix (str ''--'') t" "t \<noteq> str ''-T''" by simp_all
  then have "t \<noteq> str ''--silent''" "t \<noteq> str ''--quiet''" "t \<noteq> str ''--tasks-simple''" "t \<noteq> str ''-T''"
    by auto
  then show ?thesis
    by (simp add: Task_Item args_without_log_flags_def normalize_script_args_def del: str_Cons)
qed (use assms in \<open>auto simp: is_tasks_flag_def args_without_log_flags_def normalize_script_args_def\<close>)

lemma script_args_items:
  assumes "list_all item_ok items" and "list_all plain_item items"
  shows "normalize_script_args (args_without_log_flags
      (items_args (filter (\<lambda>i. \<not> is_path_item i) items))) =
    concat (map script_args items)"
  using assms
proof (induction items)
  case (Cons i items)
  then show ?case
    by (cases "is_path_item i") (auto simp: script_args_item elim: is_path_item.elims)
qed (simp add: args_without_log_flags_def normalize_script_args_def)

lemma first_path_unique:
  assumes "length (filter is_path_item items) \<le> 1"
  shows "config_path (foldl apply_item r items) =
    (case first_path items of None \<Rightarrow> config_path r | Some v \<Rightarrow> Some v)"
  using assms
proof (induction items arbitrary: r)
  case (Cons i items)
  have none: "first_path items = None" if "filter is_path_item items = []" for items
    using that by (induction items rule: first_path.induct) (auto split: if_splits)
  show ?case using Cons none by (cases i) (auto split: option.splits)
qed simp

subsection \<open>Properties\<close>

text \<open>
  Property C5. The parser of the command line accepts exactly the sequences of items of its
  grammar with at most one action, and returns the last configuration path, the last log level
  and that action (the default task when there is none).
\<close>

theorem parse_args_grammar:
  "parse_args args d = Inr r \<longleftrightarrow>
   (\<exists>items. list_all item_ok items \<and> items_args items = args \<and> actions items \<le> 1 \<and>
     r = foldl apply_item \<lparr>config_path = None, action = Run d, log_level = 2\<rparr> items)"
  by (rule parse_args_Inr_iff)

text \<open>
  The separate passes of the command agree with the parser: on an accepted line
  whose task names are not flags and that gives the configuration at most once, the scan finds
  the parser's path, and what is passed on to the script is exactly the action of the line.
\<close>

theorem command_passes_agree:
  assumes "list_all item_ok items" and "list_all plain_item items" and "actions items \<le> 1"
    and "length (filter is_path_item items) \<le> 1"
  shows "\<exists>r s. parse_args (items_args items) d = Inr r \<and>
    command_config_path_from_args (items_args items) = Inr (config_path r) \<and>
    args_without_config_path (items_args items) = Inr s \<and>
    normalize_script_args (args_without_log_flags s) = concat (map script_args items)"
  using parse_items [OF assms(1), of False None "Run d" 2] assms(3) config_path_items [OF assms(1,2)]
    first_path_unique [OF assms(4)] without_config_items [OF assms(1,2)] script_args_items [OF assms(1,2)]
  by (auto simp: parse_args_def split: option.splits)

theorem command_passes_agree_witness:
  "\<exists>r s. parse_args [str ''--quiet'', str ''--file'', str ''x.mbtx'', str ''-T''] [] = Inr r \<and>
    command_config_path_from_args [str ''--quiet'', str ''--file'', str ''x.mbtx'', str ''-T''] =
      Inr (config_path r) \<and>
    args_without_config_path [str ''--quiet'', str ''--file'', str ''x.mbtx'', str ''-T''] = Inr s \<and>
    normalize_script_args (args_without_log_flags s) = [str ''--tasks'']"
  using command_passes_agree [of "[Level_Item False, Path_Item (str ''--file'') (str ''x.mbtx''),
      Tasks_Item (str ''-T'')]" "[]"]
  by (simp add: is_config_path_flag_def is_tasks_flag_def del: parse_args_def)

text \<open>
  The passes disagree with the parser on lines it accepts: of two configuration
  paths the parser keeps the last and the scan the first, a task named like a flag is taken for
  the flag, and a log flag before \<open>--watch\<close> hides the watch task.
\<close>

theorem command_passes_disagree:
  "(\<exists>r. parse_args [str ''--file'', str ''a'', str ''--file'', str ''b''] [] = Inr r \<and> config_path r = Some (str ''b'')) \<and>
   command_config_path_from_args [str ''--file'', str ''a'', str ''--file'', str ''b''] = Inr (Some (str ''a'')) \<and>
   (\<exists>r. parse_args [str ''--tree'', str ''--file''] [] = Inr r \<and> action r = Tree (str ''--file'')) \<and>
   (\<exists>e. args_without_config_path [str ''--tree'', str ''--file''] = Inl e) \<and>
   (\<exists>r. parse_args [str ''--quiet'', str ''--watch'', str ''js''] [] = Inr r \<and> action r = Watch (str ''js'')) \<and>
   (\<exists>e. watch_task_name [str ''--quiet'', str ''--watch'', str ''js''] = Inl e)"
  by (simp add: parse_args_def is_config_path_flag_def is_tasks_flag_def watch_task_name_def)

end
