(* ===== verification/Mulp_Config.thy ===== *)
theory Mulp_Config
  imports Mulp_Args
begin

text \<open>
  The configuration reader (\<open>cli/config\<close>): the sectioned file of \<open>key = "value"\<close> lines, and the
  fallback that picks the quoted returns out of a MoonBit source.
\<close>

record package_config =
  pkg_name :: mstring
  pkg_version :: "mstring option"

record mulp_section =
  entry :: mstring
  default_task :: mstring

record mulp_config =
  pkg :: package_config
  mulp :: mulp_section

subsection \<open>Lines\<close>

fun trim_parts :: "mstring list \<Rightarrow> mstring list run" where
  "trim_parts [] = Some []"
| "trim_parts (p # ps) = do { t \<leftarrow> view_trim p; ts \<leftarrow> trim_parts ps; Some (t # ts) }"

definition split_assignment :: "mstring \<Rightarrow> (mstring \<times> mstring) result run" where
  "split_assignment line = do {
     views \<leftarrow> string_split line (str ''='');
     parts \<leftarrow> trim_parts views;
     Some (if length parts \<noteq> 2 then Inl (config_error (str ''malformed line: '' @ line))
           else Inr (parts ! 0, parts ! 1))
   }"

definition section_name :: "mstring \<Rightarrow> mstring option result run" where
  "section_name line = do {
     opens \<leftarrow> has_prefix line (str ''['');
     if opens then do {
       closes \<leftarrow> has_suffix line (str '']'');
       if closes then do {
         name \<leftarrow> string_sub line 1 (Some (int (length line) - 1));
         Some (if name = str ''package'' \<or> name = str ''mulp'' then Inr (Some name)
               else Inl (config_error (str ''unknown section: '' @ name)))
       } else Some (Inl (config_error (str ''malformed section: '' @ line)))
     } else Some (Inr None)
   }"

definition parse_quoted_value :: "mstring \<Rightarrow> mstring \<Rightarrow> mstring result run" where
  "parse_quoted_value key value = do {
     quoted_ok \<leftarrow>
       (if length value \<ge> 2 then do {
          opens \<leftarrow> has_prefix value [34];
          if opens then has_suffix value [34] else Some False
        } else Some False);
     if quoted_ok then do {
       inner \<leftarrow> string_sub value 1 (Some (int (length value) - 1));
       Some (Inr inner)
     } else Some (Inl (config_error ((str ''value for '' @ key) @ str '' must be quoted'')))
   }"

subsection \<open>Searching a source\<close>

function find_substring_loop :: "mstring \<Rightarrow> mstring \<Rightarrow> nat \<Rightarrow> nat option run" where
  "find_substring_loop source needle index =
     (if index \<le> length source - length needle then do {
        piece \<leftarrow> string_sub source (int index) (Some (int (index + length needle)));
        if piece = needle then Some (Some index) else find_substring_loop source needle (Suc index)
      } else Some None)"
  by pat_completeness auto
termination by (relation "measure (\<lambda>(source, needle, index). Suc (length source) - index)") auto

declare find_substring_loop.simps [simp del]

text \<open>The index, or \<open>None\<close> where the code returns -1.\<close>

definition find_substring :: "mstring \<Rightarrow> mstring \<Rightarrow> nat option run" where
  "find_substring source needle =
     (if needle = [] then Some (Some 0)
      else if length needle > length source then Some None
      else find_substring_loop source needle 0)"

function find_quote :: "mstring \<Rightarrow> nat \<Rightarrow> nat option run" where
  "find_quote source index =
     (if index < length source then do {
        c \<leftarrow> unit_at source index;
        if c = [34] then Some (Some index) else find_quote source (Suc index)
      } else Some None)"
  by pat_completeness auto
termination by (relation "measure (\<lambda>(source, index). length source - index)") auto

declare find_quote.simps [simp del]

definition quoted_return_after :: "mstring \<Rightarrow> mstring \<Rightarrow> mstring result run" where
  "quoted_return_after source marker = do {
     start \<leftarrow> find_substring source marker;
     case start of
       None \<Rightarrow> Some (Inl (config_error (str ''missing '' @ marker)))
     | Some start \<Rightarrow> do {
         first_quote \<leftarrow> find_quote source start;
         case first_quote of
           None \<Rightarrow> Some (Inl (config_error (str ''missing quoted return for '' @ marker)))
         | Some first_quote \<Rightarrow> do {
             last_quote \<leftarrow> find_quote source (Suc first_quote);
             case last_quote of
               None \<Rightarrow> Some (Inl (config_error (str ''missing quoted return for '' @ marker)))
             | Some index \<Rightarrow> do {
                 value \<leftarrow> string_sub source (int (Suc first_quote)) (Some (int index));
                 Some (Inr value)
               }
           }
       }
   }"

definition parse_mulp_mbt_config :: "mstring \<Rightarrow> mulp_config result run" where
  "parse_mulp_mbt_config source = do {
     name \<leftarrow> quoted_return_after source (str ''pub fn package_name'');
     ent \<leftarrow> quoted_return_after source (str ''pub fn entry_package'');
     task \<leftarrow> quoted_return_after source (str ''pub fn default_task'');
     Some (case task of
       Inl err \<Rightarrow> Inl err
     | Inr task \<Rightarrow>
         Inr \<lparr>pkg = \<lparr>pkg_name = (case name of Inl _ \<Rightarrow> str ''mulp'' | Inr n \<Rightarrow> n), pkg_version = None\<rparr>,
              mulp = \<lparr>entry = (case ent of Inl _ \<Rightarrow> [] | Inr e \<Rightarrow> e), default_task = task\<rparr>\<rparr>)
   }"

subsection \<open>The sectioned file\<close>

record config_state =
  cs_section :: mstring
  cs_name :: mstring
  cs_version :: "mstring option"
  cs_entry :: mstring
  cs_default :: mstring

definition config_start :: config_state where
  "config_start = \<lparr>cs_section = [], cs_name = [], cs_version = None, cs_entry = [], cs_default = []\<rparr>"

text \<open>What a parsed key and value do in the current section.\<close>

definition set_key :: "config_state \<Rightarrow> mstring \<Rightarrow> mstring \<Rightarrow> config_state result" where
  "set_key st key value =
     (let unknown = Inl (config_error (str ''unknown key: '' @ (cs_section st @ str ''.'') @ key)) in
      if cs_section st = str ''package'' then
        (if key = str ''name'' then Inr (st\<lparr>cs_name := value\<rparr>)
         else if key = str ''version'' then Inr (st\<lparr>cs_version := Some value\<rparr>)
         else unknown)
      else if cs_section st = str ''mulp'' then
        (if key = str ''entry'' then Inr (st\<lparr>cs_entry := value\<rparr>)
         else if key = str ''default'' then Inr (st\<lparr>cs_default := value\<rparr>)
         else unknown)
      else Inr st)"

definition assign_line :: "config_state \<Rightarrow> mstring \<Rightarrow> config_state result run" where
  "assign_line st line = do {
     pair \<leftarrow> split_assignment line;
     case pair of
       Inl err \<Rightarrow> Some (Inl err)
     | Inr (key, raw_value) \<Rightarrow>
         if cs_section st = [] then Some (Inl (config_error (str ''key outside section: '' @ key)))
         else do {
           value \<leftarrow> parse_quoted_value ((cs_section st @ str ''.'') @ key) raw_value;
           case value of
             Inl err \<Rightarrow> Some (Inl err)
           | Inr value \<Rightarrow> Some (set_key st key value)
         }
   }"

definition config_line :: "config_state \<Rightarrow> mstring \<Rightarrow> config_state result run" where
  "config_line st view = do {
     line \<leftarrow> view_trim view;
     skipped \<leftarrow> (if line = [] then Some True else has_prefix line (str ''#''));
     if skipped then Some (Inr st)
     else do {
       section \<leftarrow> section_name line;
       case section of
         Inl err \<Rightarrow> Some (Inl err)
       | Inr (Some name) \<Rightarrow> Some (Inr (st\<lparr>cs_section := name\<rparr>))
       | Inr None \<Rightarrow> assign_line st line
     }
   }"

fun config_lines :: "config_state \<Rightarrow> mstring list \<Rightarrow> config_state result run" where
  "config_lines st [] = Some (Inr st)"
| "config_lines st (view # views) = do {
     r \<leftarrow> config_line st view;
     case r of Inl err \<Rightarrow> Some (Inl err) | Inr st \<Rightarrow> config_lines st views
   }"

definition finish_config :: "config_state \<Rightarrow> mulp_config result" where
  "finish_config st =
     (if cs_name st = [] then Inl (config_error (str ''missing package.name''))
      else if cs_default st = [] then Inl (config_error (str ''missing mulp.default''))
      else Inr \<lparr>pkg = \<lparr>pkg_name = cs_name st, pkg_version = cs_version st\<rparr>,
                mulp = \<lparr>entry = cs_entry st, default_task = cs_default st\<rparr>\<rparr>)"

definition parse_config :: "mstring \<Rightarrow> mulp_config result run" where
  "parse_config source = do {
     script \<leftarrow> find_substring source (str ''pub fn default_task'');
     case script of
       Some _ \<Rightarrow> parse_mulp_mbt_config source
     | None \<Rightarrow> do {
         views \<leftarrow> string_split source [10];
         r \<leftarrow> config_lines config_start views;
         Some (case r of Inl err \<Rightarrow> Inl err | Inr st \<Rightarrow> finish_config st)
       }
   }"

subsection \<open>Values of the routines\<close>

lemma find_substring_loop_eq:
  assumes "no_surrogates s" and "n \<noteq> []" and "length n \<le> length s" and "\<forall>j < i. \<not> occurs_at s n j"
  shows "find_substring_loop s n i = Some (first_occ s n)"
  using assms
proof (induction s n i rule: find_substring_loop.induct)
  case (1 s n i)
  show ?case
  proof (cases "i \<le> length s - length n")
    case True
    then have sub: "string_sub s (int i) (Some (int (i + length n))) = Some (slice s i (i + length n))"
      using 1(2,4) by (subst string_sub_eq) (auto simp: cut_ok_no_surrogates)
    have piece: "slice s i (i + length n) = n \<longleftrightarrow> occurs_at s n i"
      by (simp add: slice_def occurs_at_def)
    show ?thesis
    proof (cases "occurs_at s n i")
      case hit: True
      then have "first_occ s n = Some i" using 1(5) True by (simp add: first_occ_Some_iff)
      with hit True sub piece show ?thesis by (subst find_substring_loop.simps) simp
    next
      case False
      then have "\<forall>j < Suc i. \<not> occurs_at s n j" using 1(5) by (simp add: less_Suc_eq)
      with 1 False True sub piece show ?thesis by (subst find_substring_loop.simps) simp
    qed
  next
    case False
    have "\<not> occurs_at s n j" for j
      using 1(5) False occurs_at_length [of s n j] 1(3,4) by (cases "j < i") auto
    then have "first_occ s n = None" by (simp add: first_occ_None_iff)
    with False show ?thesis by (subst find_substring_loop.simps) simp
  qed
qed

lemma find_substring_eq [run_simps]:
  assumes "no_surrogates s" and "n \<noteq> []"
  shows "find_substring s n = Some (first_occ s n)"
proof (cases "length n > length s")
  case True
  then have "first_occ s n = None"
    using assms(2) occurs_at_length [of s n] by (fastforce simp: first_occ_None_iff)
  with True assms(2) show ?thesis by (simp add: find_substring_def)
qed (use assms find_substring_loop_eq [of s n 0] in \<open>simp add: find_substring_def\<close>)

text \<open>A string that holds a surrogate pair stops the search where a cut would fall inside it.\<close>

lemma find_substring_loop_aborts:
  assumes "k < length s" and "is_trailing_surrogate (s ! k)" and "n \<noteq> []" and "length n \<le> k"
    and "\<forall>j \<le> k. \<not> occurs_at s n j" and "i \<le> k - length n"
  shows "find_substring_loop s n i = None"
  using assms
proof (induction s n i rule: find_substring_loop.induct)
  case (1 s n i)
  have le: "i \<le> length s - length n" using 1(2,5,7) by linarith
  show ?case
  proof (cases "i = k - length n")
    case True
    then have "string_sub s (int i) (Some (int (i + length n))) = None"
      using 1(2,3,5) by (subst string_sub_eq) (auto simp: cut_ok_def)
    with le show ?thesis by (subst find_substring_loop.simps) simp
  next
    case False
    then have i: "Suc i \<le> k - length n" "i \<le> k" using 1(7) by linarith+
    have "slice s i (i + length n) \<noteq> n"
      using 1(6) i(2) by (simp add: slice_def occurs_at_def)
    moreover have "string_sub s (int i) (Some (int (i + length n))) \<in> {None, Some (slice s i (i + length n))}"
      using le 1(2,5) by (subst string_sub_eq) auto
    ultimately show ?thesis
      using le i 1 by (subst find_substring_loop.simps) auto
  qed
qed

lemma trim_parts_eq [run_simps]:
  "\<forall>p \<in> set ps. no_surrogates p \<Longrightarrow> trim_parts ps = Some (map strip ps)"
  by (induction ps) (auto simp: run_simps)

lemma split_assignment_eq [run_simps]:
  assumes "no_surrogates line"
  shows "split_assignment line = Some
    (if length (split_on 61 line) \<noteq> 2 then Inl (config_error (str ''malformed line: '' @ line))
     else Inr (strip (split_on 61 line ! 0), strip (split_on 61 line ! 1)))"
  using no_surrogates_split [OF assms, of _ 61]
  by (simp add: split_assignment_def run_simps)

definition inner :: "mstring \<Rightarrow> mstring" where
  "inner s = butlast (tl s)"

lemma sub_inner:
  assumes "no_surrogates s" and "2 \<le> length s"
  shows "string_sub s 1 (Some (int (length s) - 1)) = Some (inner s)"
proof -
  obtain a b where s: "s = a # b" using assms(2) by (cases s) auto
  have "string_sub s (int 1) (Some (int (length s - 1))) = Some (slice s 1 (length s - 1))"
    using assms by (subst string_sub_eq) (auto simp: cut_ok_no_surrogates)
  moreover have "int (length s - 1) = int (length s) - 1" using assms(2) by simp
  moreover have "slice s 1 (length s - 1) = inner s"
    by (simp add: slice_def inner_def s butlast_conv_take)
  ultimately show ?thesis by simp
qed

definition section_of :: "mstring \<Rightarrow> mstring option result" where
  "section_of line =
     (if prefix (str ''['') line then
        (if suffix (str '']'') line then
           (if inner line = str ''package'' \<or> inner line = str ''mulp'' then Inr (Some (inner line))
            else Inl (config_error (str ''unknown section: '' @ inner line)))
         else Inl (config_error (str ''malformed section: '' @ line)))
      else Inr None)"

lemma section_name_eq [run_simps]:
  assumes "no_surrogates line"
  shows "section_name line = Some (section_of line)"
proof (cases "prefix (str ''['') line \<and> suffix (str '']'') line")
  case True
  then have "2 \<le> length line" by (cases line; cases "tl line") (auto simp: suffix_def)
  with True assms show ?thesis by (simp add: section_name_def section_of_def run_simps sub_inner)
next
  case False
  then show ?thesis by (auto simp: section_name_def section_of_def run_simps)
qed

definition quoted_value :: "mstring \<Rightarrow> mstring \<Rightarrow> mstring result" where
  "quoted_value key v =
     (if 2 \<le> length v \<and> prefix [34] v \<and> suffix [34] v then Inr (inner v)
      else Inl (config_error ((str ''value for '' @ key) @ str '' must be quoted'')))"

lemma parse_quoted_value_eq [run_simps]:
  "no_surrogates v \<Longrightarrow> parse_quoted_value key v = Some (quoted_value key v)"
  by (auto simp: parse_quoted_value_def quoted_value_def run_simps sub_inner)

text \<open>One line, and a file, as functions of the trimmed lines.\<close>

definition line_step :: "config_state \<Rightarrow> mstring \<Rightarrow> config_state result" where
  "line_step st line =
     (if line = [] \<or> prefix (str ''#'') line then Inr st
      else case section_of line of
        Inl err \<Rightarrow> Inl err
      | Inr (Some name) \<Rightarrow> Inr (st\<lparr>cs_section := name\<rparr>)
      | Inr None \<Rightarrow>
          (if length (split_on 61 line) \<noteq> 2 then Inl (config_error (str ''malformed line: '' @ line))
           else let key = strip (split_on 61 line ! 0); raw = strip (split_on 61 line ! 1) in
             if cs_section st = [] then Inl (config_error (str ''key outside section: '' @ key))
             else case quoted_value ((cs_section st @ str ''.'') @ key) raw of
               Inl err \<Rightarrow> Inl err
             | Inr value \<Rightarrow> set_key st key value))"

fun lines_step :: "config_state \<Rightarrow> mstring list \<Rightarrow> config_state result" where
  "lines_step st [] = Inr st"
| "lines_step st (l # ls) = (case line_step st l of Inl err \<Rightarrow> Inl err | Inr st \<Rightarrow> lines_step st ls)"

lemma config_line_eq [run_simps]:
  assumes "no_surrogates view"
  shows "config_line st view = Some (line_step st (strip view))"
proof -
  have line: "no_surrogates (strip view)" using assms by (rule strip_no_surrogates)
  have parts: "length (split_on 61 (strip view)) = 2 \<Longrightarrow>
      no_surrogates (strip (split_on 61 (strip view) ! 1))"
    using no_surrogates_split [OF line, of "split_on 61 (strip view) ! 1" 61]
    by (intro strip_no_surrogates) simp
  have assign: "assign_line st (strip view) =
      Some (if length (split_on 61 (strip view)) \<noteq> 2 then Inl (config_error (str ''malformed line: '' @ strip view))
        else let key = strip (split_on 61 (strip view) ! 0); raw = strip (split_on 61 (strip view) ! 1) in
             if cs_section st = [] then Inl (config_error (str ''key outside section: '' @ key))
             else case quoted_value ((cs_section st @ str ''.'') @ key) raw of
               Inl err \<Rightarrow> Inl err
             | Inr value \<Rightarrow> set_key st key value)"
    using parts line by (simp add: assign_line_def run_simps Let_def split: sum.split)
  show ?thesis
    using assign line assms
    by (auto simp: config_line_def line_step_def run_simps split: sum.split option.split)
qed

lemma config_lines_eq [run_simps]:
  "\<forall>v \<in> set views. no_surrogates v \<Longrightarrow> config_lines st views = Some (lines_step st (map strip views))"
  by (induction views arbitrary: st) (auto simp: run_simps split: sum.split)

lemma parse_config_eq:
  assumes "no_surrogates source" and "first_occ source (str ''pub fn default_task'') = None"
  shows "parse_config source = Some (case lines_step config_start (map strip (split_on 10 source)) of
     Inl err \<Rightarrow> Inl err | Inr st \<Rightarrow> finish_config st)"
  using assms no_surrogates_split [OF assms(1), of _ 10]
  by (simp add: parse_config_def run_simps del: str_Cons)

subsection \<open>Writing a configuration and reading it back\<close>

definition assignment_line :: "mstring \<Rightarrow> mstring \<Rightarrow> mstring" where
  "assignment_line key v = key @ str '' = '' @ [34] @ v @ [34]"

definition render_config :: "mulp_config \<Rightarrow> mstring list" where
  "render_config c =
     [str ''[package]'', assignment_line (str ''name'') (pkg_name (pkg c))] @
     (case pkg_version (pkg c) of None \<Rightarrow> [] | Some v \<Rightarrow> [assignment_line (str ''version'') v]) @
     [str ''[mulp]'', assignment_line (str ''entry'') (entry (mulp c)),
      assignment_line (str ''default'') (default_task (mulp c))]"

definition value_ok :: "mstring \<Rightarrow> bool" where
  "value_ok v \<longleftrightarrow> no_surrogates v \<and> 61 \<notin> set v \<and> 10 \<notin> set v"

definition config_ok :: "mulp_config \<Rightarrow> bool" where
  "config_ok c \<longleftrightarrow> value_ok (pkg_name (pkg c)) \<and> pkg_name (pkg c) \<noteq> [] \<and>
     (case pkg_version (pkg c) of None \<Rightarrow> True | Some v \<Rightarrow> value_ok v) \<and>
     value_ok (entry (mulp c)) \<and> value_ok (default_task (mulp c)) \<and> default_task (mulp c) \<noteq> []"

lemma strip_blank_Cons: "is_blank c \<Longrightarrow> strip (c # s) = strip s"
  by (simp add: strip_def)

lemma strip_blank_snoc: "is_blank c \<Longrightarrow> strip (s @ [c]) = strip s"
  by (cases "\<forall>x \<in> set s. is_blank x") (auto simp: strip_def dropWhile_append dest: set_dropWhileD)

definition key_ok :: "mstring \<Rightarrow> bool" where
  "key_ok k \<longleftrightarrow> k \<noteq> [] \<and> no_surrogates k \<and> (\<forall>c \<in> set k. \<not> is_blank c \<and> c \<noteq> 61 \<and> c \<noteq> 10) \<and>
     hd k \<noteq> 35 \<and> hd k \<noteq> 91"

lemma small_units [simp]:
  "\<not> is_trailing_surrogate 32" "\<not> is_leading_surrogate 32" "\<not> is_trailing_surrogate 34"
  "\<not> is_leading_surrogate 34" "\<not> is_trailing_surrogate 61" "\<not> is_leading_surrogate 61"
  "\<not> is_trailing_surrogate 10" "\<not> is_leading_surrogate 10"
  by (simp_all add: is_trailing_surrogate_def is_leading_surrogate_def)

lemma assignment_line_step:
  assumes "key_ok key" and "value_ok v" and "cs_section st \<noteq> []"
  shows "line_step st (strip (assignment_line key v)) = set_key st key v"
proof -
  have blank: "is_blank 32" "\<not> is_blank 34" by (simp_all add: is_blank_def)
  have key: "key \<noteq> []" "\<not> is_blank (hd key)" "\<not> is_blank (last key)" "61 \<notin> set key"
    using assms(1) by (auto simp: key_ok_def)
  have line: "strip (assignment_line key v) = assignment_line key v"
    using key blank by (intro strip_id) (simp add: assignment_line_def)
  have "split_on 61 (assignment_line key v) = [key @ [32], 32 # 34 # v @ [34]]"
    using split_on_append [of 61 "key @ [32]" "32 # 34 # v @ [34]"]
      split_on_absent [of 61 "32 # 34 # v @ [34]"] key(4) assms(2)
    by (simp add: assignment_line_def value_ok_def)
  moreover have "strip (key @ [32]) = key"
    using key blank by (simp add: strip_blank_snoc strip_id)
  moreover have "strip (32 # 34 # v @ [34]) = 34 # v @ [34]"
    using blank by (simp add: strip_blank_Cons strip_id)
  moreover have "\<not> prefix (str ''#'') (assignment_line key v)" "\<not> prefix (str ''['') (assignment_line key v)"
    using assms(1) by (cases key; auto simp: assignment_line_def key_ok_def)+
  ultimately show ?thesis
    using assms(3) key(1)
    by (simp add: line line_step_def section_of_def quoted_value_def inner_def suffix_def)
       (auto simp: assignment_line_def)
qed

lemma key_ok_names [simp]:
  "key_ok (str ''name'')" "key_ok (str ''version'')" "key_ok (str ''entry'')" "key_ok (str ''default'')"
  by (simp_all add: key_ok_def is_blank_def is_trailing_surrogate_def is_leading_surrogate_def)

lemma section_line_step:
  "line_step st (strip (str ''[package]'')) = Inr (st\<lparr>cs_section := str ''package''\<rparr>)"
  "line_step st (strip (str ''[mulp]'')) = Inr (st\<lparr>cs_section := str ''mulp''\<rparr>)"
  by (simp_all add: strip_def is_blank_def line_step_def section_of_def inner_def suffix_def)

lemma set_key_known:
  "cs_section st = str ''package'' \<Longrightarrow> set_key st (str ''name'') v = Inr (st\<lparr>cs_name := v\<rparr>)"
  "cs_section st = str ''package'' \<Longrightarrow> set_key st (str ''version'') v = Inr (st\<lparr>cs_version := Some v\<rparr>)"
  "cs_section st = str ''mulp'' \<Longrightarrow> set_key st (str ''entry'') v = Inr (st\<lparr>cs_entry := v\<rparr>)"
  "cs_section st = str ''mulp'' \<Longrightarrow> set_key st (str ''default'') v = Inr (st\<lparr>cs_default := v\<rparr>)"
  by (simp_all add: set_key_def)

lemma render_config_steps:
  assumes "config_ok c"
  shows "lines_step config_start (map strip (render_config c)) =
    Inr \<lparr>cs_section = str ''mulp'', cs_name = pkg_name (pkg c), cs_version = pkg_version (pkg c),
         cs_entry = entry (mulp c), cs_default = default_task (mulp c)\<rparr>"
  using assms
  by (cases "pkg_version (pkg c)")
    (simp_all add: render_config_def section_line_step assignment_line_step config_ok_def config_start_def
      set_key_known del: str_Cons)

lemma render_config_lines:
  assumes "config_ok c" and "l \<in> set (render_config c)"
  shows "10 \<notin> set l" and "no_surrogates l"
proof -
  have v: "value_ok v \<Longrightarrow> key_ok k \<Longrightarrow> 10 \<notin> set (assignment_line k v) \<and> no_surrogates (assignment_line k v)" for k v
    by (auto simp: assignment_line_def value_ok_def key_ok_def)
  have s: "10 \<notin> set (str ''[package]'' :: mstring)" "no_surrogates (str ''[package]'')"
    "10 \<notin> set (str ''[mulp]'' :: mstring)" "no_surrogates (str ''[mulp]'')"
    by (simp_all add: is_trailing_surrogate_def is_leading_surrogate_def)
  have "10 \<notin> set l \<and> no_surrogates l"
    using assms v s key_ok_names
    by (auto simp: render_config_def config_ok_def simp del: str_Cons split: option.splits)
  then show "10 \<notin> set l" and "no_surrogates l" by simp_all
qed

lemma no_surrogates_join:
  "\<forall>l \<in> set ls. no_surrogates l \<Longrightarrow> no_surrogates (join_with [10] ls)"
  by (induction ls rule: induct_list012) auto

lemma parse_lines:
  assumes "\<forall>l \<in> set ls. no_surrogates l \<and> 10 \<notin> set l" and "ls \<noteq> []"
    and "first_occ (join_with [10] ls) (str ''pub fn default_task'') = None"
  shows "parse_config (join_with [10] ls) = Some (case lines_step config_start (map strip ls) of
     Inl err \<Rightarrow> Inl err | Inr st \<Rightarrow> finish_config st)"
  using parse_config_eq [OF no_surrogates_join assms(3)] assms(1,2) by (simp add: split_on_join)

lemma lines_step_append:
  "lines_step st (xs @ ys) = (case lines_step st xs of Inl err \<Rightarrow> Inl err | Inr st \<Rightarrow> lines_step st ys)"
  by (induction xs arbitrary: st) (auto split: sum.split)

subsection \<open>Properties\<close>

text \<open>
  Property C4. A configuration written as a sectioned file is read back unchanged, for all
  values without an equals sign, a newline or surrogate pairs (quotes inside included).
\<close>

theorem parse_render_config:
  assumes "config_ok c"
    and "first_occ (join_with [10] (render_config c)) (str ''pub fn default_task'') = None"
  shows "parse_config (join_with [10] (render_config c)) = Some (Inr c)"
proof -
  have "render_config c \<noteq> []" by (simp add: render_config_def)
  then have "parse_config (join_with [10] (render_config c)) =
      Some (case lines_step config_start (map strip (render_config c)) of
        Inl err \<Rightarrow> Inl err | Inr st \<Rightarrow> finish_config st)"
    using render_config_lines [OF assms(1)] assms(2) by (intro parse_lines) auto
  then show ?thesis
    using assms(1) by (simp add: render_config_steps finish_config_def config_ok_def)
qed

definition demo_config :: mulp_config where
  "demo_config = \<lparr>pkg = \<lparr>pkg_name = str ''a'', pkg_version = None\<rparr>,
     mulp = \<lparr>entry = [], default_task = str ''b''\<rparr>\<rparr>"

theorem parse_render_config_witness:
  "parse_config (join_with [10] (render_config demo_config)) = Some (Inr demo_config)"
proof (rule parse_render_config)
  show "config_ok demo_config"
    by (simp add: config_ok_def demo_config_def value_ok_def is_trailing_surrogate_def is_leading_surrogate_def)
  show "first_occ (join_with [10] (render_config demo_config)) (str ''pub fn default_task'') = None"
    by (simp add: demo_config_def render_config_def assignment_line_def first_occ_def occurs_at_def upt_rec)
qed

text \<open>
  A blank or comment line may stand anywhere: the file reads the same without it.
\<close>

theorem comment_lines_ignored:
  assumes "\<forall>l \<in> set (xs @ [c] @ ys). no_surrogates l \<and> 10 \<notin> set l" and "xs @ ys \<noteq> []"
    and "strip c = [] \<or> prefix (str ''#'') (strip c)"
    and "first_occ (join_with [10] (xs @ [c] @ ys)) (str ''pub fn default_task'') = None"
    and "first_occ (join_with [10] (xs @ ys)) (str ''pub fn default_task'') = None"
  shows "parse_config (join_with [10] (xs @ [c] @ ys)) = parse_config (join_with [10] (xs @ ys))"
proof -
  have "line_step st (strip c) = Inr st" for st using assms(3) by (auto simp: line_step_def)
  then have "lines_step config_start (map strip (xs @ [c] @ ys)) =
      lines_step config_start (map strip (xs @ ys))"
    by (simp add: lines_step_append split: sum.split)
  then show ?thesis
    using parse_lines [OF assms(1) _ assms(4)] parse_lines [OF _ assms(2,5)] assms(1) by auto
qed

theorem comment_lines_ignored_witness:
  "parse_config (join_with [10] ([str ''[mulp]''] @ [str '' # x = y''] @ [str ''q'']))
   = parse_config (join_with [10] ([str ''[mulp]''] @ [str ''q'']))"
  by (rule comment_lines_ignored)
    (simp_all add: strip_def is_blank_def is_trailing_surrogate_def is_leading_surrogate_def
      first_occ_def occurs_at_def upt_rec)

text \<open>
  A quoted value that holds an equals sign is refused as a malformed line, whatever
  the key: the line is cut at every equals sign, quoted or not.
\<close>

theorem equals_in_value_refused:
  assumes "key_ok key" and "61 \<in> set v"
  shows "line_step st (strip (assignment_line key v)) =
    Inl (config_error (str ''malformed line: '' @ assignment_line key v))"
proof -
  have key: "key \<noteq> []" "\<not> is_blank (hd key)" "hd key \<noteq> 35" "hd key \<noteq> 91" "61 \<notin> set (key @ [32])"
    using assms(1) by (auto simp: key_ok_def)
  have line: "strip (assignment_line key v) = assignment_line key v"
    using key by (intro strip_id) (simp add: assignment_line_def is_blank_def)
  obtain a b where v: "v = a @ 61 # b" "61 \<notin> set a" using split_list_first [OF assms(2)] by blast
  have "assignment_line key v = (key @ [32]) @ 61 # (32 # 34 # a) @ 61 # b @ [34]"
    by (simp add: assignment_line_def v)
  moreover have "split_on 61 ((key @ [32]) @ 61 # (32 # 34 # a) @ 61 # b @ [34]) =
      (key @ [32]) # (32 # 34 # a) # split_on 61 (b @ [34])"
    by (subst split_on_append [OF key(5)], subst split_on_append) (simp_all add: v(2))
  ultimately have "length (split_on 61 (assignment_line key v)) \<noteq> 2"
    using split_on_not_Nil [of 61 "b @ [34]"] by simp
  moreover have "\<not> prefix (str ''#'') (assignment_line key v)" "\<not> prefix (str ''['') (assignment_line key v)"
    "assignment_line key v \<noteq> []"
    using key by (cases key; auto simp: assignment_line_def)+
  ultimately show ?thesis by (simp add: line line_step_def section_of_def)
qed

theorem equals_in_value_refused_witness:
  "line_step config_start (strip (assignment_line (str ''name'') (str ''a=b''))) =
    Inl (config_error (str ''malformed line: '' @ assignment_line (str ''name'') (str ''a=b'')))"
  by (rule equals_in_value_refused [OF key_ok_names(1)]) simp

text \<open>
  A configuration file with a character beyond the basic plane (past its first 19
  units) aborts the program: the search for the MoonBit form cuts inside the surrogate pair.
\<close>

theorem parse_config_aborts_on_pair:
  assumes "k < length source" and "is_trailing_surrogate (source ! k)" and "19 \<le> k"
    and "first_occ source (str ''pub fn default_task'') = None"
  shows "parse_config source = None"
proof -
  let ?n = "str ''pub fn default_task'' :: mstring"
  have len: "length ?n = 19" "?n \<noteq> []" by simp_all
  have "\<forall>j \<le> k. \<not> occurs_at source ?n j"
    using assms(1,4) by (simp add: first_occ_None_iff del: str_Cons)
  then have "find_substring_loop source ?n 0 = None"
    using find_substring_loop_aborts [OF assms(1,2) len(2), of 0] assms(3) len(1) by (simp del: str_Cons)
  then show ?thesis
    using assms(1,3) len by (simp add: parse_config_def find_substring_def del: str_Cons)
qed

theorem parse_config_aborts_on_pair_witness:
  "parse_config (str ''# comment with emoji'' @ [55357, 56832]) = None"
  by (rule parse_config_aborts_on_pair [of 21])
    (simp_all add: is_trailing_surrogate_def first_occ_def occurs_at_def upt_rec)

end
