(* ===== verification/C_Memory.thy ===== *)
theory C_Memory
  imports Prelude
begin

text \<open>
  What the hand-written C files use of C: 32-bit signed arithmetic whose overflow is
  undefined, heap and stack blocks whose cells start uninitialised, the copying of bytes with
  its bounds, C strings, \<open>snprintf\<close> and the \<open>%d\<close> conversion. Undefined behaviour is \<open>None\<close>, so
  that a definition that returns \<open>Some\<close> has stayed inside its blocks.
\<close>

subsection \<open>Signed 32-bit integers\<close>

definition int32_ok :: "int \<Rightarrow> bool" where
  "int32_ok x \<longleftrightarrow> - (2 ^ 31) \<le> x \<and> x < 2 ^ 31"

definition int32 :: "int \<Rightarrow> int run" where
  "int32 x = (if int32_ok x then Some x else None)"

lemma int32_Some [simp]: "int32_ok x \<Longrightarrow> int32 x = Some x"
  by (simp add: int32_def)

lemma int32_eq_Some: "int32 x = Some y \<longleftrightarrow> int32_ok x \<and> y = x"
  by (auto simp: int32_def)

subsection \<open>Blocks of memory\<close>

text \<open>A cell is \<open>None\<close> until it is written.\<close>

type_synonym block = "byte option list"

definition fresh :: "nat \<Rightarrow> block" where
  "fresh n = replicate n None"

definition store_at :: "block \<Rightarrow> nat \<Rightarrow> byte \<Rightarrow> block run" where
  "store_at m i b = (if i < length m then Some (m[i := Some b]) else None)"

definition copy_into :: "block \<Rightarrow> nat \<Rightarrow> bytes \<Rightarrow> block run" where
  "copy_into m i bs =
     (if i + length bs \<le> length m
      then Some (take i m @ map Some bs @ drop (i + length bs) m) else None)"

text \<open>Reading \<open>n\<close> cells is defined only when all of them have been written.\<close>

fun read_cells :: "block \<Rightarrow> bytes run" where
  "read_cells [] = Some []"
| "read_cells (c # m) = do { b \<leftarrow> c; bs \<leftarrow> read_cells m; Some (b # bs) }"

definition load_range :: "block \<Rightarrow> nat \<Rightarrow> nat \<Rightarrow> bytes run" where
  "load_range m i n =
     (if i + n \<le> length m then read_cells (take n (drop i m)) else None)"

lemma length_fresh [simp]: "length (fresh n) = n"
  by (simp add: fresh_def)

lemma read_cells_Some [simp]: "read_cells (map Some bs) = Some bs"
  by (induction bs) auto

lemma load_range_front [simp]: "load_range (map Some bs @ m) 0 (length bs) = Some bs"
  by (simp add: load_range_def)

text \<open>A block that has been filled from the front, and what the next write makes of it.\<close>

definition filled :: "bytes \<Rightarrow> nat \<Rightarrow> block" where
  "filled bs n = map Some bs @ fresh (n - length bs)"

lemma fresh_filled: "fresh n = filled [] n"
  by (simp add: filled_def)

lemma store_filled [simp]:
  assumes "length bs < n"
  shows "store_at (filled bs n) (length bs) b = Some (filled (bs @ [b]) n)"
proof -
  obtain k where n: "n = Suc (length bs + k)"
    using assms less_iff_Suc_add by blast
  show ?thesis by (simp add: store_at_def filled_def n fresh_def list_update_append)
qed

lemma copy_filled [simp]:
  assumes "length bs + length cs \<le> n"
  shows "copy_into (filled bs n) (length bs) cs = Some (filled (bs @ cs) n)"
proof -
  obtain k where n: "n = length bs + length cs + k"
    using assms le_iff_add by blast
  show ?thesis by (simp add: copy_into_def filled_def n fresh_def)
qed

lemma load_filled [simp]: "length bs \<le> n \<Longrightarrow> load_range (filled bs n) 0 (length bs) = Some bs"
  by (simp add: filled_def)

text \<open>The string a block holds: its bytes up to the first zero, which has to be there.\<close>

fun block_cstr :: "block \<Rightarrow> bytes run" where
  "block_cstr [] = None"
| "block_cstr (c # m) =
     do { b \<leftarrow> c; if b = 0 then Some [] else do { bs \<leftarrow> block_cstr m; Some (b # bs) } }"

lemma block_cstr_filled [simp]:
  "0 \<notin> set bs \<Longrightarrow> block_cstr (map Some bs @ Some 0 # m) = Some bs"
  by (induction bs) auto

lemma filled_full: "n = length bs \<Longrightarrow> filled bs n = map Some bs"
  by (simp add: filled_def fresh_def)

text \<open>\<open>realloc\<close>: what fits of the old cells, the rest fresh.\<close>

definition resize :: "block option \<Rightarrow> nat \<Rightarrow> block" where
  "resize m n = (case m of None \<Rightarrow> fresh n | Some m \<Rightarrow> take n m @ fresh (n - length m))"

lemma resize_filled: "length bs \<le> n \<Longrightarrow> n \<le> k \<Longrightarrow> resize (Some (filled bs n)) k = filled bs k"
  by (simp add: resize_def filled_def fresh_def replicate_add [symmetric])

subsection \<open>C strings\<close>

definition cstr :: "bytes \<Rightarrow> bytes" where
  "cstr bs = takeWhile (\<lambda>b. b \<noteq> 0) bs"

text \<open>
  \<open>snprintf\<close> into \<open>n\<close> bytes: the text cut to \<open>n - 1\<close> bytes and a terminator; the value is the
  length the whole text would have had.
\<close>

definition snprintf :: "nat \<Rightarrow> bytes \<Rightarrow> bytes \<times> int" where
  "snprintf n text = ((if n = 0 then [] else take (n - 1) text @ [0]), int (length text))"

lemma cstr_id: "0 \<notin> set bs \<Longrightarrow> cstr bs = bs"
  unfolding cstr_def takeWhile_eq_all_conv by auto

lemma cstr_append_0: "0 \<notin> set bs \<Longrightarrow> cstr (bs @ 0 # cs) = bs"
  unfolding cstr_def by (subst takeWhile_append2) auto

lemma cstr_no_0: "0 \<notin> set (cstr bs)"
  by (auto simp: cstr_def dest: set_takeWhileD)

lemma snprintf_fits:
  "length text < n \<Longrightarrow> snprintf n text = (text @ [0], int (length text))"
  by (simp add: snprintf_def)

text \<open>Decimal digits, most significant first, over bytes or code units.\<close>

fun decimal :: "nat \<Rightarrow> 'a::len word list" where
  "decimal n = (if n < 10 then [of_nat (48 + n)] else decimal (n div 10) @ [of_nat (48 + n mod 10)])"

declare decimal.simps [simp del]

definition format_d :: "int \<Rightarrow> 'a::len word list" where
  "format_d x = (if x < 0 then 45 # decimal (nat (- x)) else decimal (nat x))"

lemma decimal_not_Nil [simp]: "decimal n \<noteq> []"
  by (subst decimal.simps) simp

lemma length_decimal:
  assumes "n < 10 ^ Suc k"
  shows "length (decimal n :: 'a::len word list) \<le> Suc k"
  using assms
proof (induction k arbitrary: n)
  case 0
  then show ?case by (simp add: decimal.simps)
next
  case (Suc k)
  have "n div 10 < 10 ^ Suc k"
    using Suc.prems by (simp add: less_mult_imp_div_less mult.commute)
  then have "length (decimal (n div 10) :: 'a word list) \<le> Suc k"
    by (rule Suc.IH)
  then show ?case by (subst decimal.simps) simp
qed

end
