(* ===== verification/Platform_Process.thy ===== *)
theory Platform_Process
  imports String_Ops Mulp_Error C_Memory
begin

text \<open>
  The process layer of \<open>platform\<close>: a command with its arguments and working directory, the
  shell line it is turned into, the bytes handed to the C stub, and the decoding of the bytes
  the stub returns. The stub itself is a parameter here; \<open>Shell_Process\<close> models it.
\<close>

record process_command_t =
  pc_program :: mstring
  pc_args :: "mstring list"
  pc_cwd :: "mstring option"

record process_result =
  pr_exit_code :: "32 word"
  pr_stdout :: mstring
  pr_stderr :: mstring
  pr_output :: mstring

definition process_command :: "mstring \<Rightarrow> mstring list \<Rightarrow> process_command_t" where
  "process_command program args = \<lparr>pc_program = program, pc_args = args, pc_cwd = None\<rparr>"

definition with_cwd :: "process_command_t \<Rightarrow> mstring \<Rightarrow> process_command_t" where
  "with_cwd self cwd =
     \<lparr>pc_program = pc_program self, pc_args = pc_args self, pc_cwd = Some cwd\<rparr>"

subsection \<open>Quoting\<close>

function quote_loop :: "mstring \<Rightarrow> nat \<Rightarrow> mstring list \<Rightarrow> mstring list run" where
  "quote_loop value index parts =
     (if index < length value then do {
        char \<leftarrow> unit_at value index;
        quote_loop value (Suc index)
          (parts @ [if char = [39] then [39, 92, 39, 39] else char])
      } else Some parts)"
  by pat_completeness auto
termination by (relation "measure (\<lambda>(value, index, _). length value - index)") auto

declare quote_loop.simps [simp del]

definition quote_shell_arg :: "mstring \<Rightarrow> mstring run" where
  "quote_shell_arg value = do {
     parts \<leftarrow> quote_loop value 0 [];
     Some (([39] @ array_join parts []) @ [39])
   }"

fun quote_all :: "mstring list \<Rightarrow> mstring list run" where
  "quote_all [] = Some []"
| "quote_all (a # args) = do { q \<leftarrow> quote_shell_arg a; qs \<leftarrow> quote_all args; Some (q # qs) }"

definition to_shell_command :: "process_command_t \<Rightarrow> mstring run" where
  "to_shell_command self = do {
     program \<leftarrow> quote_shell_arg (pc_program self);
     args \<leftarrow> quote_all (pc_args self);
     let command = array_join (program # args) (str '' '');
     case pc_cwd self of
       None \<Rightarrow> Some command
     | Some cwd \<Rightarrow> do {
         q \<leftarrow> quote_shell_arg cwd;
         Some (((str ''cd '' @ q) @ str '' && '') @ command)
       }
   }"

subsection \<open>Bytes to and from the stub\<close>

text \<open>A unit is cut to its low byte; a byte becomes the character of that code.\<close>

definition bytes_from_ascii :: "mstring \<Rightarrow> bytes" where
  "bytes_from_ascii value = map (\<lambda>c. ucast (and c 255)) value"

fun bytes_to_chars :: "bytes \<Rightarrow> mstring list run" where
  "bytes_to_chars [] = Some []"
| "bytes_to_chars (b # bs) =
     do { c \<leftarrow> char_to_string (uint b); cs \<leftarrow> bytes_to_chars bs; Some (c # cs) }"

definition ascii_from_bytes :: "bytes \<Rightarrow> mstring run" where
  "ascii_from_bytes value = do { parts \<leftarrow> bytes_to_chars value; Some (array_join parts []) }"

subsection \<open>Decoding a result\<close>

text \<open>The digits are accumulated in 32-bit arithmetic, whatever the units are.\<close>

definition parse_number :: "mstring \<Rightarrow> 32 word" where
  "parse_number value = foldl (\<lambda>code c. code * 10 + (ucast c - 48)) 0 value"

function find_newline :: "mstring \<Rightarrow> nat \<Rightarrow> nat run" where
  "find_newline encoded index =
     (if index < length encoded then do {
        c \<leftarrow> unit_at encoded index;
        if c = [10] then Some index else find_newline encoded (Suc index)
      } else Some (length encoded))"
  by pat_completeness auto
termination by (relation "measure (\<lambda>(encoded, index). length encoded - index)") auto

declare find_newline.simps [simp del]

definition parse_number_line :: "mstring \<Rightarrow> nat \<Rightarrow> (32 word \<times> nat) run" where
  "parse_number_line encoded start = do {
     split_at \<leftarrow> find_newline encoded start;
     digits \<leftarrow> string_sub encoded (int start) (Some (int split_at));
     Some (parse_number digits, Suc split_at)
   }"

definition parse_process_result :: "mstring \<Rightarrow> process_result run" where
  "parse_process_result encoded = do {
     (exit_code, after_exit) \<leftarrow> parse_number_line encoded 0;
     (stdout_length, after_stdout_length) \<leftarrow> parse_number_line encoded after_exit;
     (stderr_length, after_stderr_length) \<leftarrow> parse_number_line encoded after_stdout_length;
     let stdout_end = word_of_nat after_stderr_length + stdout_length;
     let stderr_end = stdout_end + stderr_length;
     stdout \<leftarrow> string_sub encoded (int after_stderr_length) (Some (sint stdout_end));
     stderr \<leftarrow> string_sub encoded (sint stdout_end) (Some (sint stderr_end));
     Some \<lparr>pr_exit_code = exit_code, pr_stdout = stdout, pr_stderr = stderr,
           pr_output = stdout\<rparr>
   }"

definition run_process ::
    "(bytes \<Rightarrow> bytes run) \<Rightarrow> process_command_t \<Rightarrow> process_result result run" where
  "run_process run_shell_ffi command = do {
     line \<leftarrow> to_shell_command command;
     output \<leftarrow> run_shell_ffi (bytes_from_ascii line);
     encoded \<leftarrow> ascii_from_bytes output;
     r \<leftarrow> parse_process_result encoded;
     Some (Inr r)
   }"

subsection \<open>What the routines return\<close>

definition quote_units :: "code_unit \<Rightarrow> mstring" where
  "quote_units c = (if c = 39 then [39, 92, 39, 39] else [c])"

text \<open>The quoted form of a word, over code units or bytes.\<close>

definition quoted :: "'a::len word list \<Rightarrow> 'a word list" where
  "quoted s = 39 # concat (map (\<lambda>c. if c = 39 then [39, 92, 39, 39] else [c]) s) @ [39]"

lemma join_with_Nil: "join_with [] ss = concat ss"
  by (induction ss rule: induct_list012) auto

lemma quote_loop_eq:
  "no_surrogates s \<Longrightarrow> i \<le> length s \<Longrightarrow>
   quote_loop s i parts = Some (parts @ map quote_units (drop i s))"
proof (induction s i parts rule: quote_loop.induct)
  case (1 s i parts)
  show ?case
  proof (cases "i < length s")
    case True
    then have "drop i s = s ! i # drop (Suc i) s"
      by (simp add: Cons_nth_drop_Suc)
    then show ?thesis
      using True 1 by (subst quote_loop.simps) (simp add: run_simps quote_units_def)
  qed (use 1 in \<open>simp add: quote_loop.simps\<close>)
qed

lemma quote_shell_arg_eq [run_simps]:
  "no_surrogates s \<Longrightarrow> quote_shell_arg s = Some (quoted s)"
  by (simp add: quote_shell_arg_def quote_loop_eq run_simps join_with_Nil quoted_def
      quote_units_def [abs_def] if_distrib)

lemma quote_all_eq [run_simps]:
  "list_all no_surrogates args \<Longrightarrow> quote_all args = Some (map quoted args)"
  by (induction args) (auto simp: run_simps)

text \<open>The shell line of a command, as a list of quoted words.\<close>

definition command_ok :: "process_command_t \<Rightarrow> bool" where
  "command_ok c \<longleftrightarrow> no_surrogates (pc_program c) \<and> list_all no_surrogates (pc_args c) \<and>
     (case pc_cwd c of None \<Rightarrow> True | Some d \<Rightarrow> no_surrogates d)"

definition command_line :: "mstring option \<Rightarrow> mstring list \<Rightarrow> mstring" where
  "command_line cwd argv =
     (case cwd of None \<Rightarrow> [] | Some d \<Rightarrow> str ''cd '' @ quoted d @ str '' && '') @
     join_with [32] (map quoted argv)"

lemma to_shell_command_eq [run_simps]:
  "command_ok c \<Longrightarrow>
   to_shell_command c = Some (command_line (pc_cwd c) (pc_program c # pc_args c))"
  by (auto simp: to_shell_command_def command_ok_def run_simps command_line_def Let_def
      split: option.splits)

subsection \<open>Bytes as units\<close>

definition widen :: "bytes \<Rightarrow> mstring" where
  "widen bs = map ucast bs"

lemma byte_bound: "unat (b :: byte) < 256"
  by (rule order.strict_trans2 [OF unsigned_less]) simp

lemma unat_ucast_byte:
  assumes "8 \<le> LENGTH('a::len)"
  shows "unat (ucast (b :: byte) :: 'a word) = unat b"
proof -
  have "unat b < 2 ^ 8" using byte_bound [of b] by simp
  also have "(2::nat) ^ 8 \<le> 2 ^ LENGTH('a)" using assms by (rule power_increasing) simp
  finally show ?thesis
    by (simp only: unsigned_ucast_eq take_bit_nat_eq_self)
qed

lemma char_to_string_byte: "char_to_string (uint (b :: byte)) = Some [ucast b]"
proof -
  have c: "(word_of_int (uint b) :: 32 word) = ucast b" by (simp only: ucast_eq)
  have "(ucast b :: 32 word) \<le> 65535"
    using byte_bound [of b] by (simp add: word_le_nat_alt unat_ucast_byte)
  moreover have "ucast (ucast b :: 32 word) = (ucast b :: code_unit)"
    by (rule bit_word_eqI) (auto simp: bit_simps)
  ultimately show ?thesis
    by (simp add: char_to_string_def write_char_def c Let_def)
qed

lemma ascii_from_bytes_eq [run_simps]: "ascii_from_bytes bs = Some (widen bs)"
proof -
  have "bytes_to_chars bs = Some (map (\<lambda>b. [ucast b]) bs)"
    by (induction bs) (auto simp: char_to_string_byte)
  then show ?thesis
    by (simp add: ascii_from_bytes_def run_simps join_with_Nil widen_def)
qed

lemma widen_append [simp]: "widen (a @ b) = widen a @ widen b"
  by (simp add: widen_def)

lemma widen_Nil [simp]: "widen [] = []"
  by (simp add: widen_def)

lemma widen_Cons [simp]: "widen (b # a) = ucast b # widen a"
  by (simp add: widen_def)

lemma length_widen [simp]: "length (widen a) = length a"
  by (simp add: widen_def)

lemma widen_plain: "c \<in> set (widen bs) \<Longrightarrow> plain_unit c"
proof -
  assume "c \<in> set (widen bs)"
  then obtain b :: byte where c: "c = ucast b" by (auto simp: widen_def)
  have "unat c = unat b" unfolding c by (rule unat_ucast_byte) simp
  then show ?thesis
    using byte_bound [of b] by (simp add: plain_unit_def word_less_nat_alt)
qed

lemma no_surrogates_widen [simp]: "no_surrogates (widen bs)"
  by (simp add: no_surrogates_plain widen_plain)

lemma bytes_from_widen: "bytes_from_ascii (widen bs) = bs"
proof -
  have low: "and c 255 = take_bit 8 c" for c :: code_unit
    by (simp add: take_bit_eq_mask mask_eq_exp_minus_1)
  have "ucast (and (ucast b :: code_unit) 255) = b" for b :: byte
    unfolding low by (rule bit_word_eqI) (auto simp: bit_simps)
  then show ?thesis by (simp add: bytes_from_ascii_def widen_def o_def)
qed

subsection \<open>Decoding inverts the encoding of the stub\<close>

lemma find_newline_eq:
  "no_surrogates s \<Longrightarrow> i \<le> length s \<Longrightarrow>
   find_newline s i = Some (i + length (takeWhile (\<lambda>c. c \<noteq> 10) (drop i s)))"
proof (induction s i rule: find_newline.induct)
  case (1 s i)
  show ?case
  proof (cases "i < length s")
    case True
    then have "drop i s = s ! i # drop (Suc i) s"
      by (simp add: Cons_nth_drop_Suc)
    then show ?thesis
      using True 1 by (subst find_newline.simps) (simp add: run_simps)
  qed (use 1 in \<open>simp add: find_newline.simps\<close>)
qed

lemma digit_word:
  assumes "d < (10::nat)"
  shows "(of_nat (48 + d) :: code_unit) \<noteq> 10" and "plain_unit (of_nat (48 + d))"
    and "ucast (of_nat (48 + d) :: code_unit) - 48 = (of_nat d :: 32 word)"
    and "ucast (of_nat (48 + d) :: byte) = (of_nat (48 + d) :: code_unit)"
proof -
  have "d = 0 \<or> d = 1 \<or> d = 2 \<or> d = 3 \<or> d = 4 \<or> d = 5 \<or> d = 6 \<or> d = 7 \<or> d = 8 \<or> d = 9"
    using assms by arith
  then show "(of_nat (48 + d) :: code_unit) \<noteq> 10" and "plain_unit (of_nat (48 + d))"
    and "ucast (of_nat (48 + d) :: code_unit) - 48 = (of_nat d :: 32 word)"
    and "ucast (of_nat (48 + d) :: byte) = (of_nat (48 + d) :: code_unit)"
    by (elim disjE; simp add: plain_unit_def)+
qed

lemma set_decimal: "c \<in> set (decimal n) \<Longrightarrow> \<exists>d < 10. c = of_nat (48 + d)"
proof (induction n rule: decimal.induct)
  case (1 n)
  have last: "n mod 10 < 10" by simp
  from 1(2) have "c = of_nat (48 + n) \<and> n < 10 \<or> c = of_nat (48 + n mod 10) \<or>
      \<not> n < 10 \<and> c \<in> set (decimal (n div 10))"
    by (subst (asm) decimal.simps) (simp split: if_splits)
  with 1(1) last show ?case by metis
qed

lemma parse_number_decimal [run_simps]: "parse_number (decimal n) = of_nat n"
proof (induction n rule: decimal.induct)
  case (1 n)
  show ?case
  proof (cases "n < 10")
    case True
    then show ?thesis
      by (subst decimal.simps) (simp add: parse_number_def digit_word(3) del: of_nat_add)
  next
    case False
    have "parse_number (decimal n) = of_nat (n div 10) * 10 + of_nat (n mod 10)"
      using 1 [OF False] False
      by (subst decimal.simps) (simp add: parse_number_def digit_word(3) del: of_nat_add)
    also have "\<dots> = of_nat (n div 10 * 10 + n mod 10)"
      by (simp only: of_nat_add of_nat_mult of_nat_numeral)
    finally show ?thesis by (simp only: div_mult_mod_eq)
  qed
qed

lemma decimal_clean:
  "10 \<notin> set (decimal n :: mstring)" "no_surrogates (decimal n)"
  using set_decimal [where 'a = 16] digit_word(1,2)
  by (fastforce intro: no_surrogates_plain)+

lemma widen_decimal [simp]: "widen (decimal n) = decimal n"
proof (induction n rule: decimal.induct)
  case (1 n)
  have "widen (decimal n) =
      (if n < 10 then [of_nat (48 + n)] else widen (decimal (n div 10)) @ [of_nat (48 + n mod 10)])"
    by (subst decimal.simps) (simp add: widen_def digit_word(4) del: of_nat_add)
  with 1 show ?case by (subst (2) decimal.simps) simp
qed

lemma length_decimal_units: "length (decimal n :: mstring) = length (decimal n :: bytes)"
  by (metis length_widen widen_decimal)

lemma parse_number_line_eq [run_simps]:
  assumes "encoded = pre @ decimal n @ 10 # rest" and "no_surrogates encoded"
    and "start = length pre"
  shows "parse_number_line encoded start =
    Some (of_nat n, start + length (decimal n :: mstring) + 1)"
proof -
  have "takeWhile (\<lambda>c. c \<noteq> 10) (drop start encoded) = decimal n"
    using decimal_clean(1) [of n] assms(1,3) by (auto simp: takeWhile_append)
  then have nl: "find_newline encoded start = Some (start + length (decimal n :: mstring))"
    using assms by (subst find_newline_eq) auto
  have "string_sub encoded (int start) (Some (int (start + length (decimal n :: mstring)))) =
      Some (decimal n)"
    using assms by (subst string_sub_eq) (auto simp: cut_ok_no_surrogates slice_def)
  with nl show ?thesis by (simp add: parse_number_line_def run_simps)
qed

text \<open>The layout of a result: exit code and the two lengths on lines, then the outputs.\<close>

definition encode_result :: "nat \<Rightarrow> 'a::len word list \<Rightarrow> 'a word list \<Rightarrow> 'a word list" where
  "encode_result code out err =
     decimal code @ 10 # decimal (length out) @ 10 # decimal (length err) @ 10 # out @ err"

lemma sint_of_nat_32: "n < 2 ^ 31 \<Longrightarrow> sint (of_nat n :: 32 word) = int n"
  by (simp add: signed_of_nat signed_take_bit_int_eq_self)

lemma parse_encode_result:
  assumes "no_surrogates out" and "no_surrogates err"
    and "length (encode_result code out err) < 2 ^ 31"
  shows "parse_process_result (encode_result code out err) =
    Some \<lparr>pr_exit_code = of_nat code, pr_stdout = out, pr_stderr = err, pr_output = out\<rparr>"
proof -
  let ?e = "encode_result code out err"
  let ?d = "\<lambda>n. decimal n :: mstring"
  let ?a = "length (?d code) + 1"
  let ?b = "?a + length (?d (length out)) + 1"
  let ?c = "?b + length (?d (length err)) + 1"
  have ok: "no_surrogates ?e"
    using assms(1,2) decimal_clean(2) digit_word(2)
    by (simp add: encode_result_def plain_unit_def)
  have 1: "parse_number_line ?e 0 = Some (of_nat code, ?a)"
    by (subst parse_number_line_eq [where pre = "[]", OF _ ok]) (simp_all add: encode_result_def)
  have 2: "parse_number_line ?e ?a = Some (of_nat (length out), ?b)"
    by (subst parse_number_line_eq [where pre = "?d code @ [10]", OF _ ok])
      (simp_all add: encode_result_def)
  have 3: "parse_number_line ?e ?b = Some (of_nat (length err), ?c)"
    by (subst parse_number_line_eq
        [where pre = "?d code @ 10 # ?d (length out) @ [10]", OF _ ok])
      (simp_all add: encode_result_def)
  have len: "length ?e = ?c + length out + length err"
    by (simp add: encode_result_def)
  have so: "sint (of_nat ?c + of_nat (length out) :: 32 word) = int (?c + length out)"
    using assms(3) len unfolding of_nat_add [symmetric] by (intro sint_of_nat_32) linarith
  have se: "sint (of_nat ?c + of_nat (length out) + of_nat (length err) :: 32 word) =
      int (?c + length out + length err)"
    using assms(3) len unfolding of_nat_add [symmetric] by (intro sint_of_nat_32) linarith
  obtain pre where pre: "?e = pre @ out @ err" "length pre = ?c"
    by (rule that [of "?d code @ 10 # ?d (length out) @ 10 # ?d (length err) @ [10]"])
      (simp_all add: encode_result_def)
  have o: "string_sub ?e (int ?c) (Some (int (?c + length out))) = Some out"
    using pre ok by (subst string_sub_eq) (auto simp: cut_ok_no_surrogates slice_def)
  have r: "string_sub ?e (int (?c + length out)) (Some (int (?c + length out + length err))) = Some err"
    using pre ok by (subst string_sub_eq) (auto simp: cut_ok_no_surrogates slice_def)
  show ?thesis
    unfolding parse_process_result_def 1 bind.bind_lunit prod.case 2 3 Let_def so se o r ..
qed

end
