(* ===== verification/Signals.thy ===== *)
theory Signals
  imports C_Memory
begin

text \<open>
  Signals and the small terminal stub: the signal mailbox of \<open>platform/signal_stub.c\<close>, the
  interrupt flag, output and sleep of \<open>cmd/mulp/main_stub.c\<close>. A handler may run between any
  two accesses of the program, so taking a signal is two steps.
\<close>

subsection \<open>The mailbox\<close>

definition SIGINT :: int where "SIGINT = 2"
definition SIGTERM :: int where "SIGTERM = 15"

text \<open>\<open>sg_taken\<close> is the local copy \<open>code\<close> of a \<open>mulp_take_signal\<close> in progress.\<close>

record signal_state =
  sg_code :: int
  sg_handled :: "int list"
  sg_alive :: bool
  sg_taken :: "int option"
  sg_results :: "int list"

definition signal_start :: signal_state where
  "signal_start = \<lparr>sg_code = 0, sg_handled = [], sg_alive = True, sg_taken = None, sg_results = []\<rparr>"

definition mulp_signal_handler :: "int \<Rightarrow> signal_state \<Rightarrow> signal_state" where
  "mulp_signal_handler code s = s\<lparr>sg_code := code\<rparr>"

definition mulp_install_signal_handlers :: "signal_state \<Rightarrow> signal_state" where
  "mulp_install_signal_handlers s = s\<lparr>sg_handled := SIGTERM # SIGINT # sg_handled s\<rparr>"

text \<open>A signal runs the handler when one is installed and ends the process otherwise.\<close>

definition mulp_raise_signal_for_test :: "int \<Rightarrow> signal_state \<Rightarrow> signal_state" where
  "mulp_raise_signal_for_test code s =
     (if code \<in> set (sg_handled s) then mulp_signal_handler code s else s\<lparr>sg_alive := False\<rparr>)"

definition take_signal_read :: "signal_state \<Rightarrow> signal_state" where
  "take_signal_read s = s\<lparr>sg_taken := Some (sg_code s)\<rparr>"

definition take_signal_clear :: "int \<Rightarrow> signal_state \<Rightarrow> signal_state" where
  "take_signal_clear code s =
     s\<lparr>sg_code := 0, sg_taken := None, sg_results := sg_results s @ [code]\<rparr>"

definition mulp_take_signal :: "signal_state \<Rightarrow> signal_state" where
  "mulp_take_signal s = take_signal_clear (sg_code s) (take_signal_read s)"

inductive signal_step :: "signal_state \<Rightarrow> signal_state \<Rightarrow> bool" where
  install: "sg_alive s \<Longrightarrow> signal_step s (mulp_install_signal_handlers s)"
| deliver: "sg_alive s \<Longrightarrow> code \<in> {SIGINT, SIGTERM} \<Longrightarrow> signal_step s (mulp_raise_signal_for_test code s)"
| take_read: "sg_alive s \<Longrightarrow> sg_taken s = None \<Longrightarrow> signal_step s (take_signal_read s)"
| take_clear: "sg_alive s \<Longrightarrow> sg_taken s = Some code \<Longrightarrow> signal_step s (take_signal_clear code s)"

inductive_cases signal_stepE: "signal_step s s'"

text \<open>No code other than the two handled signals is ever stored or returned.\<close>

definition known_codes :: "signal_state \<Rightarrow> bool" where
  "known_codes s \<longleftrightarrow> sg_code s \<in> {0, SIGINT, SIGTERM} \<and>
     (\<forall>c. sg_taken s = Some c \<longrightarrow> c \<in> {0, SIGINT, SIGTERM}) \<and>
     set (sg_results s) \<subseteq> {0, SIGINT, SIGTERM}"

lemma signal_step_known: "signal_step s s' \<Longrightarrow> known_codes s \<Longrightarrow> known_codes s'"
  by (erule signal_stepE)
    (auto simp: known_codes_def mulp_install_signal_handlers_def mulp_raise_signal_for_test_def
      mulp_signal_handler_def take_signal_read_def take_signal_clear_def)

subsection \<open>The interrupt flag\<close>

record main_state =
  mn_sigint_flag :: bool
  mn_registered :: bool
  mn_alive :: bool
  mn_exit :: "int option"
  mn_stdout :: bytes
  mn_stderr :: bytes

definition mulp_sigint_handler :: "main_state \<Rightarrow> main_state" where
  "mulp_sigint_handler s = s\<lparr>mn_sigint_flag := True\<rparr>"

definition mulp_register_sigint :: "main_state \<Rightarrow> main_state" where
  "mulp_register_sigint s = s\<lparr>mn_registered := True\<rparr>"

definition mulp_check_sigint :: "main_state \<Rightarrow> int" where
  "mulp_check_sigint s = (if mn_sigint_flag s then 1 else 0)"

definition interrupt :: "main_state \<Rightarrow> main_state" where
  "interrupt s = (if mn_registered s then mulp_sigint_handler s else s\<lparr>mn_alive := False\<rparr>)"

definition mulp_write_stdout :: "bytes \<Rightarrow> main_state \<Rightarrow> main_state" where
  "mulp_write_stdout text s = s\<lparr>mn_stdout := mn_stdout s @ text\<rparr>"

definition mulp_write_stderr :: "bytes \<Rightarrow> main_state \<Rightarrow> main_state" where
  "mulp_write_stderr text s = s\<lparr>mn_stderr := mn_stderr s @ text\<rparr>"

definition mulp_exit_process :: "int \<Rightarrow> main_state \<Rightarrow> main_state" where
  "mulp_exit_process status s = s\<lparr>mn_alive := False, mn_exit := Some (status mod 256)\<rparr>"

text \<open>Seconds and nanoseconds of a sleep, with the division and remainder of C.\<close>

definition c_div :: "int \<Rightarrow> int \<Rightarrow> int" where
  "c_div a b = sgn a * sgn b * (\<bar>a\<bar> div \<bar>b\<bar>)"

definition c_mod :: "int \<Rightarrow> int \<Rightarrow> int" where
  "c_mod a b = a - c_div a b * b"

definition mulp_sleep_ms :: "int \<Rightarrow> int \<times> int" where
  "mulp_sleep_ms ms = (c_div ms 1000, c_mod ms 1000 * 1000000)"

inductive main_step :: "main_state \<Rightarrow> main_state \<Rightarrow> bool" where
  register: "mn_alive s \<Longrightarrow> main_step s (mulp_register_sigint s)"
| interrupted: "mn_alive s \<Longrightarrow> main_step s (interrupt s)"
| out: "mn_alive s \<Longrightarrow> main_step s (mulp_write_stdout t s)"
| err: "mn_alive s \<Longrightarrow> main_step s (mulp_write_stderr t s)"
| leave: "mn_alive s \<Longrightarrow> main_step s (mulp_exit_process n s)"

inductive_cases main_stepE: "main_step s s'"

lemmas main_ops = mulp_sigint_handler_def mulp_register_sigint_def mulp_check_sigint_def interrupt_def
  mulp_write_stdout_def mulp_write_stderr_def mulp_exit_process_def

lemma main_step_sticky:
  "main_step s s' \<Longrightarrow> mn_sigint_flag s \<Longrightarrow> mn_sigint_flag s'"
  "main_step s s' \<Longrightarrow> mn_registered s \<Longrightarrow> mn_registered s'"
  "main_step s s' \<Longrightarrow> prefix (mn_stdout s) (mn_stdout s')"
  by (erule main_stepE; auto simp: main_ops)+

subsection \<open>Properties\<close>

text \<open>
  Whatever the interleaving of signals with the reading and clearing of the
  mailbox, a taken value is 0 or one of the two handled signals.
\<close>

theorem taken_signals_known:
  assumes "signal_step\<^sup>*\<^sup>* signal_start s"
  shows "set (sg_results s) \<subseteq> {0, SIGINT, SIGTERM}"
proof -
  have "known_codes s"
    using assms
  proof (induction rule: rtranclp_induct)
    case base
    show ?case by (simp add: signal_start_def known_codes_def)
  next
    case (step y z)
    then show ?case by (blast intro: signal_step_known)
  qed
  then show ?thesis by (simp add: known_codes_def)
qed

theorem taken_signals_known_witness:
  "set (sg_results (mulp_install_signal_handlers signal_start)) \<subseteq> {0, SIGINT, SIGTERM}"
  by (rule taken_signals_known) (auto intro!: r_into_rtranclp signal_step.install simp: signal_start_def)

text \<open>
  The mailbox can lose a signal: one that arrives between the read and the clear
  of a take is neither returned by that take nor left for the next.
\<close>

theorem signal_lost_between_read_and_clear:
  "signal_step\<^sup>*\<^sup>* (mulp_install_signal_handlers signal_start)
     (take_signal_clear 0 (mulp_raise_signal_for_test SIGINT
       (take_signal_read (mulp_install_signal_handlers signal_start)))) \<and>
   sg_results (mulp_take_signal (take_signal_clear 0 (mulp_raise_signal_for_test SIGINT
       (take_signal_read (mulp_install_signal_handlers signal_start))))) = [0, 0]"
proof -
  let ?s0 = "mulp_install_signal_handlers signal_start"
  have "signal_step ?s0 (take_signal_read ?s0)"
    by (rule take_read) (simp_all add: mulp_install_signal_handlers_def signal_start_def)
  moreover have "signal_step (take_signal_read ?s0) (mulp_raise_signal_for_test SIGINT (take_signal_read ?s0))"
    by (rule deliver) (simp_all add: mulp_install_signal_handlers_def signal_start_def take_signal_read_def)
  moreover have "signal_step (mulp_raise_signal_for_test SIGINT (take_signal_read ?s0))
      (take_signal_clear 0 (mulp_raise_signal_for_test SIGINT (take_signal_read ?s0)))"
    by (rule take_clear) (simp_all add: mulp_install_signal_handlers_def signal_start_def
        take_signal_read_def mulp_raise_signal_for_test_def mulp_signal_handler_def)
  ultimately have "signal_step\<^sup>*\<^sup>* ?s0
      (take_signal_clear 0 (mulp_raise_signal_for_test SIGINT (take_signal_read ?s0)))"
    by (meson rtranclp.rtrancl_into_rtrancl rtranclp.rtrancl_refl)
  then show ?thesis
    by (simp add: mulp_take_signal_def take_signal_clear_def take_signal_read_def
        mulp_raise_signal_for_test_def mulp_install_signal_handlers_def mulp_signal_handler_def
        signal_start_def)
qed

text \<open>
  Once the handler is registered an interrupt does not end the program, and the
  flag it sets is seen by every later check.
\<close>

theorem interrupt_flag_sticky:
  assumes "mn_registered s" and "main_step\<^sup>*\<^sup>* (interrupt s) s'"
  shows "mulp_check_sigint s' = 1 \<and> mn_alive (interrupt s) = mn_alive s"
proof -
  have "mn_sigint_flag (interrupt s)" and "mn_alive (interrupt s) = mn_alive s"
    using assms(1) by (simp_all add: main_ops)
  moreover have "mn_sigint_flag s'"
    using assms(2)
  proof (induction rule: rtranclp_induct)
    case base
    show ?case by (rule calculation(1))
  next
    case (step y z)
    then show ?case by (blast intro: main_step_sticky)
  qed
  ultimately show ?thesis by (simp add: mulp_check_sigint_def)
qed

theorem interrupt_flag_sticky_witness:
  "mulp_check_sigint (mulp_write_stdout [7] (interrupt \<lparr>mn_sigint_flag = False, mn_registered = True,
     mn_alive = True, mn_exit = None, mn_stdout = [], mn_stderr = []\<rparr>)) = 1"
proof -
  let ?s = "\<lparr>mn_sigint_flag = False, mn_registered = True, mn_alive = True, mn_exit = None,
    mn_stdout = [], mn_stderr = []\<rparr>"
  have "main_step\<^sup>*\<^sup>* (interrupt ?s) (mulp_write_stdout [7] (interrupt ?s))"
    by (intro r_into_rtranclp main_step.out) (simp add: main_ops)
  from interrupt_flag_sticky [OF _ this] show ?thesis by simp
qed

text \<open>
  For a sleep that is not negative the two fields are the milliseconds exactly,
  with the nanoseconds in the range the system call accepts.
\<close>

theorem sleep_ms_exact:
  assumes "0 \<le> ms"
  shows "fst (mulp_sleep_ms ms) * 1000000000 + snd (mulp_sleep_ms ms) = ms * 1000000 \<and>
    0 \<le> snd (mulp_sleep_ms ms) \<and> snd (mulp_sleep_ms ms) < 1000000000"
proof -
  have d: "c_div ms 1000 = ms div 1000"
    using assms by (cases "ms = 0") (simp_all add: c_div_def)
  have m: "c_mod ms 1000 = ms mod 1000"
    by (simp add: c_mod_def d minus_div_mult_eq_mod)
  have "ms = ms div 1000 * 1000 + ms mod 1000" by simp
  moreover have "0 \<le> ms mod 1000" "ms mod 1000 < 1000" by simp_all
  ultimately show ?thesis
    unfolding mulp_sleep_ms_def d m fst_conv snd_conv by linarith
qed

theorem sleep_ms_exact_witness:
  "fst (mulp_sleep_ms 2500) * 1000000000 + snd (mulp_sleep_ms 2500) = 2500 * 1000000 \<and>
    0 \<le> snd (mulp_sleep_ms 2500) \<and> snd (mulp_sleep_ms 2500) < 1000000000"
  by (rule sleep_ms_exact) simp

end
