(* ===== verification/Utf8.thy ===== *)
theory Utf8
  imports String_Ops
begin

text \<open>
  The UTF-8 codec of the runtime library as it is compiled into the program: the encoder makes
  two passes, one for the size and one that fills a buffer of that size; the lossy decoder
  fills a buffer of two bytes for each input byte and cuts a string out of it. Integers are the
  C \<open>int32_t\<close> values, with the bit operations of the code; none of them leaves the range.
\<close>

text \<open>A store into a byte array; a store past the end stops the program.\<close>

definition poke :: "bytes \<Rightarrow> nat \<Rightarrow> int \<Rightarrow> bytes run" where
  "poke arr i v = (if i < length arr then Some (arr[i := word_of_int (and v 255)]) else None)"

subsection \<open>The encoder\<close>

definition is_surrogate :: "code_unit \<Rightarrow> bool" where
  "is_surrogate c \<longleftrightarrow> 0xD800 \<le> c \<and> c \<le> 0xDFFF"

fun encoded_length :: "mstring \<Rightarrow> nat \<Rightarrow> nat run" where
  "encoded_length [] n = Some n"
| "encoded_length (code # rest) n =
     (if code < 128 then encoded_length rest (n + 1)
      else if code < 2048 then encoded_length rest (n + 2)
      else if is_leading_surrogate code \<and> rest \<noteq> [] \<and> is_trailing_surrogate (hd rest)
      then encoded_length (tl rest) (n + 4)
      else if is_surrogate code then None
      else encoded_length rest (n + 3))"

definition put2 :: "bytes \<Rightarrow> nat \<Rightarrow> int \<Rightarrow> bytes run" where
  "put2 arr offset code = do {
     arr \<leftarrow> poke arr offset (192 + drop_bit 6 code);
     poke arr (offset + 1) (128 + and code 63)
   }"

definition put3 :: "bytes \<Rightarrow> nat \<Rightarrow> int \<Rightarrow> bytes run" where
  "put3 arr offset code = do {
     arr \<leftarrow> poke arr offset (224 + drop_bit 12 code);
     arr \<leftarrow> poke arr (offset + 1) (128 + and (drop_bit 6 code) 63);
     poke arr (offset + 2) (128 + and code 63)
   }"

definition put4 :: "bytes \<Rightarrow> nat \<Rightarrow> int \<Rightarrow> bytes run" where
  "put4 arr offset code = do {
     arr \<leftarrow> poke arr offset (240 + drop_bit 18 code);
     arr \<leftarrow> poke arr (offset + 1) (128 + and (drop_bit 12 code) 63);
     arr \<leftarrow> poke arr (offset + 2) (128 + and (drop_bit 6 code) 63);
     poke arr (offset + 3) (128 + and code 63)
   }"

fun encode_fill :: "mstring \<Rightarrow> bytes \<Rightarrow> nat \<Rightarrow> bytes run" where
  "encode_fill [] arr offset = Some arr"
| "encode_fill (unit # rest) arr offset =
     (let code = uint unit in
      if code < 128 then do {
        arr \<leftarrow> poke arr offset code;
        encode_fill rest arr (offset + 1)
      } else if code < 2048 then do {
        arr \<leftarrow> put2 arr offset code;
        encode_fill rest arr (offset + 2)
      } else if is_leading_surrogate unit \<and> rest \<noteq> [] then
        (let trailing = hd rest in
         if is_trailing_surrogate trailing then do {
           arr \<leftarrow> put4 arr offset
             (push_bit 10 (code - 55296) + (uint trailing - 56320) + 65536);
           encode_fill (tl rest) arr (offset + 4)
         } else None)
      else if is_surrogate unit then None
      else do {
        arr \<leftarrow> put3 arr offset code;
        encode_fill rest arr (offset + 3)
      })"

definition utf8_encode :: "mstring \<Rightarrow> bytes run" where
  "utf8_encode s = do {
     utf8_length \<leftarrow> encoded_length s 0;
     encode_fill s (replicate utf8_length 0) 0
   }"

subsection \<open>The lossy decoder\<close>

text \<open>
  What the match at the head of the remaining bytes finds: a sequence of one to four bytes, or
  an ill-formed one. The second component of the result is the rest of the input; an ill-formed
  sequence drops the longest prefix that could have begun a character.
\<close>

datatype utf8_item =
    One byte
  | Two byte byte
  | Three byte byte byte
  | Four byte byte byte byte
  | Invalid

definition in_range :: "byte \<Rightarrow> byte \<Rightarrow> byte \<Rightarrow> bool" where
  "in_range lo hi b \<longleftrightarrow> lo \<le> b \<and> b \<le> hi"

abbreviation cont :: "byte \<Rightarrow> bool" where
  "cont \<equiv> in_range 128 191"

definition match_two :: "byte \<Rightarrow> bytes \<Rightarrow> utf8_item \<times> bytes" where
  "match_two b0 rest =
     (case rest of
        [] \<Rightarrow> (Invalid, rest)
      | b1 # rest1 \<Rightarrow> if cont b1 then (Two b0 b1, rest1) else (Invalid, rest))"

definition match_three :: "byte \<Rightarrow> byte \<Rightarrow> byte \<Rightarrow> bytes \<Rightarrow> utf8_item \<times> bytes" where
  "match_three lo hi b0 rest =
     (case rest of
        [] \<Rightarrow> (Invalid, rest)
      | b1 # rest1 \<Rightarrow>
          if in_range lo hi b1 then
            (case rest1 of
               [] \<Rightarrow> (Invalid, rest1)
             | b2 # rest2 \<Rightarrow> if cont b2 then (Three b0 b1 b2, rest2) else (Invalid, rest1))
          else (Invalid, rest))"

definition match_four :: "byte \<Rightarrow> byte \<Rightarrow> byte \<Rightarrow> bytes \<Rightarrow> utf8_item \<times> bytes" where
  "match_four lo hi b0 rest =
     (case rest of
        [] \<Rightarrow> (Invalid, rest)
      | b1 # rest1 \<Rightarrow>
          if in_range lo hi b1 then
            (case rest1 of
               [] \<Rightarrow> (Invalid, rest1)
             | b2 # rest2 \<Rightarrow>
                 if cont b2 then
                   (case rest2 of
                      [] \<Rightarrow> (Invalid, rest2)
                    | b3 # rest3 \<Rightarrow>
                        if cont b3 then (Four b0 b1 b2 b3, rest3) else (Invalid, rest2))
                 else (Invalid, rest1))
          else (Invalid, rest))"

definition utf8_match :: "byte \<Rightarrow> bytes \<Rightarrow> utf8_item \<times> bytes" where
  "utf8_match b0 rest =
     (if b0 \<le> 127 then (One b0, rest)
      else if in_range 194 223 b0 then match_two b0 rest
      else if b0 = 224 then match_three 160 191 b0 rest
      else if in_range 225 236 b0 then match_three 128 191 b0 rest
      else if b0 = 237 then match_three 128 159 b0 rest
      else if in_range 238 239 b0 then match_three 128 191 b0 rest
      else if b0 = 240 then match_four 144 191 b0 rest
      else if in_range 241 243 b0 then match_four 128 191 b0 rest
      else if b0 = 244 then match_four 128 143 b0 rest
      else (Invalid, rest))"

text \<open>The character of a sequence of two, three or four bytes.\<close>

definition char_of_two :: "byte \<Rightarrow> byte \<Rightarrow> int" where
  "char_of_two b0 b1 = or (push_bit 6 (and (uint b0) 31)) (and (uint b1) 63)"

definition char_of_three :: "byte \<Rightarrow> byte \<Rightarrow> byte \<Rightarrow> int" where
  "char_of_three b0 b1 b2 =
     or (or (push_bit 12 (and (uint b0) 15)) (push_bit 6 (and (uint b1) 63))) (and (uint b2) 63)"

definition char_of_four :: "byte \<Rightarrow> byte \<Rightarrow> byte \<Rightarrow> byte \<Rightarrow> int" where
  "char_of_four b0 b1 b2 b3 =
     or (or (or (push_bit 18 (and (uint b0) 7)) (push_bit 12 (and (uint b1) 63)))
        (push_bit 6 (and (uint b2) 63))) (and (uint b3) 63)"

text \<open>A unit is stored low byte first.\<close>

definition put_unit :: "bytes \<Rightarrow> nat \<Rightarrow> int \<Rightarrow> bytes run" where
  "put_unit t tlen ch = do { t \<leftarrow> poke t tlen ch; poke t (tlen + 1) (drop_bit 8 ch) }"

definition put_item :: "bytes \<Rightarrow> nat \<Rightarrow> utf8_item \<Rightarrow> (bytes \<times> nat) run" where
  "put_item t tlen item =
     (case item of
        One b \<Rightarrow> do { t \<leftarrow> poke t tlen (uint b); Some (t, tlen + 2) }
      | Two b0 b1 \<Rightarrow> do { t \<leftarrow> put_unit t tlen (char_of_two b0 b1); Some (t, tlen + 2) }
      | Three b0 b1 b2 \<Rightarrow> do { t \<leftarrow> put_unit t tlen (char_of_three b0 b1 b2); Some (t, tlen + 2) }
      | Four b0 b1 b2 b3 \<Rightarrow> do {
          let chm = char_of_four b0 b1 b2 b3 - 65536;
          t \<leftarrow> put_unit t tlen (drop_bit 10 chm + 55296);
          t \<leftarrow> put_unit t (tlen + 2) (and chm 1023 + 56320);
          Some (t, tlen + 4)
        }
      | Invalid \<Rightarrow> do {
          t \<leftarrow> poke t tlen 253;
          t \<leftarrow> poke t (tlen + 1) 255;
          Some (t, tlen + 2)
        })"

lemma match_rest_length:
  "length (snd (match_two b0 r)) \<le> length r"
  "length (snd (match_three lo hi b0 r)) \<le> length r"
  "length (snd (match_four lo hi b0 r)) \<le> length r"
  by (auto simp: match_two_def match_three_def match_four_def split: list.splits)

lemma utf8_match_length: "length (snd (utf8_match b0 r)) \<le> length r"
  by (simp add: utf8_match_def match_rest_length)

text \<open>Eight ASCII bytes at once; the odd bytes of the buffer keep the zero they were made with.\<close>

fun put_ascii :: "bytes \<Rightarrow> nat \<Rightarrow> bytes \<Rightarrow> bytes run" where
  "put_ascii t tlen [] = Some t"
| "put_ascii t tlen (b # bs) = do { t \<leftarrow> poke t tlen (uint b); put_ascii t (tlen + 2) bs }"

definition ascii_eight :: "bytes \<Rightarrow> bool" where
  "ascii_eight bs \<longleftrightarrow> 8 \<le> length bs \<and> list_all (\<lambda>b. b \<le> 127) (take 8 bs)"

lemma ascii_eight_length: "ascii_eight bs \<Longrightarrow> 8 \<le> length bs"
  by (simp add: ascii_eight_def)

function decode_loop :: "bytes \<Rightarrow> nat \<Rightarrow> bytes \<Rightarrow> (bytes \<times> nat) run" where
  "decode_loop t tlen bs =
     (if bs = [] then Some (t, tlen)
      else if ascii_eight bs then do {
        t \<leftarrow> put_ascii t tlen (take 8 bs);
        decode_loop t (tlen + 16) (drop 8 bs)
      } else do {
        (t, tlen) \<leftarrow> put_item t tlen (fst (utf8_match (hd bs) (tl bs)));
        decode_loop t tlen (snd (utf8_match (hd bs) (tl bs)))
      })"
  by pat_completeness auto
termination
proof (relation "measure (\<lambda>(_, _, bs). length bs)")
  fix bs :: bytes and t tlen x xa y
  assume "bs \<noteq> []"
  then show "((xa, y, snd (utf8_match (hd bs) (tl bs))), (t, tlen, bs))
      \<in> measure (\<lambda>(_, _, bs). length bs)"
    using utf8_match_length [of "hd bs" "tl bs"] by (cases bs) auto
qed auto

declare decode_loop.simps [simp del]

text \<open>The string cut out of the buffer: the units of an even number of bytes.\<close>

fun units_le :: "bytes \<Rightarrow> mstring" where
  "units_le (lo # hi # bs) = word_of_int (uint lo + 256 * uint hi) # units_le bs"
| "units_le bs = []"

definition to_unchecked_string :: "bytes \<Rightarrow> nat \<Rightarrow> mstring run" where
  "to_unchecked_string self len = (if len \<le> length self then Some (units_le (take len self)) else None)"

definition strip_bom :: "bytes \<Rightarrow> bool \<Rightarrow> bytes" where
  "strip_bom bs ignore_bom =
     (if ignore_bom \<and> 3 \<le> length bs \<and> take 3 bs = [239, 187, 191] then drop 3 bs else bs)"

definition decode_lossy :: "bytes \<Rightarrow> bool \<Rightarrow> mstring run" where
  "decode_lossy bs0 ignore_bom = do {
     let bs = strip_bom bs0 ignore_bom;
     (t, tlen) \<leftarrow> decode_loop (replicate (length bs * 2) 0) 0 bs;
     to_unchecked_string t tlen
   }"

subsection \<open>What the decoder delivers\<close>

definition unit_of :: "int \<Rightarrow> code_unit" where
  "unit_of ch = word_of_int ch"

fun item_units :: "utf8_item \<Rightarrow> mstring" where
  "item_units (One b) = [unit_of (uint b)]"
| "item_units (Two b0 b1) = [unit_of (char_of_two b0 b1)]"
| "item_units (Three b0 b1 b2) = [unit_of (char_of_three b0 b1 b2)]"
| "item_units (Four b0 b1 b2 b3) =
     [unit_of (drop_bit 10 (char_of_four b0 b1 b2 b3 - 65536) + 55296),
      unit_of (and (char_of_four b0 b1 b2 b3 - 65536) 1023 + 56320)]"
| "item_units Invalid = [0xFFFD]"

function decoded :: "bytes \<Rightarrow> mstring" where
  "decoded [] = []"
| "decoded (b # bs) = item_units (fst (utf8_match b bs)) @ decoded (snd (utf8_match b bs))"
  by pat_completeness auto
termination
  by (relation "measure length") (auto simp: less_Suc_eq_le utf8_match_length)

fun le_bytes :: "mstring \<Rightarrow> bytes" where
  "le_bytes [] = []"
| "le_bytes (u # us) = word_of_int (uint u) # word_of_int (drop_bit 8 (uint u)) # le_bytes us"

lemma or_push: "0 \<le> b \<Longrightarrow> b < 2 ^ n \<Longrightarrow> or (push_bit n a) b = a * 2 ^ n + (b :: int)"
  using concat_bit_eq [of n b a]
  by (simp add: concat_bit_def take_bit_int_eq_self push_bit_eq_mult ac_simps)

lemma and_low: "and x (2 ^ n - 1) = x mod 2 ^ n" for x :: int
  using take_bit_eq_mask [of n x] by (simp add: take_bit_eq_mod mask_eq_exp_minus_1)

lemma and_low_bits:
  fixes x :: int
  shows "and x 7 = x mod 8" and "and x 15 = x mod 16" and "and x 31 = x mod 32"
    and "and x 63 = x mod 64" and "and x 255 = x mod 256" and "and x 1023 = x mod 1024"
proof -
  show "and x 7 = x mod 8" using and_low [of x 3] by simp
  show "and x 15 = x mod 16" using and_low [of x 4] by simp
  show "and x 31 = x mod 32" using and_low [of x 5] by simp
  show "and x 63 = x mod 64" using and_low [of x 6] by simp
  show "and x 255 = x mod 256" using and_low [of x 8] by simp
  show "and x 1023 = x mod 1024" using and_low [of x 10] by simp
qed

lemma word_of_int_low_byte [simp]: "(word_of_int (and v 255) :: byte) = word_of_int v"
  by (simp add: and_low_bits word_of_int_eq_iff take_bit_eq_mod)

lemma poke_at: "i = length xs \<Longrightarrow> poke (xs @ b # ys) i v = Some (xs @ word_of_int v # ys)"
  by (simp add: poke_def)

lemma char_of_two_eq: "char_of_two b0 b1 = (uint b0 mod 32) * 64 + uint b1 mod 64"
  using or_push [of "uint b1 mod 64" 6 "uint b0 mod 32"] by (simp add: char_of_two_def and_low_bits)

lemma or_push_12: "0 \<le> b \<Longrightarrow> b < 64 \<Longrightarrow> or (push_bit 12 a) (push_bit 6 b) = a * 4096 + b * (64 :: int)"
  using or_push [of "push_bit 6 b" 12 a] by (simp add: push_bit_eq_mult)

lemma push_6: "a * 64 = push_bit 6 (a :: int)" by (simp add: push_bit_eq_mult)

lemma char_of_three_eq:
  "char_of_three b0 b1 b2 = (uint b0 mod 16) * 4096 + (uint b1 mod 64) * 64 + uint b2 mod 64"
proof -
  have "or (push_bit 12 (uint b0 mod 16)) (push_bit 6 (uint b1 mod 64)) =
      push_bit 6 ((uint b0 mod 16) * 64 + uint b1 mod 64)"
    by (subst or_push_12) (simp_all add: push_bit_eq_mult)
  moreover have "or (push_bit 6 ((uint b0 mod 16) * 64 + uint b1 mod 64)) (uint b2 mod 64) =
      (uint b0 mod 16) * 4096 + (uint b1 mod 64) * 64 + uint b2 mod 64"
    by (subst or_push) simp_all
  ultimately show ?thesis by (simp only: char_of_three_def and_low_bits)
qed

lemma char_of_four_eq:
  "char_of_four b0 b1 b2 b3 =
     (uint b0 mod 8) * 262144 + (uint b1 mod 64) * 4096 + (uint b2 mod 64) * 64 + uint b3 mod 64"
proof -
  define a where "a = (uint b0 mod 8) * 64 + uint b1 mod 64"
  have "or (push_bit 18 (uint b0 mod 8)) (push_bit 12 (uint b1 mod 64)) = push_bit 12 a"
    using or_push [of "push_bit 12 (uint b1 mod 64)" 18 "uint b0 mod 8"]
    by (simp add: push_bit_eq_mult a_def)
  moreover have "or (push_bit 12 a) (push_bit 6 (uint b2 mod 64)) = push_bit 6 (a * 64 + uint b2 mod 64)"
    by (subst or_push_12) (simp_all add: push_bit_eq_mult)
  moreover have "or (push_bit 6 (a * 64 + uint b2 mod 64)) (uint b3 mod 64) =
      (a * 64 + uint b2 mod 64) * 64 + uint b3 mod 64"
    by (subst or_push) simp_all
  ultimately show ?thesis by (simp add: char_of_four_def and_low_bits a_def)
qed

text \<open>Units stored at the front of the buffer.\<close>

lemma le_bytes_append [simp]: "le_bytes (us @ vs) = le_bytes us @ le_bytes vs"
  by (induction us) simp_all

lemma length_le_bytes [simp]: "length (le_bytes us) = 2 * length us"
  by (induction us) simp_all

lemma uint_unit_of: "0 \<le> ch \<Longrightarrow> ch < 65536 \<Longrightarrow> uint (unit_of ch) = ch"
  by (simp add: unit_of_def uint_word_of_int)

lemma put_unit_at:
  assumes "0 \<le> ch" and "ch < 65536"
  shows "put_unit (le_bytes out @ 0 # 0 # zs) (2 * length out) ch = Some (le_bytes (out @ [unit_of ch]) @ zs)"
proof -
  have "poke (le_bytes out @ 0 # 0 # zs) (2 * length out) ch =
      Some (le_bytes out @ word_of_int ch # 0 # zs)"
    by (rule poke_at) simp
  moreover have "poke ((le_bytes out @ [word_of_int ch]) @ 0 # zs) (2 * length out + 1) (drop_bit 8 ch) =
      Some ((le_bytes out @ [word_of_int ch]) @ word_of_int (drop_bit 8 ch) # zs)"
    by (rule poke_at) simp
  ultimately show ?thesis using assms by (simp add: put_unit_def uint_unit_of)
qed

lemma units_le_bytes: "units_le (le_bytes us) = us"
proof (induction us)
  case (Cons u us)
  have u: "uint u < 65536" using uint_lt2p [of u] by simp
  then have "uint u div 256 mod 256 = uint u div 256"
    by (intro mod_pos_pos_trivial) (simp_all add: pos_imp_zdiv_nonneg_iff)
  then have "uint (word_of_int (uint u) :: byte) + 256 * uint (word_of_int (drop_bit 8 (uint u)) :: byte) = uint u"
    by (simp add: uint_word_of_int drop_bit_eq_div unsigned_ucast_eq take_bit_eq_mod)
  then show ?case using Cons by simp
qed simp

lemma replicate_two: "2 \<le> m \<Longrightarrow> replicate m x = x # x # replicate (m - 2) x"
  by (cases m; cases "m - 1") auto

lemma put_byte_at:
  "poke (le_bytes out @ 0 # 0 # zs) (2 * length out) (uint b) =
     Some (le_bytes (out @ [unit_of (uint (b :: byte))]) @ zs)"
proof -
  have "drop_bit 8 (uint b) = 0"
    using uint_lt2p [of b] by (simp add: drop_bit_eq_div)
  moreover have "uint (unit_of (uint b)) = uint b"
    using uint_lt2p [of b] by (simp add: uint_unit_of)
  ultimately show ?thesis by (simp add: poke_at)
qed

lemma put_replacement_at:
  "poke (le_bytes out @ 0 # 0 # zs) (2 * length out) 253 \<bind>
     (\<lambda>t. poke t (2 * length out + 1) 255) = Some (le_bytes (out @ [0xFFFD]) @ zs)"
proof -
  have "poke ((le_bytes out @ [253]) @ 0 # zs) (2 * length out + 1) 255 =
      Some ((le_bytes out @ [253]) @ word_of_int 255 # zs)"
    by (rule poke_at) simp
  then show ?thesis by (simp add: poke_at)
qed

lemma put_item_at:
  assumes "2 * length (item_units item) \<le> m"
  shows "put_item (le_bytes out @ replicate m 0) (2 * length out) item =
    Some (le_bytes (out @ item_units item) @ replicate (m - 2 * length (item_units item)) 0,
          2 * length (out @ item_units item))"
proof (cases item)
  case (One b)
  then show ?thesis using assms by (simp add: put_item_def replicate_two put_byte_at del: le_bytes_append)
next
  case (Two b0 b1)
  have "0 \<le> char_of_two b0 b1 \<and> char_of_two b0 b1 < 65536" by (simp add: char_of_two_eq)
  then show ?thesis using assms Two
    by (simp add: put_item_def replicate_two put_unit_at del: le_bytes_append)
next
  case (Three b0 b1 b2)
  have "0 \<le> char_of_three b0 b1 b2 \<and> char_of_three b0 b1 b2 < 65536"
    by (simp add: char_of_three_eq)
  then show ?thesis using assms Three
    by (simp add: put_item_def replicate_two put_unit_at del: le_bytes_append)
next
  case (Four b0 b1 b2 b3)
  define chm where "chm = char_of_four b0 b1 b2 b3 - 65536"
  have "- 65536 \<le> chm \<and> chm < 2097152"
    by (simp add: chm_def char_of_four_eq)
  then have hi: "0 \<le> drop_bit 10 chm + 55296 \<and> drop_bit 10 chm + 55296 < 65536"
    unfolding drop_bit_eq_div by (simp, linarith)
  have lo: "0 \<le> and chm 1023 + 56320 \<and> and chm 1023 + 56320 < 65536"
    by (simp add: and_low_bits)
  have "put_unit (le_bytes (out @ [u]) @ 0 # 0 # zs) (2 * length out + 2) (and chm 1023 + 56320) =
      Some (le_bytes (out @ [u, unit_of (and chm 1023 + 56320)]) @ zs)" for u zs
    using put_unit_at [of "and chm 1023 + 56320" "out @ [u]" zs] lo by simp
  with hi show ?thesis using assms Four
    by (simp add: put_item_def replicate_two put_unit_at chm_def Let_def del: le_bytes_append)
next
  case Invalid
  have "put_item t n Invalid = (poke t n 253 \<bind> (\<lambda>t. poke t (n + 1) 255)) \<bind> (\<lambda>t. Some (t, n + 2))"
    for t n by (simp add: put_item_def)
  then show ?thesis using assms Invalid put_replacement_at [of out "replicate (m - 2) 0"]
    by (simp add: replicate_two del: le_bytes_append bind_assoc)
qed

lemma match_items_length:
  "length (item_units (fst (match_two b r))) + length (snd (match_two b r)) \<le> Suc (length r)"
  "length (item_units (fst (match_three lo hi b r))) + length (snd (match_three lo hi b r)) \<le> Suc (length r)"
  "length (item_units (fst (match_four lo hi b r))) + length (snd (match_four lo hi b r)) \<le> Suc (length r)"
  by (auto simp: match_two_def match_three_def match_four_def split: list.split)

lemma item_units_length:
  "2 * length (item_units (fst (utf8_match b r))) + 2 * length (snd (utf8_match b r)) \<le> 2 * Suc (length r)"
proof -
  have "length (item_units (fst (utf8_match b r))) + length (snd (utf8_match b r)) \<le> Suc (length r)"
    by (simp add: utf8_match_def match_items_length)
  then show ?thesis by simp
qed

lemma put_ascii_at:
  "2 * length bs \<le> m \<Longrightarrow> put_ascii (le_bytes out @ replicate m 0) (2 * length out) bs =
    Some (le_bytes (out @ map (\<lambda>b. unit_of (uint b)) bs) @ replicate (m - 2 * length bs) 0)"
proof (induction bs arbitrary: out m)
  case (Cons b bs)
  have "2 \<le> m" and "2 * length bs \<le> m - 2" using Cons.prems by simp_all
  then show ?case
    using Cons.IH [of "m - 2" "out @ [unit_of (uint b)]"]
    by (simp add: replicate_two put_byte_at del: le_bytes_append)
qed simp

lemma decoded_ascii:
  "list_all (\<lambda>b. b \<le> 127) bs \<Longrightarrow> decoded (bs @ cs) = map (\<lambda>b. unit_of (uint b)) bs @ decoded cs"
  by (induction bs) (simp_all add: utf8_match_def)

lemma decode_loop_at:
  "2 * length bs \<le> m \<Longrightarrow>
   \<exists>k. decode_loop (le_bytes out @ replicate m 0) (2 * length out) bs =
     Some (le_bytes (out @ decoded bs) @ replicate k 0, 2 * length (out @ decoded bs))"
proof (induction bs arbitrary: out m rule: length_induct)
  case (1 bs)
  show ?case
  proof (cases bs)
    case Nil
    then show ?thesis by (auto simp: decode_loop.simps)
  next
    case (Cons b r)
    show ?thesis
    proof (cases "ascii_eight bs")
      case True
      then have eight: "8 \<le> length bs" "list_all (\<lambda>b. b \<le> 127) (take 8 bs)"
        by (simp_all add: ascii_eight_def)
      let ?us = "map (\<lambda>b. unit_of (uint b)) (take 8 bs)"
      have dec: "decoded bs = ?us @ decoded (drop 8 bs)"
        using decoded_ascii [OF eight(2), of "drop 8 bs"] by simp
      have len: "length ?us = 8" using eight by simp
      have put: "put_ascii (le_bytes out @ replicate m 0) (2 * length out) (take 8 bs) =
          Some (le_bytes (out @ ?us) @ replicate (m - 16) 0)"
        using put_ascii_at [of "take 8 bs" m out] eight "1.prems" by simp
      have small: "length (drop 8 bs) < length bs" "2 * length (drop 8 bs) \<le> m - 16"
        using eight "1.prems" by simp_all
      obtain k where "decode_loop (le_bytes (out @ ?us) @ replicate (m - 16) 0) (2 * length (out @ ?us))
            (drop 8 bs) =
          Some (le_bytes ((out @ ?us) @ decoded (drop 8 bs)) @ replicate k 0,
                2 * length ((out @ ?us) @ decoded (drop 8 bs)))"
        using "1.IH" [rule_format, OF small] by blast
      moreover have "2 * length (out @ ?us) = 2 * length out + 16" using len by simp
      ultimately have "decode_loop (le_bytes out @ replicate m 0) (2 * length out) bs =
          Some (le_bytes (out @ decoded bs) @ replicate k 0, 2 * length (out @ decoded bs))"
        using Cons True put dec
        by (subst decode_loop.simps) (simp del: le_bytes_append length_append)
      then show ?thesis ..
    next
      case False
      let ?us = "item_units (fst (utf8_match b r))" and ?r = "snd (utf8_match b r)"
      have bound: "2 * length ?us + 2 * length ?r \<le> m" "2 * length ?us \<le> m"
        using item_units_length [of b r] "1.prems" Cons by simp_all
      have small: "length ?r < length bs" "2 * length ?r \<le> m - 2 * length ?us"
        using bound Cons utf8_match_length [of b r] by simp_all
      obtain k where "decode_loop (le_bytes (out @ ?us) @ replicate (m - 2 * length ?us) 0)
            (2 * length (out @ ?us)) ?r =
          Some (le_bytes ((out @ ?us) @ decoded ?r) @ replicate k 0, 2 * length ((out @ ?us) @ decoded ?r))"
        using "1.IH" [rule_format, OF small] by blast
      then have "decode_loop (le_bytes out @ replicate m 0) (2 * length out) bs =
          Some (le_bytes (out @ decoded bs) @ replicate k 0, 2 * length (out @ decoded bs))"
        using Cons False put_item_at [OF bound(2), of out]
        by (subst decode_loop.simps) (simp del: le_bytes_append length_append)
      then show ?thesis ..
    qed
  qed
qed

lemma decode_lossy_eq: "decode_lossy bs ignore_bom = Some (decoded (strip_bom bs ignore_bom))"
proof -
  let ?bs = "strip_bom bs ignore_bom"
  obtain k where "decode_loop (replicate (length ?bs * 2) 0) 0 ?bs =
      Some (le_bytes (decoded ?bs) @ replicate k 0, 2 * length (decoded ?bs))"
    using decode_loop_at [of ?bs "length ?bs * 2" "[]"] by auto
  then show ?thesis
    by (simp add: decode_lossy_def to_unchecked_string_def units_le_bytes Let_def)
qed

subsection \<open>What the encoder delivers\<close>

fun char_bytes :: "int \<Rightarrow> bytes" where
  "char_bytes c =
     map word_of_int
       (if c < 128 then [c]
        else if c < 2048 then [192 + c div 64, 128 + c mod 64]
        else if c < 65536 then [224 + c div 4096, 128 + c div 64 mod 64, 128 + c mod 64]
        else [240 + c div 262144, 128 + c div 4096 mod 64, 128 + c div 64 mod 64, 128 + c mod 64])"

declare char_bytes.simps [simp del]

definition encoding :: "mstring \<Rightarrow> bytes" where
  "encoding s = concat (map char_bytes (string_chars s))"

lemma encoding_simps [simp]:
  "encoding [] = []"
  "is_leading_surrogate c1 \<Longrightarrow> is_trailing_surrogate c2 \<Longrightarrow>
     encoding (c1 # c2 # s) = char_bytes (code_point_of_surrogate_pair c1 c2) @ encoding s"
  "\<not> is_leading_surrogate c1 \<Longrightarrow> encoding (c1 # s) = char_bytes (uint c1) @ encoding s"
  by (simp_all add: encoding_def) (cases s; simp)

lemma surrogate_cases:
  "is_surrogate c \<longleftrightarrow> is_leading_surrogate c \<or> is_trailing_surrogate c"
  by (auto simp: is_surrogate_def is_leading_surrogate_def is_trailing_surrogate_def word_le_def)

lemma small_not_surrogate: "uint (c :: code_unit) < 2048 \<Longrightarrow> \<not> is_leading_surrogate c \<and> \<not> is_trailing_surrogate c"
  by (simp add: is_leading_surrogate_def is_trailing_surrogate_def word_le_def word_less_def)

lemma pair_range:
  assumes "is_leading_surrogate c1" and "is_trailing_surrogate c2"
  shows "65536 \<le> code_point_of_surrogate_pair c1 c2" and "code_point_of_surrogate_pair c1 c2 < 1114112"
  using assms
  by (simp_all add: is_leading_surrogate_def is_trailing_surrogate_def word_le_def
      code_point_of_surrogate_pair_def)

lemma length_char_bytes:
  "length (char_bytes c) = (if c < 128 then 1 else if c < 2048 then 2 else if c < 65536 then 3 else 4)"
  by (simp add: char_bytes.simps)

lemma unit_less: "(c :: code_unit) < 128 \<longleftrightarrow> uint c < 128" "c < 2048 \<longleftrightarrow> uint c < 2048"
  by (simp_all add: word_less_def)

lemma encoded_length_eq:
  "encoded_length s n = (if utf16_ok s then Some (n + length (encoding s)) else None)"
proof (induction s arbitrary: n rule: utf16_ok.induct)
  case (2 c)
  then show ?case
    using uint_lt2p [of c]
    by (auto simp: surrogate_cases length_char_bytes unit_less dest: small_not_surrogate)
next
  case (3 c1 c2 s)
  consider "is_leading_surrogate c1" "is_trailing_surrogate c2"
    | "is_leading_surrogate c1" "\<not> is_trailing_surrogate c2" | "\<not> is_leading_surrogate c1" by blast
  then show ?case
  proof cases
    case 1
    then have "\<not> uint c1 < 2048" using small_not_surrogate by blast
    with 1 "3.IH"(1) [of "n + 4"] show ?thesis
      using pair_range [OF 1] by (simp add: unit_less length_char_bytes)
  next
    case 2
    then have "\<not> uint c1 < 2048" using small_not_surrogate by blast
    with 2 show ?thesis by (simp add: unit_less surrogate_cases)
  next
    case 3
    have "is_surrogate c1 = is_trailing_surrogate c1" using 3 by (simp add: surrogate_cases)
    moreover have "uint c1 < 2048 \<Longrightarrow> \<not> is_trailing_surrogate c1" using small_not_surrogate by blast
    moreover have "encoded_length (c2 # s) k =
        (if utf16_ok (c2 # s) then Some (k + length (encoding (c2 # s))) else None)" for k
      using "3.IH"(2) [OF 3] .
    moreover have "uint c1 < 65536" using uint_lt2p [of c1] by simp
    ultimately show ?thesis
      using 3 by (simp add: unit_less length_char_bytes del: encoded_length.simps(2))
        (simp add: unit_less)
  qed
qed simp

lemma put_seq:
  "i = length pre \<Longrightarrow> poke (pre @ replicate (Suc m) 0) i v = Some ((pre @ [word_of_int v]) @ replicate m 0)"
  by (simp add: poke_at)

lemma put2_at:
  assumes "128 \<le> c" and "c < 2048"
  shows "put2 (pre @ replicate (m + length (char_bytes c)) 0) (length pre) c =
    Some ((pre @ char_bytes c) @ replicate m 0)"
  using assms
  by (simp add: put2_def put_seq char_bytes.simps and_low_bits drop_bit_eq_div
      del: replicate.simps append_assoc)

lemma put3_at:
  assumes "2048 \<le> c" and "c < 65536"
  shows "put3 (pre @ replicate (m + length (char_bytes c)) 0) (length pre) c =
    Some ((pre @ char_bytes c) @ replicate m 0)"
  using assms
  by (simp add: put3_def put_seq char_bytes.simps and_low_bits drop_bit_eq_div
      del: replicate.simps append_assoc)

lemma put4_at:
  assumes "65536 \<le> c"
  shows "put4 (pre @ replicate (m + length (char_bytes c)) 0) (length pre) c =
    Some ((pre @ char_bytes c) @ replicate m 0)"
  using assms
  by (simp add: put4_def put_seq char_bytes.simps and_low_bits drop_bit_eq_div
      del: replicate.simps append_assoc)

lemma put1_at:
  assumes "c < 128"
  shows "poke (pre @ replicate (m + length (char_bytes c)) 0) (length pre) c =
    Some ((pre @ char_bytes c) @ replicate m 0)"
  using assms by (simp add: put_seq char_bytes.simps del: replicate.simps)

lemma put_char_at:
  assumes "k = m + length (char_bytes c)" and "n = length pre"
  shows "c < 128 \<Longrightarrow> poke (pre @ replicate k 0) n c = Some ((pre @ char_bytes c) @ replicate m 0)"
    and "128 \<le> c \<Longrightarrow> c < 2048 \<Longrightarrow>
      put2 (pre @ replicate k 0) n c = Some ((pre @ char_bytes c) @ replicate m 0)"
    and "2048 \<le> c \<Longrightarrow> c < 65536 \<Longrightarrow>
      put3 (pre @ replicate k 0) n c = Some ((pre @ char_bytes c) @ replicate m 0)"
    and "65536 \<le> c \<Longrightarrow>
      put4 (pre @ replicate k 0) n c = Some ((pre @ char_bytes c) @ replicate m 0)"
  using assms put1_at put2_at put3_at put4_at by simp_all

text \<open>The character and the rest a well-formed string begins with.\<close>

lemma utf16_ok_cases:
  assumes "utf16_ok s" and "s \<noteq> []"
  obtains (Plain) u r where "s = u # r" "\<not> is_surrogate u" "utf16_ok r"
      "encoding s = char_bytes (uint u) @ encoding r"
  | (Pair) u v r where "s = u # v # r" "is_leading_surrogate u" "is_trailing_surrogate v" "utf16_ok r"
      "encoding s = char_bytes (code_point_of_surrogate_pair u v) @ encoding r"
proof (cases s)
  case (Cons u t)
  show ?thesis
  proof (cases "is_leading_surrogate u")
    case True
    with Cons assms obtain v r where "t = v # r" "is_trailing_surrogate v" "utf16_ok r"
      by (cases t) auto
    with True Cons Pair show ?thesis by simp
  next
    case False
    with Cons assms have "\<not> is_trailing_surrogate u" "utf16_ok t" by (cases t; simp)+
    with False Cons Plain show ?thesis by (simp add: surrogate_cases)
  qed
qed (use assms in simp)

lemma encode_fill_at:
  "utf16_ok s \<Longrightarrow> encode_fill s (pre @ replicate (length (encoding s)) 0) (length pre) =
    Some (pre @ encoding s)"
proof (induction s arbitrary: pre rule: length_induct)
  case (1 s)
  show ?case
  proof (cases "s = []")
    case False
    from "1.prems" this show ?thesis
    proof (cases rule: utf16_ok_cases)
      case (Plain u r)
      let ?c = "uint u"
      define n where "n = length (encoding s)"
      have "n = length (encoding r) + length (char_bytes ?c)" using Plain(4) by (simp add: n_def)
      note put = put_char_at [OF this refl, of pre]
      have "encode_fill r (p @ replicate (length (encoding r)) 0) (length p) = Some (p @ encoding r)" for p
        using "1.IH" Plain by simp
      note IH = this [of "pre @ char_bytes ?c"]
      have "?c < 65536" using uint_lt2p [of u] by simp
      then have "encode_fill (u # r) (pre @ replicate n 0) (length pre) =
          Some ((pre @ char_bytes ?c) @ encoding r)"
        using IH Plain(2) put(1-3)
        by (simp add: Let_def unit_less surrogate_cases length_char_bytes del: append_assoc split: if_splits)
      then show ?thesis using Plain(1,4) by (simp add: n_def del: encode_fill.simps)
    next
      case (Pair u v r)
      let ?c = "code_point_of_surrogate_pair u v"
      have c: "65536 \<le> ?c" by (rule pair_range) (use Pair in simp_all)
      have "encode_fill r (p @ replicate (length (encoding r)) 0) (length p) = Some (p @ encoding r)" for p
        using "1.IH" Pair by simp
      note IH = this [of "pre @ char_bytes ?c"]
      have code: "push_bit 10 (uint u - 55296) + (uint v - 56320) + 65536 = ?c"
        by (simp add: code_point_of_surrogate_pair_def push_bit_eq_mult)
      have "\<not> uint u < 2048" using Pair small_not_surrogate by blast
      define n where "n = length (encoding s)"
      have "n = length (encoding r) + length (char_bytes ?c)" using Pair(5) by (simp add: n_def)
      note put = put_char_at(4) [OF this refl c, of pre]
      have "encode_fill (u # v # r) (pre @ replicate n 0) (length pre) =
          Some ((pre @ char_bytes ?c) @ encoding r)"
        using IH Pair(2,3) put c \<open>\<not> uint u < 2048\<close>
        by (simp add: Let_def code unit_less length_char_bytes del: append_assoc)
      then show ?thesis using Pair(1,5) by (simp add: n_def del: encode_fill.simps)
    qed
  qed simp
qed

lemma utf8_encode_eq: "utf8_encode s = (if utf16_ok s then Some (encoding s) else None)"
  using encode_fill_at [of s "[]"] by (simp add: utf8_encode_def encoded_length_eq)

subsection \<open>Round trip\<close>

lemma uint_byte: "0 \<le> k \<Longrightarrow> k < 256 \<Longrightarrow> uint (word_of_int k :: byte) = k"
  by (simp add: uint_word_of_int)

lemma mod_above: "k mod m = 0 \<Longrightarrow> 0 \<le> c \<Longrightarrow> c < m \<Longrightarrow> (k + c) mod m = (c :: int)"
  by (simp flip: mod_add_left_eq)

lemmas low_mods = mod_above [of 128 64] mod_above [of 192 32] mod_above [of 224 16] mod_above [of 240 8]

lemma div_64_64: "c div 64 * 64 + c mod 64 = (c :: int)"
  "c div 4096 * 64 + c div 64 mod 64 = c div 64"
  "c div 262144 * 64 + c div 4096 mod 64 = c div 4096"
proof -
  have "c div 64 div 64 = c div 4096" "c div 4096 div 64 = c div 262144"
    by (simp_all flip: zdiv_zmult2_eq)
  then show "c div 64 * 64 + c mod 64 = c" "c div 4096 * 64 + c div 64 mod 64 = c div 64"
    "c div 262144 * 64 + c div 4096 mod 64 = c div 4096"
    using div_mult_mod_eq [of c 64] div_mult_mod_eq [of "c div 64" 64]
      div_mult_mod_eq [of "c div 4096" 64] by simp_all
qed

lemma byte_order: "(a :: byte) \<le> b \<longleftrightarrow> uint a \<le> uint b" "(a :: byte) = b \<longleftrightarrow> uint a = uint b"
  by (simp_all add: word_le_def word_uint_eq_iff)

text \<open>The encoding of each class of characters is matched whole, and gives the character back.\<close>

lemma match_one: "0 \<le> c \<Longrightarrow> c < 128 \<Longrightarrow> decoded (char_bytes c @ r) = unit_of c # decoded r"
  by (simp add: char_bytes.simps utf8_match_def byte_order uint_byte)

lemma match_two_chars:
  assumes "128 \<le> c" and "c < 2048"
  shows "decoded (char_bytes c @ r) = unit_of c # decoded r"
proof -
  define x y where xy: "x = c div 64" "y = c mod 64"
  have c: "c = x * 64 + y" "2 \<le> x" "x < 32" "0 \<le> y" "y < 64" using assms unfolding xy by simp_all
  define b0 b1 :: byte where b: "b0 = word_of_int (192 + x)" "b1 = word_of_int (128 + y)"
  have u: "uint b0 = 192 + x" "uint b1 = 128 + y" unfolding b using c by (simp_all only: uint_byte)
  have "char_bytes c = [b0, b1]" using assms by (simp add: char_bytes.simps b xy)
  moreover have "utf8_match b0 (b1 # r) = (Two b0 b1, r)"
    using c u by (simp add: utf8_match_def match_two_def in_range_def byte_order)
  moreover have "char_of_two b0 b1 = c"
    using c by (simp add: char_of_two_eq u low_mods)
  ultimately show ?thesis by simp
qed

lemma match_three_chars:
  assumes "2048 \<le> c" and "c < 65536" and "c < 55296 \<or> 57343 < c"
  shows "decoded (char_bytes c @ r) = unit_of c # decoded r"
proof -
  define x y z where xyz: "x = c div 4096" "y = c div 64 mod 64" "z = c mod 64"
  have c: "c = x * 4096 + y * 64 + z" "0 \<le> x" "x < 16" "0 \<le> y" "y < 64" "0 \<le> z" "z < 64"
    using assms div_64_64(1,2) [of c] unfolding xyz by (simp_all, linarith)
  define b0 b1 b2 :: byte
    where b: "b0 = word_of_int (224 + x)" "b1 = word_of_int (128 + y)" "b2 = word_of_int (128 + z)"
  have u: "uint b0 = 224 + x" "uint b1 = 128 + y" "uint b2 = 128 + z"
    unfolding b using c by (simp_all only: uint_byte)
  have "char_bytes c = [b0, b1, b2]" using assms by (simp add: char_bytes.simps b xyz)
  moreover have "x = 0 \<Longrightarrow> 32 \<le> y" "x = 13 \<Longrightarrow> y < 32" using assms c by auto
  then have "utf8_match b0 (b1 # b2 # r) = (Three b0 b1 b2, r)"
    using c u by (auto simp add: utf8_match_def match_three_def in_range_def byte_order)
  moreover have "char_of_three b0 b1 b2 = c"
    using c by (simp add: char_of_three_eq u low_mods)
  ultimately show ?thesis by simp
qed

lemma match_four_chars:
  assumes "65536 \<le> c" and "c < 1114112"
  shows "decoded (char_bytes c @ r) =
    [unit_of (drop_bit 10 (c - 65536) + 55296), unit_of (and (c - 65536) 1023 + 56320)] @ decoded r"
proof -
  define w x y z where wxyz: "w = c div 262144" "x = c div 4096 mod 64" "y = c div 64 mod 64" "z = c mod 64"
  have "c = w * 262144 + x * 4096 + y * 64 + z"
    if "p * 64 + z = c" "q * 64 + y = p" "w * 64 + x = q" for p q using that by simp
  from this [of "c div 64" "c div 4096"]
  have c: "c = w * 262144 + x * 4096 + y * 64 + z" by (simp only: wxyz div_64_64)
  have d: "0 \<le> w" "w < 5"
    "0 \<le> x" "x < 64" "0 \<le> y" "y < 64" "0 \<le> z" "z < 64"
    using assms unfolding wxyz by simp_all
  note c = c d
  define b0 b1 b2 b3 :: byte
    where b: "b0 = word_of_int (240 + w)" "b1 = word_of_int (128 + x)" "b2 = word_of_int (128 + y)"
      "b3 = word_of_int (128 + z)"
  have u: "uint b0 = 240 + w" "uint b1 = 128 + x" "uint b2 = 128 + y" "uint b3 = 128 + z"
    unfolding b using c by (simp_all only: uint_byte)
  have "char_bytes c = [b0, b1, b2, b3]" using assms by (simp add: char_bytes.simps b wxyz)
  moreover have "w = 0 \<Longrightarrow> 16 \<le> x" "w = 4 \<Longrightarrow> x < 16" "w = 4 \<or> w \<le> 3" using assms c by auto
  then have "utf8_match b0 (b1 # b2 # b3 # r) = (Four b0 b1 b2 b3, r)"
    using c u by (auto simp add: utf8_match_def match_four_def in_range_def byte_order)
  moreover have "char_of_four b0 b1 b2 b3 = c"
    using c by (simp add: char_of_four_eq u low_mods)
  ultimately show ?thesis by simp
qed

lemma decoded_pair:
  assumes "is_leading_surrogate u" and "is_trailing_surrogate v"
  shows "decoded (char_bytes (code_point_of_surrogate_pair u v) @ r) = u # v # decoded r"
proof -
  let ?c = "code_point_of_surrogate_pair u v"
  have hi: "uint u - 55296 \<ge> 0" "uint u - 55296 < 1024" and lo: "uint v - 56320 \<ge> 0" "uint v - 56320 < 1024"
    using assms by (simp_all add: is_leading_surrogate_def is_trailing_surrogate_def word_le_def)
  have eq: "?c - 65536 = (uint u - 55296) * 1024 + (uint v - 56320)"
    by (simp add: code_point_of_surrogate_pair_def)
  have "(?c - 65536) div 1024 = uint u - 55296" "(?c - 65536) mod 1024 = uint v - 56320"
    using lo div_mult_self3 [of 1024 "uint u - 55296" "uint v - 56320"]
      mod_mult_self3 [of "uint u - 55296" 1024 "uint v - 56320"]
    by (simp_all only: eq div_pos_pos_trivial mod_pos_pos_trivial)
  then show ?thesis
    using match_four_chars [OF pair_range [OF assms], of r]
    by (simp add: drop_bit_eq_div and_low_bits unit_of_def)
qed

lemma decoded_encoding: "utf16_ok s \<Longrightarrow> decoded (encoding s) = s"
proof (induction s rule: length_induct)
  case (1 s)
  show ?case
  proof (cases "s = []")
    case False
    from "1.prems" this show ?thesis
    proof (cases rule: utf16_ok_cases)
      case (Plain u r)
      have "uint u < 65536" using uint_lt2p [of u] by simp
      moreover have "uint u < 55296 \<or> 57343 < uint u"
        using Plain(2) by (auto simp: is_surrogate_def word_le_def)
      moreover have "unit_of (uint u) = u" by (simp add: unit_of_def)
      ultimately have "decoded (char_bytes (uint u) @ encoding r) = u # decoded (encoding r)"
        using match_one match_two_chars match_three_chars
        by (metis not_le uint_ge_0)
      with Plain "1.IH" show ?thesis by simp
    next
      case (Pair u v r)
      with "1.IH" show ?thesis by (simp add: decoded_pair)
    qed
  qed simp
qed

lemma utf16_ok_plain: "\<not> is_surrogate u \<Longrightarrow> utf16_ok (u # s) = utf16_ok s"
  by (cases s) (simp_all add: surrogate_cases)

lemma unit_of_plain:
  "0 \<le> c \<Longrightarrow> c < 65536 \<Longrightarrow> c < 55296 \<or> 57343 < c \<Longrightarrow> \<not> is_surrogate (unit_of c)"
  by (simp add: is_surrogate_def word_le_def uint_unit_of) linarith

lemma invalid_ok: "utf16_ok s \<Longrightarrow> utf16_ok (item_units Invalid @ s)"
  using utf16_ok_plain [of "0xFFFD" s] by (simp add: is_surrogate_def)

lemma one_ok: "b \<le> 127 \<Longrightarrow> utf16_ok s \<Longrightarrow> utf16_ok (item_units (One b) @ s)"
  by (simp add: utf16_ok_plain unit_of_plain byte_order)

lemma two_ok: "utf16_ok s \<Longrightarrow> utf16_ok (item_units (fst (match_two b0 r)) @ s)"
proof -
  assume s: "utf16_ok s"
  have "utf16_ok (item_units (Two b0 b1) @ s)" for b1
  proof -
    have "0 \<le> char_of_two b0 b1" "char_of_two b0 b1 < 55296" by (simp_all add: char_of_two_eq)
    with s show ?thesis by (simp add: utf16_ok_plain unit_of_plain)
  qed
  with s invalid_ok [OF s] show ?thesis by (simp add: match_two_def split: list.split)
qed

lemma cont_low: "128 \<le> b \<Longrightarrow> b \<le> 191 \<Longrightarrow> b mod 64 = b - (128 :: int)"
  using mod_above [of 128 64 "b - 128"] by simp

lemma char_of_three_range:
  assumes "in_range 224 239 b0" and "128 \<le> lo" and "hi \<le> 191" and "b0 = 224 \<Longrightarrow> 160 \<le> lo" and "b0 = 237 \<Longrightarrow> hi \<le> 159"
    and b1: "in_range lo hi b1"
  shows "2048 \<le> char_of_three b0 b1 b2" and "char_of_three b0 b1 b2 < 65536"
    and "char_of_three b0 b1 b2 < 55296 \<or> 57343 < char_of_three b0 b1 b2"
proof -
  define x y z where "x = uint b0 - 224" "y = uint b1 - 128" "z = uint b2 mod 64"
  then have c: "char_of_three b0 b1 b2 = x * 4096 + y * 64 + z"
    and r: "0 \<le> x" "x < 16" "0 \<le> y" "y < 64" "0 \<le> z" "z < 64" "x = 0 \<Longrightarrow> 32 \<le> y" "x = 13 \<Longrightarrow> y < 32"
    using assms cont_low [of "uint b1"] mod_above [of 224 16 "uint b0 - 224"]
    by (auto simp: char_of_three_eq in_range_def byte_order)
  then have "x = 0 \<and> 32 \<le> y \<or> 1 \<le> x \<and> x < 13 \<or> x = 13 \<and> y < 32 \<or> 13 < x" by linarith
  then show "2048 \<le> char_of_three b0 b1 b2" "char_of_three b0 b1 b2 < 65536"
    "char_of_three b0 b1 b2 < 55296 \<or> 57343 < char_of_three b0 b1 b2"
    using r unfolding c by linarith+
qed

lemma char_of_four_range:
  assumes "in_range 240 244 b0" and "128 \<le> lo" and "hi \<le> 191" and "b0 = 240 \<Longrightarrow> 144 \<le> lo" and "b0 = 244 \<Longrightarrow> hi \<le> 143"
    and b1: "in_range lo hi b1"
  shows "65536 \<le> char_of_four b0 b1 b2 b3" and "char_of_four b0 b1 b2 b3 < 1114112"
proof -
  define w x y z where "w = uint b0 - 240" "x = uint b1 - 128" "y = uint b2 mod 64" "z = uint b3 mod 64"
  then have c: "char_of_four b0 b1 b2 b3 = w * 262144 + x * 4096 + y * 64 + z"
    and r: "0 \<le> w" "w < 5" "0 \<le> x" "x < 64" "0 \<le> y" "y < 64" "0 \<le> z" "z < 64" "w = 0 \<Longrightarrow> 16 \<le> x" "w = 4 \<Longrightarrow> x < 16"
    using assms cont_low [of "uint b1"] mod_above [of 240 8 "uint b0 - 240"]
    by (auto simp: char_of_four_eq in_range_def byte_order)
  have "w = 0 \<and> 16 \<le> x \<or> 1 \<le> w \<and> w < 4 \<or> w = 4 \<and> x < 16" using r by linarith
  then show "65536 \<le> char_of_four b0 b1 b2 b3" "char_of_four b0 b1 b2 b3 < 1114112"
    using r unfolding c by linarith+
qed

text \<open>The two units of a character beyond the basic plane.\<close>

lemma split_units:
  assumes "0 \<le> m" and "m < 1048576"
  shows "is_leading_surrogate (unit_of (drop_bit 10 m + 55296))" and "is_trailing_surrogate (unit_of (and m 1023 + 56320))"
proof -
  have d: "0 \<le> m div 1024" "m div 1024 < 1024" using assms by linarith+
  then have "uint (unit_of (m div 1024 + 55296)) = m div 1024 + 55296" "uint (unit_of (m mod 1024 + 56320)) = m mod 1024 + 56320"
    by (simp_all add: uint_unit_of)
  then show "is_leading_surrogate (unit_of (drop_bit 10 m + 55296))" "is_trailing_surrogate (unit_of (and m 1023 + 56320))"
    using d by (simp_all add: is_leading_surrogate_def is_trailing_surrogate_def word_le_def drop_bit_eq_div and_low_bits)
qed

lemma three_ok:
  assumes "in_range 224 239 b0" and "128 \<le> lo" and "hi \<le> 191" and "b0 = 224 \<Longrightarrow> 160 \<le> lo" and "b0 = 237 \<Longrightarrow> hi \<le> 159"
    and s: "utf16_ok s"
  shows "utf16_ok (item_units (fst (match_three lo hi b0 r)) @ s)"
proof -
  have "utf16_ok (item_units (Three b0 b1 b2) @ s)" if b1: "in_range lo hi b1" for b1 b2
  proof -
    note range = char_of_three_range [OF assms(1-5) b1, of b2]
    then have "\<not> is_surrogate (unit_of (char_of_three b0 b1 b2))" by (intro unit_of_plain) simp_all
    with s show ?thesis by (simp add: utf16_ok_plain)
  qed
  with s invalid_ok [OF s] show ?thesis by (simp add: match_three_def split: list.split)
qed

lemma four_ok:
  assumes "in_range 240 244 b0" and "128 \<le> lo" and "hi \<le> 191" and "b0 = 240 \<Longrightarrow> 144 \<le> lo"
    and "b0 = 244 \<Longrightarrow> hi \<le> 143" and s: "utf16_ok s"
  shows "utf16_ok (item_units (fst (match_four lo hi b0 r)) @ s)"
proof -
  have "utf16_ok (item_units (Four b0 b1 b2 b3) @ s)" if b1: "in_range lo hi b1" for b1 b2 b3
    using char_of_four_range [OF assms(1-5) b1, of b2 b3] split_units [of "char_of_four b0 b1 b2 b3 - 65536"] s by simp
  with s invalid_ok [OF s] show ?thesis by (simp add: match_four_def split: list.split)
qed

lemma utf8_match_ok:
  assumes "utf16_ok s"
  shows "utf16_ok (item_units (fst (utf8_match b r)) @ s)"
  unfolding utf8_match_def
  using assms invalid_ok [OF assms] one_ok [OF _ assms, of b] two_ok [OF assms, of b r]
  by (simp del: item_units.simps append.simps) (auto intro!: three_ok four_ok simp: in_range_def byte_order)

lemma decoded_ok: "utf16_ok (decoded bs)"
  by (induction bs rule: decoded.induct) (simp_all add: utf8_match_ok)

subsection \<open>Cutting an encoding\<close>

text \<open>An encoding cut in front of a byte that begins a character is the encoding of two strings.\<close>

lemma char_bytes_tail:
  assumes "0 \<le> c" and "0 < i" and "i < length (char_bytes c)"
  shows "cont (char_bytes c ! i)"
proof -
  have "cont (word_of_int (128 + k mod 64))" for k
  proof -
    have "uint (word_of_int (128 + k mod 64) :: byte) = 128 + k mod 64" by (rule uint_byte) auto
    then show ?thesis unfolding in_range_def byte_order by (simp only:) simp
  qed
  moreover have "i = 1 \<or> i = 2 \<or> i = 3" using assms by (auto simp: length_char_bytes split: if_splits)
  ultimately show ?thesis using assms(3) by (auto simp: char_bytes.simps split: if_splits)
qed

lemma first_cut:
  assumes "char_bytes c @ r = a @ b" and "0 \<le> c" and "a \<noteq> []" and "b = [] \<or> \<not> cont (hd b)"
  shows "\<exists>a'. a = char_bytes c @ a' \<and> r = a' @ b"
proof (cases "length (char_bytes c) \<le> length a")
  case True
  then have "take (length (char_bytes c)) a = take (length (char_bytes c)) (a @ b)" by simp
  also have "\<dots> = char_bytes c" unfolding assms(1) [symmetric] by simp
  finally have t: "take (length (char_bytes c)) a = char_bytes c" .
  obtain a' where "a = char_bytes c @ a'" using append_take_drop_id [of "length (char_bytes c)" a] unfolding t by (rule that [OF sym])
  then show ?thesis using assms(1) by simp
next
  case False
  have len: "length (char_bytes c) + length r = length a + length b" using arg_cong [OF assms(1), of length] by simp
  with False have b: "b \<noteq> []" by auto
  have "(char_bytes c @ r) ! length a = hd b" unfolding assms(1) using b by (simp add: nth_append hd_conv_nth)
  then have "hd b = char_bytes c ! length a" using False by (simp add: nth_append)
  then show ?thesis using char_bytes_tail [OF assms(2), of "length a"] assms(3,4) b False by simp
qed

lemma encoding_cut:
  assumes "utf16_ok s" and "encoding s = a @ b" and "b = [] \<or> \<not> cont (hd b)"
  shows "\<exists>t u. s = t @ u \<and> utf16_ok t \<and> utf16_ok u \<and> encoding t = a \<and> encoding u = b"
  using assms(1,2)
proof (induction s arbitrary: a rule: length_induct)
  case (1 s)
  show ?case
  proof (cases "s = [] \<or> a = []")
    case True
    then show ?thesis using "1.prems" by (intro exI [of _ "[]"] exI [of _ s]) auto
  next
    case False
    then have "s \<noteq> []" "a \<noteq> []" by simp_all
    from "1.prems"(1) this(1) show ?thesis
    proof (cases rule: utf16_ok_cases)
      case (Plain u r)
      then obtain a' where a: "a = char_bytes (uint u) @ a'" "encoding r = a' @ b"
        using first_cut [of "uint u" "encoding r" a b] "1.prems"(2) \<open>a \<noteq> []\<close> assms(3) by auto
      have "length r < length s" using Plain(1) by simp
      with "1.IH" Plain(3) a(2) obtain t v where "r = t @ v" "utf16_ok t" "utf16_ok v" "encoding t = a'" "encoding v = b" by blast
      then show ?thesis using Plain a by (intro exI [of _ "u # t"] exI [of _ v]) (simp add: utf16_ok_plain surrogate_cases)
    next
      case (Pair u v r)
      then obtain a' where a: "a = char_bytes (code_point_of_surrogate_pair u v) @ a'" "encoding r = a' @ b"
        using first_cut [of "code_point_of_surrogate_pair u v" "encoding r" a b] pair_range [of u v] "1.prems"(2) \<open>a \<noteq> []\<close> assms(3)
        by auto
      have "length r < length s" using Pair(1) by simp
      with "1.IH" Pair(4) a(2) obtain t w where "r = t @ w" "utf16_ok t" "utf16_ok w" "encoding t = a'" "encoding w = b" by blast
      then show ?thesis using Pair a by (intro exI [of _ "u # v # t"] exI [of _ w]) simp
    qed
  qed
qed

text \<open>
  The bytes a unit of a well-formed string takes, half a character counted as two. Decoding loses no
  length: what is decoded would take at least the bytes it was decoded from, and more when they begin
  inside a character.
\<close>

definition unit_bytes :: "code_unit \<Rightarrow> nat" where
  "unit_bytes u = (if uint u < 128 then 1 else if uint u < 2048 \<or> is_surrogate u then 2 else 3)"

lemma surrogate_bytes: "is_leading_surrogate u \<or> is_trailing_surrogate u \<Longrightarrow> unit_bytes u = 2"
  using small_not_surrogate [of u] by (auto simp: unit_bytes_def surrogate_cases)

lemma length_encoding: "utf16_ok s \<Longrightarrow> length (encoding s) = sum_list (map unit_bytes s)"
proof (induction s rule: length_induct)
  case (1 s)
  show ?case
  proof (cases "s = []")
    case False
    from "1.prems" this show ?thesis
    proof (cases rule: utf16_ok_cases)
      case (Plain u r)
      then show ?thesis using "1.IH" uint_lt2p [of u] by (simp add: length_char_bytes unit_bytes_def)
    next
      case (Pair u v r)
      then show ?thesis using "1.IH" pair_range [of u v] by (simp add: length_char_bytes surrogate_bytes)
    qed
  qed simp
qed

abbreviation item_bytes :: "utf8_item \<Rightarrow> nat" where
  "item_bytes i \<equiv> sum_list (map unit_bytes (item_units i))"

lemma invalid_bytes: "item_bytes Invalid = 3"
  by (simp add: unit_bytes_def is_surrogate_def)

lemma two_bytes: "in_range 194 223 b0 \<Longrightarrow> Suc (length r) \<le> item_bytes (fst (match_two b0 r)) + length (snd (match_two b0 r))"
proof -
  assume b0: "in_range 194 223 b0"
  have "2 \<le> item_bytes (Two b0 b1)" for b1
  proof -
    define x y where "x = uint b0 - 192" "y = uint b1 mod 64"
    then have "char_of_two b0 b1 = x * 64 + y" "2 \<le> x" "x < 32" "0 \<le> y" "y < 64"
      using b0 mod_above [of 192 32 "uint b0 - 192"] by (simp_all add: char_of_two_eq in_range_def byte_order)
    then have "128 \<le> char_of_two b0 b1" "char_of_two b0 b1 < 2048" by simp_all
    then show ?thesis by (simp add: unit_bytes_def uint_unit_of)
  qed
  then show ?thesis using invalid_bytes by (auto simp: match_two_def simp del: item_units.simps split: list.split)
qed

lemma three_bytes:
  assumes "in_range 224 239 b0" and "128 \<le> lo" and "hi \<le> 191" and "b0 = 224 \<Longrightarrow> 160 \<le> lo" and "b0 = 237 \<Longrightarrow> hi \<le> 159"
  shows "Suc (length r) \<le> item_bytes (fst (match_three lo hi b0 r)) + length (snd (match_three lo hi b0 r))"
proof -
  have "item_bytes (Three b0 b1 b2) = 3" if b1: "in_range lo hi b1" for b1 b2
  proof -
    note range = char_of_three_range [OF assms b1, of b2]
    then have "\<not> is_surrogate (unit_of (char_of_three b0 b1 b2))" by (intro unit_of_plain) simp_all
    then show ?thesis using range by (simp add: unit_bytes_def uint_unit_of)
  qed
  then show ?thesis using invalid_bytes by (auto simp: match_three_def simp del: item_units.simps split: list.split)
qed

lemma four_bytes:
  assumes "in_range 240 244 b0" and "128 \<le> lo" and "hi \<le> 191" and "b0 = 240 \<Longrightarrow> 144 \<le> lo" and "b0 = 244 \<Longrightarrow> hi \<le> 143"
  shows "Suc (length r) \<le> item_bytes (fst (match_four lo hi b0 r)) + length (snd (match_four lo hi b0 r))"
proof -
  have "item_bytes (Four b0 b1 b2 b3) = 4" if b1: "in_range lo hi b1" for b1 b2 b3
    using char_of_four_range [OF assms b1, of b2 b3] split_units [of "char_of_four b0 b1 b2 b3 - 65536"] by (simp add: surrogate_bytes)
  then show ?thesis using invalid_bytes by (auto simp: match_four_def simp del: item_units.simps split: list.split)
qed

lemma match_bytes: "Suc (length r) \<le> item_bytes (fst (utf8_match b r)) + length (snd (utf8_match b r))"
proof -
  define P where "P = (\<lambda>m :: utf8_item \<times> bytes. Suc (length r) \<le> item_bytes (fst m) + length (snd m))"
  have "P (One b, r)" by (simp add: P_def unit_bytes_def)
  moreover have "P (Invalid, r)" using invalid_bytes by (simp add: P_def)
  moreover have "P (match_two b r)" if "in_range 194 223 b" using two_bytes [OF that] by (simp add: P_def)
  moreover have "P (match_three lo hi b r)" if "in_range 224 239 b" "128 \<le> lo" "hi \<le> 191" "b = 224 \<Longrightarrow> 160 \<le> lo" "b = 237 \<Longrightarrow> hi \<le> 159"
    for lo hi using three_bytes [of b lo hi r, OF that] by (simp add: P_def)
  moreover have "P (match_four lo hi b r)" if "in_range 240 244 b" "128 \<le> lo" "hi \<le> 191" "b = 240 \<Longrightarrow> 144 \<le> lo" "b = 244 \<Longrightarrow> hi \<le> 143"
    for lo hi using four_bytes [of b lo hi r, OF that] by (simp add: P_def)
  ultimately have "P (utf8_match b r)" unfolding utf8_match_def by (auto simp: in_range_def byte_order)
  then show ?thesis by (simp add: P_def)
qed

lemma decoded_bytes: "length bs \<le> length (encoding (decoded bs))"
proof -
  have "length bs \<le> sum_list (map unit_bytes (decoded bs))"
  proof (induction bs rule: decoded.induct)
    case (2 b bs)
    then show ?case using match_bytes [of bs b] by (simp del: item_units.simps)
  qed simp
  then show ?thesis by (simp add: length_encoding decoded_ok)
qed

lemma decoded_bytes_more: "cont b \<Longrightarrow> length (b # bs) < length (encoding (decoded (b # bs)))"
proof -
  assume "cont b"
  then have "utf8_match b bs = (Invalid, bs)" by (auto simp: utf8_match_def in_range_def byte_order)
  then have d: "decoded (b # bs) = item_units Invalid @ decoded bs" by simp
  have "utf16_ok (item_units Invalid @ decoded bs)" using decoded_ok by (rule invalid_ok)
  from length_encoding [OF this] show ?thesis
    using decoded_bytes [of bs] invalid_bytes by (simp add: d length_encoding decoded_ok del: item_units.simps decoded.simps)
qed

subsection \<open>Properties\<close>

text \<open>
  The encoder returns exactly on well-formed UTF-16 (it aborts on a lone surrogate), its
  first pass computes the exact size, so no store of the second pass is out of bounds, and the
  bytes are the UTF-8 sequences of the characters in order.
\<close>

theorem utf8_encode_result:
  "utf8_encode s =
     (if utf16_ok s then Some (concat (map char_bytes (string_chars s))) else None)"
  by (simp add: utf8_encode_eq encoding_def)

text \<open>
  Property C36. The lossy decoder returns on every byte sequence without a store outside its buffer of
  two bytes for each input byte, and what it returns is always well-formed UTF-16.
\<close>

theorem decode_lossy_total:
  "\<exists>s. decode_lossy bs ignore_bom = Some s \<and> utf16_ok s \<and>
     s = decoded (strip_bom bs ignore_bom)"
  by (simp add: decode_lossy_eq decoded_ok)

text \<open>Property C27. Decoding the encoding of a well-formed string gives the string back.\<close>

theorem decode_encode:
  assumes "utf16_ok s"
  shows "utf8_encode s \<bind> (\<lambda>bs. decode_lossy bs False) = Some s"
  using assms by (simp add: utf8_encode_eq decode_lossy_eq strip_bom_def decoded_encoding)

theorem decode_encode_witness:
  "utf8_encode [0x61, 0xE9, 0x20AC, 0xD83D, 0xDE00] \<bind> (\<lambda>bs. decode_lossy bs False) =
     Some [0x61, 0xE9, 0x20AC, 0xD83D, 0xDE00]"
  by (rule decode_encode) (simp add: is_leading_surrogate_def is_trailing_surrogate_def)

end
