(* ===== verification/Mulp_Command.thy ===== *)
theory Mulp_Command
  imports Mulp_Config Platform_Process Signals Utf8
begin

text \<open>
  The command itself (\<open>cmd/mulp\<close>): choosing the working directory, the configuration and the
  \<open>moon\<close> command line, running it, and what \<open>main\<close> does with the result; and the watch mode.
  What lies outside is a parameter: reading a text file, what the shell stub answers, what the
  user's command does to the files, and the file watcher.
\<close>

record command_result =
  cr_status :: "32 word"
  cr_stdout :: mstring
  cr_stderr :: mstring

record moon_run_command =
  mc_executable :: mstring
  mc_args :: "mstring list"

text \<open>
  The outside: \<open>'w\<close> is whatever the files and the other programs are. The stub is given a shell line: what
  it answers, and what the shell makes of the outside with that line.
\<close>

record 'w command_env =
  ce_read :: "'w \<Rightarrow> reader"
  ce_shell :: "'w \<Rightarrow> bytes \<Rightarrow> bytes run"
  ce_effect :: "bytes \<Rightarrow> 'w \<Rightarrow> 'w"

subsection \<open>The \<open>moon\<close> command lines\<close>

definition moon_run_script_command :: "mstring \<Rightarrow> mstring list \<Rightarrow> moon_run_command" where
  "moon_run_script_command script_path sargs =
     \<lparr>mc_executable = str ''moon'',
      mc_args = [str ''run'', str ''--quiet'', str ''--target'', str ''native'', script_path, str ''--'']
        @ sargs\<rparr>"

definition configured_or_inferred_entry :: "mulp_config \<Rightarrow> mstring option \<Rightarrow> mstring result" where
  "configured_or_inferred_entry config inferred_entry =
     (if entry (mulp config) \<noteq> [] then Inr (entry (mulp config))
      else case inferred_entry of
        Some e \<Rightarrow> if e = [] then Inl (config_error (str ''missing mulp.entry'')) else Inr e
      | None \<Rightarrow> Inl (config_error (str ''missing mulp.entry'')))"

definition action_args :: "cli_action \<Rightarrow> mstring list" where
  "action_args act =
     (case act of
        Run task \<Rightarrow> [task]
      | Watch task \<Rightarrow> [str ''--watch'', task]
      | ListTasks \<Rightarrow> [str ''--tasks'']
      | TasksJson \<Rightarrow> [str ''--tasks-json'']
      | Tree task \<Rightarrow> [str ''--tree'', task])"

definition moon_run_command_with_entry ::
    "mulp_config \<Rightarrow> cli_args \<Rightarrow> mstring option \<Rightarrow> moon_run_command result" where
  "moon_run_command_with_entry config cli inferred_entry =
     (case configured_or_inferred_entry config inferred_entry of
        Inl err \<Rightarrow> Inl err
      | Inr ent \<Rightarrow> Inr \<lparr>mc_executable = str ''moon'',
          mc_args = [str ''run'', ent, str ''--''] @ action_args (action cli)\<rparr>)"

subsection \<open>Running a command\<close>

fun kept_lines :: "mstring list \<Rightarrow> mstring list run" where
  "kept_lines [] = Some []"
| "kept_lines (line # lines) = do {
     noise \<leftarrow> view_has_prefix line (str ''Using cached '');
     kept \<leftarrow> kept_lines lines;
     Some (if noise then kept else line # kept)
   }"

definition strip_moon_dependency_noise :: "mstring \<Rightarrow> mstring run" where
  "strip_moon_dependency_noise out = do {
     lines \<leftarrow> string_split out [10];
     kept \<leftarrow> kept_lines lines;
     Some (array_join kept [10])
   }"

definition ensure_trailing_newline :: "mstring \<Rightarrow> mstring run" where
  "ensure_trailing_newline value = do {
     nl \<leftarrow> has_suffix value [10];
     Some (if value = [] \<or> nl then value else value @ [10])
   }"

definition command_terminal_output :: "command_result \<Rightarrow> (mstring \<times> mstring) run" where
  "command_terminal_output result = do {
     out \<leftarrow> ensure_trailing_newline (cr_stdout result);
     err \<leftarrow> ensure_trailing_newline (cr_stderr result);
     Some (out, err)
   }"

definition failed :: "mstring \<Rightarrow> command_result" where
  "failed msg = \<lparr>cr_status = 1, cr_stdout = [], cr_stderr = msg\<rparr>"

text \<open>The line whose effect is taken is the one \<open>run_process\<close> hands to the stub.\<close>

definition run_and_report ::
    "'w command_env \<Rightarrow> process_command_t \<Rightarrow> 'w \<Rightarrow> (command_result \<times> 'w) run" where
  "run_and_report env process w = do {
     line \<leftarrow> to_shell_command process;
     r \<leftarrow> run_process (ce_shell env w) process;
     let w = ce_effect env (bytes_from_ascii line) w;
     case r of
       Inr result \<Rightarrow> do {
         out \<leftarrow> strip_moon_dependency_noise (pr_stdout result);
         Some (\<lparr>cr_status = pr_exit_code result, cr_stdout = out, cr_stderr = pr_stderr result\<rparr>, w)
       }
     | Inl err \<Rightarrow> Some (failed (message err), w)
   }"

definition execute_moon_run_command ::
    "'w command_env \<Rightarrow> moon_run_command \<Rightarrow> mstring \<Rightarrow> 'w \<Rightarrow> (command_result \<times> 'w) run" where
  "execute_moon_run_command env command cwd w = do {
     root \<leftarrow> discover_moon_root (ce_read env w) cwd;
     let run_cwd = (case root of Inr root \<Rightarrow> root | Inl _ \<Rightarrow> cwd);
     run_and_report env
       (with_cwd (process_command (mc_executable command) (mc_args command)) run_cwd) w
   }"

text \<open>The early returns of the code: an error becomes the result of the command.\<close>

definition or_fail :: "'a result \<Rightarrow> 'w \<Rightarrow> ('a \<Rightarrow> (command_result \<times> 'w) run) \<Rightarrow> (command_result \<times> 'w) run" where
  "or_fail r w k = (case r of Inl err \<Rightarrow> Some (failed (message err), w) | Inr x \<Rightarrow> k x)"

definition mulp_version :: mstring where
  "mulp_version = str ''0.1.0''"

definition mulp_command_output :: mstring where
  "mulp_command_output = join_with [10]
    [str ''Usage: mulp [options] [task]'',
     [],
     str ''Options:'',
     str ''  --help                 Show this help.'',
     str ''  -v, --version          Show the mulp version.'',
     str ''  --cwd <dir>            Run as if started in dir.'',
     str ''  --silent               Suppress all stdout output.'',
     str ''  --quiet                Suppress non-error output.'',
     str ''  --mulpfile <path>      Use an explicit mulp.mbtx.'',
     str ''  --gulpfile <path>      Alias for --mulpfile.'',
     str ''  --file <path>          Alias for --mulpfile.'',
     str ''  -T, --tasks            List tasks.'',
     str ''  --tasks-simple         Alias for --tasks.'',
     str ''  --tasks-json           List tasks as JSON (for editor integrations).'',
     str ''  --tree <task>          Render a task tree.'',
     str ''  --watch <task>         Run a task in watch mode.'']"

text \<open>The path of the script as \<open>moon\<close> is told it, from the module root when there is one.\<close>

definition script_path_from ::
    "'w command_env \<Rightarrow> 'w \<Rightarrow> mstring \<Rightarrow> config_document \<Rightarrow> mstring run" where
  "script_path_from env w cwd document = do {
     r \<leftarrow> discover_moon_root (ce_read env w) cwd;
     case r of
       Inr root \<Rightarrow> path_relative_to_root (doc_path document) root
     | Inl _ \<Rightarrow> Some (doc_path document)
   }"

text \<open>The branch of a script configuration: the script is run with the arguments of the line.\<close>

definition run_script ::
    "'w command_env \<Rightarrow> mstring \<Rightarrow> mstring list \<Rightarrow> config_document \<Rightarrow> 'w \<Rightarrow> (command_result \<times> 'w) run" where
  "run_script env cwd args document w =
     or_fail (parse_args args []) w (\<lambda>_.
     or_fail (args_without_config_path args) w (\<lambda>sargs. do {
       script_path \<leftarrow> script_path_from env w cwd document;
       let command = moon_run_script_command script_path
         (normalize_script_args (args_without_log_flags sargs));
       execute_moon_run_command env command cwd w
     }))"

text \<open>The branch of a configuration in the format of the program itself.\<close>

definition run_config ::
    "'w command_env \<Rightarrow> mstring \<Rightarrow> mstring list \<Rightarrow> config_document \<Rightarrow> 'w \<Rightarrow> (command_result \<times> 'w) run" where
  "run_config env cwd args document w = do {
     parsed \<leftarrow> parse_config (doc_contents document);
     or_fail parsed w (\<lambda>config.
     or_fail (parse_args args (default_task (mulp config))) w (\<lambda>cli. do {
       r \<leftarrow> discover_moon_root (ce_read env w) cwd;
       inferred_entry \<leftarrow>
         (case r of
            Inr root \<Rightarrow> do { e \<leftarrow> infer_entry_from_mulp_path (doc_path document) root; Some (Some e) }
          | Inl _ \<Rightarrow> Some None);
       or_fail (moon_run_command_with_entry config cli inferred_entry) w (\<lambda>command.
         execute_moon_run_command env command cwd w)
     }))
   }"

definition mulp_command_result_from ::
    "'w command_env \<Rightarrow> mstring \<Rightarrow> mstring list \<Rightarrow> 'w \<Rightarrow> (command_result \<times> 'w) run" where
  "mulp_command_result_from env cwd args w =
     (if args = [str ''--help''] then
        Some (\<lparr>cr_status = 0, cr_stdout = mulp_command_output, cr_stderr = []\<rparr>, w)
      else if args = [str ''--version''] \<or> args = [str ''-v''] then
        Some (\<lparr>cr_status = 0, cr_stdout = mulp_version, cr_stderr = []\<rparr>, w)
      else do {
        cwd_r \<leftarrow> command_cwd_from_args cwd args;
        or_fail cwd_r w (\<lambda>cwd.
        or_fail (args_without_cwd args) w (\<lambda>args.
        or_fail (command_config_path_from_args args) w (\<lambda>config_path. do {
          document_r \<leftarrow> load_real_config (ce_read env w) cwd config_path;
          or_fail document_r w (\<lambda>document. do {
            script \<leftarrow> is_mulp_script_path (doc_path document);
            if script then run_script env cwd args document w
            else run_config env cwd args document w
          })
        })))
      })"

subsection \<open>Watch mode\<close>

text \<open>
  The watcher works on the outside and on the state of the program, since it calls the
  program's callback and since a signal can arrive while it or the sleep between two rounds
  runs: a round gives an error message or nothing.
\<close>

type_synonym 'w program_state = "'w \<times> main_state"

record 'w watch_env =
  we_new :: "mstring \<Rightarrow> 'w program_state \<Rightarrow> (mstring option \<times> 'w program_state) run"
  we_tick :: "('w program_state \<Rightarrow> 'w program_state run) \<Rightarrow> 'w program_state \<Rightarrow>
    (mstring option \<times> 'w program_state) run"
  we_close :: "'w program_state \<Rightarrow> 'w program_state"
  we_sleep :: "int \<Rightarrow> 'w program_state \<Rightarrow> 'w program_state"

definition loop_interval :: int where
  "loop_interval = 10"

definition write_text :: "(bytes \<Rightarrow> main_state \<Rightarrow> main_state) \<Rightarrow> mstring \<Rightarrow> main_state \<Rightarrow> main_state run" where
  "write_text put t s = (if t \<noteq> [] then do { bs \<leftarrow> utf8_encode t; Some (put bs s) } else Some s)"

text \<open>Running the command once and printing what it printed: the first run and every event.\<close>

definition on_event ::
    "'w command_env \<Rightarrow> moon_run_command \<Rightarrow> mstring \<Rightarrow> 'w program_state \<Rightarrow> 'w program_state run" where
  "on_event env command cwd s = do {
     (r, w) \<leftarrow> execute_moon_run_command env command cwd (fst s);
     (out, err) \<leftarrow> command_terminal_output r;
     m \<leftarrow> write_text mulp_write_stdout out (snd s);
     m \<leftarrow> write_text mulp_write_stderr err m;
     Some (w, m)
   }"

partial_function (option) watch_loop ::
    "'w watch_env \<Rightarrow> ('w program_state \<Rightarrow> 'w program_state run) \<Rightarrow> 'w program_state \<Rightarrow>
      (command_result \<times> 'w program_state) run" where
  "watch_loop wenv cb s =
     (if mulp_check_sigint (snd s) = 0 then do {
        (e, s') \<leftarrow> we_tick wenv cb s;
        case e of
          Some msg \<Rightarrow> Some (failed msg, we_close wenv s')
        | None \<Rightarrow> watch_loop wenv cb (we_sleep wenv loop_interval s')
      } else
        Some (\<lparr>cr_status = 0, cr_stdout = [], cr_stderr = []\<rparr>, we_close wenv s))"

definition watch_command ::
    "'w command_env \<Rightarrow> 'w watch_env \<Rightarrow> moon_run_command \<Rightarrow> mstring \<Rightarrow> 'w program_state \<Rightarrow>
      (command_result \<times> 'w program_state) run" where
  "watch_command env wenv command cwd s = do {
     (w, m) \<leftarrow> on_event env command cwd s;
     let s = (w, mulp_register_sigint m);
     (e, s) \<leftarrow> we_new wenv cwd s;
     case e of
       Some msg \<Rightarrow> Some (failed msg, s)
     | None \<Rightarrow> watch_loop wenv (on_event env command cwd) s
   }"

definition mulp_run_watch ::
    "'w command_env \<Rightarrow> 'w watch_env \<Rightarrow> mstring \<Rightarrow> mstring list \<Rightarrow> 'w program_state \<Rightarrow>
      (command_result \<times> 'w program_state) run" where
  "mulp_run_watch env wenv cwd args s = do {
     cwd_r \<leftarrow> command_cwd_from_args cwd args;
     or_fail cwd_r s (\<lambda>cwd.
     or_fail (args_without_cwd args) s (\<lambda>args.
     or_fail (args_without_config_path args) s (\<lambda>sargs.
     or_fail (watch_task_name sargs) s (\<lambda>task_name. do {
       document_r \<leftarrow> load_real_config (ce_read env (fst s)) cwd None;
       or_fail document_r s (\<lambda>document. do {
         script \<leftarrow> is_mulp_script_path (doc_path document);
         if \<not> script
         then Some (failed (message (config_error (str ''watch requires mulp.mbtx''))), s)
         else do {
           script_path \<leftarrow> script_path_from env (fst s) cwd document;
           watch_command env wenv (moon_run_script_command script_path [task_name]) cwd s
         }
       })
     }))))
   }"

subsection \<open>The main function\<close>

definition args_without_program :: "mstring list \<Rightarrow> mstring list" where
  "args_without_program args = map (\<lambda>index. args ! index) [1..<length args]"

definition finish_watch :: "command_result \<Rightarrow> main_state \<Rightarrow> main_state run" where
  "finish_watch result m =
     (if cr_status result \<noteq> 0 then do {
        (out, err) \<leftarrow> command_terminal_output result;
        m \<leftarrow> write_text mulp_write_stderr err m;
        Some (mulp_exit_process (sint (cr_status result)) m)
      } else Some m)"

definition finish_command :: "nat \<Rightarrow> command_result \<Rightarrow> main_state \<Rightarrow> main_state run" where
  "finish_command level result m = do {
     (out, err) \<leftarrow> command_terminal_output result;
     m \<leftarrow> (if level > 0 then write_text mulp_write_stdout out m else Some m);
     m \<leftarrow> write_text mulp_write_stderr err m;
     Some (if cr_status result \<noteq> 0 then mulp_exit_process (sint (cr_status result)) m else m)
   }"

definition main ::
    "'w command_env \<Rightarrow> 'w watch_env \<Rightarrow> mstring option \<Rightarrow> mstring list \<Rightarrow> 'w program_state \<Rightarrow>
      'w program_state run" where
  "main env wenv current_dir argv s = do {
     let cwd = (case current_dir of Some path \<Rightarrow> path | None \<Rightarrow> str ''.'');
     let args = args_without_program argv;
     if list_ex (\<lambda>a. a = str ''--watch'') args then do {
       (result, w, m) \<leftarrow> mulp_run_watch env wenv cwd args s;
       m \<leftarrow> finish_watch result m;
       Some (w, m)
     } else do {
       (result, w) \<leftarrow> mulp_command_result_from env cwd args (fst s);
       m \<leftarrow> finish_command (log_level_from_args args) result (snd s);
       Some (w, m)
     }
   }"

subsection \<open>What the pieces compute\<close>

lemma kept_lines_eq [run_simps]:
  "kept_lines lines = Some (filter (\<lambda>l. \<not> prefix (str ''Using cached '') l) lines)"
  by (induction lines) (simp_all add: run_simps del: str_Cons)

lemma strip_noise_eq [run_simps]:
  "strip_moon_dependency_noise out =
     Some (join_with [10] (filter (\<lambda>l. \<not> prefix (str ''Using cached '') l) (split_on 10 out)))"
  by (simp add: strip_moon_dependency_noise_def run_simps del: str_Cons)

definition terminal_text :: "mstring \<Rightarrow> mstring" where
  "terminal_text t = (if t = [] \<or> suffix [10] t then t else t @ [10])"

lemma command_terminal_output_eq [run_simps]:
  "command_terminal_output r = Some (terminal_text (cr_stdout r), terminal_text (cr_stderr r))"
  by (simp add: command_terminal_output_def ensure_trailing_newline_def run_simps terminal_text_def)

lemma write_text_eq [run_simps]:
  "write_text put t s =
     (if t = [] then Some s else if utf16_ok t then Some (put (encoding t) s) else None)"
  by (simp add: write_text_def utf8_encode_eq)

lemma args_without_program_eq [run_simps]: "args_without_program args = tl args"
  by (cases args) (auto simp: args_without_program_def intro: nth_equalityI simp del: upt_Suc)

subsection \<open>Properties\<close>

text \<open>
  What is shown of a run's output is its lines in order without those that begin with
  \<open>Using cached \<close>, and never such a line.
\<close>

theorem dependency_noise_stripped:
  "\<exists>t. strip_moon_dependency_noise out = Some t \<and>
     (let kept = filter (\<lambda>l. \<not> prefix (str ''Using cached '') l) (split_on 10 out)
      in split_on 10 t = (if kept = [] then [[]] else kept))"
proof -
  let ?kept = "filter (\<lambda>l. \<not> prefix (str ''Using cached '') l) (split_on 10 out)"
  have "\<forall>l \<in> set ?kept. 10 \<notin> set l" using split_on_parts by fastforce
  then have "split_on 10 (join_with [10] ?kept) = (if ?kept = [] then [[]] else ?kept)"
    using split_on_join [of ?kept 10] by simp
  then show ?thesis unfolding strip_noise_eq Let_def by blast
qed

text \<open>
  Property C37. What \<open>main\<close> does with a result whose texts are well-formed: the standard output is
  written, ended by a newline, at every log level above 0 (so \<open>--quiet\<close> suppresses nothing),
  the error output always, and the program ends with the status of the command.
\<close>

theorem command_result_reported:
  assumes "utf16_ok (terminal_text (cr_stdout r))" and "utf16_ok (terminal_text (cr_stderr r))"
    and "uint (cr_status r) \<le> 255" and "mn_alive m" and "mn_exit m = None"
  shows "\<exists>m'. finish_command level r m = Some m' \<and>
    mn_stdout m' = mn_stdout m @ (if level = 0 then [] else encoding (terminal_text (cr_stdout r))) \<and>
    mn_stderr m' = mn_stderr m @ encoding (terminal_text (cr_stderr r)) \<and>
    mn_exit m' = (if cr_status r = 0 then None else Some (uint (cr_status r))) \<and>
    mn_alive m' = (cr_status r = 0)"
proof -
  have "sint (cr_status r) = uint (cr_status r)"
    unfolding sint_uint
    by (rule signed_take_bit_int_eq_self, rule order_trans [OF _ uint_ge_0])
      (use assms(3) in simp_all)
  with assms show ?thesis
    by (auto simp: finish_command_def run_simps mulp_write_stdout_def mulp_write_stderr_def
        mulp_exit_process_def)
qed

theorem command_result_reported_witness:
  "\<exists>m'. finish_command 1 \<lparr>cr_status = 2, cr_stdout = str ''hi'', cr_stderr = []\<rparr>
      \<lparr>mn_sigint_flag = False, mn_registered = False, mn_alive = True, mn_exit = None,
       mn_stdout = [], mn_stderr = []\<rparr> = Some m' \<and>
    mn_stdout m' = str ''hi'' @ [10] \<and> mn_stderr m' = [] \<and> mn_exit m' = Some 2 \<and> \<not> mn_alive m'"
  using command_result_reported [of "\<lparr>cr_status = 2, cr_stdout = str ''hi'', cr_stderr = []\<rparr>"
      "\<lparr>mn_sigint_flag = False, mn_registered = False, mn_alive = True, mn_exit = None,
       mn_stdout = [], mn_stderr = []\<rparr>" 1]
  by (simp add: terminal_text_def suffix_def is_leading_surrogate_def is_trailing_surrogate_def
      char_bytes.simps)

text \<open>
  The bytes a task prints come back as one character each and are encoded again when
  they are shown, so they arrive unchanged exactly when they are all ASCII.
\<close>

theorem only_ascii_output_survives:
  "utf8_encode (widen bs) = Some bs \<longleftrightarrow> list_all (\<lambda>b. b < 128) bs"
proof -
  have ok: "utf16_ok (widen bs)" for bs
  proof (induction bs)
    case (Cons b bs)
    have "no_surrogates (widen [b])" by (rule no_surrogates_widen)
    with Cons show ?case
      by (simp add: utf16_ok_plain surrogate_cases no_surrogates_def)
  qed simp
  have enc: "encoding (widen (b # bs)) = char_bytes (uint b) @ encoding (widen bs)" for b :: byte and bs
  proof -
    have "no_surrogates (widen [b])" by (rule no_surrogates_widen)
    moreover have "uint (ucast b :: code_unit) = uint b"
      using uint_lt2p [of b] by (simp add: unsigned_ucast_eq take_bit_eq_mod)
    ultimately show ?thesis by (simp add: no_surrogates_def)
  qed
  have one: "char_bytes (uint b) = [b]" if "b < 128" for b :: byte
    using that by (simp add: char_bytes.simps word_less_def)
  have len: "length (encoding (widen bs)) \<ge> length bs \<and>
      (\<not> list_all (\<lambda>b. b < 128) bs \<longrightarrow> length (encoding (widen bs)) > length bs)" for bs :: bytes
    by (induction bs) (auto simp: enc length_char_bytes word_less_def simp del: widen_Cons)
  have "list_all (\<lambda>b. b < 128) bs \<Longrightarrow> encoding (widen bs) = bs"
    by (induction bs) (simp_all add: enc one del: widen_Cons)
  moreover have "encoding (widen bs) = bs \<Longrightarrow> list_all (\<lambda>b. b < 128) bs"
    using len [of bs] by auto
  ultimately show ?thesis using ok by (auto simp: utf8_encode_eq)
qed

lemma no_cwd_args:
  assumes "str ''--cwd'' \<notin> set args"
  shows "command_cwd_from_args cwd args = Some (Inr cwd)" and "args_without_cwd args = Inr args"
  using assms by (induction args) (auto simp del: str_Cons)

lemma help_flags_unknown:
  "parse_args_loop p a l False [str ''--help''] = Inl (config_error (str ''unknown flag: --help''))"
  "parse_args_loop p a l False [str ''--version''] = Inl (config_error (str ''unknown flag: --version''))"
  by (simp_all add: is_config_path_flag_def is_tasks_flag_def)

lemma items_not_help:
  assumes "list_all item_ok items" and "actions items \<le> 1"
  shows "items_args items \<noteq> [str ''--help'']" and "items_args items \<noteq> [str ''--version'']"
proof -
  obtain r where r: "parse_args_loop None (Run []) 2 False (items_args items) = Inr r"
    using parse_items [OF assms(1), of False None "Run []" 2] assms(2) by auto
  then show "items_args items \<noteq> [str ''--help'']"
    using help_flags_unknown(1) [of None "Run []" 2] by (metis sum.distinct(1))
  show "items_args items \<noteq> [str ''--version'']"
    using r help_flags_unknown(2) [of None "Run []" 2] by (metis sum.distinct(1))
qed

text \<open>A line of the grammar on a script configuration.\<close>

lemma script_line:
  assumes "list_all item_ok items" and "list_all plain_item items" and "actions items \<le> 1"
    and "length (filter is_path_item items) \<le> 1"
    and "str ''--cwd'' \<notin> set (items_args items)" and "items_args items \<noteq> [str ''-v'']"
    and "load_real_config (ce_read env w) cwd (first_path items) = Some (Inr doc)"
    and "doc_path doc = render True (root @ file)" and "suffix (str ''.mbtx'') (doc_path doc)"
    and "discover_moon_root (ce_read env w) cwd = Some (Inr (render True root))"
    and "plain_dir root" and "plain_dir file" and "root \<noteq> []" and "file \<noteq> []"
  shows "mulp_command_result_from env cwd (items_args items) w =
    run_and_report env
      \<lparr>pc_program = str ''moon'',
       pc_args = [str ''run'', str ''--quiet'', str ''--target'', str ''native'', render False file, str ''--'']
         @ concat (map script_args items),
       pc_cwd = Some (render True root)\<rparr> w"
proof -
  let ?args = "items_args items"
  have no_help: "?args \<noteq> [str ''--help'']" "?args \<noteq> [str ''--version'']"
    using items_not_help [OF assms(1,3)] by blast+
  have parsed: "\<exists>r. parse_args ?args [] = Inr r"
    using parse_items [OF assms(1), of False None "Run []" 2] assms(3) by (simp add: parse_args_def)
  have path: "path_relative_to_root (doc_path doc) (render True root) = Some (render False file)"
    using relative_to_root [OF assms(11-14)] assms(8) by simp
  have script: "is_mulp_script_path (doc_path doc) = Some True"
    using assms(9) by (simp add: is_mulp_script_path_def run_simps del: str_Cons)
  note passes = config_path_items [OF assms(1,2)] without_config_items [OF assms(1,2)]
    script_args_items [OF assms(1,2)]
  show ?thesis
    using no_help parsed assms(6)
    by (auto simp: mulp_command_result_from_def run_script_def script_path_from_def or_fail_def
        no_cwd_args [OF assms(5)] passes assms(7,10) script path moon_run_script_command_def
        execute_moon_run_command_def with_cwd_def process_command_def simp del: str_Cons)
qed

definition demo_files :: "mstring \<Rightarrow> mstring result" where
  "demo_files p = (if p = str ''/w/app/mulp.mbtx'' \<or> p = str ''/w/moon.mod.json'' then Inr [] else Inl (StreamError []))"

text \<open>An outside that keeps the lines the shell was given.\<close>

definition demo_command_env :: "bytes list command_env" where
  "demo_command_env = \<lparr>ce_read = \<lambda>w. demo_files,
     ce_shell = \<lambda>w line. Some (str ''0'' @ [10] @ str ''0'' @ [10] @ str ''0'' @ [10]),
     ce_effect = \<lambda>line w. w @ [line]\<rparr>"

lemma demo_dirs: "plain_dir [str ''w'']" "plain_dir [str ''app'', str ''mulp.mbtx'']"
  "render True [str ''w''] = str ''/w''" "render False [str ''app'', str ''mulp.mbtx''] = str ''app/mulp.mbtx''"
  by (simp_all add: plain_dir_def proper_def no_surrogates_def is_trailing_surrogate_def
      is_leading_surrogate_def render_def)

lemma demo_searches:
  "discover_real_config demo_files (str ''/w/app'') =
     Some (Inr \<lparr>doc_path = str ''/w/app/mulp.mbtx'', doc_contents = []\<rparr>)"
  "discover_moon_root demo_files (str ''/w/app'') = Some (Inr (str ''/w''))"
proof -
  have app: "plain_dir [str ''w'', str ''app'']" "render True [str ''w'', str ''app''] = str ''/w/app''"
    by (simp_all add: plain_dir_def proper_def no_surrogates_def is_trailing_surrogate_def
        is_leading_surrogate_def render_def)
  have dir: "normalize_dir (str ''/w/app'') = Some (str ''/w/app'')"
    using normalize_dir_render [of "[str ''w'', str ''app'']"] app by (simp add: plain_dir_def)
  have parent: "parent_dir (str ''/w/app'') = Some (Some (str ''/w''))"
    using parent_dir_render [of "[str ''w'']" "str ''app''"] app demo_dirs by simp
  show "discover_real_config demo_files (str ''/w/app'') =
     Some (Inr \<lparr>doc_path = str ''/w/app/mulp.mbtx'', doc_contents = []\<rparr>)"
    using dir by (simp add: discover_real_config_def discover_loop.simps discover_candidate_def slash_single
        default_config_file_name_def demo_files_def)
  have "moon_root_loop demo_files s (str ''/w'') = Some (Inr (str ''/w''))" for s
    by (subst moon_root_loop.simps) (simp add: moon_root_candidate_def slash_single demo_files_def)
  then show "discover_moon_root demo_files (str ''/w/app'') = Some (Inr (str ''/w''))"
    using dir parent
    by (simp add: discover_moon_root_def)
      (subst moon_root_loop.simps, simp add: moon_root_candidate_def slash_single demo_files_def)
qed

text \<open>
  Property C3. In a directory below the module root, a line of the grammar that names the script at
  most once runs exactly one command: \<open>moon run\<close> of the discovered script, named by its path
  from the root, in the root, with the action of the line as the script's arguments.
\<close>

theorem script_command_line:
  assumes "list_all item_ok items" and "list_all plain_item items" and "actions items \<le> 1"
    and "length (filter is_path_item items) \<le> 1"
    and "str ''--cwd'' \<notin> set (items_args items)" and "items_args items \<noteq> [str ''-v'']"
    and "load_real_config (ce_read env w) cwd (first_path items) = Some (Inr doc)"
    and "doc_path doc = render True (root @ file)" and "suffix (str ''.mbtx'') (doc_path doc)"
    and "discover_moon_root (ce_read env w) cwd = Some (Inr (render True root))"
    and "plain_dir root" and "plain_dir file" and "root \<noteq> []" and "file \<noteq> []"
  shows "mulp_command_result_from env cwd (items_args items) w =
    run_and_report env
      \<lparr>pc_program = str ''moon'',
       pc_args = [str ''run'', str ''--quiet'', str ''--target'', str ''native'', render False file, str ''--'']
         @ concat (map script_args items),
       pc_cwd = Some (render True root)\<rparr> w"
  by (rule script_line [OF assms])

theorem script_command_line_witness:
  "mulp_command_result_from demo_command_env (str ''/w/app'') [str ''--quiet'', str ''build''] [] =
   run_and_report demo_command_env
     \<lparr>pc_program = str ''moon'',
      pc_args = [str ''run'', str ''--quiet'', str ''--target'', str ''native'', str ''app/mulp.mbtx'',
        str ''--'', str ''build''],
      pc_cwd = Some (str ''/w'')\<rparr> []"
  using script_command_line [of "[Level_Item False, Task_Item (str ''build'')]" demo_command_env "[]"
      "str ''/w/app''" "\<lparr>doc_path = str ''/w/app/mulp.mbtx'', doc_contents = []\<rparr>"
      "[str ''w'']" "[str ''app'', str ''mulp.mbtx'']"]
    demo_dirs demo_searches
  by (simp add: demo_command_env_def load_real_config_def suffix_def render_def)

subsection \<open>The watch loop as a step relation\<close>

inductive watch_step ::
    "'w watch_env \<Rightarrow> ('w program_state \<Rightarrow> 'w program_state run) \<Rightarrow> 'w program_state \<Rightarrow>
      'w program_state \<Rightarrow> bool"
  for wenv :: "'w watch_env" and cb :: "'w program_state \<Rightarrow> 'w program_state run" where
  quiet_round: "mulp_check_sigint (snd s) = 0 \<Longrightarrow> we_tick wenv cb s = Some (None, s') \<Longrightarrow>
    watch_step wenv cb s (we_sleep wenv loop_interval s')"

inductive_cases watch_stepE: "watch_step wenv cb s t"

definition stopped :: command_result where
  "stopped = \<lparr>cr_status = 0, cr_stdout = [], cr_stderr = []\<rparr>"

lemma stopped_not_failed [simp]: "stopped \<noteq> failed msg" "failed msg \<noteq> stopped"
  by (simp_all add: stopped_def failed_def)

lemma watch_loop_step: "watch_step wenv cb s t \<Longrightarrow> watch_loop wenv cb s = watch_loop wenv cb t"
  by (erule watch_stepE) (subst watch_loop.simps, simp)

lemma watch_loop_steps: "(watch_step wenv cb)\<^sup>*\<^sup>* s t \<Longrightarrow> watch_loop wenv cb s = watch_loop wenv cb t"
  by (induction rule: rtranclp_induct) (simp_all add: watch_loop_step)

lemma watch_loop_stop:
  "mulp_check_sigint (snd s) \<noteq> 0 \<Longrightarrow> watch_loop wenv cb s = Some (stopped, we_close wenv s)"
  by (subst watch_loop.simps) (simp add: stopped_def)

text \<open>What a returning loop has done: quiet rounds, then a signal or an error of the watcher.\<close>

definition watch_outcome ::
    "'w watch_env \<Rightarrow> ('w program_state \<Rightarrow> 'w program_state run) \<Rightarrow> 'w program_state \<Rightarrow>
      command_result \<times> 'w program_state \<Rightarrow> bool" where
  "watch_outcome wenv cb s y \<longleftrightarrow>
     (\<exists>t. (watch_step wenv cb)\<^sup>*\<^sup>* s t \<and>
       (mulp_check_sigint (snd t) \<noteq> 0 \<and> y = (stopped, we_close wenv t) \<or>
        (\<exists>msg t'. mulp_check_sigint (snd t) = 0 \<and> we_tick wenv cb t = Some (Some msg, t') \<and>
          y = (failed msg, we_close wenv t'))))"

lemma watch_outcome_now:
  "mulp_check_sigint (snd s) \<noteq> 0 \<Longrightarrow> watch_outcome wenv cb s (stopped, we_close wenv s)"
  "mulp_check_sigint (snd s) = 0 \<Longrightarrow> we_tick wenv cb s = Some (Some msg, s') \<Longrightarrow>
     watch_outcome wenv cb s (failed msg, we_close wenv s')"
  unfolding watch_outcome_def by blast+

lemma watch_outcome_step:
  "watch_step wenv cb s t \<Longrightarrow> watch_outcome wenv cb t y \<Longrightarrow> watch_outcome wenv cb s y"
  unfolding watch_outcome_def using converse_rtranclp_into_rtranclp [of "watch_step wenv cb" s t] by blast

lemma watch_loop_outcome:
  assumes "watch_loop wenv cb s = Some y"
  shows "watch_outcome wenv cb s y"
proof (rule watch_loop.raw_induct [OF _ assms])
  fix loop :: "'a watch_env \<Rightarrow> ('a program_state \<Rightarrow> 'a program_state run) \<Rightarrow> 'a program_state \<Rightarrow>
    (command_result \<times> 'a program_state) run" and wenv cb s y
  assume IH: "\<And>wenv cb s y. loop wenv cb s = Some y \<Longrightarrow> watch_outcome wenv cb s y"
    and run: "(if mulp_check_sigint (snd s) = 0 then do {
        (e, s') \<leftarrow> we_tick wenv cb s;
        case e of
          Some msg \<Rightarrow> Some (failed msg, we_close wenv s')
        | None \<Rightarrow> loop wenv cb (we_sleep wenv loop_interval s')
      } else
        Some (\<lparr>cr_status = 0, cr_stdout = [], cr_stderr = []\<rparr>, we_close wenv s)) = Some y"
  show "watch_outcome wenv cb s y"
  proof (cases "mulp_check_sigint (snd s) = 0")
    case True
    with run obtain e s' where tick: "we_tick wenv cb s = Some (e, s')" by (auto split: bind_splits)
    show ?thesis
    proof (cases e)
      case None
      have "watch_outcome wenv cb (we_sleep wenv loop_interval s') y"
        by (rule IH) (use True run tick None in simp)
      moreover have "watch_step wenv cb s (we_sleep wenv loop_interval s')"
        using True tick None by (auto intro: quiet_round)
      ultimately show ?thesis by (blast intro: watch_outcome_step)
    next
      case (Some msg)
      with True run tick show ?thesis by (auto intro: watch_outcome_now)
    qed
  next
    case False
    with run show ?thesis using watch_outcome_now(1) [OF False, of wenv cb] by (auto simp: stopped_def)
  qed
qed

text \<open>
  The watch loop returns with status 0 exactly when, after finitely many rounds without an
  error of the watcher, a check sees the interrupt flag; the watcher is then closed.
\<close>

theorem watch_ends_on_interrupt:
  "watch_loop wenv cb s = Some (stopped, s') \<longleftrightarrow>
   (\<exists>t. (watch_step wenv cb)\<^sup>*\<^sup>* s t \<and> mulp_check_sigint (snd t) \<noteq> 0 \<and> s' = we_close wenv t)"
proof
  assume "watch_loop wenv cb s = Some (stopped, s')"
  from watch_loop_outcome [OF this]
  show "\<exists>t. (watch_step wenv cb)\<^sup>*\<^sup>* s t \<and> mulp_check_sigint (snd t) \<noteq> 0 \<and> s' = we_close wenv t"
    by (auto simp: watch_outcome_def)
next
  assume "\<exists>t. (watch_step wenv cb)\<^sup>*\<^sup>* s t \<and> mulp_check_sigint (snd t) \<noteq> 0 \<and> s' = we_close wenv t"
  then show "watch_loop wenv cb s = Some (stopped, s')"
    by (auto simp: watch_loop_steps watch_loop_stop)
qed

text \<open>
  Watch mode does not look at an explicit configuration path: giving one changes nothing,
  whatever it names.
\<close>

theorem watch_ignores_config_path:
  assumes "is_config_path_flag flag" and "path \<noteq> str ''--cwd''" and "task \<noteq> str ''--cwd''"
    and "\<not> is_config_path_flag task"
  shows "mulp_run_watch env wenv cwd [flag, path, str ''--watch'', task] s =
    mulp_run_watch env wenv cwd [str ''--watch'', task] s"
proof -
  have "flag \<noteq> str ''--cwd''" "\<not> is_config_path_flag (str ''--watch'')" "str ''--watch'' \<noteq> (str ''--cwd'' :: mstring)"
    using assms(1) by (auto simp: is_config_path_flag_def)
  then have absent: "str ''--cwd'' \<notin> set [flag, path, str ''--watch'', task]"
    "str ''--cwd'' \<notin> set [str ''--watch'', task]"
    using assms(2,3) by (simp_all del: str_Cons)
  show ?thesis
    unfolding mulp_run_watch_def no_cwd_args [OF absent(1)] no_cwd_args [OF absent(2)] or_fail_def
    using assms(1,4) \<open>\<not> is_config_path_flag (str ''--watch'')\<close> by (simp del: str_Cons)
qed

theorem watch_ignores_config_path_witness:
  "mulp_run_watch demo_command_env wenv (str ''/w/app'') [str ''--file'', str ''x'', str ''--watch'', str ''js''] s =
   mulp_run_watch demo_command_env wenv (str ''/w/app'') [str ''--watch'', str ''js''] s"
  by (rule watch_ignores_config_path) (simp_all add: is_config_path_flag_def)

end
