(* ===== verification/Utf8_Bytes.thy ===== *)
theory Utf8_Bytes
  imports Utf8
begin

text \<open>
  The conversion of a string to bytes that the watcher's packages carry each for itself (the
  scanner's copy is the one named here): two folds over the characters, one for the size, one
  that writes. Unlike the encoder of the runtime library it accepts every string; an unpaired
  surrogate becomes three bytes.
\<close>

text \<open>One character into a byte array; the number of bytes written.\<close>

definition set_utf8_char :: "bytes \<Rightarrow> nat \<Rightarrow> int \<Rightarrow> (bytes \<times> nat) run" where
  "set_utf8_char self offset value =
     (let code = uint (word_of_int value :: 32 word) in
      if code < 128 then do {
        self \<leftarrow> poke self offset (or (and code 127) 0);
        Some (self, 1)
      } else if code < 2048 then do {
        self \<leftarrow> poke self offset (or (and (drop_bit 6 code) 31) 192);
        self \<leftarrow> poke self (offset + 1) (or (and code 63) 128);
        Some (self, 2)
      } else if code < 65536 then do {
        self \<leftarrow> poke self offset (or (and (drop_bit 12 code) 15) 224);
        self \<leftarrow> poke self (offset + 1) (or (and (drop_bit 6 code) 63) 128);
        self \<leftarrow> poke self (offset + 2) (or (and code 63) 128);
        Some (self, 3)
      } else if code < 1114112 then do {
        self \<leftarrow> poke self offset (or (and (drop_bit 18 code) 7) 240);
        self \<leftarrow> poke self (offset + 1) (or (and (drop_bit 12 code) 63) 128);
        self \<leftarrow> poke self (offset + 2) (or (and (drop_bit 6 code) 63) 128);
        self \<leftarrow> poke self (offset + 3) (or (and code 63) 128);
        Some (self, 4)
      } else None)"

definition count_char :: "nat \<Rightarrow> int \<Rightarrow> nat" where
  "count_char len ch =
     (if ch < 128 then len + 1 else if ch < 2048 then len + 2 else if ch < 65536 then len + 3 else len + 4)"

fun iter_fold :: "('b \<Rightarrow> int \<Rightarrow> 'b) \<Rightarrow> 'b \<Rightarrow> int list \<Rightarrow> 'b" where
  "iter_fold f acc [] = acc"
| "iter_fold f acc (x # xs) = iter_fold f (f acc x) xs"

definition fill_char :: "(bytes \<times> nat) run \<Rightarrow> int \<Rightarrow> (bytes \<times> nat) run" where
  "fill_char st ch = do {
     (arr, offset) \<leftarrow> st;
     (arr, n) \<leftarrow> set_utf8_char arr offset ch;
     Some (arr, offset + n)
   }"

definition scanner_string_to_utf8_bytes :: "mstring \<Rightarrow> bytes run" where
  "scanner_string_to_utf8_bytes value = do {
     let byte_length = iter_fold count_char 0 (string_chars value);
     (arr, _) \<leftarrow> iter_fold fill_char (Some (replicate byte_length 0, 0)) (string_chars value);
     Some arr
   }"

subsection \<open>The result is the encoding\<close>

lemma string_chars_range: "c \<in> set (string_chars s) \<Longrightarrow> 0 \<le> c \<and> c < 1114112"
proof (induction s rule: string_chars.induct)
  case (2 u)
  then show ?case using uint_lt2p [of u] by simp
next
  case (3 u v s)
  then show ?case using uint_lt2p [of u] uint_lt2p [of v]
    by (auto simp: code_point_of_surrogate_pair_def is_leading_surrogate_def is_trailing_surrogate_def
        word_le_def split: if_splits)
qed simp

lemma or_high:
  "0 \<le> y \<Longrightarrow> y < 64 \<Longrightarrow> or y 128 = 128 + y" "0 \<le> y \<Longrightarrow> y < 64 \<Longrightarrow> or y 192 = 192 + y"
  "0 \<le> y \<Longrightarrow> y < 32 \<Longrightarrow> or y 224 = 224 + y" "0 \<le> y \<Longrightarrow> y < 16 \<Longrightarrow> or y 240 = 240 + (y :: int)"
  using or_push [of y 6 2] or_push [of y 6 3] or_push [of y 5 7] or_push [of y 4 15]
  by (simp_all add: or.commute push_bit_eq_mult)

lemma and_127: "and x 127 = x mod (128 :: int)"
  using and_low [of x 7] by simp

lemma map_bind_option: "map_option f (x \<bind> g) = x \<bind> (\<lambda>a. map_option f (g a))" "map_option f x = x \<bind> (\<lambda>a. Some (f a))"
  by (cases x; simp)+

lemmas set_char_simps = set_utf8_char_def Let_def and_low_bits and_127 drop_bit_eq_div or_high

lemma set_utf8_char_at:
  assumes "0 \<le> c" and "c < 1114112" and "k = m + length (char_bytes c)" and "n = length pre"
  shows "set_utf8_char (pre @ replicate k 0) n c = Some ((pre @ char_bytes c) @ replicate m 0, length (char_bytes c))"
proof -
  have code: "uint (word_of_int c :: 32 word) = c" using assms(1,2) by (simp add: uint_word_of_int)
  note at = put_char_at [OF assms(3,4)]
  consider "c < 128" | "128 \<le> c" "c < 2048" | "2048 \<le> c" "c < 65536" | "65536 \<le> c" by linarith
  then show ?thesis
  proof cases
    case 1
    then show ?thesis using at(1) assms(1)
      by (simp add: set_char_simps code char_bytes.simps)
  next
    case 2
    then have "set_utf8_char (pre @ replicate k 0) n c = map_option (\<lambda>a. (a, 2)) (put2 (pre @ replicate k 0) n c)"
      using assms(1) by (simp add: set_char_simps code put2_def map_bind_option)
    then show ?thesis using at(2) [OF 2] 2 by (simp add: char_bytes.simps)
  next
    case 3
    then have "set_utf8_char (pre @ replicate k 0) n c = map_option (\<lambda>a. (a, 3)) (put3 (pre @ replicate k 0) n c)"
      using assms(1) by (simp add: set_char_simps code put3_def map_bind_option)
    then show ?thesis using at(3) [OF 3] 3 by (simp add: char_bytes.simps)
  next
    case 4
    then have "set_utf8_char (pre @ replicate k 0) n c = map_option (\<lambda>a. (a, 4)) (put4 (pre @ replicate k 0) n c)"
      using assms(1,2) by (simp add: set_char_simps code put4_def map_bind_option)
    then show ?thesis using at(4) [OF 4] 4 by (simp add: char_bytes.simps)
  qed
qed

lemma count_char_length: "0 \<le> c \<Longrightarrow> count_char n c = n + length (char_bytes c)"
  by (simp add: count_char_def char_bytes.simps)

lemma count_fold:
  "\<forall>c \<in> set cs. 0 \<le> c \<Longrightarrow> iter_fold count_char n cs = n + length (concat (map char_bytes cs))"
  by (induction cs arbitrary: n) (simp_all add: count_char_length)

lemma fill_fold:
  "\<forall>c \<in> set cs. 0 \<le> c \<and> c < 1114112 \<Longrightarrow>
   iter_fold fill_char (Some (pre @ replicate (length (concat (map char_bytes cs))) 0, length pre)) cs =
   Some (pre @ concat (map char_bytes cs), length pre + length (concat (map char_bytes cs)))"
proof (induction cs arbitrary: pre)
  case (Cons c cs)
  let ?m = "length (concat (map char_bytes cs))"
  have "fill_char (Some (pre @ replicate (length (concat (map char_bytes (c # cs)))) 0, length pre)) c =
      Some ((pre @ char_bytes c) @ replicate ?m 0, length (pre @ char_bytes c))"
    unfolding fill_char_def using Cons.prems
    by (subst bind.bind_lunit, simp only: prod.case, subst set_utf8_char_at [of c _ ?m]) simp_all
  with Cons.IH [of "pre @ char_bytes c"] Cons.prems show ?case by (simp add: add.assoc)
qed simp

lemma scanner_bytes_eq: "scanner_string_to_utf8_bytes s = Some (encoding s)"
  using fill_fold [of "string_chars s" "[]"] string_chars_range [of _ s]
  by (simp add: scanner_string_to_utf8_bytes_def count_fold encoding_def Let_def)

text \<open>The characters written one after the other to a string builder.\<close>

fun from_array_loop :: "int list \<Rightarrow> mstring \<Rightarrow> mstring run" where
  "from_array_loop [] buf = Some buf"
| "from_array_loop (c # cs) buf = do { buf \<leftarrow> write_char buf c; from_array_loop cs buf }"

definition string_from_array :: "int list \<Rightarrow> mstring run" where
  "string_from_array chars = from_array_loop chars []"

lemma uint_char: "0 \<le> n \<Longrightarrow> n < 1114112 \<Longrightarrow> uint (word_of_int n :: 32 word) = n"
  by (simp add: uint_word_of_int)

lemma ucast_unit: "(ucast (w :: 32 word) :: code_unit) = word_of_int (uint w)"
  by (simp add: word_uint_eq_iff unsigned_ucast_eq uint_word_of_int take_bit_eq_mod)

lemma write_char_unit: "write_char buf (uint (c :: code_unit)) = Some (buf @ [c])"
proof -
  have "uint c < 65536" using uint_lt2p [of c] by simp
  then have "uint (word_of_int (uint c) :: 32 word) = uint c" by (subst uint_char) simp_all
  with \<open>uint c < 65536\<close> show ?thesis by (simp only: write_char_def Let_def word_le_def ucast_unit) simp
qed

lemma write_char_pair:
  assumes "is_leading_surrogate u" and "is_trailing_surrogate v"
  shows "write_char buf (code_point_of_surrogate_pair u v) = Some (buf @ [u, v])"
proof -
  define h l where hl: "h = uint u - 55296" "l = uint v - 56320"
  have r: "0 \<le> h" "h < 1024" "0 \<le> l" "l < 1024"
    using assms by (auto simp: hl is_leading_surrogate_def is_trailing_surrogate_def word_le_def)
  have n: "code_point_of_surrogate_pair u v = h * 1024 + l + 65536"
    by (simp add: hl code_point_of_surrogate_pair_def)
  have w: "uint (word_of_int (h * 1024 + l + 65536) :: 32 word) = h * 1024 + l + 65536"
    using r by (intro uint_char) simp_all
  define c :: "32 word" where "c = word_of_int (h * 1024 + l + 65536) - 65536"
  have c: "c = word_of_int (h * 1024 + l)" by (simp add: c_def flip: of_int_diff)
  then have "uint c = h * 1024 + l" using r uint_char [of "h * 1024 + l"] by simp
  then have "uint (drop_bit 10 c) = h" "uint (and c 1023) = l"
    using r and_low [of "h * 1024 + l" 10] by (simp_all add: drop_bit_eq_div uint_div uint_and)
  then have "uint (55296 + drop_bit 10 c) = uint u" "uint (56320 + and c 1023) = uint v"
    using r by (simp_all add: uint_word_ariths hl)
  then have units: "(ucast (55296 + drop_bit 10 c) :: code_unit) = u" "(ucast (56320 + and c 1023) :: code_unit) = v"
    by (simp_all only: ucast_unit word_of_int_uint)
  have "\<not> (word_of_int (h * 1024 + l + 65536) :: 32 word) \<le> 65535"
    "(word_of_int (h * 1024 + l + 65536) :: 32 word) \<le> 1114111"
    unfolding word_le_def w using r by simp_all
  then show ?thesis
    unfolding write_char_def n Let_def c_def [symmetric] units by (simp only: if_False if_True)
qed

lemma string_from_chars: "from_array_loop (string_chars s) buf = Some (buf @ s)"
  by (induction s arbitrary: buf rule: string_chars.induct) (simp_all add: write_char_unit write_char_pair)

end
