(* ===== verification/Readdirp_Utf8.thy ===== *)
theory Readdirp_Utf8
  imports Utf8_Bytes
begin

text \<open>
  The decoder of names in the directory reader, compiled from \<open>readdirp/fs_native.mbt\<close>: one
  replacement character for every byte that does not begin a well-formed sequence. It is another
  one than the decoder of the runtime library, which replaces a cut sequence as a whole.
\<close>

definition is_utf8_continuation :: "int \<Rightarrow> bool" where
  "is_utf8_continuation byte \<longleftrightarrow> 128 \<le> byte \<and> byte \<le> 191"

definition is_valid_utf8_three_byte :: "bytes \<Rightarrow> nat \<Rightarrow> nat \<Rightarrow> bool" where
  "is_valid_utf8_three_byte value index len =
     (if index + 2 < len then
        (let b0 = uint (value ! index); b1 = uint (value ! (index + 1)); b2 = uint (value ! (index + 2)) in
         is_utf8_continuation b2 \<and>
         (b0 = 224 \<and> 160 \<le> b1 \<and> b1 \<le> 191 \<or>
          225 \<le> b0 \<and> b0 \<le> 236 \<and> is_utf8_continuation b1 \<or>
          b0 = 237 \<and> 128 \<le> b1 \<and> b1 \<le> 159 \<or>
          238 \<le> b0 \<and> b0 \<le> 239 \<and> is_utf8_continuation b1))
      else False)"

definition is_valid_utf8_four_byte :: "bytes \<Rightarrow> nat \<Rightarrow> nat \<Rightarrow> bool" where
  "is_valid_utf8_four_byte value index len =
     (if index + 3 < len then
        (let b0 = uint (value ! index); b1 = uint (value ! (index + 1));
             b2 = uint (value ! (index + 2)); b3 = uint (value ! (index + 3)) in
         is_utf8_continuation b2 \<and> is_utf8_continuation b3 \<and>
         (b0 = 240 \<and> 144 \<le> b1 \<and> b1 \<le> 191 \<or>
          241 \<le> b0 \<and> b0 \<le> 243 \<and> is_utf8_continuation b1 \<or>
          b0 = 244 \<and> 128 \<le> b1 \<and> b1 \<le> 143))
      else False)"

text \<open>The number of bytes of the sequence at an index, and its character.\<close>

definition sequence_at :: "bytes \<Rightarrow> nat \<Rightarrow> nat \<times> int" where
  "sequence_at value i =
     (let len = length value; b = (\<lambda>k. uint (value ! (i + k))); b0 = uint (value ! i) in
      if b0 \<le> 127 then (1, b0)
      else if 194 \<le> b0 \<and> b0 \<le> 223 \<and> i + 1 < len \<and> is_utf8_continuation (b 1) then
        (2, or (push_bit 6 (and b0 31)) (and (b 1) 63))
      else if is_valid_utf8_three_byte value i len then
        (3, or (or (push_bit 12 (and b0 15)) (push_bit 6 (and (b 1) 63))) (and (b 2) 63))
      else if is_valid_utf8_four_byte value i len then
        (4, or (or (or (push_bit 18 (and b0 7)) (push_bit 12 (and (b 1) 63))) (push_bit 6 (and (b 2) 63)))
              (and (b 3) 63))
      else (1, 65533))"

lemma sequence_at_pos: "0 < fst (sequence_at value i)"
  by (simp add: sequence_at_def Let_def)

function decode_chars :: "bytes \<Rightarrow> nat \<Rightarrow> int list \<Rightarrow> int list" where
  "decode_chars value i chars =
     (if i < length value then
        (case sequence_at value i of (n, code) \<Rightarrow> decode_chars value (i + n) (chars @ [code]))
      else chars)"
  by pat_completeness auto
termination
proof (relation "measure (\<lambda>(value, i, chars). length value - i)", simp)
  fix v :: bytes and i :: nat and chars :: "int list" and n :: nat and code :: int
  assume "i < length v" and "(n, code) = sequence_at v i"
  then have "0 < n" using sequence_at_pos [of v i] by (metis fst_conv)
  with \<open>i < length v\<close> show "((v, i + n, chars @ [code]), v, i, chars)
      \<in> measure (\<lambda>(value, i, chars). length value - i)"
    by simp
qed

declare decode_chars.simps [simp del]

definition utf8_decode_lossy :: "bytes \<Rightarrow> mstring run" where
  "utf8_decode_lossy value = string_from_array (decode_chars value 0 [])"

subsection \<open>Well-formed names are decoded\<close>

lemma decode_chars_step:
  "i < length value \<Longrightarrow> sequence_at value i = (n, code) \<Longrightarrow>
   decode_chars value i chars = decode_chars value (i + n) (chars @ [code])"
  by (subst decode_chars.simps) simp

lemma decode_chars_stop: "length value \<le> i \<Longrightarrow> decode_chars value i chars = chars"
  by (subst decode_chars.simps) simp

text \<open>The characters a well-formed string is made of.\<close>

definition scalar_value :: "int \<Rightarrow> bool" where
  "scalar_value c \<longleftrightarrow> 0 \<le> c \<and> c < 1114112 \<and> (c < 55296 \<or> 57343 < c)"

lemma sequence_at_char:
  assumes "scalar_value c"
  shows "sequence_at (pre @ char_bytes c @ post) (length pre) = (length (char_bytes c), c)"
proof -
  have r: "0 \<le> c" "c < 1114112" using assms by (simp_all add: scalar_value_def)
  have nth: "(pre @ b0 # bs) ! length pre = b0" "(pre @ b0 # b1 # bs) ! Suc (length pre) = b1"
    "(pre @ b0 # b1 # b2 # bs) ! Suc (Suc (length pre)) = b2"
    "(pre @ b0 # b1 # b2 # b3 # bs) ! Suc (Suc (Suc (length pre))) = b3" for b0 b1 b2 b3 :: byte and bs
    by (simp_all add: nth_append)
  note defs = sequence_at_def Let_def is_utf8_continuation_def nth and_low_bits low_mods
  consider "c < 128" | "128 \<le> c" "c < 2048" | "2048 \<le> c" "c < 65536" | "65536 \<le> c" by linarith
  then show ?thesis
  proof cases
    case 1
    then show ?thesis using r by (simp add: sequence_at_def Let_def char_bytes.simps uint_byte nth_append)
  next
    case 2
    define x y where xy: "x = c div 64" "y = c mod 64"
    have c: "c = x * 64 + y" "2 \<le> x" "x < 32" "0 \<le> y" "y < 64" using 2 unfolding xy by simp_all
    define b0 b1 :: byte where b: "b0 = word_of_int (192 + x)" "b1 = word_of_int (128 + y)"
    have u: "uint b0 = 192 + x" "uint b1 = 128 + y" unfolding b using c by (simp_all only: uint_byte)
    have bytes: "char_bytes c = [b0, b1]" using 2 by (simp add: char_bytes.simps b xy)
    have "or (push_bit 6 x) y = c" using or_push [of y 6 x] c by simp
    then show ?thesis unfolding bytes using c by (simp add: defs u)
  next
    case 3
    define x y z where xyz: "x = c div 4096" "y = c div 64 mod 64" "z = c mod 64"
    have c: "c = (x * 64 + y) * 64 + z" using div_64_64 [of c] by (simp add: xyz)
    have l: "0 \<le> x" "x < 16" "0 \<le> y" "y < 64" "0 \<le> z" "z < 64" using 3 by (simp_all add: xyz)
    define b0 b1 b2 :: byte where b: "b0 = word_of_int (224 + x)" "b1 = word_of_int (128 + y)" "b2 = word_of_int (128 + z)"
    have u: "uint b0 = 224 + x" "uint b1 = 128 + y" "uint b2 = 128 + z" unfolding b using l by (simp_all only: uint_byte)
    have bytes: "char_bytes c = [b0, b1, b2]" using 3 by (simp add: char_bytes.simps b xyz)
    have "or (or (push_bit 12 x) (push_bit 6 y)) z = c"
      using or_push_12 [of y x] or_push [of z 6 "x * 64 + y"] c l by (simp add: push_6 [symmetric] push_bit_eq_mult algebra_simps)
    moreover have "x = 0 \<longrightarrow> 32 \<le> y" "x = 13 \<longrightarrow> y < 32" using 3 assms c l by (auto simp: scalar_value_def)
    ultimately show ?thesis unfolding bytes using l
      by (simp add: defs u is_valid_utf8_three_byte_def) linarith
  next
    case 4
    define w x y z where wxyz: "w = c div 262144" "x = c div 4096 mod 64" "y = c div 64 mod 64" "z = c mod 64"
    have c: "c = ((w * 64 + x) * 64 + y) * 64 + z" using div_64_64 [of c] by (simp add: wxyz)
    have l: "0 \<le> w" "w < 5" "0 \<le> x" "x < 64" "0 \<le> y" "y < 64" "0 \<le> z" "z < 64" using 4 r by (simp_all add: wxyz)
    define b0 b1 b2 b3 :: byte where b: "b0 = word_of_int (240 + w)" "b1 = word_of_int (128 + x)"
      "b2 = word_of_int (128 + y)" "b3 = word_of_int (128 + z)"
    have u: "uint b0 = 240 + w" "uint b1 = 128 + x" "uint b2 = 128 + y" "uint b3 = 128 + z"
      unfolding b using l by (simp_all only: uint_byte)
    have bytes: "char_bytes c = [b0, b1, b2, b3]" using 4 by (simp add: char_bytes.simps b wxyz)
    have "or (or (or (push_bit 18 w) (push_bit 12 x)) (push_bit 6 y)) z = c"
    proof -
      have "or (push_bit 18 w) (push_bit 12 x) = push_bit 12 (w * 64 + x)"
        using or_push [of "x * 4096" 18 w] l by (simp add: push_bit_eq_mult)
      then show ?thesis using or_push_12 [of y "w * 64 + x"] or_push [of z 6 "(w * 64 + x) * 64 + y"] c l
        by (simp add: push_bit_eq_mult algebra_simps)
    qed
    moreover have "w = 0 \<longrightarrow> 16 \<le> x" "w = 4 \<longrightarrow> x < 16" using 4 r c l by auto
    ultimately show ?thesis unfolding bytes using l
      by (simp add: defs u is_valid_utf8_three_byte_def is_valid_utf8_four_byte_def) linarith
  qed
qed

lemma decode_chars_encoded:
  "list_all scalar_value cs \<Longrightarrow>
   decode_chars (pre @ concat (map char_bytes cs)) (length pre) chars = chars @ cs"
proof (induction cs arbitrary: pre chars)
  case (Cons c cs)
  have "char_bytes c \<noteq> []" by (simp add: char_bytes.simps)
  then have "decode_chars (pre @ concat (map char_bytes (c # cs))) (length pre) chars =
      decode_chars (pre @ concat (map char_bytes (c # cs))) (length pre + length (char_bytes c)) (chars @ [c])"
    using Cons.prems sequence_at_char [of c pre] by (intro decode_chars_step) simp_all
  with Cons.IH [of "pre @ char_bytes c" "chars @ [c]"] Cons.prems show ?case by simp
qed (simp add: decode_chars_stop)

lemma scalar_values: "utf16_ok s \<Longrightarrow> list_all scalar_value (string_chars s)"
proof (induction s rule: string_chars.induct)
  case (2 u)
  then show ?case using uint_lt2p [of u]
    by (auto simp: scalar_value_def is_leading_surrogate_def is_trailing_surrogate_def word_le_def)
next
  case (3 u v s)
  then show ?case using uint_lt2p [of u] uint_lt2p [of v] string_chars_range [of _ "[u, v]"]
    by (auto simp: scalar_value_def is_leading_surrogate_def is_trailing_surrogate_def word_le_def
        code_point_of_surrogate_pair_def split: if_splits)
qed simp

lemma utf8_decode_encoding: "utf16_ok s \<Longrightarrow> utf8_decode_lossy (encoding s) = Some s"
  using decode_chars_encoded [OF scalar_values, of s "[]" "[]"]
  by (simp add: utf8_decode_lossy_def encoding_def string_from_array_def string_from_chars)

end
