(* ===== verification/Chokidar_Paths.thy ===== *)
theory Chokidar_Paths
  imports String_Search String_Ops
begin

text \<open>
  The path functions of the file watcher, compiled from \<open>chokidar/path.mbt\<close> and the swap-file
  test of \<open>matchers.mbt\<close>, with the library routines only they use. On strings without surrogates
  the functions return; a normal path is one whose parts between the separators are not empty.
\<close>

subsection \<open>Routines of the library\<close>

definition strip_prefix :: "mstring \<Rightarrow> mstring \<Rightarrow> mstring option run" where
  "strip_prefix self pre =
     (if length pre \<le> length self then do {
        v \<leftarrow> view_view self 0 (Some (int (length pre)));
        if v = pre then do { r \<leftarrow> view_view self (int (length pre)) None; Some (Some r) } else Some None
      } else Some None)"

definition rev_split_once :: "mstring \<Rightarrow> mstring \<Rightarrow> (mstring \<times> mstring) option run" where
  "rev_split_once self needle = do {
     f \<leftarrow> view_rev_find self needle;
     case f of
       None \<Rightarrow> Some None
     | Some index \<Rightarrow> do {
         l \<leftarrow> view_view self 0 (Some (int index));
         r \<leftarrow> view_view self (int (index + length needle)) None;
         Some (Some (l, r))
       }
   }"

partial_function (option) replace_loop ::
    "nat \<Rightarrow> mstring \<Rightarrow> mstring \<Rightarrow> mstring \<Rightarrow> nat \<Rightarrow> mstring \<Rightarrow> mstring run" where
  "replace_loop len old new view end_at buf = do {
     seg \<leftarrow> view_view view 0 (Some (int end_at));
     let buf = (buf @ seg) @ new;
     if end_at + length old \<le> len then do {
       next_view \<leftarrow> view_view view (int (end_at + length old)) None;
       f \<leftarrow> view_find next_view old;
       case f of
         None \<Rightarrow> Some (buf @ next_view)
       | Some next_end \<Rightarrow> replace_loop len old new next_view next_end buf
     }
     else Some buf
   }"

fun replace_chars :: "mstring \<Rightarrow> int list \<Rightarrow> mstring \<Rightarrow> mstring run" where
  "replace_chars new [] buf = Some buf"
| "replace_chars new (c # cs) buf = do { buf \<leftarrow> write_char buf c; replace_chars new cs (buf @ new) }"

declare replace_loop.simps [code]

definition replace_all :: "mstring \<Rightarrow> mstring \<Rightarrow> mstring \<Rightarrow> mstring run" where
  "replace_all self old new =
     (if old = [] then replace_chars new (string_chars self) new
      else do {
        f \<leftarrow> string_find self old;
        case f of
          None \<Rightarrow> Some self
        | Some first_end \<Rightarrow> replace_loop (length self) old new self first_end []
      })"

fun iter_join_rest :: "mstring \<Rightarrow> mstring \<Rightarrow> mstring list \<Rightarrow> mstring" where
  "iter_join_rest sep buf [] = buf"
| "iter_join_rest sep buf (x # xs) = iter_join_rest sep ((buf @ sep) @ x) xs"

definition iter_join :: "mstring list \<Rightarrow> mstring \<Rightarrow> mstring" where
  "iter_join xs sep = (case xs of [] \<Rightarrow> [] | x # xs \<Rightarrow> iter_join_rest sep x xs)"

subsection \<open>The path functions\<close>

abbreviation (input) sep :: mstring where "sep \<equiv> str ''/''"
abbreviation (input) dot :: mstring where "dot \<equiv> str ''.''"

definition trim_trailing_slashes :: "mstring \<Rightarrow> mstring run" where
  "trim_trailing_slashes path = (if path = sep then Some sep else trim_end path sep)"

definition trim_leading_slashes :: "mstring \<Rightarrow> mstring run" where
  "trim_leading_slashes path = trim_start path sep"

definition collapse_slashes :: "mstring \<Rightarrow> mstring run" where
  "collapse_slashes path = do {
     parts \<leftarrow> string_split path sep;
     let kept = filter (\<lambda>part. part \<noteq> []) parts;
     absolute \<leftarrow> has_prefix path sep;
     Some (if absolute then sep @ iter_join kept sep else iter_join kept sep)
   }"

definition normalize_path_ck :: "mstring \<Rightarrow> mstring run" where
  "normalize_path_ck path = do {
     unix \<leftarrow> replace_all path [92] sep;
     collapsed \<leftarrow> collapse_slashes unix;
     trimmed \<leftarrow> trim_trailing_slashes collapsed;
     Some (if trimmed = [] then dot else trimmed)
   }"

definition join_path :: "mstring \<Rightarrow> mstring \<Rightarrow> mstring run" where
  "join_path parent child = do {
     p \<leftarrow> normalize_path_ck parent;
     parent \<leftarrow> trim_trailing_slashes p;
     c \<leftarrow> normalize_path_ck child;
     child \<leftarrow> trim_leading_slashes c;
     Some
       (if parent = [] \<or> parent = dot then (if child = [] \<or> child = dot then dot else child)
        else if child = [] \<or> child = dot then parent
        else if parent = sep then sep @ child
        else (parent @ sep) @ child)
   }"

definition path_basename :: "mstring \<Rightarrow> mstring run" where
  "path_basename path = do {
     path \<leftarrow> normalize_path_ck path;
     if path = [] then Some dot
     else if path = sep then Some sep
     else do {
       s \<leftarrow> rev_split_once path sep;
       Some (case s of Some (_, base) \<Rightarrow> base | None \<Rightarrow> path)
     }
   }"

definition path_dirname :: "mstring \<Rightarrow> mstring run" where
  "path_dirname path = do {
     path \<leftarrow> normalize_path_ck path;
     if path = sep then Some sep
     else do {
       s \<leftarrow> rev_split_once path sep;
       Some (case s of Some (dir, _) \<Rightarrow> if dir = [] then sep else dir | None \<Rightarrow> dot)
     }
   }"

definition relative_path :: "mstring \<Rightarrow> mstring \<Rightarrow> mstring run" where
  "relative_path root full_path = do {
     root \<leftarrow> normalize_path_ck root;
     full_path \<leftarrow> normalize_path_ck full_path;
     s \<leftarrow> strip_prefix full_path root;
     case s of
       None \<Rightarrow> Some full_path
     | Some path \<Rightarrow>
         if path = [] then Some []
         else if root = sep then Some path
         else do {
           b \<leftarrow> view_has_prefix path sep;
           if b then trim_start path sep else Some full_path
         }
   }"

definition event_path_for :: "mstring \<Rightarrow> mstring option \<Rightarrow> mstring run" where
  "event_path_for path cwd = (case cwd of Some cwd \<Rightarrow> relative_path cwd path | None \<Rightarrow> Some path)"

definition absolute_path_for :: "mstring \<Rightarrow> mstring option \<Rightarrow> mstring run" where
  "absolute_path_for path cwd = (case cwd of Some cwd \<Rightarrow> join_path cwd path | None \<Rightarrow> Some path)"

definition recursive_path_matches :: "mstring \<Rightarrow> mstring \<Rightarrow> bool run" where
  "recursive_path_matches root path = do {
     root \<leftarrow> normalize_path_ck root;
     path \<leftarrow> normalize_path_ck path;
     if root = sep \<or> path = root then Some True else has_prefix path (root @ sep)
   }"

definition is_dot_swap_file :: "mstring \<Rightarrow> bool run" where
  "is_dot_swap_file path = do {
     name \<leftarrow> path_basename path;
     tilde \<leftarrow> has_suffix name (str ''~'');
     if tilde then Some True
     else do {
       swp \<leftarrow> has_suffix name (str ''.swp'');
       swx \<leftarrow> has_suffix name (str ''.swx'');
       hidden \<leftarrow> has_prefix name dot;
       if (swp \<or> swx) \<and> hidden then Some True
       else do {
         subl \<leftarrow> string_find name (str ''.subl'');
         tmp \<leftarrow> has_suffix name (str ''.tmp'');
         Some (subl \<noteq> None \<and> tmp)
       }
     }
   }"

subsection \<open>What the functions return\<close>

lemma iter_join_eq: "iter_join xs s = join_with s xs"
proof -
  have "iter_join_rest s buf xs = join_with s (buf # xs)" for buf xs
  proof (induction xs arbitrary: buf)
    case (Cons x xs)
    show ?case using Cons.IH [of "(buf @ s) @ x"] by (cases xs) simp_all
  qed simp
  then show ?thesis by (cases xs) (simp_all add: iter_join_def)
qed

lemma strip_prefix_eq: "strip_prefix s p = Some (if prefix p s then Some (drop (length p) s) else None)"
  by (auto simp: strip_prefix_def view_view_def slice_def prefix_def) (metis append_take_drop_id)

text \<open>Replacing a single unit.\<close>

abbreviation exchange :: "'a \<Rightarrow> 'a \<Rightarrow> 'a list \<Rightarrow> 'a list" where
  "exchange a b \<equiv> map (\<lambda>c. if c = a then b else c)"

lemma exchange_absent: "c \<notin> set s \<Longrightarrow> exchange c d s = s"
  by (rule map_idI) auto

lemma first_occ_at: "c \<notin> set p \<Longrightarrow> first_occ (p @ c # r) [c] = Some (length p)"
  by (auto simp: first_occ_Some_iff occurs_at_single nth_append)

lemma first_occ_absent: "c \<notin> set s \<Longrightarrow> first_occ s [c] = None"
  by (auto simp: first_occ_None_iff occurs_at_single dest: nth_mem)

lemma replace_loop_unit:
  assumes "c \<notin> set p" and "length p + length r < n"
  shows "replace_loop n [c] [d] (p @ c # r) (length p) buf = Some (buf @ exchange c d (p @ c # r))"
  using assms
proof (induction "length r" arbitrary: p r buf rule: less_induct)
  case less
  let ?v = "p @ c # r"
  have cut: "view_view ?v 0 (Some (int (length p))) = Some p" "view_view ?v (int (length p + length [c])) None = Some r"
    using view_view_eq [of 0 "length p" ?v] view_view_from [of "length p + 1" ?v] by simp_all
  show ?case
  proof (cases "c \<in> set r")
    case True
    then obtain q t where r: "r = q @ c # t" "c \<notin> set q" by (meson split_list_first)
    from less.hyps [of t q "(buf @ p) @ [d]"] show ?thesis
      using less.prems cut r
      by (subst replace_loop.simps) (simp del: of_nat_add add: view_find_spec first_occ_at exchange_absent)
  next
    case False
    then show ?thesis using less.prems cut
      by (subst replace_loop.simps) (simp del: of_nat_add add: view_find_spec first_occ_absent exchange_absent)
  qed
qed

lemma replace_all_unit [run_simps]: "replace_all s [c] [d] = Some (exchange c d s)"
proof (cases "c \<in> set s")
  case True
  then obtain p r where "s = p @ c # r" "c \<notin> set p" by (meson split_list_first)
  then show ?thesis by (simp add: replace_all_def string_find_spec first_occ_at replace_loop_unit)
qed (simp add: replace_all_def string_find_spec first_occ_absent exchange_absent)

subsection \<open>Well-formed strings and slashes\<close>

lemma utf16_ok_last:
  "utf16_ok s \<Longrightarrow> s \<noteq> [] \<Longrightarrow>
   (if is_trailing_surrogate (last s) then 2 \<le> length s \<and> is_leading_surrogate (s ! (length s - 2))
    else \<not> is_leading_surrogate (last s))"
proof (induction s rule: utf16_ok.induct)
  case (3 c1 c2 s)
  show ?case
  proof (cases "is_leading_surrogate c1")
    case True
    then have "is_trailing_surrogate c2" "utf16_ok s" using "3.prems" by auto
    with 3 True show ?thesis by (cases s) (auto simp: nth_Cons' split: if_splits)
  next
    case False
    then have ok: "utf16_ok (c2 # s)" using "3.prems" by auto
    from "3.IH"(2) [OF False ok] show ?thesis by (cases s) (auto simp: nth_Cons' split: if_splits)
  qed
qed (auto simp: surrogates_disjoint)

lemma plain_slash [simp]: "\<not> is_leading_surrogate 47" "\<not> is_trailing_surrogate 47"
    "\<not> is_leading_surrogate 92" "\<not> is_trailing_surrogate 92"
  by (simp_all add: is_leading_surrogate_def is_trailing_surrogate_def word_le_nat_alt)

lemma contains_slash: "contains_char [47] c \<longleftrightarrow> c = 47"
  by (auto simp: contains_char_def)

lemma pair_not_slash:
  "is_leading_surrogate u \<Longrightarrow> is_trailing_surrogate v \<Longrightarrow> code_point_of_surrogate_pair u v \<noteq> 47"
  by (simp add: code_point_of_surrogate_pair_def is_leading_surrogate_def is_trailing_surrogate_def word_le_def)

lemma uint_slash: "uint (c :: code_unit) = 47 \<longleftrightarrow> c = 47"
  by (simp add: word_uint_eq_iff)

lemma trim_end_slash:
  assumes "utf16_ok s" and "s = [] \<or> last s \<noteq> 47"
  shows "trim_end s [47] = Some s"
proof (cases "s = []")
  case False
  note l = utf16_ok_last [OF assms(1) False]
  show ?thesis
  proof (cases "is_trailing_surrogate (last s)")
    case True
    with l have n: "2 \<le> length s" "is_leading_surrogate (s ! (length s - 2))" by auto
    moreover have "s ! Suc (length s - 2) = last s" using n(1) False by (simp add: last_conv_nth Suc_diff_Suc numeral_2_eq_2)
    moreover have "nat (int (length s) - 2) = length s - 2" by simp
    ultimately show ?thesis using True False pair_not_slash [OF n(2) True]
      by (subst trim_end.simps) (simp add: unsafe_char_at_def contains_slash Let_def)
  next
    case plain: False
    have "nat (int (length s) - 1) = length s - 1" by simp
    moreover have "s ! (length s - 1) = last s" using False by (simp add: last_conv_nth)
    ultimately show ?thesis using plain l False assms(2)
      by (subst trim_end.simps) (auto simp: unsafe_char_at_def contains_slash Let_def uint_slash Suc_le_eq)
  qed
qed (simp add: trim_end.simps)

lemma trim_start_slash:
  assumes "utf16_ok s" and "s = [] \<or> hd s \<noteq> 47"
  shows "trim_start s [47] = Some s"
  using assms by (cases s rule: utf16_ok.cases; subst trim_start.simps)
    (auto simp: unsafe_char_at_def contains_slash Let_def uint_slash pair_not_slash)

lemma trim_start_slashes:
  "utf16_ok s \<Longrightarrow> s = [] \<or> hd s \<noteq> 47 \<Longrightarrow> trim_start (47 # s) [47] = Some s"
  by (subst trim_start.simps) (simp add: unsafe_char_at_def contains_slash Let_def trim_start_slash)

lemma utf16_ok_plain_Cons [simp]:
  "\<not> is_leading_surrogate c \<Longrightarrow> \<not> is_trailing_surrogate c \<Longrightarrow> utf16_ok (c # s) = utf16_ok s"
  by (cases s) auto

lemma utf16_ok_append_plain:
  "\<not> is_leading_surrogate c \<Longrightarrow> \<not> is_trailing_surrogate c \<Longrightarrow> utf16_ok (s @ c # t) \<longleftrightarrow> utf16_ok s \<and> utf16_ok t"
  by (induction s rule: utf16_ok.induct) auto

subsection \<open>The form of a path\<close>

text \<open>
  A path is absolute or not and has parts; a relative path whose only part is a dot has the form
  of the empty one. \<open>render_form\<close> writes a form.
\<close>

definition path_parts :: "mstring \<Rightarrow> mstring list" where
  "path_parts s = filter (\<lambda>p. p \<noteq> []) (split_on 47 s)"

definition rooted :: "mstring \<Rightarrow> bool" where
  "rooted s \<longleftrightarrow> s \<noteq> [] \<and> hd s = 47"

definition no_dot :: "mstring list \<Rightarrow> mstring list" where
  "no_dot ps = (if ps = [dot] then [] else ps)"

definition path_form :: "mstring \<Rightarrow> bool \<times> mstring list" where
  "path_form s =
     (let u = exchange 92 47 s; ps = path_parts u
      in (rooted u, if rooted u then ps else no_dot ps))"

definition render_form :: "bool \<times> mstring list \<Rightarrow> mstring" where
  "render_form f =
     (case f of (b, ps) \<Rightarrow> if b then 47 # join_with [47] ps else if ps = [] then dot else join_with [47] ps)"

definition part_ok :: "mstring \<Rightarrow> bool" where
  "part_ok p \<longleftrightarrow> p \<noteq> [] \<and> 47 \<notin> set p \<and> 92 \<notin> set p \<and> utf16_ok p"

definition form_ok :: "bool \<times> mstring list \<Rightarrow> bool" where
  "form_ok f \<longleftrightarrow> list_all part_ok (snd f) \<and> (fst f \<or> snd f \<noteq> [dot])"

lemma filter_split_join:
  "list_all part_ok ps \<Longrightarrow> path_parts (join_with [47] ps) = ps"
  by (cases "ps = []") (auto simp: path_parts_def split_on_join part_ok_def list_all_iff intro!: filter_True)

lemma path_parts_slash: "path_parts (47 # s) = path_parts s"
  by (simp add: path_parts_def)

lemma utf16_ok_split: "utf16_ok s \<Longrightarrow> p \<in> set (split_on 47 s) \<Longrightarrow> utf16_ok p"
proof (induction "length s" arbitrary: s rule: less_induct)
  case less
  show ?case
  proof (cases "47 \<in> set s")
    case True
    then obtain q t where s: "s = q @ 47 # t" "47 \<notin> set q" by (meson split_list_first)
    then show ?thesis using less.prems less.hyps [of t] by (auto simp: split_on_append utf16_ok_append_plain)
  next
    case False
    then show ?thesis using less.prems by (simp add: split_on_absent)
  qed
qed

lemma utf16_ok_exchange: "utf16_ok s \<Longrightarrow> utf16_ok (exchange 92 47 s)"
  by (induction s rule: utf16_ok.induct) auto

lemma path_parts_ok: "utf16_ok s \<Longrightarrow> list_all part_ok (path_parts (exchange 92 47 s))"
proof (unfold list_all_iff path_parts_def, safe)
  fix p assume s: "utf16_ok s" and p: "p \<in> set (filter (\<lambda>p. p \<noteq> []) (split_on 47 (exchange 92 47 s)))"
  have "set p \<subseteq> set (exchange 92 47 s)"
    using join_with_parts [of p "split_on 47 (exchange 92 47 s)" "[47]"] p by (simp add: join_split_on)
  then have "92 \<notin> set p" by (auto split: if_splits)
  with p show "part_ok p"
    using split_on_parts [of p 47 "exchange 92 47 s"] utf16_ok_split [OF utf16_ok_exchange [OF s]]
    by (auto simp: part_ok_def)
qed

lemma path_form_ok: "utf16_ok s \<Longrightarrow> form_ok (path_form s)"
  using path_parts_ok [of s] by (auto simp: form_ok_def path_form_def no_dot_def Let_def)

lemma join_parts_last: "list_all part_ok ps \<Longrightarrow> ps \<noteq> [] \<Longrightarrow> last (join_with [47] ps) \<noteq> 47 \<and> join_with [47] ps \<noteq> []"
  by (induction ps rule: induct_list012) (auto simp: part_ok_def dest: last_in_set)

lemma join_parts_hd: "list_all part_ok ps \<Longrightarrow> ps \<noteq> [] \<Longrightarrow> hd (join_with [47] ps) \<noteq> 47"
  by (induction ps rule: induct_list012) (auto simp: part_ok_def dest: hd_in_set)

lemma join_parts_no_backslash: "list_all part_ok ps \<Longrightarrow> 92 \<notin> set (join_with [47] ps)"
  by (induction ps rule: induct_list012) (auto simp: part_ok_def)

lemma join_parts_utf16: "list_all part_ok ps \<Longrightarrow> utf16_ok (join_with [47] ps)"
  by (induction ps rule: induct_list012) (auto simp: part_ok_def utf16_ok_append_plain)

lemmas join_parts = join_parts_last join_parts_hd join_parts_no_backslash join_parts_utf16

lemma join_parts_dot: "list_all part_ok ps \<Longrightarrow> join_with [47] ps = dot \<Longrightarrow> ps = [dot]"
proof -
  assume ok: "list_all part_ok ps" and j: "join_with [47] ps = dot"
  then have "path_parts dot = ps" using filter_split_join [OF ok] by simp
  then show "ps = [dot]" by (simp add: path_parts_def)
qed

text \<open>A rendered form is its own form.\<close>

lemma path_form_render: "form_ok f \<Longrightarrow> path_form (render_form f) = f"
proof -
  assume f: "form_ok f"
  obtain b ps where bps: "f = (b, ps)" by fastforce
  with f have ok: "list_all part_ok ps" "b \<or> ps \<noteq> [dot]" by (auto simp: form_ok_def)
  note j = join_parts [OF ok(1)] filter_split_join [OF ok(1)]
  show ?thesis
  proof (cases "b = False \<and> ps = []")
    case True
    then show ?thesis by (simp add: bps path_form_def render_form_def rooted_def path_parts_def no_dot_def Let_def)
  next
    case False
    then show ?thesis using j ok(2)
      by (auto simp: bps path_form_def render_form_def rooted_def exchange_absent path_parts_slash no_dot_def Let_def)
  qed
qed

lemma render_form_utf16: "form_ok f \<Longrightarrow> utf16_ok (render_form f)"
  by (auto simp: form_ok_def render_form_def join_parts_utf16 is_leading_surrogate_def is_trailing_surrogate_def
      word_le_nat_alt split: prod.split)

lemma normalize_path_ck_eq:
  assumes "utf16_ok s"
  shows "normalize_path_ck s = Some (render_form (path_form s))"
proof -
  let ?u = "exchange 92 47 s" and ?ps = "path_parts (exchange 92 47 s)"
  have ps: "list_all part_ok ?ps" using path_parts_ok [OF assms] .
  let ?c = "if rooted ?u then 47 # join_with [47] ?ps else join_with [47] ?ps"
  have c: "collapse_slashes ?u = Some ?c"
    by (cases ?u) (auto simp: collapse_slashes_def path_parts_def rooted_def iter_join_eq has_prefix_spec string_split_single)
  have t: "trim_trailing_slashes ?c = Some ?c"
  proof (cases "?ps = []")
    case False
    then have "utf16_ok ?c" "last ?c \<noteq> 47" using join_parts [OF ps] by auto
    then show ?thesis by (simp add: trim_trailing_slashes_def trim_end_slash)
  qed (auto simp: trim_trailing_slashes_def trim_end.simps)
  have "replace_all s [92] sep = Some ?u" by (simp add: replace_all_unit)
  then have "normalize_path_ck s = Some (if ?c = [] then dot else ?c)"
    unfolding normalize_path_ck_def using c t by (simp only: bind.bind_lunit)
  moreover have "(if ?c = [] then dot else ?c) = render_form (path_form s)"
    using join_parts_last [OF ps]
    by (cases "rooted ?u"; cases "?ps = []"; cases "?ps = [dot]")
      (simp_all add: path_form_def render_form_def no_dot_def Let_def del: str_Cons)
  ultimately show ?thesis by simp
qed

subsection \<open>Joining and taking apart\<close>

definition join_forms :: "bool \<times> mstring list \<Rightarrow> bool \<times> mstring list \<Rightarrow> bool \<times> mstring list" where
  "join_forms f g = (fst f, snd f @ no_dot (snd g))"

lemma join_forms_ok: "form_ok f \<Longrightarrow> form_ok g \<Longrightarrow> form_ok (join_forms f g)"
  by (auto simp: form_ok_def join_forms_def no_dot_def append_eq_Cons_conv)

lemma join_with_append:
  "xs \<noteq> [] \<Longrightarrow> ys \<noteq> [] \<Longrightarrow> join_with c (xs @ ys) = join_with c xs @ c @ join_with c ys"
  by (induction xs rule: induct_list012) (auto simp: join_with_Cons)

lemma trim_render_end: "form_ok f \<Longrightarrow> trim_trailing_slashes (render_form f) = Some (render_form f)"
proof -
  assume f: "form_ok f"
  obtain b ps where bps: "f = (b, ps)" by fastforce
  with f have ok: "list_all part_ok ps" by (simp add: form_ok_def)
  show ?thesis
  proof (cases "b \<and> ps = []")
    case False
    then have "last (render_form f) \<noteq> 47" using join_parts_last [OF ok] by (auto simp: bps render_form_def)
    with render_form_utf16 [OF f] show ?thesis by (simp add: trim_trailing_slashes_def trim_end_slash)
  qed (simp add: bps render_form_def trim_trailing_slashes_def)
qed

lemma trim_render_start:
  assumes "form_ok (b, ps)"
  shows "trim_leading_slashes (render_form (b, ps)) =
    Some (if b then join_with [47] ps else render_form (b, ps))"
proof (cases b)
  case True
  have ok: "list_all part_ok ps" using assms by (simp add: form_ok_def)
  then show ?thesis using True join_parts_hd [OF ok] join_parts_utf16 [OF ok]
    by (cases "ps = []") (simp_all add: render_form_def trim_leading_slashes_def trim_start_slashes)
next
  case False
  have "hd (render_form (b, ps)) \<noteq> 47"
    using False assms join_parts_hd [of ps] by (auto simp: render_form_def form_ok_def)
  with False render_form_utf16 [OF assms] show ?thesis by (simp add: trim_leading_slashes_def trim_start_slash)
qed

lemma render_dot: "form_ok f \<Longrightarrow> render_form f = dot \<longleftrightarrow> f = (False, [])"
  using join_parts_dot [of "snd f"] by (cases f) (auto simp: form_ok_def render_form_def split: if_splits)

lemma render_not_Nil: "form_ok f \<Longrightarrow> render_form f \<noteq> []"
  using join_parts_last [of "snd f"] by (cases f) (auto simp: form_ok_def render_form_def split: if_splits)

lemma render_only_root: "form_ok f \<Longrightarrow> render_form f = sep \<longleftrightarrow> f = (True, [])"
  using join_parts_last [of "snd f"] join_parts_hd [of "snd f"]
  by (cases f) (auto simp: form_ok_def render_form_def split: if_splits)

lemma join_path_eq:
  assumes "utf16_ok parent" and "utf16_ok child"
  shows "join_path parent child = Some (render_form (join_forms (path_form parent) (path_form child)))"
proof -
  obtain b ps where p: "path_form parent = (b, ps)" by fastforce
  obtain c cs where q: "path_form child = (c, cs)" by fastforce
  have ok: "form_ok (b, ps)" "form_ok (c, cs)" using path_form_ok assms p q by metis+
  let ?p = "render_form (b, ps)" and ?c = "if c then join_with [47] cs else render_form (c, cs)"
  have cs: "list_all part_ok cs" using ok(2) by (simp add: form_ok_def)
  have none: "?c = [] \<or> ?c = dot \<longleftrightarrow> no_dot cs = []"
  proof -
    consider "cs = []" | "cs = [dot]" | "cs \<noteq> []" "cs \<noteq> [dot]" by blast
    then show ?thesis
    proof cases
      case 3
      then have "join_with [47] cs \<noteq> []" "join_with [47] cs \<noteq> dot"
        using join_parts_last [OF cs] join_parts_dot [OF cs] by blast+
      with 3 show ?thesis by (simp add: render_form_def no_dot_def)
    qed (simp_all add: render_form_def no_dot_def)
  qed
  have some: "no_dot cs \<noteq> [] \<Longrightarrow> ?c = join_with [47] (no_dot cs)"
    using ok(2) by (auto simp: render_form_def no_dot_def form_ok_def split: if_splits)
  have "join_path parent child = Some
      (if ?p = [] \<or> ?p = dot then (if ?c = [] \<or> ?c = dot then dot else ?c)
       else if ?c = [] \<or> ?c = dot then ?p
       else if ?p = sep then sep @ ?c
       else (?p @ sep) @ ?c)"
    unfolding join_path_def normalize_path_ck_eq [OF assms(1)] normalize_path_ck_eq [OF assms(2)] p q bind.bind_lunit
      trim_render_end [OF ok(1)] trim_render_start [OF ok(2)] ..
  also have "\<dots> = Some (if (b, ps) = (False, []) then (if no_dot cs = [] then dot else ?c)
       else if no_dot cs = [] then ?p else if (b, ps) = (True, []) then sep @ ?c else (?p @ sep) @ ?c)"
    unfolding none render_dot [OF ok(1)] render_only_root [OF ok(1)] using render_not_Nil [OF ok(1)] by (simp only: simp_thms)
  also have "\<dots> = Some (render_form (join_forms (b, ps) (c, cs)))"
  proof (cases "no_dot cs = []")
    case False
    show ?thesis unfolding some [OF False] using False
      by (simp add: join_forms_def render_form_def join_with_append)
  qed (simp add: join_forms_def render_form_def)
  finally show ?thesis by (simp add: p q)
qed

lemma split_on_join_append:
  "rs \<noteq> [] \<Longrightarrow> \<forall>r \<in> set rs. c \<notin> set r \<Longrightarrow> split_on c (join_with [c] rs @ c # y) = rs @ split_on c y"
  by (induction rs rule: induct_list012) (simp_all add: split_on_append)

lemma below_parts:
  assumes rs: "list_all part_ok rs" "rs \<noteq> []" and fs: "list_all part_ok fs"
  shows "prefix (join_with [47] rs @ [47]) (join_with [47] fs) \<longleftrightarrow> strict_prefix rs fs"
proof
  assume "prefix (join_with [47] rs @ [47]) (join_with [47] fs)"
  then obtain y where y: "join_with [47] fs = join_with [47] rs @ 47 # y" by (auto elim: prefixE)
  then have "fs \<noteq> []" by auto
  then have "fs = split_on 47 (join_with [47] fs)" using fs by (simp add: split_on_join list_all_iff part_ok_def)
  also have "\<dots> = rs @ split_on 47 y" unfolding y using rs by (simp add: split_on_join_append list_all_iff part_ok_def)
  finally show "strict_prefix rs fs" by (simp add: strict_prefix_def prefix_def)
next
  assume "strict_prefix rs fs"
  then obtain z where "fs = rs @ z" "z \<noteq> []" by (auto simp: strict_prefix_def prefix_def)
  with rs show "prefix (join_with [47] rs @ [47]) (join_with [47] fs)" by (simp add: join_with_append)
qed

lemma below_form:
  assumes "form_ok (b, rs)" and "form_ok (c, fs)" and "rs \<noteq> []"
  shows "prefix (render_form (b, rs) @ [47]) (render_form (c, fs)) \<longleftrightarrow> b = c \<and> strict_prefix rs fs"
proof -
  have ok: "list_all part_ok rs" "list_all part_ok fs" using assms by (auto simp: form_ok_def)
  note below = below_parts [OF ok(1) assms(3) ok(2)]
  have r: "join_with [47] rs \<noteq> []" "hd (join_with [47] rs) \<noteq> 47"
    using join_parts_last join_parts_hd ok(1) assms(3) by blast+
  have f: "fs \<noteq> [] \<Longrightarrow> join_with [47] fs \<noteq> []" "fs \<noteq> [] \<Longrightarrow> hd (join_with [47] fs) \<noteq> 47"
    using join_parts_last join_parts_hd ok(2) by blast+
  show ?thesis
  proof (cases "fs = []")
    case True
    then show ?thesis using r assms(3) by (cases "join_with [47] rs") (auto simp: render_form_def)
  next
    case False
    then show ?thesis using below r f assms(3)
      by (cases "join_with [47] rs"; cases "join_with [47] fs"; cases b; cases c) (auto simp: render_form_def)
  qed
qed

lemma render_inject: "form_ok f \<Longrightarrow> form_ok g \<Longrightarrow> render_form f = render_form g \<longleftrightarrow> f = g"
  using path_form_render by metis

lemma relative_path_eq:
  assumes "utf16_ok root" and "utf16_ok path" and "path_form root = (b, rs)" and "path_form path = (c, fs)"
    and "(b, rs) \<noteq> (False, [])"
  shows "relative_path root path =
    Some (if b = c \<and> prefix rs fs then join_with [47] (drop (length rs) fs) else render_form (c, fs))"
proof -
  let ?r = "render_form (b, rs)" and ?f = "render_form (c, fs)"
  have ok: "form_ok (b, rs)" "form_ok (c, fs)" using path_form_ok assms(1-4) by metis+
  have fs: "list_all part_ok fs" using ok(2) by (simp add: form_ok_def)
  have rel: "relative_path root path = (if prefix ?r ?f then
       (let p = drop (length ?r) ?f in
        if p = [] then Some [] else if ?r = sep then Some p
        else if prefix sep p then trim_start p sep else Some ?f)
     else Some ?f)"
    by (simp add: relative_path_def normalize_path_ck_eq assms(1-4) strip_prefix_eq view_has_prefix_spec Let_def)
  show ?thesis
  proof (cases "rs = []")
    case True
    with assms(5) have b: "b" by simp
    have "\<not> c \<Longrightarrow> hd ?f \<noteq> 47 \<and> ?f \<noteq> []" using join_parts_hd [OF fs] render_not_Nil [OF ok(2)] by (auto simp: render_form_def)
    then show ?thesis unfolding rel using True b
      by (cases c; cases ?f) (auto simp: render_form_def Let_def)
  next
    case False
    note below = below_form [OF ok False]
    have r: "?r \<noteq> sep" using render_only_root [OF ok(1)] False by simp
    have same: "?f = ?r \<longleftrightarrow> c = b \<and> fs = rs" using render_inject [OF ok] by auto
    consider "b = c" "fs = rs" | z where "b = c" "fs = rs @ z" "z \<noteq> []" | "\<not> (b = c \<and> prefix rs fs)"
      by (auto simp: prefix_def)
    then show ?thesis
    proof cases
      case 1
      then show ?thesis unfolding rel by (simp add: Let_def)
    next
      case 2
      have "list_all part_ok z" using fs 2(2) by simp
      then have t: "trim_start (47 # join_with [47] z) sep = Some (join_with [47] z)"
        using trim_start_slashes join_parts_hd join_parts_utf16 2(3) by simp
      have "?f = ?r @ 47 # join_with [47] z" using 2 False by (simp add: render_form_def join_with_append)
      then show ?thesis unfolding rel using 2 r t by (simp add: Let_def)
    next
      case 3
      then have no: "\<not> prefix (?r @ [47]) ?f" "?f \<noteq> ?r" using below same by (auto dest: prefix_order.strict_implies_order)
      have "\<not> prefix sep (drop (length ?r) ?f) \<and> drop (length ?r) ?f \<noteq> []" if p: "prefix ?r ?f"
        using p no by (auto simp: prefix_def)
      then show ?thesis unfolding rel using 3 r by (auto simp: Let_def)
    qed
  qed
qed

lemma recursive_path_matches_eq:
  assumes "utf16_ok root" and "utf16_ok path" and "path_form root = (b, rs)" and "path_form path = (c, fs)"
    and "(b, rs) \<noteq> (False, [])"
  shows "recursive_path_matches root path = Some ((b, rs) = (True, []) \<or> b = c \<and> prefix rs fs)"
proof -
  have ok: "form_ok (b, rs)" "form_ok (c, fs)" using path_form_ok assms(1-4) by metis+
  have "recursive_path_matches root path = Some ((b, rs) = (True, []) \<or> (c, fs) = (b, rs) \<or>
      prefix (render_form (b, rs) @ sep) (render_form (c, fs)))"
    using render_only_root [OF ok(1)] render_inject [OF ok(2,1)]
    by (auto simp: recursive_path_matches_def normalize_path_ck_eq assms(1-4) has_prefix_spec)
  then show ?thesis using below_form [OF ok] assms(5) by (cases "rs = []") (auto simp: strict_prefix_def)
qed

lemma last_occ_at: "c \<notin> set r \<Longrightarrow> last_occ (p @ c # r) [c] = Some (length p)"
  by (auto simp: last_occ_Some_iff occurs_at_single nth_append nth_Cons' split: if_splits)

lemma rev_split_once_at:
  assumes "c \<notin> set r"
  shows "rev_split_once (p @ c # r) [c] = Some (Some (p, r))"
  using view_view_eq [of 0 "length p" "p @ c # r"] view_view_from [of "length p + 1" "p @ c # r"]
  by (simp del: of_nat_add add: rev_split_once_def view_rev_find_spec last_occ_at [OF assms])

lemma rev_split_once_absent: "c \<notin> set s \<Longrightarrow> rev_split_once s [c] = Some None"
proof -
  assume "c \<notin> set s"
  then have "last_occ s [c] = None" by (auto simp: last_occ_None_iff occurs_at_single dest: nth_mem)
  then show ?thesis by (simp add: rev_split_once_def view_rev_find_spec)
qed

lemma path_ends_eq:
  assumes "utf16_ok path" and "path_form path = (b, ps @ [p])"
  shows "path_basename path = Some p" and "path_dirname path = Some (render_form (b, ps))"
proof -
  have ok: "form_ok (b, ps @ [p])" using path_form_ok assms by metis
  then have p: "47 \<notin> set p" "p \<noteq> []" by (simp_all add: form_ok_def part_ok_def)
  let ?r = "render_form (b, ps @ [p])"
  have r: "?r \<noteq> []" "?r \<noteq> sep" using render_not_Nil [OF ok] render_only_root [OF ok] by auto
  define d where "d = (if b then (if ps = [] then [] else 47 # join_with [47] ps) else join_with [47] ps)"
  have "rev_split_once ?r sep = Some (if b \<or> ps \<noteq> [] then Some (d, p) else None)"
  proof (cases "b \<or> ps \<noteq> []")
    case True
    then have "?r = d @ 47 # p" by (auto simp: d_def render_form_def join_with_append)
    with True rev_split_once_at [OF p(1), of d] show ?thesis by simp
  next
    case False
    then have "?r = p" by (simp add: render_form_def)
    with False rev_split_once_absent [OF p(1)] show ?thesis by simp
  qed
  moreover have "(if d = [] then sep else d) = render_form (b, ps)" if "b \<or> ps \<noteq> []"
    using that ok join_parts_last [of ps] by (auto simp: d_def render_form_def form_ok_def)
  ultimately show "path_basename path = Some p" and "path_dirname path = Some (render_form (b, ps))"
    using r by (auto simp: path_basename_def path_dirname_def normalize_path_ck_eq assms render_form_def split: if_splits)
qed

subsection \<open>Properties\<close>

text \<open>
  Property C32. A path taken relative to a directory it was joined to is the path again, in its normal form:
  the names of a directory's entries survive being made absolute and relative.
\<close>

theorem relative_of_join:
  assumes "utf16_ok root" and "utf16_ok child" and "normalize_path_ck root \<noteq> Some (str ''.'')"
    and "normalize_path_ck child \<noteq> Some (str ''.'')" and "child \<noteq> []" and "hd child \<noteq> 47" and "hd child \<noteq> 92"
  shows "join_path root child \<bind> relative_path root = normalize_path_ck child"
proof -
  obtain b rs where r: "path_form root = (b, rs)" by fastforce
  obtain c cs where q: "path_form child = (c, cs)" by fastforce
  have ok: "form_ok (b, rs)" "form_ok (c, cs)" using path_form_ok assms r q by metis+
  have c: "\<not> c" using q assms(5-7) by (cases child) (auto simp: path_form_def rooted_def Let_def)
  have cs: "cs \<noteq> []" "no_dot cs = cs" using assms(4) ok(2) c render_dot [OF ok(2)]
    by (auto simp: normalize_path_ck_eq assms(2) q form_ok_def no_dot_def)
  have "(b, rs) \<noteq> (False, [])" using assms(3) by (auto simp: normalize_path_ck_eq assms(1) r render_form_def)
  moreover have j: "form_ok (b, rs @ cs)" using join_forms_ok [OF ok] cs by (simp add: join_forms_def)
  ultimately have "relative_path root (render_form (b, rs @ cs)) = Some (join_with [47] cs)"
    using relative_path_eq [OF assms(1) render_form_utf16 [OF j] r path_form_render [OF j]] by simp
  then show ?thesis
    using c cs by (simp add: join_path_eq assms normalize_path_ck_eq r q join_forms_def render_form_def)
qed

theorem relative_of_join_witness:
  "join_path (str ''/a/b'') (str ''c/d'') \<bind> relative_path (str ''/a/b'') = normalize_path_ck (str ''c/d'')"
  by (rule relative_of_join)
    (simp_all add: normalize_path_ck_eq path_form_def path_parts_def rooted_def no_dot_def render_form_def
      is_leading_surrogate_def is_trailing_surrogate_def word_le_nat_alt Let_def)

text \<open>
  The recursive match of a directory holds exactly for the paths below it, part by part: the
  parts of the directory begin the parts of the path, and a name that only begins like a part
  does not match. The root matches every path, also a relative one.
\<close>

theorem recursive_match_by_parts:
  assumes "utf16_ok root" and "utf16_ok path" and "path_form root = (b, rs)" and "path_form path = (c, fs)"
    and "(b, rs) \<noteq> (False, [])"
  shows "recursive_path_matches root path = Some ((b, rs) = (True, []) \<or> b = c \<and> prefix rs fs)"
  by (rule recursive_path_matches_eq [OF assms])

theorem recursive_match_by_parts_witness:
  "recursive_path_matches (str ''/a/b/'') (str ''/a//b/c'') =
   Some ((True, [str ''a'', str ''b'']) = (True, [] :: mstring list) \<or>
     True = True \<and> prefix [str ''a'', str ''b''] [str ''a'', str ''b'', str ''c'' :: mstring])"
  by (rule recursive_match_by_parts) (code_simp+)

text \<open>
  The directory and the name of a path, joined, are the path in its normal form.
\<close>

theorem dirname_basename_join:
  assumes "utf16_ok path" and "path_form path = (b, ps @ [p])" and "p \<noteq> str ''.''" and "(b, ps) \<noteq> (False, [str ''.''])"
  shows "do { dir \<leftarrow> path_dirname path; base \<leftarrow> path_basename path; join_path dir base } = normalize_path_ck path"
proof -
  have ok: "form_ok (b, ps @ [p])" using path_form_ok assms(1,2) by metis
  then have d: "form_ok (b, ps)" "part_ok p" using assms(4) by (auto simp: form_ok_def)
  have p: "form_ok (False, [p])" using d(2) assms(3) by (simp add: form_ok_def)
  have "path_form p = (False, [p])" using path_form_render [OF p] by (simp add: render_form_def)
  moreover have "utf16_ok p" using d(2) by (simp add: part_ok_def)
  ultimately show ?thesis
    using assms(3) d(1)
    by (simp add: path_ends_eq [OF assms(1,2)] join_path_eq render_form_utf16 path_form_render join_forms_def no_dot_def
        normalize_path_ck_eq assms(1,2) del: str_Cons)
qed

theorem dirname_basename_join_witness:
  "do { dir \<leftarrow> path_dirname (str ''/a//b/''); base \<leftarrow> path_basename (str ''/a//b/''); join_path dir base } =
   normalize_path_ck (str ''/a//b/'')"
  by (rule dirname_basename_join [where b = True and ps = "[str ''a'']" and p = "str ''b''"]) (code_simp+)

end
