(* ===== verification/Readdirp.thy ===== *)
theory Readdirp
  imports Readdirp_Utf8 Chokidar_Paths C_Memory
begin

text \<open>
  The directory reader, compiled from \<open>readdirp/walker.mbt\<close>, \<open>path.mbt\<close>, \<open>filters.mbt\<close> and
  \<open>fs_native.mbt\<close>, with its C stub \<open>readdirp/fs_native.c\<close>. The file system is a value: one
  report sees one state of it. Memory suffices, so the stub's allocations succeed.
\<close>

subsection \<open>The system calls and the C stub\<close>

text \<open>
  What \<open>opendir\<close> and the \<open>readdir\<close> calls, their \<open>errno\<close> at the end (0 for none), \<open>closedir\<close>
  (0 or its \<open>errno\<close>), \<open>stat\<close>, \<open>lstat\<close>, \<open>realpath\<close> and \<open>strerror\<close> give for a C string.
\<close>

record stat_buf =
  sb_size :: "64 word"
  sb_mode :: "32 word"
  sb_mtim_sec :: "64 word"
  sb_mtim_nsec :: "64 word"

record file_system =
  fs_opendir :: "bytes \<Rightarrow> int + bytes list"
  fs_readdir_errno :: "bytes \<Rightarrow> int"
  fs_closedir :: "bytes \<Rightarrow> int"
  fs_stat :: "bytes \<Rightarrow> int + stat_buf"
  fs_lstat :: "bytes \<Rightarrow> int + stat_buf"
  fs_realpath :: "bytes \<Rightarrow> int + bytes"
  fs_strerror :: "int \<Rightarrow> bytes"
  fs_errno :: int

abbreviation (input) ENOENT :: int where "ENOENT \<equiv> 2"
abbreviation (input) EACCES :: int where "EACCES \<equiv> 13"
abbreviation (input) EPERM :: int where "EPERM \<equiv> 1"
abbreviation (input) ELOOP :: int where "ELOOP \<equiv> 40"

text \<open>The static variables of the stub.\<close>

record rd_native =
  rn_errno :: int
  rn_size :: "64 word"
  rn_mode :: "32 word"

definition readdirp_last_error_message :: "file_system \<Rightarrow> rd_native \<Rightarrow> bytes" where
  "readdirp_last_error_message fs st =
     fs_strerror fs (if rn_errno st = 0 then fs_errno fs else rn_errno st)"

definition readdirp_read_dir_all :: "file_system \<Rightarrow> bytes \<Rightarrow> rd_native \<Rightarrow> bytes list option \<times> rd_native" where
  "readdirp_read_dir_all fs path st =
     (case fs_opendir fs (cstr path) of
        Inl e \<Rightarrow> (None, st\<lparr>rn_errno := e\<rparr>)
      | Inr names \<Rightarrow>
          (let names = filter (\<lambda>d. \<not> (d = [46] \<or> d = [46, 46])) names in
           if fs_readdir_errno fs (cstr path) \<noteq> 0 then (None, st\<lparr>rn_errno := fs_readdir_errno fs (cstr path)\<rparr>)
           else if fs_closedir fs (cstr path) \<noteq> 0 then (None, st\<lparr>rn_errno := fs_closedir fs (cstr path)\<rparr>)
           else (Some names, st\<lparr>rn_errno := 0\<rparr>)))"

definition readdirp_stat_path :: "file_system \<Rightarrow> bytes \<Rightarrow> int \<Rightarrow> rd_native \<Rightarrow> int \<times> rd_native" where
  "readdirp_stat_path fs path follow_symlink st =
     (case (if follow_symlink \<noteq> 0 then fs_stat fs (cstr path) else fs_lstat fs (cstr path)) of
        Inl e \<Rightarrow> (-1, st\<lparr>rn_errno := e\<rparr>)
      | Inr sb \<Rightarrow> (0, st\<lparr>rn_size := sb_size sb, rn_mode := sb_mode sb, rn_errno := 0\<rparr>))"

definition readdirp_real_path :: "file_system \<Rightarrow> bytes \<Rightarrow> rd_native \<Rightarrow> bytes option \<times> rd_native" where
  "readdirp_real_path fs path st =
     (case fs_realpath fs (cstr path) of
        Inl e \<Rightarrow> (None, st\<lparr>rn_errno := e\<rparr>)
      | Inr resolved \<Rightarrow> (Some (cstr resolved), st\<lparr>rn_errno := 0\<rparr>))"

subsection \<open>Data\<close>

datatype entry_type = Files | Directories | FilesAndDirectories | AllTypes

datatype rd_file_kind = RdFile | RdDirectory | RdSymlink | RdOther

datatype warning_kind = Missing | PermissionDenied | TooManySymlinks | RecursiveSymlink | OtherWarning

record rd_stats =
  rs_size :: "64 word"
  rs_mode :: "32 word"

record entry_info =
  en_path :: mstring
  en_full_path :: mstring
  en_basename :: mstring
  en_kind :: rd_file_kind
  en_stats :: "rd_stats option"

record rd_warning =
  wn_path :: mstring
  wn_kind :: warning_kind
  wn_message :: mstring

record rd_options =
  ro_file_filter :: "entry_info \<Rightarrow> bool run"
  ro_directory_filter :: "entry_info \<Rightarrow> bool run"
  ro_type :: entry_type
  ro_lstat :: bool
  ro_always_stat :: bool
  ro_depth :: int

text \<open>The arrays a report is collected in, and the stub's state.\<close>

record report =
  rp_entries :: "entry_info list"
  rp_warnings :: "rd_warning list"
  rp_native :: rd_native

subsection \<open>Paths and kinds\<close>

definition rd_trim_trailing_slashes :: "mstring \<Rightarrow> mstring run" where
  "rd_trim_trailing_slashes path = (if path = str ''/'' then Some (str ''/'') else trim_end path (str ''/''))"

definition rd_trim_leading_slashes :: "mstring \<Rightarrow> mstring run" where
  "rd_trim_leading_slashes path = trim_start path (str ''/'')"

definition rd_normalize_path :: "mstring \<Rightarrow> mstring run" where
  "rd_normalize_path path = do {
     path \<leftarrow> rd_trim_trailing_slashes path;
     Some (if path = [] then str ''.'' else path)
   }"

definition rd_join_path :: "mstring \<Rightarrow> mstring \<Rightarrow> mstring run" where
  "rd_join_path parent child = do {
     parent \<leftarrow> rd_trim_trailing_slashes parent;
     child \<leftarrow> rd_trim_leading_slashes child;
     Some
       (if parent = [] then child
        else if parent = str ''/'' then parent @ child
        else if child = [] then parent
        else (parent @ str ''/'') @ child)
   }"

definition rd_relative_path :: "mstring \<Rightarrow> mstring \<Rightarrow> mstring run" where
  "rd_relative_path root full_path = do {
     root \<leftarrow> rd_normalize_path root;
     full_path \<leftarrow> rd_normalize_path full_path;
     s \<leftarrow> strip_prefix full_path root;
     case s of
       None \<Rightarrow> Some full_path
     | Some path \<Rightarrow>
         if path = [] then Some []
         else if root = str ''/'' then Some path
         else do {
           b \<leftarrow> view_has_prefix path (str ''/'');
           if b then trim_start path (str ''/'') else Some full_path
         }
   }"

definition file_kind_from_mode :: "32 word \<Rightarrow> rd_file_kind" where
  "file_kind_from_mode mode =
     (let type_bits = and mode 0xF000 in
      if type_bits = 0x8000 then RdFile
      else if type_bits = 0x4000 then RdDirectory
      else if type_bits = 0xA000 then RdSymlink
      else RdOther)"

definition wants_file :: "entry_type \<Rightarrow> bool" where
  "wants_file t = (case t of Directories \<Rightarrow> False | _ \<Rightarrow> True)"

definition wants_directory :: "entry_type \<Rightarrow> bool" where
  "wants_directory t = (case t of Files \<Rightarrow> False | _ \<Rightarrow> True)"

definition wants_other :: "entry_type \<Rightarrow> bool" where
  "wants_other t = (case t of AllTypes \<Rightarrow> True | _ \<Rightarrow> False)"

definition should_emit :: "entry_info \<Rightarrow> entry_type \<Rightarrow> bool" where
  "should_emit entry t =
     (case en_kind entry of
        RdFile \<Rightarrow> wants_file t
      | RdDirectory \<Rightarrow> wants_directory t
      | _ \<Rightarrow> wants_other t)"

definition warning_kind_from_errno :: "int \<Rightarrow> warning_kind" where
  "warning_kind_from_errno e =
     (if e = ENOENT then Missing
      else if e = EACCES \<or> e = EPERM then PermissionDenied
      else if e = ELOOP then TooManySymlinks
      else OtherWarning)"

definition warning_for :: "mstring \<Rightarrow> warning_kind \<Rightarrow> mstring \<Rightarrow> rd_warning" where
  "warning_for path kind message = \<lparr>wn_path = path, wn_kind = kind, wn_message = message\<rparr>"

subsection \<open>Calls into the stub\<close>

definition string_to_utf8_bytes :: "mstring \<Rightarrow> bytes run" where
  "string_to_utf8_bytes value = do {
     let byte_length = iter_fold count_char 0 (string_chars value);
     (arr, _) \<leftarrow> iter_fold fill_char (Some (replicate byte_length 0, 0)) (string_chars value);
     Some arr
   }"

definition last_error_message :: "file_system \<Rightarrow> rd_native \<Rightarrow> mstring run" where
  "last_error_message fs st = utf8_decode_lossy (readdirp_last_error_message fs st)"

text \<open>A raised \<open>ReaddirpError\<close> is its message.\<close>

fun decode_names :: "bytes list \<Rightarrow> mstring list run" where
  "decode_names [] = Some []"
| "decode_names (n # ns) = do { x \<leftarrow> utf8_decode_lossy n; xs \<leftarrow> decode_names ns; Some (x # xs) }"

definition read_dir_all ::
    "file_system \<Rightarrow> mstring \<Rightarrow> rd_native \<Rightarrow> ((mstring + mstring list) \<times> rd_native) run" where
  "read_dir_all fs path st = do {
     p \<leftarrow> string_to_utf8_bytes path;
     let (names, st) = readdirp_read_dir_all fs p st;
     case names of
       None \<Rightarrow> do { m \<leftarrow> last_error_message fs st; Some (Inl m, st) }
     | Some names \<Rightarrow> do { xs \<leftarrow> decode_names names; Some (Inr xs, st) }
   }"

definition stat_path ::
    "file_system \<Rightarrow> mstring \<Rightarrow> bool \<Rightarrow> rd_native \<Rightarrow> ((mstring + rd_stats) \<times> rd_native) run" where
  "stat_path fs path follow_symlink st = do {
     p \<leftarrow> string_to_utf8_bytes path;
     let (status, st) = readdirp_stat_path fs p (if follow_symlink then 1 else 0) st;
     if status \<noteq> 0 then do { m \<leftarrow> last_error_message fs st; Some (Inl m, st) }
     else Some (Inr \<lparr>rs_size = rn_size st, rs_mode = rn_mode st\<rparr>, st)
   }"

definition real_path ::
    "file_system \<Rightarrow> mstring \<Rightarrow> rd_native \<Rightarrow> ((mstring + mstring) \<times> rd_native) run" where
  "real_path fs path st = do {
     p \<leftarrow> string_to_utf8_bytes path;
     let (resolved, st) = readdirp_real_path fs p st;
     case resolved of
       None \<Rightarrow> do { m \<leftarrow> last_error_message fs st; Some (Inl m, st) }
     | Some r \<Rightarrow> do { x \<leftarrow> utf8_decode_lossy r; Some (Inr x, st) }
   }"

subsection \<open>The walk\<close>

definition make_entry ::
    "file_system \<Rightarrow> mstring \<Rightarrow> mstring \<Rightarrow> mstring \<Rightarrow> bool \<Rightarrow> bool \<Rightarrow> rd_native \<Rightarrow>
     ((mstring + entry_info) \<times> rd_native) run" where
  "make_entry fs root full_path basename follow_symlink include_stats st = do {
     (r, st) \<leftarrow> stat_path fs full_path follow_symlink st;
     case r of
       Inl m \<Rightarrow> Some (Inl m, st)
     | Inr stats \<Rightarrow> do {
         rel \<leftarrow> rd_relative_path root full_path;
         Some (Inr \<lparr>en_path = rel, en_full_path = full_path, en_basename = basename,
           en_kind = file_kind_from_mode (rs_mode stats),
           en_stats = (if include_stats then Some stats else None)\<rparr>, st)
       }
   }"

definition add_warning :: "mstring \<Rightarrow> mstring \<Rightarrow> report \<Rightarrow> report" where
  "add_warning path message rp =
     rp\<lparr>rp_warnings := rp_warnings rp @
       [warning_for path (warning_kind_from_errno (rn_errno (rp_native rp))) message]\<rparr>"

definition add_recursive_symlink_warning :: "mstring \<Rightarrow> mstring \<Rightarrow> report \<Rightarrow> report" where
  "add_recursive_symlink_warning path target rp =
     rp\<lparr>rp_warnings := rp_warnings rp @
       [warning_for path RecursiveSymlink (str ''recursive symlink skipped: '' @ target)]\<rparr>"

definition dir_is_symlink ::
    "file_system \<Rightarrow> mstring \<Rightarrow> rd_native \<Rightarrow> ((mstring + bool) \<times> rd_native) run" where
  "dir_is_symlink fs path st = do {
     (r, st) \<leftarrow> stat_path fs path False st;
     case r of
       Inl m \<Rightarrow> Some (Inl m, st)
     | Inr stats \<Rightarrow> Some (Inr (file_kind_from_mode (rs_mode stats) = RdSymlink), st)
   }"

definition push_entry :: "entry_info \<Rightarrow> report \<Rightarrow> report" where
  "push_entry entry rp = rp\<lparr>rp_entries := rp_entries rp @ [entry]\<rparr>"

text \<open>
  The loop of \<open>walk_dir\<close> over the names of a directory. The call it makes for a child lists it
  first, and a failure of that listing is a warning of the caller.
\<close>

partial_function (option) walk_names ::
    "file_system \<Rightarrow> rd_options \<Rightarrow> mstring \<Rightarrow> mstring \<Rightarrow> mstring list \<Rightarrow> int \<Rightarrow> mstring list \<Rightarrow> report \<Rightarrow> report run" where
  "walk_names fs options root dir ancestors current_depth names rp =
     (case names of
        [] \<Rightarrow> Some rp
      | name # names \<Rightarrow> do {
          full_path \<leftarrow> rd_join_path dir name;
          (e, st) \<leftarrow> make_entry fs root full_path name (\<not> ro_lstat options) (ro_always_stat options) (rp_native rp);
          let rp = rp\<lparr>rp_native := st\<rparr>;
          rp \<leftarrow> (case e of
              Inl message \<Rightarrow> Some (add_warning full_path message rp)
            | Inr entry \<Rightarrow>
                if en_kind entry = RdDirectory then do {
                  wanted \<leftarrow> ro_directory_filter options entry;
                  if \<not> wanted then Some rp
                  else
                    let rp = (if should_emit entry (ro_type options) then push_entry entry rp else rp) in
                    if \<not> current_depth < ro_depth options then Some rp
                    else do {
                      (c, st) \<leftarrow> real_path fs full_path (rp_native rp);
                      let rp = rp\<lparr>rp_native := st\<rparr>;
                      case c of
                        Inl message \<Rightarrow> Some (add_warning full_path message rp)
                      | Inr real_child \<Rightarrow> do {
                          (s, st) \<leftarrow> dir_is_symlink fs full_path (rp_native rp);
                          let rp = rp\<lparr>rp_native := st\<rparr>;
                          case s of
                            Inl message \<Rightarrow> Some (add_warning full_path message rp)
                          | Inr symlink \<Rightarrow>
                              if symlink \<and> real_child \<in> set ancestors
                              then Some (add_recursive_symlink_warning full_path real_child rp)
                              else do {
                                (l, st) \<leftarrow> read_dir_all fs full_path (rp_native rp);
                                let rp = rp\<lparr>rp_native := st\<rparr>;
                                case l of
                                  Inl message \<Rightarrow> Some (add_warning full_path message rp)
                                | Inr kids \<Rightarrow>
                                    walk_names fs options root full_path (ancestors @ [real_child])
                                      (current_depth + 1) kids rp
                              }
                        }
                    }
                }
                else do {
                  wanted \<leftarrow> ro_file_filter options entry;
                  Some (if wanted \<and> should_emit entry (ro_type options) then push_entry entry rp else rp)
                });
          walk_names fs options root dir ancestors current_depth names rp
        })"

declare walk_names.simps [code]

definition walk_dir ::
    "file_system \<Rightarrow> rd_options \<Rightarrow> mstring \<Rightarrow> mstring \<Rightarrow> mstring list \<Rightarrow> int \<Rightarrow> report \<Rightarrow> ((mstring + unit) \<times> report) run" where
  "walk_dir fs options root dir ancestors current_depth rp = do {
     (l, st) \<leftarrow> read_dir_all fs dir (rp_native rp);
     let rp = rp\<lparr>rp_native := st\<rparr>;
     case l of
       Inl message \<Rightarrow> Some (Inl message, rp)
     | Inr names \<Rightarrow> do { rp \<leftarrow> walk_names fs options root dir ancestors current_depth names rp; Some (Inr (), rp) }
   }"

definition readdirp_report ::
    "file_system \<Rightarrow> mstring \<Rightarrow> rd_options \<Rightarrow> rd_native \<Rightarrow> ((mstring + report) \<times> rd_native) run" where
  "readdirp_report fs root options st =
     (if root = [] then Some (Inl (str ''root argument is required''), st)
      else if ro_depth options < 0 then Some (Inl (str ''depth must be non-negative''), st)
      else do {
        normalized_root \<leftarrow> rd_normalize_path root;
        (a, st) \<leftarrow> real_path fs normalized_root st;
        case a of
          Inl m \<Rightarrow> Some (Inl m, st)
        | Inr absolute_root \<Rightarrow> do {
            (s, st) \<leftarrow> stat_path fs absolute_root True st;
            case s of
              Inl m \<Rightarrow> Some (Inl m, st)
            | Inr root_stats \<Rightarrow>
                if file_kind_from_mode (rs_mode root_stats) \<noteq> RdDirectory
                then Some (Inl (str ''root must be a directory''), st)
                else do {
                  (r, rp) \<leftarrow> walk_dir fs options absolute_root absolute_root [absolute_root] 0
                    \<lparr>rp_entries = [], rp_warnings = [], rp_native = st\<rparr>;
                  Some (case r of Inl m \<Rightarrow> Inl m | Inr _ \<Rightarrow> Inr rp, rp_native rp)
                }
          }
      })"

end
