(* ===== verification/Readdirp_Tree.thy ===== *)
theory Readdirp_Tree
  imports Readdirp
begin

text \<open>
  What a report lists: on a tree of plain files and directories, all of them readable, the walk
  of \<open>Readdirp\<close> reports exactly the entries the filters and the depth let through, in the order
  of the directories' listings, and no warnings.
\<close>

subsection \<open>Names and paths\<close>

definition name_ok :: "mstring \<Rightarrow> bool" where
  "name_ok n \<longleftrightarrow> n \<noteq> [] \<and> 47 \<notin> set n \<and> 0 \<notin> set n \<and> utf16_ok n \<and> n \<noteq> str ''.'' \<and> n \<noteq> str ''..''"

definition dir_path_ok :: "mstring \<Rightarrow> bool" where
  "dir_path_ok p \<longleftrightarrow> p \<noteq> [] \<and> last p \<noteq> 47 \<and> 0 \<notin> set p \<and> utf16_ok p"

lemma byte_nonzero: "0 < k \<Longrightarrow> k < 256 \<Longrightarrow> (0 :: byte) \<noteq> word_of_int k"
  using uint_byte [of k] by (metis less_imp_le less_irrefl unsigned_0)

lemma char_bytes_nonzero:
  assumes "0 < c" and "c < 1114112"
  shows "0 \<notin> set (char_bytes c)"
proof -
  have m: "(0 :: byte) \<noteq> word_of_int (128 + k mod 64)" for k :: int
    by (intro byte_nonzero) (simp_all add: add_pos_nonneg pos_mod_bound less_le_trans [OF add_strict_left_mono])
  consider "c < 128" | "128 \<le> c" "c < 2048" | "2048 \<le> c" "c < 65536" | "65536 \<le> c" by linarith
  then show ?thesis
  proof cases
    case 1
    then have "(0 :: byte) \<noteq> word_of_int c" using assms by (intro byte_nonzero) simp_all
    with 1 show ?thesis by (simp add: char_bytes.simps)
  next
    case 2
    then have "(0 :: byte) \<noteq> word_of_int (192 + c div 64)" by (intro byte_nonzero) simp_all
    with 2 m show ?thesis by (simp add: char_bytes.simps del: of_int_add)
  next
    case 3
    then have "(0 :: byte) \<noteq> word_of_int (224 + c div 4096)" by (intro byte_nonzero) simp_all
    with 3 m show ?thesis by (simp add: char_bytes.simps del: of_int_add)
  next
    case 4
    then have "(0 :: byte) \<noteq> word_of_int (240 + c div 262144)" using assms by (intro byte_nonzero) simp_all
    with 4 m show ?thesis by (simp add: char_bytes.simps del: of_int_add)
  qed
qed

lemma uint_zero: "uint (c :: code_unit) = 0 \<longleftrightarrow> c = 0"
  by (simp add: word_uint_eq_iff)

lemma chars_nonzero: "0 \<notin> set s \<Longrightarrow> 0 \<notin> set (string_chars s)"
  by (induction s rule: string_chars.induct)
    (auto simp: code_point_of_surrogate_pair_def is_leading_surrogate_def is_trailing_surrogate_def word_le_def uint_zero)

lemma encoding_nonzero: "0 \<notin> set s \<Longrightarrow> 0 \<notin> set (encoding s)"
proof -
  assume s: "0 \<notin> set s"
  have "0 < c \<and> c < 1114112" if "c \<in> set (string_chars s)" for c
    using that string_chars_range [OF that] chars_nonzero [OF s] by (cases "c = 0") auto
  then show ?thesis using char_bytes_nonzero by (fastforce simp: encoding_def)
qed

lemma path_bytes: "dir_path_ok p \<Longrightarrow> cstr (encoding p) = encoding p"
  by (simp add: dir_path_ok_def cstr_id encoding_nonzero)

lemma rd_bytes_eq: "string_to_utf8_bytes s = Some (encoding s)"
  using scanner_bytes_eq [of s] by (simp add: string_to_utf8_bytes_def scanner_string_to_utf8_bytes_def)

lemma name_no_slash: "name_ok n \<Longrightarrow> hd n \<noteq> 47 \<and> last n \<noteq> 47"
  by (metis hd_in_set last_in_set name_ok_def)

lemma dir_path_child: "dir_path_ok p \<Longrightarrow> name_ok n \<Longrightarrow> dir_path_ok (p @ 47 # n)"
  using name_no_slash [of n] by (auto simp: dir_path_ok_def name_ok_def utf16_ok_append_plain)

lemma rd_join_child: "dir_path_ok p \<Longrightarrow> name_ok n \<Longrightarrow> rd_join_path p n = Some (p @ 47 # n)"
  using name_no_slash [of n]
  by (auto simp: rd_join_path_def rd_trim_trailing_slashes_def rd_trim_leading_slashes_def dir_path_ok_def
      name_ok_def trim_end_slash trim_start_slash)

lemma rd_normal: "dir_path_ok p \<Longrightarrow> rd_normalize_path p = Some p"
  by (auto simp: rd_normalize_path_def rd_trim_trailing_slashes_def dir_path_ok_def trim_end_slash)

lemma rd_relative_child:
  assumes "dir_path_ok root" and "dir_path_ok (root @ 47 # r)" and "r \<noteq> []" and "hd r \<noteq> 47"
  shows "rd_relative_path root (root @ 47 # r) = Some r"
proof -
  have "root \<noteq> str ''/''" using assms(1) by (auto simp: dir_path_ok_def)
  moreover have "utf16_ok r" using assms(2) by (simp add: dir_path_ok_def utf16_ok_append_plain)
  ultimately show ?thesis
    using rd_normal assms by (simp add: rd_relative_path_def strip_prefix_eq view_has_prefix_spec trim_start_slashes)
qed

subsection \<open>Trees\<close>

datatype fs_tree = FileT stat_buf | DirT stat_buf "(mstring \<times> fs_tree) list"

text \<open>A file system shows a tree at a path.\<close>

fun shows_tree :: "file_system \<Rightarrow> mstring \<Rightarrow> fs_tree \<Rightarrow> bool"
  and shows_kids :: "file_system \<Rightarrow> mstring \<Rightarrow> (mstring \<times> fs_tree) list \<Rightarrow> bool" where
  "shows_tree fs p (FileT sb) \<longleftrightarrow>
     fs_stat fs (encoding p) = Inr sb \<and> fs_lstat fs (encoding p) = Inr sb \<and>
     file_kind_from_mode (sb_mode sb) = RdFile"
| "shows_tree fs p (DirT sb kids) \<longleftrightarrow>
     fs_stat fs (encoding p) = Inr sb \<and> fs_lstat fs (encoding p) = Inr sb \<and>
     file_kind_from_mode (sb_mode sb) = RdDirectory \<and>
     fs_realpath fs (encoding p) = Inr (encoding p) \<and>
     fs_opendir fs (encoding p) = Inr ([46] # [46, 46] # map (encoding \<circ> fst) kids) \<and>
     fs_readdir_errno fs (encoding p) = 0 \<and> fs_closedir fs (encoding p) = 0 \<and>
     distinct (map fst kids) \<and> shows_kids fs p kids"
| "shows_kids fs p [] \<longleftrightarrow> True"
| "shows_kids fs p ((n, t) # kids) \<longleftrightarrow> name_ok n \<and> shows_tree fs (p @ 47 # n) t \<and> shows_kids fs p kids"

definition entry_for :: "bool \<Rightarrow> mstring \<Rightarrow> mstring \<Rightarrow> mstring \<Rightarrow> stat_buf \<Rightarrow> entry_info" where
  "entry_for stats root r n sb =
     \<lparr>en_path = r, en_full_path = root @ 47 # r, en_basename = n, en_kind = file_kind_from_mode (sb_mode sb),
      en_stats = (if stats then Some \<lparr>rs_size = sb_size sb, rs_mode = sb_mode sb\<rparr> else None)\<rparr>"

definition below :: "mstring \<Rightarrow> mstring \<Rightarrow> mstring" where
  "below r n = (if r = [] then n else r @ 47 # n)"

text \<open>The entries of a tree that the filters and the depth let through.\<close>

fun tree_entries :: "rd_options \<Rightarrow> (entry_info \<Rightarrow> bool) \<Rightarrow> (entry_info \<Rightarrow> bool) \<Rightarrow> mstring \<Rightarrow> mstring \<Rightarrow> mstring \<Rightarrow>
      int \<Rightarrow> fs_tree \<Rightarrow> entry_info list"
  and kids_entries :: "rd_options \<Rightarrow> (entry_info \<Rightarrow> bool) \<Rightarrow> (entry_info \<Rightarrow> bool) \<Rightarrow> mstring \<Rightarrow> mstring \<Rightarrow>
      int \<Rightarrow> (mstring \<times> fs_tree) list \<Rightarrow> entry_info list" where
  "tree_entries opts fok dok root r n d (FileT sb) =
     (let e = entry_for (ro_always_stat opts) root r n sb
      in if fok e \<and> should_emit e (ro_type opts) then [e] else [])"
| "tree_entries opts fok dok root r n d (DirT sb kids) =
     (let e = entry_for (ro_always_stat opts) root r n sb
      in if dok e
         then (if should_emit e (ro_type opts) then [e] else []) @
           (if d < ro_depth opts then kids_entries opts fok dok root r (d + 1) kids else [])
         else [])"
| "kids_entries opts fok dok root r d [] = []"
| "kids_entries opts fok dok root r d ((n, t) # kids) =
     tree_entries opts fok dok root (below r n) n d t @ kids_entries opts fok dok root r d kids"

subsection \<open>The walk of a tree\<close>

text \<open>Each call on a path the tree shows succeeds; only the stub's state moves.\<close>

lemma stat_path_ok:
  assumes "dir_path_ok p" and "fs_stat fs (encoding p) = Inr sb" and "fs_lstat fs (encoding p) = Inr sb"
  shows "\<exists>st'. stat_path fs p follow st = Some (Inr \<lparr>rs_size = sb_size sb, rs_mode = sb_mode sb\<rparr>, st')"
  using assms by (simp add: stat_path_def rd_bytes_eq readdirp_stat_path_def path_bytes Let_def)

lemma make_entry_ok:
  assumes "dir_path_ok root" and "dir_path_ok (root @ 47 # r)" and "r \<noteq> []" and "hd r \<noteq> 47"
    and "fs_stat fs (encoding (root @ 47 # r)) = Inr sb" and "fs_lstat fs (encoding (root @ 47 # r)) = Inr sb"
  shows "\<exists>st'. make_entry fs root (root @ 47 # r) n follow stats st = Some (Inr (entry_for stats root r n sb), st')"
  using stat_path_ok [OF assms(2,5,6), of follow st] rd_relative_child [OF assms(1-4)]
  by (auto simp: make_entry_def entry_for_def)

lemma decode_names_ok: "list_all utf16_ok ns \<Longrightarrow> decode_names (map encoding ns) = Some ns"
  by (induction ns) (simp_all add: utf8_decode_encoding)

lemma encoding_dots: "utf16_ok n \<Longrightarrow> n \<noteq> str ''.'' \<Longrightarrow> encoding n \<noteq> [46]"
    "utf16_ok n \<Longrightarrow> n \<noteq> str ''..'' \<Longrightarrow> encoding n \<noteq> [46, 46]"
proof -
  have e: "encoding (str ''.'') = [46]" "encoding (str ''..'') = [46, 46]" by code_simp+
  have ok: "utf16_ok (str ''.'')" "utf16_ok (str ''..'')" by code_simp+
  show "utf16_ok n \<Longrightarrow> n \<noteq> str ''.'' \<Longrightarrow> encoding n \<noteq> [46]"
    using decoded_encoding [of n] decoded_encoding [OF ok(1)] e(1) by auto
  show "utf16_ok n \<Longrightarrow> n \<noteq> str ''..'' \<Longrightarrow> encoding n \<noteq> [46, 46]"
    using decoded_encoding [of n] decoded_encoding [OF ok(2)] e(2) by auto
qed

lemma shows_kids_names: "shows_kids fs p kids \<Longrightarrow> list_all name_ok (map fst kids)"
  by (induction kids) auto

lemma read_dir_ok:
  assumes "dir_path_ok p" and "shows_tree fs p (DirT sb kids)"
  shows "\<exists>st'. read_dir_all fs p st = Some (Inr (map fst kids), st')"
proof -
  have names: "list_all name_ok (map fst kids)" using assms(2) shows_kids_names [of fs p kids] by simp
  have "filter (\<lambda>d. \<not> (d = [46] \<or> d = [46, 46])) (map (encoding \<circ> fst) kids) = map (encoding \<circ> fst) kids"
    using names encoding_dots by (intro filter_True) (auto simp: list_all_iff name_ok_def)
  moreover have "decode_names (map (encoding \<circ> fst) kids) = Some (map fst kids)"
    using decode_names_ok [of "map fst kids"] names by (simp add: list_all_iff name_ok_def)
  ultimately show ?thesis
    using assms by (simp add: read_dir_all_def rd_bytes_eq readdirp_read_dir_all_def path_bytes Let_def)
qed

lemma real_path_ok:
  assumes "dir_path_ok p" and "fs_realpath fs (encoding p) = Inr (encoding p)"
  shows "\<exists>st'. real_path fs p st = Some (Inr p, st')"
  using assms by (simp add: real_path_def rd_bytes_eq readdirp_real_path_def path_bytes Let_def utf8_decode_encoding dir_path_ok_def)

lemma dir_is_symlink_ok:
  assumes "dir_path_ok p" and "shows_tree fs p (DirT sb kids)"
  shows "\<exists>st'. dir_is_symlink fs p st = Some (Inr False, st')"
  using stat_path_ok [OF assms(1), of fs sb False st] assms(2) by (auto simp: dir_is_symlink_def)

text \<open>What the walk adds to a report.\<close>

definition extends :: "report run \<Rightarrow> report \<Rightarrow> entry_info list \<Rightarrow> bool" where
  "extends r rp es \<longleftrightarrow> (\<exists>st. r = Some (rp\<lparr>rp_entries := rp_entries rp @ es, rp_native := st\<rparr>))"

definition filters_are :: "rd_options \<Rightarrow> (entry_info \<Rightarrow> bool) \<Rightarrow> (entry_info \<Rightarrow> bool) \<Rightarrow> bool" where
  "filters_are opts fok dok \<longleftrightarrow>
     (\<forall>e. utf16_ok (en_path e) \<longrightarrow> utf16_ok (en_full_path e) \<longrightarrow>
        ro_file_filter opts e = Some (fok e) \<and> ro_directory_filter opts e = Some (dok e))"

lemma filters_are_entry:
  assumes "filters_are opts fok dok" and "dir_path_ok (root @ 47 # r)"
  shows "ro_file_filter opts (entry_for b root r n sb) = Some (fok (entry_for b root r n sb))"
    and "ro_directory_filter opts (entry_for b root r n sb) = Some (dok (entry_for b root r n sb))"
  using assms by (auto simp: filters_are_def entry_for_def dir_path_ok_def utf16_ok_append_plain)

definition dir_at :: "mstring \<Rightarrow> mstring \<Rightarrow> mstring" where
  "dir_at root r = (if r = [] then root else root @ 47 # r)"

definition rel_ok :: "mstring \<Rightarrow> mstring \<Rightarrow> bool" where
  "rel_ok root r \<longleftrightarrow> dir_path_ok root \<and> dir_path_ok (dir_at root r) \<and> (r = [] \<or> hd r \<noteq> 47)"

lemma rel_ok_below:
  assumes "rel_ok root r" and "name_ok n"
  shows "rel_ok root (below r n)" and "dir_at root (below r n) = root @ 47 # below r n"
    and "dir_at root r @ 47 # n = root @ 47 # below r n" and "below r n \<noteq> []" and "hd (below r n) \<noteq> 47"
proof -
  have n: "n \<noteq> []" "hd n \<noteq> 47" using assms(2) name_no_slash [of n] by (auto simp: name_ok_def)
  then show eqs: "dir_at root (below r n) = root @ 47 # below r n" "dir_at root r @ 47 # n = root @ 47 # below r n"
    and b: "below r n \<noteq> []" "hd (below r n) \<noteq> 47"
    using assms(1) by (auto simp: dir_at_def below_def rel_ok_def)
  show "rel_ok root (below r n)"
    using assms dir_path_child [of "dir_at root r" n] eqs b by (simp add: rel_ok_def)
qed

lemma walk_names_Nil: "walk_names fs opts root dir anc d [] rp = Some rp"
  by (subst walk_names.simps) simp

lemma report_comm: "rp\<lparr>rp_native := a, rp_entries := b\<rparr> = rp\<lparr>rp_entries := b, rp_native := (a :: rd_native)\<rparr>"
  by simp

lemma walk_file:
  assumes "rel_ok root r" and "name_ok n" and "shows_tree fs (root @ 47 # below r n) (FileT sb)" and "filters_are opts fok dok"
  shows "\<exists>st. walk_names fs opts root (dir_at root r) anc d (n # ns) rp =
    walk_names fs opts root (dir_at root r) anc d ns
      (rp\<lparr>rp_entries := rp_entries rp @ tree_entries opts fok dok root (below r n) n d (FileT sb), rp_native := st\<rparr>)"
proof -
  note b = rel_ok_below [OF assms(1,2)]
  obtain st where st: "make_entry fs root (root @ 47 # below r n) n (\<not> ro_lstat opts) (ro_always_stat opts) (rp_native rp) =
      Some (Inr (entry_for (ro_always_stat opts) root (below r n) n sb), st)"
    using make_entry_ok [of root "below r n" fs sb n] assms(3) b by (fastforce simp: rel_ok_def)
  have "rd_join_path (dir_at root r) n = Some (root @ 47 # below r n)"
    using rd_join_child [of "dir_at root r" n] assms(1,2) b(3) by (simp add: rel_ok_def)
  moreover have "en_kind (entry_for (ro_always_stat opts) root (below r n) n sb) \<noteq> RdDirectory"
    using assms(3) by (simp add: entry_for_def)
  moreover have "dir_path_ok (root @ 47 # below r n)" using b(1,2) by (simp add: rel_ok_def)
  ultimately show ?thesis
    using st filters_are_entry [OF assms(4)] by (subst walk_names.simps) (auto simp: push_entry_def Let_def report_comm intro!: exI [of _ st])
qed

lemma walk_directory:
  assumes "rel_ok root r" and "name_ok n" and "shows_tree fs (root @ 47 # below r n) (DirT sb kids)" and "filters_are opts fok dok"
    and "\<And>anc rp. extends (walk_names fs opts root (root @ 47 # below r n) anc (d + 1) (map fst kids) rp) rp
      (kids_entries opts fok dok root (below r n) (d + 1) kids)"
  shows "\<exists>st. walk_names fs opts root (dir_at root r) anc d (n # ns) rp =
    walk_names fs opts root (dir_at root r) anc d ns
      (rp\<lparr>rp_entries := rp_entries rp @ tree_entries opts fok dok root (below r n) n d (DirT sb kids), rp_native := st\<rparr>)"
proof -
  note b = rel_ok_below [OF assms(1,2)]
  let ?p = "root @ 47 # below r n" and ?e = "entry_for (ro_always_stat opts) root (below r n) n sb"
  have p: "dir_path_ok root" "dir_path_ok ?p" using b(1,2) assms(1) by (simp_all add: rel_ok_def)
  have shown: "fs_stat fs (encoding ?p) = Inr sb" "fs_lstat fs (encoding ?p) = Inr sb" "fs_realpath fs (encoding ?p) = Inr (encoding ?p)"
    and kind: "en_kind ?e = RdDirectory" using assms(3) by (simp_all add: entry_for_def)
  obtain st1 where st1: "make_entry fs root ?p n (\<not> ro_lstat opts) (ro_always_stat opts) (rp_native rp) = Some (Inr ?e, st1)"
    using make_entry_ok [OF p b(4,5) shown(1,2)] by blast
  obtain st2 where st2: "real_path fs ?p st1 = Some (Inr ?p, st2)" using real_path_ok [OF p(2) shown(3)] by blast
  obtain st3 where st3: "dir_is_symlink fs ?p st2 = Some (Inr False, st3)" using dir_is_symlink_ok [OF p(2) assms(3)] by blast
  obtain st4 where st4: "read_dir_all fs ?p st3 = Some (Inr (map fst kids), st4)" using read_dir_ok [OF p(2) assms(3)] by blast
  have join: "rd_join_path (dir_at root r) n = Some ?p"
    using rd_join_child [of "dir_at root r" n] assms(1,2) b(3) by (simp add: rel_ok_def)
  show ?thesis
  proof (cases "dok ?e \<and> d < ro_depth opts")
    case True
    define rp1 where "rp1 = (if should_emit ?e (ro_type opts) then push_entry ?e (rp\<lparr>rp_native := st1\<rparr>) else rp\<lparr>rp_native := st1\<rparr>)"
    have n1: "rp_native rp1 = st1" by (simp add: rp1_def push_entry_def)
    obtain st5 where "walk_names fs opts root ?p (anc @ [?p]) (d + 1) (map fst kids) (rp1\<lparr>rp_native := st4\<rparr>) =
        Some (rp1\<lparr>rp_entries := rp_entries rp1 @ kids_entries opts fok dok root (below r n) (d + 1) kids, rp_native := st5\<rparr>)"
      using assms(5) [of "anc @ [?p]" "rp1\<lparr>rp_native := st4\<rparr>"] by (auto simp: extends_def)
    then have "walk_names fs opts root (dir_at root r) anc d (n # ns) rp = walk_names fs opts root (dir_at root r) anc d ns
        (rp1\<lparr>rp_entries := rp_entries rp1 @ kids_entries opts fok dok root (below r n) (d + 1) kids, rp_native := st5\<rparr>)"
      using join st1 st2 st3 st4 True kind filters_are_entry [OF assms(4) p(2)] n1
      by (subst walk_names.simps) (simp add: Let_def flip: rp1_def)
    then show ?thesis using True by (auto simp: rp1_def push_entry_def Let_def report_comm intro!: exI [of _ st5])
  next
    case False
    then show ?thesis using join st1 kind filters_are_entry [OF assms(4) p(2)]
      by (subst walk_names.simps) (auto simp: push_entry_def Let_def report_comm intro!: exI [of _ st1])
  qed
qed

lemma walk_tree_kids:
  assumes "filters_are opts fok dok"
  shows "shows_tree fs p t \<Longrightarrow> rel_ok root r \<Longrightarrow> name_ok n \<Longrightarrow> p = root @ 47 # below r n \<Longrightarrow>
    \<exists>st. walk_names fs opts root (dir_at root r) anc d (n # ns) rp =
      walk_names fs opts root (dir_at root r) anc d ns
        (rp\<lparr>rp_entries := rp_entries rp @ tree_entries opts fok dok root (below r n) n d t, rp_native := st\<rparr>)"
  and "shows_kids fs p kids \<Longrightarrow> rel_ok root r \<Longrightarrow> p = dir_at root r \<Longrightarrow>
    extends (walk_names fs opts root (dir_at root r) anc d (map fst kids) rp) rp (kids_entries opts fok dok root r d kids)"
proof (induction fs p t and fs p kids arbitrary: r n d anc ns rp and r d anc rp rule: shows_tree_shows_kids.induct)
  case (1 fs p sb)
  then show ?case using walk_file [OF _ _ _ assms] by simp
next
  case (2 fs p sb kids)
  have "extends (walk_names fs opts root (root @ 47 # below r n) anc (d + 1) (map fst kids) rp) rp
      (kids_entries opts fok dok root (below r n) (d + 1) kids)" for anc rp
    using "2.IH" [of "below r n" anc "d + 1" rp] "2.prems" rel_ok_below [OF "2.prems"(2,3)] by simp
  with walk_directory [OF "2.prems"(2,3) _ assms] "2.prems"(1,4) show ?case by simp
next
  case (3 fs p)
  then show ?case by (simp add: extends_def walk_names_Nil) (rule exI [of _ "rp_native rp"], simp)
next
  case (4 fs p n t kids)
  obtain st where st: "walk_names fs opts root (dir_at root r) anc d (n # map fst kids) rp =
      walk_names fs opts root (dir_at root r) anc d (map fst kids)
        (rp\<lparr>rp_entries := rp_entries rp @ tree_entries opts fok dok root (below r n) n d t, rp_native := st\<rparr>)"
    using "4.IH"(1) [of r n anc d "map fst kids" rp] "4.prems" rel_ok_below(3) [of root r n] by auto
  show ?case
    using "4.IH"(2) [of r anc d "rp\<lparr>rp_entries := rp_entries rp @ tree_entries opts fok dok root (below r n) n d t, rp_native := st\<rparr>"]
      "4.prems" st
    by (simp add: extends_def)
qed

lemma walk_dir_tree:
  assumes "filters_are opts fok dok" and "dir_path_ok root" and "shows_tree fs root (DirT sb kids)"
  shows "\<exists>st. walk_dir fs opts root root [root] 0 rp =
    Some (Inr (), rp\<lparr>rp_entries := rp_entries rp @ kids_entries opts fok dok root [] 0 kids, rp_native := st\<rparr>)"
proof -
  obtain st1 where st1: "read_dir_all fs root (rp_native rp) = Some (Inr (map fst kids), st1)"
    using read_dir_ok [OF assms(2,3)] by blast
  have "extends (walk_names fs opts root root [root] 0 (map fst kids) (rp\<lparr>rp_native := st1\<rparr>)) (rp\<lparr>rp_native := st1\<rparr>)
      (kids_entries opts fok dok root [] 0 kids)"
    using walk_tree_kids(2) [OF assms(1), of fs root kids root "[]" "[root]" 0] assms(2,3)
    by (simp add: rel_ok_def dir_at_def)
  then show ?thesis using st1 by (auto simp: walk_dir_def extends_def Let_def)
qed

text \<open>
  The report of a directory whose real path the file system shows as a tree: exactly the entries
  of the tree that the filters and the depth let through, in the order of the listings, and no
  warnings.
\<close>

lemma report_of_tree:
  assumes "filters_are opts fok dok" and "dir_path_ok given" and "fs_realpath fs (encoding given) = Inr (encoding root)"
    and "dir_path_ok root" and "shows_tree fs root (DirT sb kids)" and "0 \<le> ro_depth opts"
  shows "\<exists>rp st'. readdirp_report fs given opts st = Some (Inr rp, st') \<and>
    rp_entries rp = kids_entries opts fok dok root [] 0 kids \<and> rp_warnings rp = []"
proof -
  have shown: "fs_stat fs (encoding root) = Inr sb" "fs_lstat fs (encoding root) = Inr sb"
    and kind: "file_kind_from_mode (sb_mode sb) = RdDirectory" using assms(5) by simp_all
  have st1: "real_path fs given st = Some (Inr root, st\<lparr>rn_errno := 0\<rparr>)"
    using assms(2-4) path_bytes [OF assms(4)]
    by (simp add: real_path_def rd_bytes_eq readdirp_real_path_def path_bytes Let_def utf8_decode_encoding dir_path_ok_def)
  obtain st2 where st2: "stat_path fs root True (st\<lparr>rn_errno := 0\<rparr>) = Some (Inr \<lparr>rs_size = sb_size sb, rs_mode = sb_mode sb\<rparr>, st2)"
    using stat_path_ok [OF assms(4) shown] by blast
  obtain st3 where "walk_dir fs opts root root [root] 0 \<lparr>rp_entries = [], rp_warnings = [], rp_native = st2\<rparr> =
    Some (Inr (), \<lparr>rp_entries = kids_entries opts fok dok root [] 0 kids, rp_warnings = [], rp_native = st3\<rparr>)"
    using walk_dir_tree [OF assms(1,4,5), of "\<lparr>rp_entries = [], rp_warnings = [], rp_native = st2\<rparr>"] by auto
  moreover have "given \<noteq> []" using assms(2) by (simp add: dir_path_ok_def)
  ultimately show ?thesis
    using st1 st2 kind assms(6) rd_normal [OF assms(2)] by (simp add: readdirp_report_def)
qed

end
