(* ===== verification/Sort_By.thy ===== *)
theory Sort_By
  imports Prelude "HOL-Library.Multiset"
begin

text \<open>
  The in-place sort of the runtime library, compiled for arrays of snapshot entries: a quicksort
  that falls back to insertion for short views, tries insertion on views that look sorted, chooses
  its pivot among several elements, skips runs of elements equal to the last pivot, and turns to
  heap sort when its partitions stay unbalanced. A view of an array is the list of its elements;
  the views of one call do not overlap, so sorting a part is replacing it. Every index is
  guarded by the length of its view.
\<close>

definition swap :: "'a list \<Rightarrow> nat \<Rightarrow> nat \<Rightarrow> 'a list" where
  "swap arr i j = (arr[i := arr ! j])[j := arr ! i]"

text \<open>Insertion: the inner loop moves an element down; it says whether nothing moved.\<close>

fun bubble_down :: "('a \<Rightarrow> 'a \<Rightarrow> int) \<Rightarrow> 'a list \<Rightarrow> nat \<Rightarrow> bool \<Rightarrow> 'a list \<times> bool" where
  "bubble_down cmp arr 0 still = (arr, still)"
| "bubble_down cmp arr (Suc j) still =
     (if 0 < cmp (arr ! j) (arr ! Suc j) then bubble_down cmp (swap arr (Suc j) j) j False
      else (arr, still))"

function bubble_loop :: "('a \<Rightarrow> 'a \<Rightarrow> int) \<Rightarrow> 'a list \<Rightarrow> nat \<Rightarrow> 'a list" where
  "bubble_loop cmp arr i =
     (if i < length arr then bubble_loop cmp (fst (bubble_down cmp arr i True)) (i + 1) else arr)"
  by pat_completeness auto

definition fixed_bubble_sort_by :: "('a \<Rightarrow> 'a \<Rightarrow> int) \<Rightarrow> 'a list \<Rightarrow> 'a list" where
  "fixed_bubble_sort_by cmp arr = bubble_loop cmp arr 1"

text \<open>Lengths are kept, which the loops over indices need to end.\<close>

lemma length_swap [simp]: "length (swap arr i j) = length arr"
  by (simp add: swap_def)

lemma length_bubble_down [simp]: "length (fst (bubble_down cmp arr j s)) = length arr"
  by (induction cmp arr j s rule: bubble_down.induct) simp_all

lemma bubble_down_length: "(arr', still') = bubble_down cmp arr j still \<Longrightarrow> length arr' = length arr"
  using length_bubble_down [of cmp arr j still] by (metis fst_conv)

termination bubble_loop
  by (relation "measure (\<lambda>(cmp, arr, i). length arr - i)") auto

function try_loop :: "('a \<Rightarrow> 'a \<Rightarrow> int) \<Rightarrow> 'a list \<Rightarrow> nat \<Rightarrow> nat \<Rightarrow> 'a list \<times> bool" where
  "try_loop cmp arr i tries =
     (if i < length arr then
        (case bubble_down cmp arr i True of (arr', still) \<Rightarrow>
           if \<not> still then
             if 8 < tries + 1 then (arr', False) else try_loop cmp arr' (i + 1) (tries + 1)
           else try_loop cmp arr' (i + 1) tries)
      else (arr, True))"
  by pat_completeness auto
termination
  by (relation "measure (\<lambda>(cmp, arr, i, tries). length arr - i)") (auto dest: bubble_down_length)

definition fixed_try_bubble_sort_by :: "('a \<Rightarrow> 'a \<Rightarrow> int) \<Rightarrow> 'a list \<Rightarrow> 'a list \<times> bool" where
  "fixed_try_bubble_sort_by cmp arr = try_loop cmp arr 1 0"

declare bubble_loop.simps [simp del] try_loop.simps [simp del]

text \<open>Heap sort; \<open>sift_down\<close> works on the first \<open>n\<close> elements.\<close>

function sift_loop :: "('a \<Rightarrow> 'a \<Rightarrow> int) \<Rightarrow> 'a list \<Rightarrow> nat \<Rightarrow> nat \<Rightarrow> nat \<Rightarrow> 'a list" where
  "sift_loop cmp arr n index child =
     (if child < n then
        let child = (if child + 1 < n \<and> cmp (arr ! child) (arr ! (child + 1)) < 0 then child + 1 else child)
        in if 0 \<le> cmp (arr ! index) (arr ! child) then arr
           else sift_loop cmp (swap arr index child) n child (child * 2 + 1)
      else arr)"
  by pat_completeness auto
termination by (relation "measure (\<lambda>(cmp, arr, n, index, child). n - child)") (auto simp: Let_def split: if_splits)

definition fixed_sift_down_by :: "('a \<Rightarrow> 'a \<Rightarrow> int) \<Rightarrow> 'a list \<Rightarrow> nat \<Rightarrow> nat \<Rightarrow> 'a list" where
  "fixed_sift_down_by cmp arr n index = sift_loop cmp arr n index (index * 2 + 1)"

fun heapify :: "('a \<Rightarrow> 'a \<Rightarrow> int) \<Rightarrow> 'a list \<Rightarrow> nat \<Rightarrow> 'a list" where
  "heapify cmp arr 0 = arr"
| "heapify cmp arr (Suc i) = heapify cmp (fixed_sift_down_by cmp arr (length arr) i) i"

fun extract_max :: "('a \<Rightarrow> 'a \<Rightarrow> int) \<Rightarrow> 'a list \<Rightarrow> nat \<Rightarrow> 'a list" where
  "extract_max cmp arr 0 = arr"
| "extract_max cmp arr (Suc i) = extract_max cmp (fixed_sift_down_by cmp (swap arr 0 (Suc i)) (Suc i) 0) i"

definition fixed_heap_sort_by :: "('a \<Rightarrow> 'a \<Rightarrow> int) \<Rightarrow> 'a list \<Rightarrow> 'a list" where
  "fixed_heap_sort_by cmp arr = extract_max cmp (heapify cmp arr (length arr div 2)) (length arr - 1)"

declare sift_loop.simps [simp del]

text \<open>The choice of a pivot; it may swap elements, and reverses a view that looks descending.\<close>

definition sort_2 :: "('a \<Rightarrow> 'a \<Rightarrow> int) \<Rightarrow> nat \<Rightarrow> nat \<Rightarrow> 'a list \<times> nat \<Rightarrow> 'a list \<times> nat" where
  "sort_2 cmp a b s =
     (case s of (arr, swaps) \<Rightarrow> if 0 < cmp (arr ! a) (arr ! b) then (swap arr a b, swaps + 1) else (arr, swaps))"

definition sort_3 :: "('a \<Rightarrow> 'a \<Rightarrow> int) \<Rightarrow> nat \<Rightarrow> nat \<Rightarrow> nat \<Rightarrow> 'a list \<times> nat \<Rightarrow> 'a list \<times> nat" where
  "sort_3 cmp a b c s = sort_2 cmp a b (sort_2 cmp b c (sort_2 cmp a b s))"

fun rev_loop :: "'a list \<Rightarrow> nat \<Rightarrow> nat \<Rightarrow> 'a list" where
  "rev_loop arr i 0 = arr"
| "rev_loop arr i (Suc k) = rev_loop (swap arr i (length arr - i - 1)) (i + 1) k"

definition rev_in_place :: "'a list \<Rightarrow> 'a list" where
  "rev_in_place arr = rev_loop arr 0 (length arr div 2)"

definition fixed_choose_pivot_by :: "('a \<Rightarrow> 'a \<Rightarrow> int) \<Rightarrow> 'a list \<Rightarrow> 'a list \<times> nat \<times> bool" where
  "fixed_choose_pivot_by cmp arr =
     (let len = length arr;
          b = len div 4 * 2;
          s = (if 8 \<le> len then
                 let a = len div 4 * 1; c = len div 4 * 3;
                     s = (if 50 < len then
                            sort_3 cmp (c - 1) c (c + 1) (sort_3 cmp (b - 1) b (b + 1)
                              (sort_3 cmp (a - 1) a (a + 1) (arr, 0)))
                          else (arr, 0))
                 in sort_3 cmp a b c s
               else (arr, 0))
      in if snd s = 12 then (rev_in_place (fst s), len - b - 1, True) else (fst s, b, snd s = 0))"

text \<open>The partition around the pivot, which is parked at the end of the view.\<close>

function part_loop :: "('a \<Rightarrow> 'a \<Rightarrow> int) \<Rightarrow> 'a \<Rightarrow> 'a list \<Rightarrow> nat \<Rightarrow> nat \<Rightarrow> bool \<Rightarrow> 'a list \<times> nat \<times> bool" where
  "part_loop cmp pivot arr j i partitioned =
     (if j < length arr - 1 then
        if cmp (arr ! j) pivot < 0 then
          if i \<noteq> j then part_loop cmp pivot (swap arr i j) (j + 1) (i + 1) False
          else part_loop cmp pivot arr (j + 1) (i + 1) partitioned
        else part_loop cmp pivot arr (j + 1) i partitioned
      else (swap arr i (length arr - 1), i, partitioned))"
  by pat_completeness auto
termination
  by (relation "measure (\<lambda>(cmp, pivot, arr, j, i, partitioned). length arr - 1 - j)") auto

definition fixed_partition_by :: "('a \<Rightarrow> 'a \<Rightarrow> int) \<Rightarrow> 'a list \<Rightarrow> nat \<Rightarrow> 'a list \<times> nat \<times> bool" where
  "fixed_partition_by cmp arr pivot_index =
     (let arr = swap arr pivot_index (length arr - 1)
      in part_loop cmp (arr ! (length arr - 1)) arr 0 0 True)"

declare part_loop.simps [simp del]

text \<open>The end of the run of elements equal to the previous pivot.\<close>

function equal_run :: "('a \<Rightarrow> 'a \<Rightarrow> int) \<Rightarrow> 'a \<Rightarrow> 'a list \<Rightarrow> nat \<Rightarrow> nat" where
  "equal_run cmp p arr i = (if i < length arr \<and> cmp p (arr ! i) = 0 then equal_run cmp p arr (i + 1) else i)"
  by pat_completeness auto
termination by (relation "measure (\<lambda>(cmp, p, arr, i). length arr - i)") auto

declare equal_run.simps [simp del]

lemma equal_run_ge: "i \<le> equal_run cmp p arr i"
proof (induction cmp p arr i rule: equal_run.induct)
  case (1 cmp p arr i)
  then show ?case by (subst equal_run.simps) (auto dest: Suc_leD)
qed

lemma equal_run_step: "i < length arr \<Longrightarrow> cmp p (arr ! i) = 0 \<Longrightarrow> i < equal_run cmp p arr i"
  using equal_run_ge [of "i + 1" cmp p arr] by (subst equal_run.simps) simp

lemma part_loop_bounds:
  assumes "part_loop cmp pivot arr j i b = (arr', i', b')" and "i \<le> j" and "j \<le> length arr - 1"
  shows "length arr' = length arr \<and> i' \<le> length arr - 1"
  using assms
proof (induction cmp pivot arr j i b rule: part_loop.induct)
  case (1 cmp pivot arr j i b)
  note prems = "1.prems" and ih = "1.IH"
  show ?case
  proof (cases "j < length arr - 1")
    case True
    consider "cmp (arr ! j) pivot < 0" "i \<noteq> j" | "cmp (arr ! j) pivot < 0" "i = j" | "\<not> cmp (arr ! j) pivot < 0"
      by blast
    then show ?thesis
    proof cases
      case 1
      with True prems have "part_loop cmp pivot (swap arr i j) (j + 1) (i + 1) False = (arr', i', b')"
        by (subst (asm) part_loop.simps) simp
      from ih(1) [OF True 1 this] True prems show ?thesis by simp
    next
      case 2
      with True prems have "part_loop cmp pivot arr (j + 1) (i + 1) b = (arr', i', b')"
        by (subst (asm) part_loop.simps) simp
      with ih(2) [OF True] 2 True prems show ?thesis by simp
    next
      case 3
      with True prems have "part_loop cmp pivot arr (j + 1) i b = (arr', i', b')"
        by (subst (asm) part_loop.simps) simp
      with ih(3) [OF True] 3 True prems show ?thesis by simp
    qed
  next
    case False
    with prems show ?thesis by (subst (asm) part_loop.simps) auto
  qed
qed

lemma fixed_partition_by_bounds:
  "fixed_partition_by cmp arr p = (arr', i, b) \<Longrightarrow> arr \<noteq> [] \<Longrightarrow> length arr' = length arr \<and> i < length arr"
  using part_loop_bounds [of cmp "swap arr p (length arr - 1) ! (length arr - 1)"
      "swap arr p (length arr - 1)" 0 0 True arr' i b]
  by (cases arr) (auto simp: fixed_partition_by_def Let_def)

lemma length_sort_2 [simp]: "length (fst (sort_2 cmp a b s)) = length (fst s)"
  by (simp add: sort_2_def split: prod.split)

lemma length_sort_3 [simp]: "length (fst (sort_3 cmp a b c s)) = length (fst s)"
  by (simp add: sort_3_def)

lemma length_rev_loop [simp]: "length (rev_loop arr i k) = length arr"
  by (induction arr i k rule: rev_loop.induct) simp_all

lemma fixed_choose_pivot_by_length:
  "fixed_choose_pivot_by cmp arr = (arr', p, b) \<Longrightarrow> length arr' = length arr"
  by (auto simp: fixed_choose_pivot_by_def Let_def rev_in_place_def split: if_splits)

lemma try_loop_length: "try_loop cmp arr i t = (arr', b) \<Longrightarrow> length arr' = length arr"
proof (induction cmp arr i t rule: try_loop.induct)
  case (1 cmp arr i t)
  obtain x still where x: "bubble_down cmp arr i True = (x, still)" by fastforce
  then have "length x = length arr" using length_bubble_down [of cmp arr i True] by simp
  with 1 x show ?case
    by (subst (asm) (3) try_loop.simps) (auto split: if_splits)
qed

lemma fixed_try_bubble_sort_by_length: "fixed_try_bubble_sort_by cmp arr = (arr', b) \<Longrightarrow> length arr' = length arr"
  by (auto simp: fixed_try_bubble_sort_by_def dest: try_loop_length)

text \<open>
  The quicksort. \<open>pred\<close> is an element none of the view is below, when there is one; the two flags
  are what the previous partition found.
\<close>

function fixed_quick_sort_by ::
    "('a \<Rightarrow> 'a \<Rightarrow> int) \<Rightarrow> 'a list \<Rightarrow> 'a option \<Rightarrow> nat \<Rightarrow> bool \<Rightarrow> bool \<Rightarrow> 'a list" where
  "fixed_quick_sort_by cmp arr pred limit was_partitioned balanced =
     (if length arr \<le> 16 then (if 2 \<le> length arr then fixed_bubble_sort_by cmp arr else arr)
      else if limit = 0 then fixed_heap_sort_by cmp arr
      else case fixed_choose_pivot_by cmp arr of (arr1, pivot_index, likely_sorted) \<Rightarrow>
        (case (if was_partitioned \<and> balanced \<and> likely_sorted
               then fixed_try_bubble_sort_by cmp arr1 else (arr1, False)) of (arr2, finished) \<Rightarrow>
           if finished then arr2
           else case fixed_partition_by cmp arr2 pivot_index of (arr3, pivot, partitioned) \<Rightarrow>
             let balanced = (length arr3 div 8 \<le> min pivot (length arr3 - pivot));
                 limit = (if \<not> balanced then limit - 1 else limit)
             in if (case pred of None \<Rightarrow> False | Some p \<Rightarrow> cmp p (arr3 ! pivot) = 0) then
                  let i = equal_run cmp (the pred) arr3 pivot
                  in take i arr3 @ fixed_quick_sort_by cmp (drop i arr3) pred limit partitioned balanced
                else let left = take pivot arr3; right = drop (pivot + 1) arr3
                  in if length left < length right then
                       (let left = fixed_quick_sort_by cmp left pred limit True True;
                            right = fixed_quick_sort_by cmp right (Some (arr3 ! pivot)) limit partitioned balanced
                        in left @ arr3 ! pivot # right)
                     else
                       (let right = fixed_quick_sort_by cmp right (Some (arr3 ! pivot)) limit True True;
                            left = fixed_quick_sort_by cmp left pred limit partitioned balanced
                        in left @ arr3 ! pivot # right)))"
  by pat_completeness auto

lemma pivot_facts:
  assumes "\<not> length arr \<le> 16" and "(arr1, y) = fixed_choose_pivot_by cmp arr" and "(p, likely) = y"
    and "(arr2, fin) = (if c then fixed_try_bubble_sort_by cmp arr1 else (arr1, False))"
    and "(arr3, z) = fixed_partition_by cmp arr2 p" and "(pivot, part) = z"
  shows "length arr3 = length arr \<and> pivot < length arr"
proof -
  have one: "length arr1 = length arr"
    using fixed_choose_pivot_by_length [of cmp arr arr1 p likely] assms(2,3) by simp
  have two: "length arr2 = length arr1"
    using assms(4) fixed_try_bubble_sort_by_length [of cmp arr1 arr2 fin] by (cases c) simp_all
  have "arr2 \<noteq> []" using one two assms(1) by auto
  then show ?thesis
    using fixed_partition_by_bounds [of cmp arr2 p arr3 pivot part] assms(5,6) one two by simp
qed

termination fixed_quick_sort_by
proof (relation "measure (\<lambda>(cmp, arr, pred, limit, w, b). length arr)", goal_cases)
  case (2 cmp arr pred limit was_partitioned balanced x y xa ya xb yb xc yc xd yd xe xf xg)
  then have "length xc = length arr \<and> xd < length arr" using pivot_facts [OF 2(1,3,4,5,7,8)] by simp
  with 2 show ?case
    using equal_run_step [of xd xc cmp "the pred"] by (auto split: option.splits)
next
  case (3 cmp arr pred limit was_partitioned balanced x y xa ya xb yb xc yc xd yd)
  then show ?case using pivot_facts [OF 3(1,3,4,5,7,8)] by (simp; linarith)
next
  case (4 cmp arr pred limit was_partitioned balanced x y xa ya xb yb xc yc xd yd)
  then show ?case using pivot_facts [OF 4(1,3,4,5,7,8)] by (simp; linarith)
next
  case (5 cmp arr pred limit was_partitioned balanced x y xa ya xb yb xc yc xd yd)
  then show ?case using pivot_facts [OF 5(1,3,4,5,7,8)] by (simp; linarith)
next
  case (6 cmp arr pred limit was_partitioned balanced x y xa ya xb yb xc yc xd yd)
  then show ?case using pivot_facts [OF 6(1,3,4,5,7,8)] by (simp; linarith)
qed simp

declare fixed_quick_sort_by.simps [simp del]

function fixed_get_limit :: "nat \<Rightarrow> nat \<Rightarrow> nat" where
  "fixed_get_limit len limit = (if 0 < len then fixed_get_limit (len div 2) (limit + 1) else limit)"
  by pat_completeness auto
termination by (relation "measure fst") auto

declare fixed_get_limit.simps [simp del]

definition sort_by :: "('a \<Rightarrow> 'a \<Rightarrow> int) \<Rightarrow> 'a list \<Rightarrow> 'a list" where
  "sort_by cmp arr = fixed_quick_sort_by cmp arr None (fixed_get_limit (length arr) 0) True True"

subsection \<open>The result is a permutation\<close>

lemma mset_swap_in [simp]: "i < length arr \<Longrightarrow> j < length arr \<Longrightarrow> mset (swap arr i j) = mset arr"
  unfolding swap_def by (metis mset_swap)

lemma swap_append: "swap (xs @ y # x # ys) (Suc (length xs)) (length xs) = xs @ x # y # ys"
  by (simp add: swap_def nth_append list_update_append)

lemma bubble_down_step:
  "bubble_down cmp (xs @ y # x # ys) (Suc (length xs)) s =
     (if 0 < cmp y x then bubble_down cmp (xs @ x # y # ys) (length xs) False else (xs @ y # x # ys, s))"
  by (simp add: swap_append nth_append)

definition bigger_child :: "('a \<Rightarrow> 'a \<Rightarrow> int) \<Rightarrow> 'a list \<Rightarrow> nat \<Rightarrow> nat \<Rightarrow> nat" where
  "bigger_child cmp arr n child =
     (if child + 1 < n \<and> cmp (arr ! child) (arr ! (child + 1)) < 0 then child + 1 else child)"

lemma bigger_child_bounds: "child < n \<Longrightarrow> child \<le> bigger_child cmp arr n child \<and> bigger_child cmp arr n child < n"
  by (simp add: bigger_child_def)

lemma sift_loop_step:
  assumes "child < n" and "c = bigger_child cmp arr n child"
  shows "sift_loop cmp arr n index child =
     (if 0 \<le> cmp (arr ! index) (arr ! c) then arr else sift_loop cmp (swap arr index c) n c (c * 2 + 1))"
  using assms unfolding bigger_child_def by (subst sift_loop.simps) (simp only: Let_def if_True)

lemma sift_loop_stop: "\<not> child < n \<Longrightarrow> sift_loop cmp arr n index child = arr"
  by (subst sift_loop.simps) (simp only: if_False)

lemma mset_sift_loop:
  "index < n \<Longrightarrow> n \<le> length arr \<Longrightarrow> mset (sift_loop cmp arr n index child) = mset arr"
proof (induction "n - child" arbitrary: arr index child rule: less_induct)
  case less
  show ?case
  proof (cases "child < n")
    case True
    define c where "c = bigger_child cmp arr n child"
    then have c: "child \<le> c" "c < n" using bigger_child_bounds [OF True, of cmp arr] by simp_all
    then have "n - (c * 2 + 1) < n - child" by simp
    from less.hyps [OF this, of c "swap arr index c"] c less.prems show ?thesis
      unfolding sift_loop_step [OF True c_def] by simp
  qed (simp add: sift_loop_stop)
qed

lemma mset_sift_down: "i < n \<Longrightarrow> n \<le> length arr \<Longrightarrow> mset (fixed_sift_down_by cmp arr n i) = mset arr"
  by (simp add: fixed_sift_down_by_def mset_sift_loop)

lemma mset_rev_loop: "i + k \<le> length arr \<Longrightarrow> mset (rev_loop arr i k) = mset arr"
  by (induction arr i k rule: rev_loop.induct) simp_all

lemma mset_sort_2: "a < length (fst s) \<Longrightarrow> b < length (fst s) \<Longrightarrow> mset (fst (sort_2 cmp a b s)) = mset (fst s)"
  by (cases s) (simp add: sort_2_def)

lemma mset_sort_3:
  "a < length (fst s) \<Longrightarrow> b < length (fst s) \<Longrightarrow> c < length (fst s) \<Longrightarrow>
   mset (fst (sort_3 cmp a b c s)) = mset (fst s)"
  by (simp add: sort_3_def mset_sort_2)

lemma mset_choose_pivot:
  assumes "fixed_choose_pivot_by cmp arr = (arr', p, b)" and "arr \<noteq> []"
  shows "mset arr' = mset arr \<and> p < length arr"
proof -
  let ?len = "length arr" and ?q = "length arr div 4"
  let ?s = "if 8 \<le> ?len then
      sort_3 cmp (?q * 1) (?q * 2) (?q * 3) (if 50 < ?len then
        sort_3 cmp (?q * 3 - 1) (?q * 3) (?q * 3 + 1) (sort_3 cmp (?q * 2 - 1) (?q * 2) (?q * 2 + 1)
          (sort_3 cmp (?q * 1 - 1) (?q * 1) (?q * 1 + 1) (arr, 0))) else (arr, 0))
      else (arr, 0)"
  have "0 < ?len" using assms(2) by simp
  then have q: "8 \<le> ?len \<Longrightarrow> ?q * 3 + 1 < ?len" "?q * 2 < ?len" "8 \<le> ?len \<Longrightarrow> 2 \<le> ?q" by presburger+
  then have s: "mset (fst ?s) = mset arr" "length (fst ?s) = ?len"
    by (simp_all add: mset_sort_3)
  have "(arr', p, b) = (if snd ?s = 12 then (rev_in_place (fst ?s), ?len - ?q * 2 - 1, True)
      else (fst ?s, ?q * 2, snd ?s = 0))"
    using assms(1) by (simp only: fixed_choose_pivot_by_def Let_def)
  then show ?thesis using s q(2) \<open>0 < ?len\<close>
    by (auto simp: rev_in_place_def mset_rev_loop split: if_splits)
qed

lemma mset_part_loop:
  "i \<le> j \<Longrightarrow> j < length arr \<Longrightarrow> mset (fst (part_loop cmp pivot arr j i b)) = mset arr"
proof (induction "length arr - j" arbitrary: arr j i b rule: less_induct)
  case less
  show ?case
  proof (cases "j < length arr - 1")
    case True
    with less show ?thesis by (subst part_loop.simps) simp
  next
    case False
    with less.prems show ?thesis by (subst part_loop.simps) simp
  qed
qed

lemma mset_partition:
  "fixed_partition_by cmp arr p = (arr', i, b) \<Longrightarrow> p < length arr \<Longrightarrow> mset arr' = mset arr"
  using mset_part_loop [of 0 0 "swap arr p (length arr - 1)" cmp "swap arr p (length arr - 1) ! (length arr - 1)" True]
  by (cases arr) (auto simp: fixed_partition_by_def Let_def)

subsection \<open>The result is sorted\<close>

text \<open>What the sort relies on: the comparison is the order of a key.\<close>

locale comparison =
  fixes cmp :: "'a \<Rightarrow> 'a \<Rightarrow> int" and key :: "'a \<Rightarrow> 'k::linorder"
  assumes below: "cmp a b < 0 \<longleftrightarrow> key a < key b" and above: "0 < cmp a b \<longleftrightarrow> key b < key a"
begin

lemma same: "cmp a b = 0 \<longleftrightarrow> key a = key b"
  by (metis above below linorder_neq_iff)

lemma at_least: "0 \<le> cmp a b \<longleftrightarrow> key b \<le> key a"
  by (metis below linorder_not_less)

abbreviation ordered :: "'a list \<Rightarrow> bool" where
  "ordered xs \<equiv> sorted (map key xs)"

lemma bubble_down_insert:
  "\<exists>zs. fst (bubble_down cmp (xs @ x # ys) (length xs) s) = zs @ ys \<and> mset zs = mset (x # xs) \<and>
     (ordered xs \<longrightarrow> ordered zs)"
proof (induction xs arbitrary: ys s rule: rev_induct)
  case Nil
  then show ?case by (intro exI [of _ "[x]"]) simp
next
  case (snoc y xs)
  show ?case
  proof (cases "0 < cmp y x")
    case True
    obtain zs where zs: "fst (bubble_down cmp (xs @ x # y # ys) (length xs) False) = zs @ y # ys"
        "mset zs = mset (x # xs)" "ordered xs \<longrightarrow> ordered zs"
      using snoc.IH [of "y # ys" False] by blast
    have "set zs = set (x # xs)" using zs(2) by (rule mset_eq_setD)
    moreover have "key x < key y" using True above by blast
    ultimately have "ordered (xs @ [y]) \<longrightarrow> ordered (zs @ [y])"
      using zs(3) by (auto simp: sorted_append)
    moreover have "fst (bubble_down cmp ((xs @ [y]) @ x # ys) (length (xs @ [y])) s) = (zs @ [y]) @ ys"
      using True zs(1) by (simp add: bubble_down_step del: bubble_down.simps)
    ultimately show ?thesis using zs(2) by (intro exI [of _ "zs @ [y]"]) simp
  next
    case False
    then have "key y \<le> key x" by (simp add: above)
    then have "ordered (xs @ [y]) \<longrightarrow> ordered ((xs @ [y]) @ [x])"
      by (simp only: map_append sorted_append) force
    moreover have "fst (bubble_down cmp ((xs @ [y]) @ x # ys) (length (xs @ [y])) s) = ((xs @ [y]) @ [x]) @ ys"
      using False by (simp add: bubble_down_step del: bubble_down.simps)
    ultimately show ?thesis by (intro exI [of _ "(xs @ [y]) @ [x]"]) simp
  qed
qed

lemma bubble_down_grows:
  assumes "i < length arr" and "ordered (take i arr)"
  shows "mset (fst (bubble_down cmp arr i s)) = mset arr \<and> ordered (take (i + 1) (fst (bubble_down cmp arr i s)))"
proof -
  have arr: "arr = take i arr @ arr ! i # drop (i + 1) arr" using assms(1) by (simp add: id_take_nth_drop)
  have len: "length (take i arr) = i" using assms(1) by simp
  obtain zs where zs: "fst (bubble_down cmp arr i s) = zs @ drop (i + 1) arr"
      "mset zs = mset (arr ! i # take i arr)" "ordered zs"
    using bubble_down_insert [of "take i arr" "arr ! i" "drop (i + 1) arr" s] assms(2)
    unfolding arr [symmetric] len by blast
  have "length zs = i + 1" using zs(2) assms(1) by (metis Suc_eq_plus1 len length_Cons mset_eq_length)
  moreover have "mset (zs @ drop (i + 1) arr) = mset (take i arr @ arr ! i # drop (i + 1) arr)"
    using zs(2) by simp
  then have "mset (zs @ drop (i + 1) arr) = mset arr" by (simp only: arr [symmetric])
  ultimately show ?thesis using zs by simp
qed

lemma bubble_loop_sorts:
  "i \<le> length arr \<Longrightarrow> ordered (take i arr) \<Longrightarrow>
   mset (bubble_loop cmp arr i) = mset arr \<and> ordered (bubble_loop cmp arr i)"
proof (induction "length arr - i" arbitrary: arr i rule: less_induct)
  case less
  show ?case
  proof (cases "i < length arr")
    case True
    with less.hyps [of "fst (bubble_down cmp arr i True)" "i + 1"] bubble_down_grows [OF True less.prems(2)]
    show ?thesis by (subst (1 2) bubble_loop.simps) simp
  next
    case False
    with less.prems show ?thesis by (subst (1 2) bubble_loop.simps) simp
  qed
qed

lemma try_loop_sorts:
  "try_loop cmp arr i t = (arr', fin) \<Longrightarrow> i \<le> length arr \<Longrightarrow> ordered (take i arr) \<Longrightarrow>
   mset arr' = mset arr \<and> (fin \<longrightarrow> ordered arr')"
proof (induction "length arr - i" arbitrary: arr i t rule: less_induct)
  case less
  show ?case
  proof (cases "i < length arr")
    case True
    obtain x still where x: "bubble_down cmp arr i True = (x, still)" by fastforce
    then have grows: "mset x = mset arr" "ordered (take (i + 1) x)" "length x = length arr"
      using bubble_down_grows [OF True less.prems(3), of True] length_bubble_down [of cmp arr i True] by simp_all
    have "try_loop cmp arr i t = (if \<not> still then if 8 < t + 1 then (x, False) else try_loop cmp x (i + 1) (t + 1)
        else try_loop cmp x (i + 1) t)"
      using True x by (subst try_loop.simps) simp
    with less.prems(1) consider "(arr', fin) = (x, False)" | t' where "try_loop cmp x (i + 1) t' = (arr', fin)"
      by (metis (full_types))
    then show ?thesis
    proof cases
      case 2
      with less.hyps [of x "i + 1" t'] grows True show ?thesis by simp
    qed (use grows in simp)
  next
    case False
    with less.prems show ?thesis by (subst (asm) try_loop.simps) auto
  qed
qed

lemma ordered_1: "ordered (take 1 arr)"
  by (cases arr) simp_all

lemma bubble_sorts: "mset (fixed_bubble_sort_by cmp arr) = mset arr \<and> ordered (fixed_bubble_sort_by cmp arr)"
proof (cases arr)
  case Nil
  then show ?thesis by (simp add: fixed_bubble_sort_by_def bubble_loop.simps)
next
  case (Cons x xs)
  then show ?thesis using bubble_loop_sorts [of 1 arr] ordered_1 by (simp add: fixed_bubble_sort_by_def)
qed

lemma try_sorts:
  "fixed_try_bubble_sort_by cmp arr = (arr', fin) \<Longrightarrow> arr \<noteq> [] \<Longrightarrow>
   mset arr' = mset arr \<and> (fin \<longrightarrow> ordered arr')"
  using try_loop_sorts [of arr 1 0 arr' fin] ordered_1
  by (cases arr) (simp_all add: fixed_try_bubble_sort_by_def)


lemma part_loop_splits:
  assumes "part_loop cmp pivot arr j i b = (arr', i', b')" and "i \<le> j" and "j < length arr"
    and "arr ! (length arr - 1) = pivot"
    and "\<forall>k < i. key (arr ! k) < key pivot" and "\<forall>k. i \<le> k \<and> k < j \<longrightarrow> key pivot \<le> key (arr ! k)"
  shows "i' < length arr' \<and> arr' ! i' = pivot \<and> (\<forall>k < i'. key (arr' ! k) < key pivot) \<and>
    (\<forall>k. i' \<le> k \<and> k < length arr' \<longrightarrow> key pivot \<le> key (arr' ! k))"
  using assms
proof (induction "length arr - j" arbitrary: arr j i b rule: less_induct)
  case less
  note split = less.prems(5,6)
  show ?case
  proof (cases "j < length arr - 1")
    case True
    show ?thesis
    proof (cases "cmp (arr ! j) pivot < 0")
      case small: True
      then have "key (arr ! j) < key pivot" by (simp add: below)
      let ?arr = "swap arr i j"
      have nth: "?arr ! k = (if k = i then arr ! j else if k = j then arr ! i else arr ! k)" if "k < length arr" for k
        using True less.prems(2) that by (auto simp: swap_def nth_list_update)
      have low: "\<forall>k < i + 1. key (?arr ! k) < key pivot"
        using split \<open>key (arr ! j) < key pivot\<close> True less.prems(2) by (auto simp: nth less_Suc_eq)
      have high: "\<forall>k. i + 1 \<le> k \<and> k < j + 1 \<longrightarrow> key pivot \<le> key (?arr ! k)"
        using split True less.prems(2) by (auto simp: nth less_Suc_eq)
      have last: "?arr ! (length arr - 1) = pivot"
        using less.prems(2,4) True by (auto simp: nth)
      have "i = j \<Longrightarrow> ?arr = arr" by (simp add: swap_def)
      then obtain b2 where "part_loop cmp pivot ?arr (j + 1) (i + 1) b2 = (arr', i', b')"
        using less.prems(1) True small by (subst (asm) part_loop.simps) (auto split: if_splits)
      from less.hyps [OF _ this] show ?thesis using True less.prems(2) low high last by simp
    next
      case False
      then have "key pivot \<le> key (arr ! j)" by (simp add: below)
      with split have high: "\<forall>k. i \<le> k \<and> k < j + 1 \<longrightarrow> key pivot \<le> key (arr ! k)" by (auto simp: less_Suc_eq)
      have "part_loop cmp pivot arr (j + 1) i b = (arr', i', b')"
        using less.prems(1) True False by (subst (asm) part_loop.simps) simp
      from less.hyps [OF _ this] show ?thesis using True less.prems(2,4) split(1) high by simp
    qed
  next
    case False
    then have j: "j = length arr - 1" using less.prems(3) by simp
    let ?arr = "swap arr i j"
    have res: "arr' = ?arr" "i' = i" using less.prems(1) False j by (subst (asm) part_loop.simps; simp)+
    have nth: "?arr ! k = (if k = i then arr ! j else if k = j then arr ! i else arr ! k)" if "k < length arr" for k
      using less.prems(2,3) that by (auto simp: swap_def nth_list_update)
    have last: "arr ! j = pivot" using less.prems(4) j by simp
    have "key pivot \<le> key (?arr ! k)" if "i \<le> k" "k < length arr" for k
    proof -
      have "key pivot \<le> key (arr ! i)" if "i \<noteq> j" using that split(2) less.prems(2) by simp
      moreover have "k \<noteq> j \<Longrightarrow> key pivot \<le> key (arr ! k)" using that split(2) j by simp
      ultimately show ?thesis unfolding nth [OF that(2)] using last by simp
    qed
    moreover have "key (?arr ! k) < key pivot" if "k < i" for k
      using that nth [of k] split(1) less.prems(2,3) by simp
    moreover have "?arr ! i = pivot" using nth [of i] less.prems(2,3) last by simp
    ultimately show ?thesis using res less.prems(2,3) by simp
  qed
qed

lemma partition_splits:
  assumes "fixed_partition_by cmp arr p = (arr', i, b)" and "arr \<noteq> []"
  shows "i < length arr' \<and> (\<forall>x \<in> set (take i arr'). key x < key (arr' ! i)) \<and>
    (\<forall>x \<in> set (drop i arr'). key (arr' ! i) \<le> key x)"
proof -
  let ?arr = "swap arr p (length arr - 1)"
  have "i < length arr' \<and> arr' ! i = ?arr ! (length arr - 1) \<and> (\<forall>k < i. key (arr' ! k) < key (?arr ! (length arr - 1))) \<and>
      (\<forall>k. i \<le> k \<and> k < length arr' \<longrightarrow> key (?arr ! (length arr - 1)) \<le> key (arr' ! k))"
    using assms(1) by (intro part_loop_splits [of _ ?arr 0 0 True])
      (use assms(2) in \<open>simp_all add: fixed_partition_by_def Let_def\<close>)
  then show ?thesis by (auto simp: in_set_conv_nth)
qed

text \<open>Heaps with parents from \<open>lo\<close> on, and heaps with one parent \<open>h\<close> left out.\<close>

abbreviation up :: "nat \<Rightarrow> nat" where
  "up c \<equiv> (c - 1) div 2"

definition heap :: "'a list \<Rightarrow> nat \<Rightarrow> nat \<Rightarrow> bool" where
  "heap arr n lo \<longleftrightarrow> (\<forall>c. 0 < c \<and> c < n \<and> lo \<le> up c \<longrightarrow> key (arr ! c) \<le> key (arr ! up c))"

definition heap_but :: "'a list \<Rightarrow> nat \<Rightarrow> nat \<Rightarrow> nat \<Rightarrow> bool" where
  "heap_but arr n lo h \<longleftrightarrow>
     (\<forall>c. 0 < c \<and> c < n \<and> lo \<le> up c \<and> up c \<noteq> h \<longrightarrow> key (arr ! c) \<le> key (arr ! up c)) \<and>
     (\<forall>c. 0 < c \<and> c < n \<and> up c = h \<and> 0 < h \<and> lo \<le> up h \<longrightarrow> key (arr ! c) \<le> key (arr ! up h))"

lemma bigger_child_max:
  assumes "up d = h" and "0 < d" and "d < n"
  shows "key (arr ! d) \<le> key (arr ! bigger_child cmp arr n (2 * h + 1))"
proof -
  have "d = 2 * h + 1 \<or> d = 2 * h + 2" using assms by presburger
  then show ?thesis using assms(3) by (auto simp: bigger_child_def below)
qed

lemma sift_heap:
  "heap_but arr n lo h \<Longrightarrow> lo \<le> h \<Longrightarrow> h < n \<Longrightarrow> n \<le> length arr \<Longrightarrow> heap (sift_loop cmp arr n h (2 * h + 1)) n lo"
proof (induction "n - h" arbitrary: arr h rule: less_induct)
  case less
  note but = less.prems(1) [unfolded heap_but_def]
  show ?case
  proof (cases "2 * h + 1 < n")
    case False
    then have "up c \<noteq> h" if "0 < c" "c < n" for c using that by presburger
    with but show ?thesis unfolding sift_loop_stop [OF False] heap_def by blast
  next
    case True
    define c where "c = bigger_child cmp arr n (2 * h + 1)"
    then have c: "c < n" "up c = h" "h < c"
      using True by (auto simp: bigger_child_def)
    have kids: "key (arr ! d) \<le> key (arr ! c)" if "0 < d" "d < n" "up d = h" for d
      using bigger_child_max [OF that(3,1,2)] c_def by simp
    show ?thesis
    proof (cases "0 \<le> cmp (arr ! h) (arr ! c)")
      case stop: True
      then have "key (arr ! c) \<le> key (arr ! h)" by (simp add: at_least)
      then have "heap arr n lo" unfolding heap_def using but kids by (metis order_trans)
      with stop show ?thesis unfolding sift_loop_step [OF True c_def] by simp
    next
      case go: False
      then have big: "key (arr ! h) < key (arr ! c)" by (simp add: at_least)
      let ?arr = "swap arr h c"
      have nth: "?arr ! k = (if k = h then arr ! c else if k = c then arr ! h else arr ! k)" if "k < n" for k
        using c less.prems(4) that by (auto simp: swap_def nth_list_update)
      have up_less: "up k < n" if "k < n" for k using that by simp
      have "key (?arr ! k) \<le> key (?arr ! up k)" if k: "0 < k" "k < n" "lo \<le> up k" "up k \<noteq> c" for k
      proof -
        consider "k = h" | "k = c" | "k \<noteq> h" "k \<noteq> c" "up k = h" | "k \<noteq> h" "k \<noteq> c" "up k \<noteq> h" by blast
        then show ?thesis
        proof cases
          case 1
          then have "up k \<noteq> h" using k(1) by linarith
          then have "?arr ! up k = arr ! up k" using nth [OF up_less [OF k(2)]] k(4) by argo
          moreover have "?arr ! k = arr ! c" using nth [OF k(2)] 1 by argo
          moreover have "0 < c" using c(3) by linarith
          then have "key (arr ! c) \<le> key (arr ! up k)" using but c k(1,3) 1 by blast
          ultimately show ?thesis by argo
        next
          case 2
          then show ?thesis using nth [OF k(2)] nth [OF up_less [OF k(2)]] c big by simp
        next
          case 3
          then show ?thesis using nth [OF k(2)] nth [OF up_less [OF k(2)]] kids [OF k(1,2)] by simp
        next
          case 4
          then show ?thesis using nth [OF k(2)] nth [OF up_less [OF k(2)]] k(4) but k by simp
        qed
      qed
      moreover have "key (?arr ! k) \<le> key (?arr ! up c)" if k: "0 < k" "k < n" "up k = c" "lo \<le> up c" for k
      proof -
        have "c < k" using k(1,3) c(3) by linarith
        have "up k \<noteq> h" "lo \<le> up k" using k(3) c(3) less.prems(2) by linarith+
        then have "key (arr ! k) \<le> key (arr ! up k)" using but k(1,2) by blast
        then have "key (arr ! k) \<le> key (arr ! c)" unfolding k(3) .
        moreover have "?arr ! k = arr ! k" using nth [OF k(2)] \<open>c < k\<close> c(3) by simp
        moreover have "?arr ! up c = arr ! c" unfolding c(2) using nth [of h] less.prems(3) by simp
        ultimately show ?thesis by simp
      qed
      ultimately have "heap_but ?arr n lo c" unfolding heap_but_def by blast
      then have "heap (sift_loop cmp ?arr n c (2 * c + 1)) n lo"
        using less.hyps [of c ?arr] c less.prems(2,3,4) by simp
      with go show ?thesis unfolding sift_loop_step [OF True c_def] by (simp add: mult.commute)
    qed
  qed
qed


lemma heap_root: "heap arr n 0 \<Longrightarrow> c < n \<Longrightarrow> key (arr ! c) \<le> key (arr ! 0)"
proof (induction c rule: less_induct)
  case (less c)
  show ?case
  proof (cases "c = 0")
    case False
    then have "key (arr ! c) \<le> key (arr ! up c)" using less.prems by (simp add: heap_def)
    moreover have "up c < c" "up c < n" using False less.prems(2) by linarith+
    ultimately show ?thesis using less.IH less.prems(1) by (blast intro: order_trans)
  qed simp
qed

lemma heapify_heap:
  "2 * i \<le> length arr \<Longrightarrow> heap arr (length arr) i \<Longrightarrow>
   mset (heapify cmp arr i) = mset arr \<and> length (heapify cmp arr i) = length arr \<and> heap (heapify cmp arr i) (length arr) 0"
proof (induction i arbitrary: arr)
  case (Suc i)
  let ?arr = "fixed_sift_down_by cmp arr (length arr) i"
  have "heap_but arr (length arr) i i"
    using Suc.prems(2) unfolding heap_but_def heap_def by (auto simp: Suc_le_eq)
  then have "heap ?arr (length arr) i"
    using sift_heap [of arr "length arr" i i] Suc.prems(1)
    by (simp add: fixed_sift_down_by_def mult.commute)
  moreover have "mset ?arr = mset arr" using Suc.prems(1) by (intro mset_sift_down) simp_all
  moreover from this have "length ?arr = length arr" by (rule mset_eq_length)
  ultimately show ?case using Suc.IH [of ?arr] Suc.prems(1) by simp
qed simp

lemma sift_loop_frame:
  "n \<le> length arr \<Longrightarrow> h < n \<Longrightarrow> drop n (sift_loop cmp arr n h child) = drop n arr"
proof (induction "n - child" arbitrary: arr h child rule: less_induct)
  case less
  show ?case
  proof (cases "child < n")
    case True
    define c where "c = bigger_child cmp arr n child"
    then have c: "child \<le> c" "c < n" using bigger_child_bounds [OF True, of cmp arr] by simp_all
    then have "n - (c * 2 + 1) < n - child" by simp
    from less.hyps [OF this, of "swap arr h c" c] c less.prems show ?thesis
      unfolding sift_loop_step [OF True c_def] by (simp add: swap_def)
  qed (simp add: sift_loop_stop)
qed

definition extracted :: "'a list \<Rightarrow> nat \<Rightarrow> bool" where
  "extracted arr n \<longleftrightarrow> n \<le> length arr \<and> heap arr n 0 \<and> ordered (drop n arr) \<and>
     (\<forall>x \<in> set (take n arr). \<forall>y \<in> set (drop n arr). key x \<le> key y)"

lemma extract_step:
  assumes "extracted arr (Suc (Suc i))"
  shows "extracted (fixed_sift_down_by cmp (swap arr 0 (Suc i)) (Suc i) 0) (Suc i) \<and>
    mset (fixed_sift_down_by cmp (swap arr 0 (Suc i)) (Suc i) 0) = mset arr"
proof -
  let ?n = "Suc i" and ?arr = "swap arr 0 (Suc i)"
  let ?res = "fixed_sift_down_by cmp ?arr ?n 0"
  note ex = assms [unfolded extracted_def]
  have len: "?n < length arr" using ex by simp
  have nth: "?arr ! k = (if k = 0 then arr ! ?n else if k = ?n then arr ! 0 else arr ! k)" if "k < length arr" for k
    using len that by (auto simp: swap_def nth_list_update)
  have "key (?arr ! c) \<le> key (?arr ! up c)" if "0 < c" "c < ?n" "up c \<noteq> 0" for c
  proof -
    have "key (arr ! c) \<le> key (arr ! up c)" using ex that by (simp add: heap_def)
    moreover have "up c < ?n" using that(2) by linarith
    ultimately show ?thesis using nth [of c] nth [of "up c"] that len by simp
  qed
  then have "heap_but ?arr ?n 0 0" by (simp add: heap_but_def)
  then have heap: "heap ?res ?n 0"
    using sift_heap [of ?arr ?n 0 0] len by (simp add: fixed_sift_down_by_def)
  have "0 < length arr" using len by linarith
  then have "mset ?arr = mset arr" using len by (rule mset_swap_in)
  then have mset: "mset ?res = mset arr"
    using mset_sift_down [of 0 ?n ?arr cmp] len by simp
  have "drop ?n ?arr = arr ! 0 # drop (Suc ?n) arr"
    using len nth [of ?n] by (simp add: Cons_nth_drop_Suc [symmetric] swap_def)
  then have drop: "drop ?n ?res = arr ! 0 # drop (Suc ?n) arr"
    using sift_loop_frame [of ?n ?arr 0 1] len by (simp add: fixed_sift_down_by_def)
  have "mset (take ?n ?res) + mset (drop ?n ?res) = mset (take (Suc ?n) arr) + mset (drop (Suc ?n) arr)"
    using mset by (metis append_take_drop_id mset_append)
  then have "add_mset (arr ! 0) (mset (take ?n ?res)) = mset (take (Suc ?n) arr)" unfolding drop by simp
  then have sub: "set (take ?n ?res) \<subseteq> set (take (Suc ?n) arr)"
    by (metis mset_subset_eq_insertD set_mset_mono set_mset_mset subset_mset.order_refl
        subset_mset.less_imp_le)
  have max: "key x \<le> key (arr ! 0)" if "x \<in> set (take (Suc ?n) arr)" for x
  proof -
    from that obtain k where "k < Suc ?n" "x = arr ! k" using len by (auto simp: in_set_conv_nth)
    then show ?thesis using heap_root [of arr "Suc ?n" k] ex by simp
  qed
  have "arr ! 0 \<in> set (take (Suc ?n) arr)" using len by (cases arr) simp_all
  then have "\<forall>y \<in> set (drop (Suc ?n) arr). key (arr ! 0) \<le> key y" using ex by blast
  moreover have "\<forall>x \<in> set (take ?n ?res). \<forall>y \<in> set (drop (Suc ?n) arr). key x \<le> key y"
    using sub ex by blast
  moreover have "length ?res = length arr" using mset by (rule mset_eq_length)
  ultimately have "extracted ?res ?n"
    unfolding extracted_def drop using heap max sub ex len by auto
  with mset show ?thesis by blast
qed

lemma extract_max_sorts:
  "extracted arr (Suc i) \<Longrightarrow> mset (extract_max cmp arr i) = mset arr \<and> ordered (extract_max cmp arr i)"
proof (induction i arbitrary: arr)
  case 0
  then show ?case
    by (cases arr) (auto simp: extracted_def)
next
  case (Suc i)
  with extract_step [OF Suc.prems] show ?case by simp
qed

lemma heap_sort_sorts: "mset (fixed_heap_sort_by cmp arr) = mset arr \<and> ordered (fixed_heap_sort_by cmp arr)"
proof (cases arr)
  case (Cons x xs)
  have "heap arr (length arr) (length arr div 2)" unfolding heap_def by auto
  then have h: "mset (heapify cmp arr (length arr div 2)) = mset arr"
      "length (heapify cmp arr (length arr div 2)) = length arr"
      "heap (heapify cmp arr (length arr div 2)) (length arr) 0"
    using heapify_heap [of "length arr div 2" arr] by simp_all
  then have "extracted (heapify cmp arr (length arr div 2)) (Suc (length arr - 1))"
    using Cons by (simp add: extracted_def)
  then show ?thesis using extract_max_sorts h(1) by (simp add: fixed_heap_sort_by_def)
qed (simp add: fixed_heap_sort_by_def)

lemma equal_run_go: "i < length arr \<and> cmp p (arr ! i) = 0 \<Longrightarrow> equal_run cmp p arr i = equal_run cmp p arr (i + 1)"
  by (subst equal_run.simps) (rule if_P)

lemma equal_run_stop: "\<not> (i < length arr \<and> cmp p (arr ! i) = 0) \<Longrightarrow> equal_run cmp p arr i = i"
  by (subst equal_run.simps) (rule if_not_P)

lemma equal_run_equal: "i \<le> k \<Longrightarrow> k < equal_run cmp p arr i \<Longrightarrow> key (arr ! k) = key p"
proof (induction "length arr - i" arbitrary: i rule: less_induct)
  case less
  have run: "i < length arr \<and> cmp p (arr ! i) = 0"
  proof (rule ccontr)
    assume "\<not> (i < length arr \<and> cmp p (arr ! i) = 0)"
    then have "equal_run cmp p arr i = i" by (rule equal_run_stop)
    with less.prems show False by simp
  qed
  have next_run: "k < equal_run cmp p arr (i + 1)" using less.prems(2) unfolding equal_run_go [OF run] .
  show ?case
  proof (cases "k = i")
    case True
    with run same show ?thesis by metis
  next
    case False
    have "length arr - (i + 1) < length arr - i" using run by linarith
    from less.hyps [OF this] less.prems(1) next_run False show ?thesis by simp
  qed
qed

lemma equal_run_bound: "i \<le> length arr \<Longrightarrow> equal_run cmp p arr i \<le> length arr"
proof (induction "length arr - i" arbitrary: i rule: less_induct)
  case less
  show ?case
  proof (cases "i < length arr \<and> cmp p (arr ! i) = 0")
    case True
    then show ?thesis using less.hyps [of "i + 1"] unfolding equal_run_go [OF True] by linarith
  next
    case False
    then have "equal_run cmp p arr i = i" by (rule equal_run_stop)
    with less.prems show ?thesis by simp
  qed
qed

definition above_pred :: "'a option \<Rightarrow> 'a list \<Rightarrow> bool" where
  "above_pred pred arr \<longleftrightarrow> (\<forall>p. pred = Some p \<longrightarrow> (\<forall>x \<in> set arr. key p \<le> key x))"

lemma ordered_split:
  assumes "i < length arr" and "\<forall>x \<in> set (take i arr). key x < key (arr ! i)"
    and "\<forall>x \<in> set (drop i arr). key (arr ! i) \<le> key x"
    and "mset l = mset (take i arr)" and "mset r = mset (drop (i + 1) arr)" and "ordered l" and "ordered r"
  shows "mset (l @ arr ! i # r) = mset arr \<and> ordered (l @ arr ! i # r)"
proof -
  have "arr = take i arr @ arr ! i # drop (i + 1) arr" using assms(1) by (simp add: id_take_nth_drop)
  then have "mset arr = mset (take i arr) + mset (arr ! i # drop (i + 1) arr)" by (metis mset_append)
  moreover have "set l = set (take i arr)" "set r = set (drop (i + 1) arr)"
    using assms(4,5) by (auto dest: mset_eq_setD)
  moreover have "set (drop (i + 1) arr) \<subseteq> set (drop i arr)" by (simp add: set_drop_subset_set_drop)
  then have "\<forall>x \<in> set (drop (i + 1) arr). key (arr ! i) \<le> key x" using assms(3) by blast
  ultimately show ?thesis using assms(2,4-7) by (fastforce simp: sorted_append)
qed

lemma quick_sorts:
  "above_pred pred arr \<Longrightarrow> mset (fixed_quick_sort_by cmp arr pred limit w b) = mset arr \<and>
    ordered (fixed_quick_sort_by cmp arr pred limit w b)"
proof (induction "length arr" arbitrary: arr pred limit w b rule: less_induct)
  case less
  let ?Q = "fixed_quick_sort_by cmp"
  show ?case
  proof (cases "length arr \<le> 16 \<or> limit = 0")
    case True
    have "length arr < 2 \<Longrightarrow> ordered arr" by (cases arr rule: list.exhaust; cases "tl arr") auto
    with True bubble_sorts heap_sort_sorts show ?thesis
      by (subst (1 2) fixed_quick_sort_by.simps) auto
  next
    case False
    then have long: "\<not> length arr \<le> 16" "limit \<noteq> 0" "arr \<noteq> []" by auto
    obtain arr1 pi likely where pivot: "fixed_choose_pivot_by cmp arr = (arr1, pi, likely)" by (metis prod_cases3)
    let ?tried = "w \<and> b \<and> likely"
    obtain arr2 fin where try2: "(if ?tried then fixed_try_bubble_sort_by cmp arr1 else (arr1, False)) = (arr2, fin)"
      by fastforce
    obtain arr3 p part where split: "fixed_partition_by cmp arr2 pi = (arr3, p, part)" by (metis prod_cases3)
    have m1: "mset arr1 = mset arr" "pi < length arr" using mset_choose_pivot [OF pivot long(3)] by simp_all
    then have ne1: "arr1 \<noteq> []" using long(3) by auto
    have m2: "mset arr2 = mset arr" "fin \<longrightarrow> ordered arr2"
    proof -
      have "mset arr2 = mset arr \<and> (fin \<longrightarrow> ordered arr2)"
      proof (cases ?tried)
        case True
        with try2 have "fixed_try_bubble_sort_by cmp arr1 = (arr2, fin)" by (simp only: if_P)
        from try_sorts [OF this ne1] m1(1) show ?thesis by simp
      next
        case False
        have "(if ?tried then fixed_try_bubble_sort_by cmp arr1 else (arr1, False)) = (arr1, False)"
          using False by (rule if_not_P)
        with try2 have "arr2 = arr1 \<and> fin = False" by simp
        with m1(1) show ?thesis by simp
      qed
      then show "mset arr2 = mset arr" "fin \<longrightarrow> ordered arr2" by blast+
    qed
    have l2: "length arr2 = length arr" using m2(1) by (rule mset_eq_length)
    then have m3: "mset arr3 = mset arr" using mset_partition [OF split] m1(2) m2(1) by simp
    have l3: "length arr3 = length arr" using m3 by (rule mset_eq_length)
    have ne2: "arr2 \<noteq> []" using l2 long(3) by auto
    note parts = partition_splits [OF split ne2]
    have set3: "set arr3 = set arr" using m3 by (rule mset_eq_setD)
    define bal where "bal = (length arr3 div 8 \<le> min p (length arr3 - p))"
    define lim where "lim = (if \<not> bal then limit - 1 else limit)"
    define equal where "equal = (case pred of None \<Rightarrow> False | Some q \<Rightarrow> cmp q (arr3 ! p) = 0)"
    define i where "i = equal_run cmp (the pred) arr3 p"
    have step: "?Q arr pred limit w b =
       (if fin then arr2 else if equal then take i arr3 @ ?Q (drop i arr3) pred lim part bal
        else if length (take p arr3) < length (drop (p + 1) arr3)
        then ?Q (take p arr3) pred lim True True @ arr3 ! p # ?Q (drop (p + 1) arr3) (Some (arr3 ! p)) lim part bal
        else ?Q (take p arr3) pred lim part bal @ arr3 ! p # ?Q (drop (p + 1) arr3) (Some (arr3 ! p)) lim True True)"
      using long(1,2)
      by (subst fixed_quick_sort_by.simps)
        (simp only: if_False pivot try2 split prod.case Let_def bal_def lim_def equal_def i_def)
    have pred3: "above_pred pred arr3" using less.prems set3 by (simp add: above_pred_def)
    consider fin | "\<not> fin" equal | "\<not> fin" "\<not> equal" by blast
    then show ?thesis
    proof cases
      case 1
      with m2 show ?thesis unfolding step by simp
    next
      case 2
      then obtain q where q: "pred = Some q" "key q = key (arr3 ! p)"
        by (auto simp: equal_def same split: option.splits)
      then have above_q: "\<forall>x \<in> set arr3. key q \<le> key x" using pred3 by (simp add: above_pred_def)
      have "take p arr3 = []"
        using parts q(2) above_q by (metis in_set_takeD leD list.set_intros(1) neq_Nil_conv)
      then have "p = 0" using parts by auto
      have i: "0 < i" "i \<le> length arr3"
        using equal_run_step [of p arr3 cmp q] equal_run_bound [of p arr3 q] parts q same
        by (auto simp: i_def)
      have "length (drop i arr3) < length arr" using i l3 long(3) by simp
      moreover have "above_pred pred (drop i arr3)" using pred3 by (auto simp: above_pred_def dest: in_set_dropD)
      ultimately have ih: "mset (?Q (drop i arr3) pred lim part bal) = mset (drop i arr3)"
          "ordered (?Q (drop i arr3) pred lim part bal)"
        using less.hyps by blast+
      have eq: "key x = key q" if "x \<in> set (take i arr3)" for x
        using that equal_run_equal [of p _ q arr3] \<open>p = 0\<close> q(1) by (auto simp: in_set_conv_nth i_def)
      have "map key (take i arr3) = map (\<lambda>_. key q) (take i arr3)" using eq by (intro map_cong refl)
      then have "sorted (map key (take i arr3))" by (simp add: map_replicate_const)
      moreover have "set (?Q (drop i arr3) pred lim part bal) = set (drop i arr3)" using ih(1) by (rule mset_eq_setD)
      ultimately have "ordered (take i arr3 @ ?Q (drop i arr3) pred lim part bal)"
        using ih(2) eq above_q by (auto simp: sorted_append dest: in_set_dropD)
      moreover have "mset (take i arr3 @ ?Q (drop i arr3) pred lim part bal) = mset arr"
        using ih(1) m3 by (metis append_take_drop_id mset_append)
      ultimately show ?thesis using 2 unfolding step by simp
    next
      case 3
      have left: "mset (?Q (take p arr3) pred lim u v) = mset (take p arr3) \<and> ordered (?Q (take p arr3) pred lim u v)" for u v
        using less.hyps [of "take p arr3" pred lim u v] parts l3 pred3
        by (auto simp: above_pred_def dest: in_set_takeD)
      have right: "mset (?Q (drop (p + 1) arr3) (Some (arr3 ! p)) lim u v) = mset (drop (p + 1) arr3) \<and>
          ordered (?Q (drop (p + 1) arr3) (Some (arr3 ! p)) lim u v)" for u v
      proof -
        have "set (drop (p + 1) arr3) \<subseteq> set (drop p arr3)" by (simp add: set_drop_subset_set_drop)
        then have "above_pred (Some (arr3 ! p)) (drop (p + 1) arr3)" using parts by (auto simp: above_pred_def)
        moreover have "length (drop (p + 1) arr3) < length arr" using l3 long(3) by (simp add: diff_less)
        ultimately show ?thesis using less.hyps by blast
      qed
      have "mset (l @ arr3 ! p # r) = mset arr \<and> ordered (l @ arr3 ! p # r)"
        if "mset l = mset (take p arr3) \<and> ordered l" "mset r = mset (drop (p + 1) arr3) \<and> ordered r" for l r
        using ordered_split [of p arr3 l r] parts that m3 by simp
      from this [OF left right] show ?thesis using 3 unfolding step by simp
    qed
  qed
qed

lemma sort_by_sorts: "mset (sort_by cmp arr) = mset arr \<and> ordered (sort_by cmp arr)"
  unfolding sort_by_def by (rule quick_sorts) (simp add: above_pred_def)

end

end
