(* ===== verification/Chokidar_Scan.thy ===== *)
theory Chokidar_Scan
  imports Chokidar_Paths Utf8_Bytes Sort_By "HOL-Library.List_Lexorder"
begin

text \<open>
  Snapshots of a watched tree and their difference, compiled from \<open>chokidar/types.mbt\<close> and
  \<open>scanner.mbt\<close>: paths are compared by their UTF-8 bytes, both snapshots are sorted with the
  runtime library's sort, and the difference becomes events.
\<close>

subsection \<open>Data\<close>

datatype file_kind = File | Directory | Symlink | OtherKind

datatype event_name = Add | Change | AddDir | Unlink | UnlinkDir | Ready | Raw | Error | All

record file_stats =
  st_size :: "64 word"
  st_mode :: "32 word"
  st_modified_nanos :: "64 word"

record snapshot_entry =
  se_path :: mstring
  se_kind :: file_kind
  se_stats :: "file_stats option"

record raw_event =
  re_backend_event_name :: mstring
  re_watched_path :: mstring
  re_event_path :: "mstring option"
  re_platform :: mstring
  re_error_message :: "mstring option"

record event =
  ev_name :: event_name
  ev_path :: mstring
  ev_stats :: "file_stats option"
  ev_raw :: "raw_event option"
  ev_error :: "mstring option"

subsection \<open>Comparing paths\<close>

fun compare_bytes :: "bytes \<Rightarrow> bytes \<Rightarrow> nat \<Rightarrow> nat \<Rightarrow> int" where
  "compare_bytes left right index 0 =
     (if length left < length right then -1 else if length right < length left then 1 else 0)"
| "compare_bytes left right index (Suc rest) =
     (let left_byte = uint (left ! index); right_byte = uint (right ! index) in
      if left_byte < right_byte then -1
      else if right_byte < left_byte then 1
      else compare_bytes left right (index + 1) rest)"

definition compare_paths :: "mstring \<Rightarrow> mstring \<Rightarrow> int run" where
  "compare_paths left right = do {
     left_bytes \<leftarrow> scanner_string_to_utf8_bytes left;
     right_bytes \<leftarrow> scanner_string_to_utf8_bytes right;
     Some (compare_bytes left_bytes right_bytes 0 (min (length left_bytes) (length right_bytes)))
   }"

definition compare_snapshot_paths :: "snapshot_entry \<Rightarrow> snapshot_entry \<Rightarrow> int run" where
  "compare_snapshot_paths left right = compare_paths (se_path left) (se_path right)"

subsection \<open>The difference of two snapshots\<close>

fun snapshot_find :: "snapshot_entry list \<Rightarrow> mstring \<Rightarrow> snapshot_entry option" where
  "snapshot_find [] path = None"
| "snapshot_find (entry # entries) path =
     (if se_path entry = path then Some entry else snapshot_find entries path)"

definition stats_changed :: "file_stats option \<Rightarrow> file_stats option \<Rightarrow> bool" where
  "stats_changed old_stats new_stats =
     (case old_stats of
        None \<Rightarrow> \<not> (new_stats = None)
      | Some old \<Rightarrow>
          (case new_stats of
             None \<Rightarrow> True
           | Some new \<Rightarrow>
               if st_size old \<noteq> st_size new then True
               else if st_mode old \<noteq> st_mode new then True
               else st_modified_nanos old \<noteq> st_modified_nanos new))"

definition event_name_for_add :: "file_kind \<Rightarrow> event_name" where
  "event_name_for_add kind = (case kind of Directory \<Rightarrow> AddDir | _ \<Rightarrow> Add)"

definition event_name_for_unlink :: "file_kind \<Rightarrow> event_name" where
  "event_name_for_unlink kind = (case kind of Directory \<Rightarrow> UnlinkDir | _ \<Rightarrow> Unlink)"

definition event_from_entry :: "event_name \<Rightarrow> snapshot_entry \<Rightarrow> event" where
  "event_from_entry name entry =
     \<lparr>ev_name = name, ev_path = se_path entry,
      ev_stats = (if name = Unlink \<or> name = UnlinkDir then None else se_stats entry),
      ev_raw = None, ev_error = None\<rparr>"

fun added_loop :: "snapshot_entry list \<Rightarrow> snapshot_entry list \<Rightarrow> event list \<Rightarrow> event list" where
  "added_loop old [] events = events"
| "added_loop old (new_entry # rest) events =
     added_loop old rest
       (case snapshot_find old (se_path new_entry) of
          None \<Rightarrow> events @ [event_from_entry (event_name_for_add (se_kind new_entry)) new_entry]
        | Some old_entry \<Rightarrow>
            if se_kind new_entry \<noteq> se_kind old_entry then
              (events @ [event_from_entry (event_name_for_unlink (se_kind old_entry)) old_entry]) @
                [event_from_entry (event_name_for_add (se_kind new_entry)) new_entry]
            else if se_kind new_entry \<noteq> Directory \<and> stats_changed (se_stats old_entry) (se_stats new_entry)
            then events @ [event_from_entry Change new_entry]
            else events)"

fun removed_loop :: "snapshot_entry list \<Rightarrow> snapshot_entry list \<Rightarrow> event list \<Rightarrow> event list" where
  "removed_loop new [] events = events"
| "removed_loop new (old_entry # rest) events =
     removed_loop new rest
       (if snapshot_find new (se_path old_entry) = None
        then events @ [event_from_entry (event_name_for_unlink (se_kind old_entry)) old_entry]
        else events)"

text \<open>The comparison always returns, as shown below; the sort uses the number it returns.\<close>

definition entry_order :: "snapshot_entry \<Rightarrow> snapshot_entry \<Rightarrow> int" where
  "entry_order left right = the (compare_snapshot_paths left right)"

definition diff_snapshots :: "snapshot_entry list \<Rightarrow> snapshot_entry list \<Rightarrow> event list" where
  "diff_snapshots old_entries new_entries =
     (let old_entries = sort_by entry_order old_entries;
          new_entries = sort_by entry_order new_entries
      in removed_loop new_entries old_entries (added_loop old_entries new_entries []))"

subsection \<open>The comparison is the order of the encodings\<close>

lemma byte_ord: "(a :: byte) < b \<longleftrightarrow> uint a < uint b"
  by (simp add: word_less_def)

lemma compare_bytes_order:
  assumes "take i l = take i r" and "i + n = min (length l) (length r)"
  shows "(compare_bytes l r i n < 0 \<longleftrightarrow> l < r) \<and> (0 < compare_bytes l r i n \<longleftrightarrow> r < l)"
  using assms
proof (induction n arbitrary: i)
  case 0
  have cut: "\<And>u v :: bytes. length u \<le> length v \<Longrightarrow> take i u = take i v \<Longrightarrow> i = length u \<Longrightarrow> v = u @ drop i v"
    by (metis append_take_drop_id take_all_iff order.refl)
  have longer: "u < u @ a # v" for u v :: bytes and a
    by (simp add: list_less_def lexord_append_rightI)
  show ?case
  proof (cases "length l \<le> length r")
    case True
    then have "r = l @ drop i r" using 0 by (intro cut) simp_all
    then obtain z where "r = l @ z" ..
    then show ?thesis using longer by (cases z) (auto simp: less_not_sym)
  next
    case False
    then have "l = r @ drop i l" using 0 by (intro cut) simp_all
    then obtain z where "l = r @ z" ..
    with False show ?thesis using longer by (cases z) (auto simp: less_not_sym)
  qed
next
  case (Suc n)
  then have i: "i < length l" "i < length r" by auto
  define p where "p = take i l"
  have lr: "l = p @ l ! i # drop (Suc i) l" "r = p @ r ! i # drop (Suc i) r"
    using id_take_nth_drop [OF i(1)] id_take_nth_drop [OF i(2)] Suc.prems(1) by (simp_all add: p_def)
  have first: "p @ a # x < p @ b # y" if "a < b" for a b x y
    using that by (simp add: list_less_def lexord_append_leftI)
  have less: "l ! i < r ! i \<Longrightarrow> l < r" "r ! i < l ! i \<Longrightarrow> r < l"
    using first [of "l ! i" "r ! i" "drop (Suc i) l" "drop (Suc i) r"]
      first [of "r ! i" "l ! i" "drop (Suc i) r" "drop (Suc i) l"]
    unfolding lr [symmetric] by blast+
  consider "l ! i < r ! i" | "r ! i < l ! i" | "l ! i = r ! i" by fastforce
  then show ?case
  proof cases
    case 1
    then show ?thesis using less(1) by (simp add: byte_ord Let_def less_not_sym)
  next
    case 2
    then show ?thesis using less(2) by (simp add: byte_ord Let_def less_not_sym)
  next
    case 3
    then have "take (Suc i) l = take (Suc i) r" using Suc.prems(1) i by (simp add: take_Suc_conv_app_nth)
    with Suc.IH [of "Suc i"] Suc.prems(2) 3 show ?thesis by (simp add: Let_def)
  qed
qed

lemma compare_paths_returns: "\<exists>c. compare_paths l r = Some c \<and> (c < 0 \<longleftrightarrow> encoding l < encoding r) \<and>
    (0 < c \<longleftrightarrow> encoding r < encoding l)"
  using compare_bytes_order [of 0 "encoding l" "encoding r" "min (length (encoding l)) (length (encoding r))"]
  by (simp add: compare_paths_def scanner_bytes_eq)

subsection \<open>The sort of snapshots\<close>

interpretation entry_sort: comparison entry_order "\<lambda>e :: snapshot_entry. encoding (se_path e)"
proof
  fix a b :: snapshot_entry
  obtain c where "compare_paths (se_path a) (se_path b) = Some c" "c < 0 \<longleftrightarrow> encoding (se_path a) < encoding (se_path b)"
    "0 < c \<longleftrightarrow> encoding (se_path b) < encoding (se_path a)"
    using compare_paths_returns by blast
  then show "entry_order a b < 0 \<longleftrightarrow> encoding (se_path a) < encoding (se_path b)"
    and "0 < entry_order a b \<longleftrightarrow> encoding (se_path b) < encoding (se_path a)"
    by (simp_all add: entry_order_def compare_snapshot_paths_def)
qed

lemma sort_entries:
  assumes "distinct (map se_path es)" and "\<forall>e \<in> set es. utf16_ok (se_path e)"
  shows "sort_by entry_order es = sort_key (\<lambda>e. encoding (se_path e)) es"
proof -
  let ?key = "\<lambda>e :: snapshot_entry. encoding (se_path e)"
  have inj: "inj_on ?key (set es)"
  proof (rule inj_onI)
    fix a b assume ab: "a \<in> set es" "b \<in> set es" "?key a = ?key b"
    then have "se_path a = se_path b" using assms(2) decoded_encoding by metis
    with ab assms(1) show "a = b" by (auto simp: distinct_map inj_on_def)
  qed
  have d: "distinct (map ?key es)" using inj assms(1) by (simp add: distinct_map)
  note srt = entry_sort.sort_by_sorts [of es]
  have "mset (map ?key (sort_by entry_order es)) = mset (map ?key (sort_key ?key es))"
    using srt by simp
  moreover have "sorted (map ?key (sort_by entry_order es))" "sorted (map ?key (sort_key ?key es))"
    using srt by simp_all
  ultimately have "map ?key (sort_by entry_order es) = map ?key (sort_key ?key es)"
    by (metis properties_for_sort)
  moreover have "set (sort_by entry_order es) = set es" using srt by (metis mset_eq_setD)
  ultimately show ?thesis using inj by (auto intro: map_inj_on)
qed

lemma sorted_entries_mset: "mset (sort_by entry_order es) = mset es"
  using entry_sort.sort_by_sorts [of es] by simp

subsection \<open>What the events do\<close>

text \<open>
  What a watcher knows of a path: a directory, or something else with its stats. An event changes
  the knowledge of its path.
\<close>

datatype node = Dir_node | Plain_node "file_stats option"

definition node_of :: "snapshot_entry \<Rightarrow> node" where
  "node_of e = (if se_kind e = Directory then Dir_node else Plain_node (se_stats e))"

definition tree_of :: "snapshot_entry list \<Rightarrow> mstring \<Rightarrow> node option" where
  "tree_of es = (\<lambda>p. map_option node_of (snapshot_find es p))"

definition apply_event :: "event \<Rightarrow> (mstring \<Rightarrow> node option) \<Rightarrow> mstring \<Rightarrow> node option" where
  "apply_event e m =
     (if ev_name e = AddDir then m(ev_path e \<mapsto> Dir_node)
      else if ev_name e = Add \<or> ev_name e = Change then m(ev_path e \<mapsto> Plain_node (ev_stats e))
      else if ev_name e = Unlink \<or> ev_name e = UnlinkDir then m(ev_path e := None)
      else m)"

definition replay :: "event list \<Rightarrow> (mstring \<Rightarrow> node option) \<Rightarrow> mstring \<Rightarrow> node option" where
  "replay evs m = fold apply_event evs m"

lemma replay_simps [simp]:
  "replay [] m = m" "replay (e # es) m = replay es (apply_event e m)" "replay (es @ fs) m = replay fs (replay es m)"
  by (simp_all add: replay_def)

definition entry_events :: "snapshot_entry option \<Rightarrow> snapshot_entry \<Rightarrow> event list" where
  "entry_events old new =
     (case old of
        None \<Rightarrow> [event_from_entry (event_name_for_add (se_kind new)) new]
      | Some old \<Rightarrow>
          if se_kind new \<noteq> se_kind old
          then [event_from_entry (event_name_for_unlink (se_kind old)) old,
                event_from_entry (event_name_for_add (se_kind new)) new]
          else if se_kind new \<noteq> Directory \<and> stats_changed (se_stats old) (se_stats new)
          then [event_from_entry Change new] else [])"

lemma added_loop_eq:
  "added_loop old new evs = evs @ concat (map (\<lambda>e. entry_events (snapshot_find old (se_path e)) e) new)"
  by (induction new arbitrary: evs) (simp_all add: entry_events_def split: option.split)

definition unlink_of :: "snapshot_entry \<Rightarrow> event" where
  "unlink_of e = event_from_entry (event_name_for_unlink (se_kind e)) e"

lemma removed_loop_eq:
  "removed_loop new old evs = evs @ map unlink_of (filter (\<lambda>e. snapshot_find new (se_path e) = None) old)"
  by (induction old arbitrary: evs) (simp_all add: unlink_of_def)

lemma snapshot_find_Some: "snapshot_find es p = Some e \<Longrightarrow> e \<in> set es \<and> se_path e = p"
  by (induction es) (auto split: if_splits)

lemma snapshot_find_None: "snapshot_find es p = None \<longleftrightarrow> p \<notin> se_path ` set es"
  by (induction es) auto

lemma snapshot_find_in: "distinct (map se_path es) \<Longrightarrow> e \<in> set es \<Longrightarrow> snapshot_find es (se_path e) = Some e"
  by (induction es) (auto simp: rev_image_eqI)

lemma snapshot_find_perm:
  assumes "mset es = mset fs" and "distinct (map se_path es)"
  shows "snapshot_find es p = snapshot_find fs p"
proof -
  have f: "distinct (map se_path fs)" "set fs = set es"
    using assms by (metis mset_map mset_eq_imp_distinct_iff, metis mset_eq_setD)
  show ?thesis
  proof (cases "snapshot_find es p")
    case None
    then show ?thesis using f(2) by (metis snapshot_find_None)
  next
    case (Some e)
    then show ?thesis using snapshot_find_Some [OF Some] snapshot_find_in [OF f(1), of e] f(2) by simp
  qed
qed

lemma stats_unchanged: "\<not> stats_changed a b \<Longrightarrow> a = (b :: file_stats option)"
  by (auto simp: stats_changed_def split: option.splits if_splits)

lemma replay_entry:
  assumes "\<And>o'. old = Some o' \<Longrightarrow> se_path o' = se_path new" and "m (se_path new) = map_option node_of old"
  shows "replay (entry_events old new) m = m(se_path new \<mapsto> node_of new)"
proof (cases old)
  case None
  then show ?thesis
    by (cases "se_kind new") (simp_all add: entry_events_def event_from_entry_def event_name_for_add_def apply_event_def node_of_def)
next
  case (Some o')
  then have p: "se_path o' = se_path new" using assms(1) by simp
  consider "se_kind new \<noteq> se_kind o'" | "se_kind new = se_kind o'" "se_kind new \<noteq> Directory \<and> stats_changed (se_stats o') (se_stats new)"
    | "se_kind new = se_kind o'" "se_kind new = Directory \<or> \<not> stats_changed (se_stats o') (se_stats new)" by blast
  then show ?thesis
  proof cases
    case 1
    then show ?thesis using Some p
      by (cases "se_kind new"; cases "se_kind o'") (simp_all add: entry_events_def event_from_entry_def event_name_for_add_def
          event_name_for_unlink_def apply_event_def node_of_def)
  next
    case 2
    then show ?thesis using Some by (simp add: entry_events_def event_from_entry_def apply_event_def node_of_def)
  next
    case 3
    then have "node_of o' = node_of new" using stats_unchanged by (auto simp: node_of_def)
    then have "m (se_path new) = Some (node_of new)" using assms(2) Some by simp
    then show ?thesis using 3 Some by (auto simp: entry_events_def fun_upd_idem)
  qed
qed

lemma replay_added:
  assumes "distinct (map se_path new)" and "\<And>p. p \<in> se_path ` set new \<Longrightarrow> m p = tree_of old p"
  shows "replay (concat (map (\<lambda>e. entry_events (snapshot_find old (se_path e)) e) new)) m =
    (\<lambda>p. if p \<in> se_path ` set new then tree_of new p else m p)"
  using assms
proof (induction new arbitrary: m)
  case (Cons e new)
  let ?m = "m(se_path e \<mapsto> node_of e)"
  have e: "replay (entry_events (snapshot_find old (se_path e)) e) m = ?m"
    by (rule replay_entry) (auto dest: snapshot_find_Some simp: Cons.prems(2) tree_of_def)
  have "?m p = tree_of old p" if "p \<in> se_path ` set new" for p
    using that Cons.prems by (auto simp: image_iff)
  then have "replay (concat (map (\<lambda>e. entry_events (snapshot_find old (se_path e)) e) new)) ?m =
      (\<lambda>p. if p \<in> se_path ` set new then tree_of new p else ?m p)"
    using Cons.prems(1) by (intro Cons.IH) simp_all
  also have "\<dots> = (\<lambda>p. if p \<in> se_path ` set (e # new) then tree_of (e # new) p else m p)"
    using Cons.prems(1) by (auto simp: fun_eq_iff tree_of_def)
  finally show ?case using e by simp
qed simp

lemma replay_unlinks:
  "replay (map unlink_of es) m = (\<lambda>p. if p \<in> se_path ` set es then None else m p)"
proof (induction es arbitrary: m)
  case (Cons e es)
  have "apply_event (unlink_of e) m = m(se_path e := None)"
    by (cases "se_kind e") (simp_all add: apply_event_def unlink_of_def event_from_entry_def event_name_for_unlink_def)
  then show ?case using Cons by (auto simp: fun_eq_iff)
qed simp

text \<open>Replaying the difference on the old tree gives the new one.\<close>

lemma replay_diff:
  assumes "distinct (map se_path old)" and "distinct (map se_path new)"
  shows "replay (diff_snapshots old new) (tree_of old) = tree_of new"
proof -
  let ?o = "sort_by entry_order old" and ?n = "sort_by entry_order new"
  have mo: "mset old = mset ?o" and mn: "mset new = mset ?n" by (simp_all add: sorted_entries_mset)
  have dn: "distinct (map se_path ?n)" using mn assms(2) by (metis mset_map mset_eq_imp_distinct_iff)
  have tree: "tree_of old = tree_of ?o" "tree_of new = tree_of ?n"
    using snapshot_find_perm [OF mo assms(1)] snapshot_find_perm [OF mn assms(2)] by (simp_all add: tree_of_def)
  have gone: "tree_of es p = None \<longleftrightarrow> p \<notin> se_path ` set es" for es p
    by (simp add: tree_of_def snapshot_find_None)
  have "replay (diff_snapshots old new) (tree_of old) =
      replay (map unlink_of (filter (\<lambda>e. snapshot_find ?n (se_path e) = None) ?o))
        (\<lambda>p. if p \<in> se_path ` set ?n then tree_of ?n p else tree_of ?o p)"
    unfolding tree(1) diff_snapshots_def Let_def added_loop_eq removed_loop_eq append_Nil replay_simps
    by (subst replay_added [OF dn]) simp_all
  also have "\<dots> = tree_of ?n"
  proof
    fix p
    show "replay (map unlink_of (filter (\<lambda>e. snapshot_find ?n (se_path e) = None) ?o))
        (\<lambda>p. if p \<in> se_path ` set ?n then tree_of ?n p else tree_of ?o p) p = tree_of ?n p"
    proof (cases "p \<in> se_path ` set ?n")
      case True
      then have "p \<notin> se_path ` set (filter (\<lambda>e. snapshot_find ?n (se_path e) = None) ?o)"
        by (auto simp: snapshot_find_None) (metis imageI)
      with True show ?thesis by (simp add: replay_unlinks)
    next
      case False
      then have "tree_of ?n p = None" "p \<notin> se_path ` set ?o \<Longrightarrow> tree_of ?o p = None" using gone by simp_all
      with False show ?thesis by (auto simp: replay_unlinks snapshot_find_None)
    qed
  qed
  finally show ?thesis using tree(2) by simp
qed

text \<open>Files with a path and a time, for the examples.\<close>

definition sample_file :: "string \<Rightarrow> 64 word \<Rightarrow> snapshot_entry" where
  "sample_file p t = \<lparr>se_path = str p, se_kind = File,
     se_stats = Some \<lparr>st_size = 1, st_mode = 420, st_modified_nanos = t\<rparr>\<rparr>"

definition sample_dir :: "string \<Rightarrow> snapshot_entry" where
  "sample_dir p = \<lparr>se_path = str p, se_kind = Directory, se_stats = None\<rparr>"

subsection \<open>Properties\<close>

text \<open>
  Property C30. The events of the difference of two scans, applied in their order to what was known of the old
  tree, give exactly the new tree: nothing is missed, and nothing is reported that would lead
  elsewhere. A scan names every path once.
\<close>

theorem diff_replays:
  assumes "distinct (map se_path old)" and "distinct (map se_path new)"
  shows "replay (diff_snapshots old new) (tree_of old) = tree_of new"
  by (rule replay_diff [OF assms])

theorem diff_replays_witness:
  "replay (diff_snapshots [sample_dir ''d'', sample_file ''d/a'' 1, sample_file ''b'' 1] [sample_file ''d'' 5, sample_file ''b'' 2])
     (tree_of [sample_dir ''d'', sample_file ''d/a'' 1, sample_file ''b'' 1]) =
   tree_of [sample_file ''d'' 5, sample_file ''b'' 2]"
  by (rule diff_replays) (simp_all add: sample_file_def sample_dir_def)

text \<open>
  The difference does not depend on the order in which the scans found the entries: the events
  are those of the entries of the new scan in the order of their UTF-8 encodings, and then the
  removals of the entries of the old one that are gone, in the same order. A directory is removed
  before its content.
\<close>

theorem diff_in_path_order:
  assumes "distinct (map se_path old)" and "distinct (map se_path new)"
    and "\<forall>e \<in> set old \<union> set new. utf16_ok (se_path e)"
  shows "diff_snapshots old new =
    concat (map (\<lambda>e. entry_events (snapshot_find old (se_path e)) e) (sort_key (\<lambda>e. encoding (se_path e)) new)) @
    map unlink_of (filter (\<lambda>e. snapshot_find new (se_path e) = None) (sort_key (\<lambda>e. encoding (se_path e)) old))"
proof -
  let ?key = "\<lambda>e :: snapshot_entry. encoding (se_path e)"
  have "snapshot_find (sort_key ?key old) p = snapshot_find old p"
    "snapshot_find (sort_key ?key new) p = snapshot_find new p" for p
    using snapshot_find_perm [of old "sort_key ?key old"] snapshot_find_perm [of new "sort_key ?key new"] assms(1,2)
    by simp_all
  then show ?thesis
    using sort_entries assms by (simp add: diff_snapshots_def added_loop_eq removed_loop_eq)
qed

theorem diff_in_path_order_witness:
  "diff_snapshots [sample_file ''b'' 1] [sample_file ''c'' 1, sample_file ''a'' 1] =
    concat (map (\<lambda>e. entry_events (snapshot_find [sample_file ''b'' 1] (se_path e)) e)
      (sort_key (\<lambda>e. encoding (se_path e)) [sample_file ''c'' 1, sample_file ''a'' 1])) @
    map unlink_of (filter (\<lambda>e. snapshot_find [sample_file ''c'' 1, sample_file ''a'' 1] (se_path e) = None)
      (sort_key (\<lambda>e. encoding (se_path e)) [sample_file ''b'' 1]))"
  by (rule diff_in_path_order)
    (simp_all add: sample_file_def is_leading_surrogate_def is_trailing_surrogate_def word_le_nat_alt)

text \<open>
  The comparison of two paths always returns, and its sign is the order of their UTF-8 encodings.
\<close>

theorem compare_paths_order:
  "\<exists>c. compare_paths l r = Some c \<and> (c < 0 \<longleftrightarrow> encoding l < encoding r) \<and> (0 < c \<longleftrightarrow> encoding r < encoding l)"
  by (rule compare_paths_returns)

text \<open>
  Property C31. The sort of the runtime library, with the comparison of snapshot entries, returns the entries it
  was given in the order of the encodings of their paths.
\<close>

theorem sort_by_entries:
  "mset (sort_by entry_order es) = mset es \<and> sorted (map (\<lambda>e. encoding (se_path e)) (sort_by entry_order es))"
  by (rule entry_sort.sort_by_sorts)

end
