(* ===== verification/Chokidar_Snapshot.thy ===== *)
theory Chokidar_Snapshot
  imports Readdirp_Tree Chokidar_Scan
begin

text \<open>
  The scan of a watched tree: the options and matchers of the watcher (\<open>chokidar/types.mbt\<close>,
  \<open>matchers.mbt\<close>), the stat functions of its C stub (\<open>scanner_native.c\<close>) with their cache, and
  \<open>scan_snapshot\<close> of \<open>scanner.mbt\<close>, which reads the tree with \<open>Readdirp\<close>.
\<close>

subsection \<open>Options and matchers\<close>

datatype atomic_option = AtomicDefault | AtomicOff | AtomicWindow "32 word"

record await_write_finish_options =
  aw_stability_threshold :: "32 word"
  aw_poll_interval :: "32 word"

datatype await_write_finish = AwaitWriteFinishOff | AwaitWriteFinishOn await_write_finish_options

text \<open>A regular expression is the answer the regexp package gives for a path.\<close>

datatype matcher =
    MatchPath mstring
  | MatchRecursivePath mstring
  | MatchFunction "mstring \<Rightarrow> file_stats option \<Rightarrow> bool run"
  | MatchRegex "mstring \<Rightarrow> bool"

record watch_options =
  wo_persistent :: bool
  wo_ignored :: "matcher list"
  wo_ignore_initial :: bool
  wo_follow_symlinks :: bool
  wo_cwd :: "mstring option"
  wo_use_polling :: bool
  wo_interval :: "32 word"
  wo_binary_interval :: "32 word"
  wo_always_stat :: bool
  wo_depth :: int
  wo_ignore_permission_errors :: bool
  wo_atomic :: atomic_option
  wo_await :: await_write_finish

definition default_watch_options :: watch_options where
  "default_watch_options =
     \<lparr>wo_persistent = True, wo_ignored = [], wo_ignore_initial = False, wo_follow_symlinks = True,
      wo_cwd = None, wo_use_polling = False, wo_interval = 100, wo_binary_interval = 300,
      wo_always_stat = False, wo_depth = 2147483647, wo_ignore_permission_errors = False,
      wo_atomic = AtomicDefault, wo_await = AwaitWriteFinishOff\<rparr>"

definition matcher_matches :: "mstring \<Rightarrow> file_stats option \<Rightarrow> matcher \<Rightarrow> bool run" where
  "matcher_matches path stats m =
     (case m of
        MatchPath target \<Rightarrow> do {
          t \<leftarrow> normalize_path_ck target;
          p \<leftarrow> normalize_path_ck path;
          Some (t = p)
        }
      | MatchRecursivePath target \<Rightarrow> recursive_path_matches target path
      | MatchFunction fn_match \<Rightarrow> fn_match path stats
      | MatchRegex re \<Rightarrow> Some (re path))"

fun is_ignored :: "mstring \<Rightarrow> file_stats option \<Rightarrow> matcher list \<Rightarrow> bool run" where
  "is_ignored path stats [] = Some False"
| "is_ignored path stats (m # ms) = do {
     b \<leftarrow> matcher_matches path stats m;
     if b then Some True else is_ignored path stats ms
   }"

subsection \<open>The stat cache of the stub\<close>

record stat_cache =
  sc_stat :: stat_buf
  sc_path :: bytes
  sc_follow :: int
  sc_valid :: bool

definition chokidar_do_stat :: "file_system \<Rightarrow> bytes \<Rightarrow> int \<Rightarrow> stat_cache \<Rightarrow> int \<times> stat_cache" where
  "chokidar_do_stat fs path follow_symlink c =
     (if sc_valid c \<and> sc_follow c = follow_symlink \<and> sc_path c = path then (0, c)
      else case (if follow_symlink \<noteq> 0 then fs_stat fs path else fs_lstat fs path) of
        Inl e \<Rightarrow> (-1, c\<lparr>sc_valid := False\<rparr>)
      | Inr sb \<Rightarrow> (0, \<lparr>sc_stat = sb, sc_path = take 4095 path, sc_follow = follow_symlink, sc_valid = True\<rparr>))"

definition chokidar_scanner_modified_nanos :: "file_system \<Rightarrow> bytes \<Rightarrow> int \<Rightarrow> stat_cache \<Rightarrow> 64 word \<times> stat_cache" where
  "chokidar_scanner_modified_nanos fs path follow_symlink c =
     (case chokidar_do_stat fs (cstr path) follow_symlink c of (status, c) \<Rightarrow>
        if status \<noteq> 0 then (0, c)
        else (sb_mtim_sec (sc_stat c) * 1000000000 + sb_mtim_nsec (sc_stat c), c\<lparr>sc_valid := False\<rparr>))"

definition chokidar_scanner_stat_valid :: "file_system \<Rightarrow> bytes \<Rightarrow> int \<Rightarrow> stat_cache \<Rightarrow> int \<times> stat_cache" where
  "chokidar_scanner_stat_valid fs path follow_symlink c =
     (case chokidar_do_stat fs (cstr path) follow_symlink c of (status, c) \<Rightarrow> (if status = 0 then 1 else 0, c))"

definition chokidar_scanner_stat_size :: "file_system \<Rightarrow> bytes \<Rightarrow> int \<Rightarrow> stat_cache \<Rightarrow> 64 word \<times> stat_cache" where
  "chokidar_scanner_stat_size fs path follow_symlink c =
     (case chokidar_do_stat fs (cstr path) follow_symlink c of (status, c) \<Rightarrow>
        if status \<noteq> 0 then (0, c) else (sb_size (sc_stat c), c))"

definition chokidar_scanner_stat_mode :: "file_system \<Rightarrow> bytes \<Rightarrow> int \<Rightarrow> stat_cache \<Rightarrow> 32 word \<times> stat_cache" where
  "chokidar_scanner_stat_mode fs path follow_symlink c =
     (case chokidar_do_stat fs (cstr path) follow_symlink c of (status, c) \<Rightarrow>
        if status \<noteq> 0 then (0, c) else (sb_mode (sc_stat c), c))"

text \<open>The cache when no stat is kept; every use below starts and ends without one.\<close>

definition no_stat :: stat_cache where
  "no_stat = \<lparr>sc_stat = \<lparr>sb_size = 0, sb_mode = 0, sb_mtim_sec = 0, sb_mtim_nsec = 0\<rparr>,
     sc_path = [], sc_follow = 0, sc_valid = False\<rparr>"

definition follow_flag :: "bool \<Rightarrow> int" where
  "follow_flag follow_symlink = (if follow_symlink then 1 else 0)"

definition modified_nanos_for :: "file_system \<Rightarrow> mstring \<Rightarrow> bool \<Rightarrow> (64 word) run" where
  "modified_nanos_for fs path follow_symlink = do {
     p \<leftarrow> scanner_string_to_utf8_bytes path;
     Some (fst (chokidar_scanner_modified_nanos fs p (follow_flag follow_symlink) no_stat))
   }"

text \<open>One stat serves the four calls; the last of them gives it up.\<close>

definition stat_for_path_from :: "stat_cache \<Rightarrow> file_system \<Rightarrow> mstring \<Rightarrow> bool \<Rightarrow> (file_stats option \<times> stat_cache) run" where
  "stat_for_path_from c fs path follow_symlink = do {
     let follow = follow_flag follow_symlink;
     p \<leftarrow> scanner_string_to_utf8_bytes path;
     let (ok, c) = chokidar_scanner_stat_valid fs p follow c;
     if ok = 0 then Some (None, c)
     else
       let (size, c) = chokidar_scanner_stat_size fs p follow c;
           (mode, c) = chokidar_scanner_stat_mode fs p follow c;
           (nanos, c) = chokidar_scanner_modified_nanos fs p follow c
       in Some (Some \<lparr>st_size = size, st_mode = mode, st_modified_nanos = nanos\<rparr>, c)
   }"

definition stat_for_path :: "file_system \<Rightarrow> mstring \<Rightarrow> bool \<Rightarrow> file_stats option run" where
  "stat_for_path fs path follow_symlink = map_option fst (stat_for_path_from no_stat fs path follow_symlink)"

subsection \<open>The scan\<close>

definition stats_from_readdirp :: "file_system \<Rightarrow> entry_info \<Rightarrow> bool \<Rightarrow> file_stats option run" where
  "stats_from_readdirp fs entry follow_symlink =
     (case en_stats entry of
        None \<Rightarrow> Some None
      | Some v \<Rightarrow> do {
          nanos \<leftarrow> modified_nanos_for fs (en_full_path entry) follow_symlink;
          Some (Some \<lparr>st_size = rs_size v, st_mode = rs_mode v, st_modified_nanos = nanos\<rparr>)
        })"

definition file_kind_from_readdirp :: "rd_file_kind \<Rightarrow> file_kind" where
  "file_kind_from_readdirp kind =
     (case kind of RdFile \<Rightarrow> File | RdDirectory \<Rightarrow> Directory | RdSymlink \<Rightarrow> Symlink | RdOther \<Rightarrow> OtherKind)"

definition scan_file_filter :: "file_system \<Rightarrow> mstring \<Rightarrow> watch_options \<Rightarrow> entry_info \<Rightarrow> bool run" where
  "scan_file_filter fs root options entry = do {
     stats \<leftarrow> stats_from_readdirp fs entry (wo_follow_symlinks options);
     let readable = (if wo_ignore_permission_errors options then True
       else case stats of None \<Rightarrow> True | Some s \<Rightarrow> and (st_mode s) 0x100 \<noteq> 0);
     full \<leftarrow> join_path root (en_path entry);
     matched_path \<leftarrow> event_path_for full (wo_cwd options);
     if readable then do { b \<leftarrow> is_ignored matched_path stats (wo_ignored options); Some (\<not> b) }
     else Some False
   }"

definition scan_directory_filter :: "file_system \<Rightarrow> mstring \<Rightarrow> watch_options \<Rightarrow> entry_info \<Rightarrow> bool run" where
  "scan_directory_filter fs root options entry = do {
     full \<leftarrow> join_path root (en_path entry);
     matched_path \<leftarrow> event_path_for full (wo_cwd options);
     stats \<leftarrow> stats_from_readdirp fs entry (wo_follow_symlinks options);
     b \<leftarrow> is_ignored matched_path stats (wo_ignored options);
     Some (\<not> b)
   }"

fun warnings_to_error :: "rd_warning list \<Rightarrow> watch_options \<Rightarrow> mstring option" where
  "warnings_to_error [] options = None"
| "warnings_to_error (w # ws) options =
     (if wn_kind w \<noteq> RecursiveSymlink \<and>
         \<not> (wo_ignore_permission_errors options \<and> wn_kind w = PermissionDenied)
      then Some (str ''scan warning for '' @ wn_path w @ str '': '' @ wn_message w)
      else warnings_to_error ws options)"

fun snapshot_of :: "file_system \<Rightarrow> watch_options \<Rightarrow> entry_info list \<Rightarrow> snapshot_entry list run" where
  "snapshot_of fs options [] = Some []"
| "snapshot_of fs options (e # es) = do {
     stats \<leftarrow> stats_from_readdirp fs e (wo_follow_symlinks options);
     rest \<leftarrow> snapshot_of fs options es;
     Some (\<lparr>se_path = en_path e, se_kind = file_kind_from_readdirp (en_kind e), se_stats = stats\<rparr> # rest)
   }"

definition scan_options :: "file_system \<Rightarrow> mstring \<Rightarrow> watch_options \<Rightarrow> rd_options" where
  "scan_options fs root options =
     \<lparr>ro_file_filter = scan_file_filter fs root options,
      ro_directory_filter = scan_directory_filter fs root options,
      ro_type = FilesAndDirectories, ro_lstat = (\<not> wo_follow_symlinks options), ro_always_stat = True,
      ro_depth = wo_depth options\<rparr>"

text \<open>A raised \<open>ChokidarError\<close> is its message.\<close>

definition scan_snapshot :: "file_system \<Rightarrow> mstring \<Rightarrow> watch_options \<Rightarrow> (mstring + snapshot_entry list) run" where
  "scan_snapshot fs root options = do {
     (r, _) \<leftarrow> readdirp_report fs root (scan_options fs root options) \<lparr>rn_errno = 0, rn_size = 0, rn_mode = 0\<rparr>;
     case r of
       Inl message \<Rightarrow> Some (Inl message)
     | Inr rp \<Rightarrow>
         (case warnings_to_error (rp_warnings rp) options of
            Some error \<Rightarrow> Some (Inl error)
          | None \<Rightarrow> do { snapshot \<leftarrow> snapshot_of fs options (rp_entries rp); Some (Inr (sort_by entry_order snapshot)) })
   }"

end
