(* ===== verification/Chokidar_State.thy ===== *)
theory Chokidar_State
  imports Chokidar_Snapshot
begin

text \<open>
  The state of a watcher (\<open>chokidar/state.mbt\<close>): the watched directories, the roots with their last
  snapshots, the removals held back to recognise an atomic write, the writes waiting to be stable,
  and the changes already reported in a cycle. The clock is a parameter, read each time the code
  reads it: it takes the state of the world and gives the milliseconds and the world after it.
\<close>

subsection \<open>Data\<close>

record dir_entry =
  de_path :: mstring
  de_children :: "mstring list"

record pending_timed_event =
  pt_event :: event
  pt_created_at :: "64 word"

record pending_write =
  pw_event :: event
  pw_stats :: file_stats
  pw_stable_since :: "64 word"
  pw_last_checked :: "64 word"

record watch_state =
  ws_options :: watch_options
  ws_dirs :: "dir_entry list"
  ws_root_paths :: "mstring list"
  ws_snapshots :: "mstring \<rightharpoonup> snapshot_entry list"
  ws_handles :: "int list"
  ws_pending_events :: "event list"
  ws_pending_unlinks :: "pending_timed_event list"
  ws_pending_writes :: "pending_write list"
  ws_throttled_changes :: "mstring list"
  ws_closed :: bool
  ws_ready :: bool

definition new_watch_state :: "watch_options \<Rightarrow> watch_state" where
  "new_watch_state options =
     \<lparr>ws_options = options, ws_dirs = [], ws_root_paths = [], ws_snapshots = Map.empty, ws_handles = [],
      ws_pending_events = [], ws_pending_unlinks = [], ws_pending_writes = [], ws_throttled_changes = [],
      ws_closed = False, ws_ready = False\<rparr>"

text \<open>The first index of an element, as the loops over the arrays find it.\<close>

fun first_index :: "('a \<Rightarrow> bool) \<Rightarrow> 'a list \<Rightarrow> nat option" where
  "first_index P [] = None"
| "first_index P (x # xs) = (if P x then Some 0 else map_option Suc (first_index P xs))"

definition array_remove :: "nat \<Rightarrow> 'a list \<Rightarrow> 'a list" where
  "array_remove i xs = take i xs @ drop (Suc i) xs"

subsection \<open>The watched directories\<close>

text \<open>Strings are compared by length first; the sort is the one of \<open>Sort_By\<close>, compiled for strings.\<close>

fun compare_units :: "mstring \<Rightarrow> mstring \<Rightarrow> int" where
  "compare_units (a # self) (b # other) =
     (let order = of_bool (b \<le> a) - of_bool (a \<le> b) in if order \<noteq> 0 then order else compare_units self other)"
| "compare_units _ _ = 0"

definition string_compare :: "mstring \<Rightarrow> mstring \<Rightarrow> int" where
  "string_compare self other =
     (let order = of_bool (length other \<le> length self) - of_bool (length self \<le> length other)
      in if order = 0 then compare_units self other else order)"

definition string_array_sort :: "mstring list \<Rightarrow> mstring list" where
  "string_array_sort arr = sort_by string_compare arr"

definition dir_index :: "watch_state \<Rightarrow> mstring \<Rightarrow> nat option" where
  "dir_index self dir = first_index (\<lambda>entry. de_path entry = dir) (ws_dirs self)"

definition ensure_dir :: "mstring \<Rightarrow> watch_state \<Rightarrow> nat \<times> watch_state" where
  "ensure_dir dir self =
     (case dir_index self dir of
        Some index \<Rightarrow> (index, self)
      | None \<Rightarrow>
          let self = self\<lparr>ws_dirs := ws_dirs self @ [\<lparr>de_path = dir, de_children = []\<rparr>]\<rparr>
          in (length (ws_dirs self) - 1, self))"

definition add_child :: "mstring \<Rightarrow> mstring \<Rightarrow> watch_state \<Rightarrow> watch_state" where
  "add_child dir child self =
     (case ensure_dir dir self of (index, self) \<Rightarrow>
        let entry = ws_dirs self ! index in
        if child \<notin> set (de_children entry)
        then self\<lparr>ws_dirs := (ws_dirs self)[index := entry\<lparr>de_children := string_array_sort (de_children entry @ [child])\<rparr>]\<rparr>
        else self)"

definition remove_child :: "mstring \<Rightarrow> mstring \<Rightarrow> watch_state \<Rightarrow> watch_state" where
  "remove_child dir child self =
     (case dir_index self dir of
        Some index \<Rightarrow>
          let entry = ws_dirs self ! index;
              entry = entry\<lparr>de_children := filter (\<lambda>item. item \<noteq> child) (de_children entry)\<rparr>;
              self = self\<lparr>ws_dirs := (ws_dirs self)[index := entry]\<rparr>
          in if de_children entry = [] then self\<lparr>ws_dirs := array_remove index (ws_dirs self)\<rparr> else self
      | None \<Rightarrow> self)"

definition remember_root :: "mstring \<Rightarrow> watch_state \<Rightarrow> watch_state" where
  "remember_root root self =
     (if root \<notin> set (ws_root_paths self) then self\<lparr>ws_root_paths := ws_root_paths self @ [root]\<rparr> else self)"

definition set_snapshot :: "mstring \<Rightarrow> snapshot_entry list \<Rightarrow> watch_state \<Rightarrow> watch_state" where
  "set_snapshot root entries self = self\<lparr>ws_snapshots := (ws_snapshots self)(root \<mapsto> entries)\<rparr>"

definition snapshot_for :: "watch_state \<Rightarrow> mstring \<Rightarrow> snapshot_entry list" where
  "snapshot_for self root = (case ws_snapshots self root of Some entries \<Rightarrow> entries | None \<Rightarrow> [])"

definition watch_state_clear :: "watch_state \<Rightarrow> watch_state" where
  "watch_state_clear self =
     self\<lparr>ws_dirs := [], ws_root_paths := [], ws_snapshots := Map.empty, ws_handles := [], ws_pending_events := [],
       ws_pending_unlinks := [], ws_pending_writes := [], ws_throttled_changes := []\<rparr>"

subsection \<open>Time\<close>

type_synonym 'w clock = "'w \<Rightarrow> 64 word \<times> 'w"

definition millis_to_uint64 :: "32 word \<Rightarrow> 64 word" where
  "millis_to_uint64 millis = (if millis \<le>s 0 then 0 else ucast millis)"

definition atomic_window_millis :: "atomic_option \<Rightarrow> 32 word" where
  "atomic_window_millis opt = (case opt of AtomicOff \<Rightarrow> 0 | AtomicDefault \<Rightarrow> 100 | AtomicWindow window \<Rightarrow> window)"

definition await_write_threshold_millis :: "await_write_finish \<Rightarrow> 32 word" where
  "await_write_threshold_millis opt =
     (case opt of AwaitWriteFinishOff \<Rightarrow> 0 | AwaitWriteFinishOn config \<Rightarrow> aw_stability_threshold config)"

definition timestamp_expired :: "'w clock \<Rightarrow> 64 word \<Rightarrow> 32 word \<Rightarrow> 'w \<Rightarrow> bool \<times> 'w" where
  "timestamp_expired clock started_at window_millis w =
     (case clock w of (now, w) \<Rightarrow> (started_at + millis_to_uint64 window_millis \<le> now, w))"

subsection \<open>Atomic writes\<close>

definition pending_unlink_index :: "watch_state \<Rightarrow> mstring \<Rightarrow> nat option" where
  "pending_unlink_index self path = first_index (\<lambda>pending. ev_path (pt_event pending) = path) (ws_pending_unlinks self)"

definition normalize_atomic ::
    "'w clock \<Rightarrow> event \<Rightarrow> watch_state \<times> 'w \<Rightarrow> (event list \<times> watch_state \<times> 'w) run" where
  "normalize_atomic clock event s =
     (case s of (self, w) \<Rightarrow>
        if wo_atomic (ws_options self) = AtomicOff then Some ([event], self, w)
        else if ev_name event = Unlink then do {
          swap_file \<leftarrow> is_dot_swap_file (ev_path event);
          if swap_file then Some ([], self, w)
          else
            let (now, w) = clock w
            in Some ([], self\<lparr>ws_pending_unlinks :=
                 ws_pending_unlinks self @ [\<lparr>pt_event = event, pt_created_at = now\<rparr>]\<rparr>, w)
        }
        else if ev_name event = Add then
          (case pending_unlink_index self (ev_path event) of
             None \<Rightarrow> Some ([event], self, w)
           | Some index \<Rightarrow>
               let pending = ws_pending_unlinks self ! index;
                   self = self\<lparr>ws_pending_unlinks := array_remove index (ws_pending_unlinks self)\<rparr>;
                   (expired, w) = timestamp_expired clock (pt_created_at pending)
                     (atomic_window_millis (wo_atomic (ws_options self))) w
               in if expired then Some ([pt_event pending, event], self, w)
                  else Some ([event\<lparr>ev_name := Change\<rparr>], self, w))
        else Some ([event], self, w))"

text \<open>
  The loop of the two flushes: an element whose time is over is taken out of the array and its event
  is pushed; the index moves only past the others.
\<close>

function flush_loop ::
    "'w clock \<Rightarrow> ('a \<Rightarrow> 64 word) \<Rightarrow> ('a \<Rightarrow> event) \<Rightarrow> 32 word \<Rightarrow> nat \<Rightarrow> 'a list \<Rightarrow> event list \<Rightarrow> 'w \<Rightarrow> event list \<times> 'a list \<times> 'w" where
  "flush_loop clock since event_of window index pendings events w =
     (if index < length pendings then
        let pending = pendings ! index; (expired, w) = timestamp_expired clock (since pending) window w
        in if expired
           then flush_loop clock since event_of window index (array_remove index pendings) (events @ [event_of pending]) w
           else flush_loop clock since event_of window (index + 1) pendings events w
      else (events, pendings, w))"
  by pat_completeness auto
termination
  by (relation "measure (\<lambda>(clock, since, event_of, window, index, pendings, events, w). length pendings - index)")
    (auto simp: array_remove_def)

declare flush_loop.simps [simp del]

definition flush_expired_pending_unlinks :: "'w clock \<Rightarrow> watch_state \<times> 'w \<Rightarrow> event list \<times> watch_state \<times> 'w" where
  "flush_expired_pending_unlinks clock s =
     (case s of (self, w) \<Rightarrow>
        let window = atomic_window_millis (wo_atomic (ws_options self));
            (events, pendings, w) = flush_loop clock pt_created_at pt_event window 0 (ws_pending_unlinks self) [] w
        in (events, self\<lparr>ws_pending_unlinks := pendings\<rparr>, w))"

subsection \<open>Throttling\<close>

definition allow_event :: "event_name \<Rightarrow> mstring \<Rightarrow> watch_state \<Rightarrow> bool \<times> watch_state" where
  "allow_event name path self =
     (if name \<noteq> Change then (True, self)
      else if path \<in> set (ws_throttled_changes self) then (False, self)
      else (True, self\<lparr>ws_throttled_changes := ws_throttled_changes self @ [path]\<rparr>))"

definition clear_throttles :: "watch_state \<Rightarrow> watch_state" where
  "clear_throttles self = self\<lparr>ws_throttled_changes := []\<rparr>"

subsection \<open>Waiting for a write to finish\<close>

definition pending_write_index :: "watch_state \<Rightarrow> mstring \<Rightarrow> nat option" where
  "pending_write_index self path = first_index (\<lambda>pending. ev_path (pw_event pending) = path) (ws_pending_writes self)"

definition event_needs_write_stability :: "event \<Rightarrow> bool" where
  "event_needs_write_stability event \<longleftrightarrow> ev_name event = Add \<or> ev_name event = Change"

definition normalize_await_write ::
    "'w clock \<Rightarrow> event \<Rightarrow> watch_state \<times> 'w \<Rightarrow> event list \<times> watch_state \<times> 'w" where
  "normalize_await_write clock event s =
     (case s of (self, w) \<Rightarrow>
        case wo_await (ws_options self) of
          AwaitWriteFinishOff \<Rightarrow> ([event], self, w)
        | AwaitWriteFinishOn config \<Rightarrow>
            if \<not> event_needs_write_stability event then ([event], self, w)
            else case ev_stats event of
              None \<Rightarrow> ([], self, w)
            | Some stats \<Rightarrow>
                let (now, w) = clock w in
                case pending_write_index self (ev_path event) of
                  None \<Rightarrow>
                    ([], self\<lparr>ws_pending_writes := ws_pending_writes self @
                       [\<lparr>pw_event = event, pw_stats = stats, pw_stable_since = now, pw_last_checked = now\<rparr>]\<rparr>, w)
                | Some index \<Rightarrow>
                    let pending = ws_pending_writes self ! index;
                        (checkable, w) = timestamp_expired clock (pw_last_checked pending) (aw_poll_interval config) w
                    in if \<not> checkable then ([], self, w)
                       else
                         let pending = pending\<lparr>pw_last_checked := now, pw_event := event\<rparr>;
                             written = (\<lambda>p. self\<lparr>ws_pending_writes := (ws_pending_writes self)[index := p]\<rparr>)
                         in if pw_stats pending = stats then
                              (let (stable, w) = timestamp_expired clock (pw_stable_since pending)
                                     (await_write_threshold_millis (wo_await (ws_options self))) w
                               in if stable
                                  then ([event], self\<lparr>ws_pending_writes := array_remove index (ws_pending_writes self)\<rparr>, w)
                                  else ([], written pending, w))
                            else ([], written (pending\<lparr>pw_stats := stats, pw_stable_since := now\<rparr>), w))"

definition flush_stable_writes :: "'w clock \<Rightarrow> watch_state \<times> 'w \<Rightarrow> event list \<times> watch_state \<times> 'w" where
  "flush_stable_writes clock s =
     (case s of (self, w) \<Rightarrow>
        let threshold = await_write_threshold_millis (wo_await (ws_options self));
            (events, pendings, w) = flush_loop clock pw_stable_since pw_event threshold 0 (ws_pending_writes self) [] w
        in (events, self\<lparr>ws_pending_writes := pendings\<rparr>, w))"

subsection \<open>Indices\<close>

lemma first_index_None: "first_index P xs = None \<longleftrightarrow> (\<forall>x \<in> set xs. \<not> P x)"
  by (induction xs) auto

lemma first_index_Some: "first_index P xs = Some i \<Longrightarrow> i < length xs \<and> P (xs ! i) \<and> (\<forall>j < i. \<not> P (xs ! j))"
  by (induction xs arbitrary: i) (auto simp: less_Suc_eq_0_disj split: if_splits)

lemma first_index_append: "\<forall>x \<in> set xs. \<not> P x \<Longrightarrow> P y \<Longrightarrow> first_index P (xs @ y # ys) = Some (length xs)"
  by (induction xs) auto

lemma first_index_split:
  assumes "first_index P xs = Some i"
  obtains as bs where "xs = as @ xs ! i # bs" and "i = length as" and "P (xs ! i)"
proof -
  have "i < length xs" "P (xs ! i)" using first_index_Some [OF assms] by auto
  then show ?thesis using that [of "take i xs" "drop (Suc i) xs"] by (simp add: id_take_nth_drop)
qed

lemma array_remove_at [simp]: "array_remove (length as) (as @ x # bs) = as @ bs"
  by (simp add: array_remove_def)

subsection \<open>The watched directories\<close>

text \<open>The order of strings: by length, then by units.\<close>

abbreviation string_key :: "mstring \<Rightarrow> nat list" where
  "string_key s \<equiv> length s # map unat s"

lemma compare_units_order:
  "length s = length t \<Longrightarrow> (compare_units s t < 0 \<longleftrightarrow> map unat s < map unat t) \<and> (0 < compare_units s t \<longleftrightarrow> map unat t < map unat s)"
proof (induction s t rule: compare_units.induct)
  case (1 a s b t)
  then show ?case by (auto simp: Let_def word_le_nat_alt order_antisym)
qed auto

lemma string_compare_order:
  "string_compare s t < 0 \<longleftrightarrow> string_key s < string_key t" "0 < string_compare s t \<longleftrightarrow> string_key t < string_key s"
  using compare_units_order [of s t] by (auto simp: string_compare_def Let_def)

interpretation string_sort: comparison string_compare string_key
  by unfold_locales (rule string_compare_order)+

text \<open>
  What the directories say: the children of a directory. The array holds each directory once, none
  without children, and the children of each are sorted and without repetition.
\<close>

definition children_of :: "watch_state \<Rightarrow> mstring \<Rightarrow> mstring set" where
  "children_of self dir = {c. \<exists>e \<in> set (ws_dirs self). de_path e = dir \<and> c \<in> set (de_children e)}"

definition entry_ok :: "dir_entry \<Rightarrow> bool" where
  "entry_ok e \<longleftrightarrow> de_children e \<noteq> [] \<and> distinct (de_children e) \<and> sorted (map string_key (de_children e))"

definition dirs_ok :: "watch_state \<Rightarrow> bool" where
  "dirs_ok self \<longleftrightarrow> distinct (map de_path (ws_dirs self)) \<and> list_all entry_ok (ws_dirs self)"

lemma sort_strings: "mset (string_array_sort xs) = mset xs \<and> sorted (map string_key (string_array_sort xs))"
  unfolding string_array_sort_def by (rule string_sort.sort_by_sorts)

lemma sort_strings_set [simp]: "set (string_array_sort xs) = set xs" "distinct (string_array_sort xs) = distinct xs"
  using sort_strings [of xs] by (metis set_mset_mset, metis mset_eq_imp_distinct_iff)

lemma sort_strings_Nil [simp]: "string_array_sort xs = [] \<longleftrightarrow> xs = []"
  by (metis sort_strings_set(1) set_empty)

definition with_child :: "mstring \<Rightarrow> dir_entry \<Rightarrow> dir_entry" where
  "with_child child e =
     (if child \<notin> set (de_children e) then e\<lparr>de_children := string_array_sort (de_children e @ [child])\<rparr> else e)"

lemma with_child [simp]: "de_path (with_child c e) = de_path e" "set (de_children (with_child c e)) = insert c (set (de_children e))"
  by (auto simp: with_child_def)

lemma with_child_ok: "entry_ok e \<or> de_children e = [] \<Longrightarrow> entry_ok (with_child c e)"
  using sort_strings by (auto simp: with_child_def entry_ok_def)

lemma dirs_split:
  obtains (known) as e bs where "ws_dirs self = as @ e # bs" and "de_path e = dir" and "dir_index self dir = Some (length as)"
  | (unknown) "dir_index self dir = None" and "dir \<notin> de_path ` set (ws_dirs self)"
proof (cases "dir_index self dir")
  case None
  with unknown show ?thesis by (auto simp: dir_index_def first_index_None)
next
  case (Some i)
  then obtain as bs where "ws_dirs self = as @ ws_dirs self ! i # bs" "i = length as" "de_path (ws_dirs self ! i) = dir"
    unfolding dir_index_def by (rule first_index_split)
  with Some known show ?thesis by metis
qed

lemma add_child_known:
  "ws_dirs self = as @ e # bs \<Longrightarrow> dir_index self dir = Some (length as) \<Longrightarrow>
   add_child dir child self = self\<lparr>ws_dirs := as @ with_child child e # bs\<rparr>"
  by (auto simp: add_child_def ensure_dir_def with_child_def Let_def)

lemma add_child_unknown:
  "dir_index self dir = None \<Longrightarrow>
   add_child dir child self = self\<lparr>ws_dirs := ws_dirs self @ [with_child child \<lparr>de_path = dir, de_children = []\<rparr>]\<rparr>"
  by (simp add: add_child_def ensure_dir_def with_child_def Let_def)

lemma add_child_ok: "dirs_ok self \<Longrightarrow> dirs_ok (add_child dir child self)"
  by (cases rule: dirs_split [of self dir])
    (auto simp: add_child_known add_child_unknown dirs_ok_def with_child_ok)

lemma add_child_children:
  assumes "dirs_ok self"
  shows "children_of (add_child dir child self) = (children_of self)(dir := insert child (children_of self dir))"
proof (cases rule: dirs_split [of self dir])
  case (known as e bs)
  with assms have "dir \<notin> de_path ` set as" "dir \<notin> de_path ` set bs" by (auto simp: dirs_ok_def)
  with known show ?thesis by (auto simp: add_child_known children_of_def fun_eq_iff)
qed (auto simp: add_child_unknown children_of_def fun_eq_iff with_child_def)

lemma not_in_map: "y \<notin> f ` A \<Longrightarrow> \<forall>x \<in> A. f x \<noteq> y"
  by auto

lemma remove_child_known:
  assumes "ws_dirs self = as @ e # bs" and "dir_index self dir = Some (length as)"
  shows "remove_child dir child self =
    (let rest = filter (\<lambda>c. c \<noteq> child) (de_children e)
     in self\<lparr>ws_dirs := as @ (if rest = [] then bs else e\<lparr>de_children := rest\<rparr> # bs)\<rparr>)"
  using assms by (auto simp: remove_child_def Let_def)

lemma sorted_filter_keys: "sorted (map string_key xs) \<Longrightarrow> sorted (map string_key (filter P xs))"
  by (rule sorted_filter)

lemma remove_child_ok: "dirs_ok self \<Longrightarrow> dirs_ok (remove_child dir child self)"
  by (cases rule: dirs_split [of self dir])
    (auto simp: remove_child_known remove_child_def dirs_ok_def entry_ok_def Let_def sorted_filter_keys)

lemma remove_child_children:
  assumes "dirs_ok self"
  shows "children_of (remove_child dir child self) = (children_of self)(dir := children_of self dir - {child})"
proof (cases rule: dirs_split [of self dir])
  case (known as e bs)
  with assms have "\<forall>x \<in> set as \<union> set bs. de_path x \<noteq> dir"
    by (auto simp: dirs_ok_def dest!: not_in_map)
  moreover have "filter (\<lambda>c. c \<noteq> child) (de_children e) = [] \<longleftrightarrow> set (de_children e) \<subseteq> {child}"
    by (auto simp: filter_empty_conv)
  ultimately show ?thesis using known by (auto simp: remove_child_known children_of_def fun_eq_iff Let_def)
qed (auto simp: remove_child_def children_of_def fun_eq_iff)

end
