(* ===== verification/Chokidar_Timing.thy ===== *)
theory Chokidar_Timing
  imports Chokidar_State
begin

text \<open>
  What the watcher holds back and for how long: removals that may be the first half of an atomic
  write, and writes that may not be finished.
\<close>

subsection \<open>The flush loop\<close>

text \<open>Its result over the elements that are left, without indices.\<close>

fun flush_rest :: "'w clock \<Rightarrow> ('a \<Rightarrow> 64 word) \<Rightarrow> 32 word \<Rightarrow> 'a list \<Rightarrow> 'w \<Rightarrow> 'a list \<times> 'a list \<times> 'w" where
  "flush_rest clock since window [] w = ([], [], w)"
| "flush_rest clock since window (p # ps) w =
     (case timestamp_expired clock (since p) window w of (expired, w) \<Rightarrow>
      case flush_rest clock since window ps w of (over, kept, w) \<Rightarrow>
        if expired then (p # over, kept, w) else (over, p # kept, w))"

lemma flush_loop_rest:
  "flush_loop clock since event_of window (length before) (before @ ps) events w =
     (case flush_rest clock since window ps w of (over, kept, w) \<Rightarrow> (events @ map event_of over, before @ kept, w))"
proof (induction ps arbitrary: before events w)
  case Nil
  show ?case by (subst flush_loop.simps) simp
next
  case (Cons p ps)
  show ?case
    using Cons.IH [of before "events @ [event_of p]"] Cons.IH [of "before @ [p]" events]
    by (subst flush_loop.simps) (auto simp: Let_def split: prod.splits)
qed

lemma flush_loop_all:
  "flush_loop clock since event_of window 0 ps [] w =
     (case flush_rest clock since window ps w of (over, kept, w) \<Rightarrow> (map event_of over, kept, w))"
  using flush_loop_rest [of clock since event_of window "[]" ps "[]" w] by simp

text \<open>A time is over at a reading of the clock.\<close>

definition over_at :: "64 word \<Rightarrow> 32 word \<Rightarrow> 64 word \<Rightarrow> bool" where
  "over_at now window since \<longleftrightarrow> since + millis_to_uint64 window \<le> now"

lemma over_at_mono: "over_at t window since \<Longrightarrow> t \<le> t' \<Longrightarrow> over_at t' window since"
  unfolding over_at_def by (rule order_trans)

lemma millis_bound: "unat (millis_to_uint64 m) < 2 ^ 31"
proof (cases "m \<le>s 0")
  case False
  then have "0 < sint m" by (simp add: word_sle_eq)
  moreover have "sint m < 2 ^ 31" using sint_lt [of m] by simp
  ultimately have "uint m < 2 ^ 31" using uint_sint [of m] by (simp add: take_bit_int_eq_self)
  then have "unat m < 2 ^ 31" by (metis nat_less_numeral_power_cancel_iff unat_eq_nat_uint)
  then have "take_bit 64 (unat m) < 2 ^ 31" by (rule le_less_trans [OF take_bit_nat_less_eq_self])
  then show ?thesis using False by (simp add: millis_to_uint64_def unsigned_ucast_eq)
qed (simp add: millis_to_uint64_def)

text \<open>Away from the end of the range the sum does not wrap: the time is over as in the naturals.\<close>

lemma over_at_nat:
  assumes "unat since + 2 ^ 31 < 2 ^ 64"
  shows "over_at now window since \<longleftrightarrow> unat since + unat (millis_to_uint64 window) \<le> unat now"
proof -
  have "unat since + unat (millis_to_uint64 window) < 2 ^ LENGTH(64)" using assms millis_bound [of window] by simp
  then show ?thesis by (simp add: over_at_def word_le_nat_alt unat_word_ariths)
qed

text \<open>A clock that reads between two times as long as the world stays among some states.\<close>

definition reads_between :: "'w clock \<Rightarrow> 64 word \<Rightarrow> 64 word \<Rightarrow> 'w set \<Rightarrow> bool" where
  "reads_between clock t0 t1 R \<longleftrightarrow> (\<forall>w \<in> R. t0 \<le> fst (clock w) \<and> fst (clock w) \<le> t1 \<and> snd (clock w) \<in> R)"

lemma expired_between:
  assumes "reads_between clock t0 t1 R" and "w \<in> R" and "timestamp_expired clock since window w = (b, w')"
  shows "w' \<in> R" and "b \<Longrightarrow> over_at t1 window since" and "over_at t0 window since \<Longrightarrow> b"
  using assms over_at_mono
  by (auto simp: reads_between_def timestamp_expired_def over_at_def split: prod.splits)

lemma flush_rest_between:
  assumes "reads_between clock t0 t1 R" and "w \<in> R" and "flush_rest clock since window ps w = (over, kept, w')"
  shows "w' \<in> R \<and> mset ps = mset over + mset kept \<and> list_all (over_at t1 window \<circ> since) over \<and>
    list_all (\<lambda>p. \<not> over_at t0 window (since p)) kept"
  using assms(2,3)
proof (induction ps arbitrary: w w' over kept)
  case (Cons p ps)
  obtain b w1 where b: "timestamp_expired clock (since p) window w = (b, w1)" by fastforce
  obtain o1 k1 w2 where r: "flush_rest clock since window ps w1 = (o1, k1, w2)" by (metis prod_cases3)
  note e = expired_between [OF assms(1) Cons.prems(1) b]
  show ?case using Cons.IH [OF e(1) r] Cons.prems(2) b r e(2,3) by (auto split: if_splits)
qed simp

lemma flush_loop_between:
  assumes "reads_between clock t0 t1 R" and "w \<in> R" and "flush_loop clock since event_of window 0 ps [] w = (events, kept, w')"
  shows "w' \<in> R" and "mset (map event_of ps) = mset events + mset (map event_of kept)"
    and "e \<in> set events \<Longrightarrow> \<exists>p \<in> set ps. event_of p = e \<and> over_at t1 window (since p)"
    and "p \<in> set kept \<Longrightarrow> \<not> over_at t0 window (since p)"
proof -
  obtain over kept' w2 where r: "flush_rest clock since window ps w = (over, kept', w2)" by (metis prod_cases3)
  then have s: "events = map event_of over" "kept' = kept" "w' = w2" using assms(3) by (auto simp: flush_loop_all)
  note f = flush_rest_between [OF assms(1,2) r]
  show "w' \<in> R" "mset (map event_of ps) = mset events + mset (map event_of kept)" using f s by simp_all
  have "set over \<subseteq> set ps" using f by (metis mset_subset_eq_add_left set_mset_mono set_mset_mset)
  then show "e \<in> set events \<Longrightarrow> \<exists>p \<in> set ps. event_of p = e \<and> over_at t1 window (since p)"
    using f s by (auto simp: list_all_iff)
  show "p \<in> set kept \<Longrightarrow> \<not> over_at t0 window (since p)" using f s by (simp add: list_all_iff)
qed

lemma flush_rest_subseq: "flush_rest clock since window ps w = (over, kept, w') \<Longrightarrow> subseq kept ps"
  by (induction ps arbitrary: w over kept w') (auto split: prod.splits if_splits)

text \<open>The two windows, and what the two flushes do.\<close>

abbreviation unlink_window :: "watch_state \<Rightarrow> 32 word" where
  "unlink_window self \<equiv> atomic_window_millis (wo_atomic (ws_options self))"

abbreviation write_threshold :: "watch_state \<Rightarrow> 32 word" where
  "write_threshold self \<equiv> await_write_threshold_millis (wo_await (ws_options self))"

lemma flush_unlinks_loop:
  assumes "flush_expired_pending_unlinks clock (self, w) = (events, self', w')"
  shows "flush_loop clock pt_created_at pt_event (unlink_window self) 0 (ws_pending_unlinks self) [] w =
      (events, ws_pending_unlinks self', w')" and "self' = self\<lparr>ws_pending_unlinks := ws_pending_unlinks self'\<rparr>"
  using assms by (auto simp: flush_expired_pending_unlinks_def split: prod.splits)

lemma flush_writes_loop:
  assumes "flush_stable_writes clock (self, w) = (events, self', w')"
  shows "flush_loop clock pw_stable_since pw_event (write_threshold self) 0 (ws_pending_writes self) [] w =
      (events, ws_pending_writes self', w')" and "self' = self\<lparr>ws_pending_writes := ws_pending_writes self'\<rparr>"
  using assms by (auto simp: flush_stable_writes_def split: prod.splits)

lemmas flush_unlinks_between = flush_loop_between [OF _ _ flush_unlinks_loop(1)]
lemmas flush_writes_between = flush_loop_between [OF _ _ flush_writes_loop(1)]

subsection \<open>Atomic writes\<close>

lemma unlink_held_back:
  assumes "wo_atomic (ws_options self) \<noteq> AtomicOff" and "is_dot_swap_file (ev_path u) = Some False" and "ev_name u = Unlink"
    and "clock w = (t, w')"
  shows "normalize_atomic clock u (self, w) =
    Some ([], self\<lparr>ws_pending_unlinks := ws_pending_unlinks self @ [\<lparr>pt_event = u, pt_created_at = t\<rparr>]\<rparr>, w')"
  using assms by (simp add: normalize_atomic_def)

lemma add_after_unlink:
  assumes "wo_atomic (ws_options self) \<noteq> AtomicOff" and "ev_name a = Add" and "ev_path u = ev_path a"
    and "pending_unlink_index self (ev_path a) = None" and "clock w = (t2, w')"
  shows "normalize_atomic clock a
      (self\<lparr>ws_pending_unlinks := ws_pending_unlinks self @ [\<lparr>pt_event = u, pt_created_at = t1\<rparr>]\<rparr>, w) =
    Some (if over_at t2 (atomic_window_millis (wo_atomic (ws_options self))) t1 then [u, a] else [a\<lparr>ev_name := Change\<rparr>], self, w')"
proof -
  let ?p = "\<lparr>pt_event = u, pt_created_at = t1\<rparr>"
  have "first_index (\<lambda>p. ev_path (pt_event p) = ev_path a) (ws_pending_unlinks self @ [?p]) = Some (length (ws_pending_unlinks self))"
    using assms(3,4) by (intro first_index_append) (auto simp: pending_unlink_index_def first_index_None)
  then show ?thesis
    using assms by (simp add: normalize_atomic_def pending_unlink_index_def timestamp_expired_def over_at_def)
qed

subsection \<open>Writes that are not finished\<close>

text \<open>A write that waits keeps the event that was last looked at, with its numbers; a path waits once.\<close>

definition write_ok :: "pending_write \<Rightarrow> bool" where
  "write_ok p \<longleftrightarrow> ev_stats (pw_event p) = Some (pw_stats p) \<and> event_needs_write_stability (pw_event p)"

abbreviation write_path :: "pending_write \<Rightarrow> mstring" where
  "write_path p \<equiv> ev_path (pw_event p)"

definition writes_ok :: "watch_state \<Rightarrow> bool" where
  "writes_ok self \<longleftrightarrow> distinct (map write_path (ws_pending_writes self)) \<and> list_all write_ok (ws_pending_writes self)"

lemma writes_split:
  obtains (waits) as p bs where "ws_pending_writes self = as @ p # bs" and "write_path p = path"
      and "pending_write_index self path = Some (length as)"
  | (new) "pending_write_index self path = None" and "\<forall>p \<in> set (ws_pending_writes self). write_path p \<noteq> path"
proof (cases "pending_write_index self path")
  case None
  with new show ?thesis by (simp add: pending_write_index_def first_index_None)
next
  case (Some i)
  then obtain as bs where "ws_pending_writes self = as @ ws_pending_writes self ! i # bs" "i = length as"
      "write_path (ws_pending_writes self ! i) = path"
    unfolding pending_write_index_def by (rule first_index_split)
  with Some waits show ?thesis by metis
qed

lemma normalize_await_off:
  "wo_await (ws_options self) = AwaitWriteFinishOff \<or> \<not> event_needs_write_stability e \<Longrightarrow>
   normalize_await_write clock e (self, w) = ([e], self, w)"
  by (auto simp: normalize_await_write_def split: await_write_finish.split)

text \<open>A write looked at for the first time waits.\<close>

lemma normalize_await_new:
  assumes "wo_await (ws_options self) = AwaitWriteFinishOn config" and "event_needs_write_stability e"
    and "ev_stats e = Some s" and "pending_write_index self (ev_path e) = None" and "clock w = (now, w')"
  shows "normalize_await_write clock e (self, w) =
    ([], self\<lparr>ws_pending_writes := ws_pending_writes self @
       [\<lparr>pw_event = e, pw_stats = s, pw_stable_since = now, pw_last_checked = now\<rparr>]\<rparr>, w')"
  using assms by (simp add: normalize_await_write_def)

text \<open>A write that waits already, by what the clock says.\<close>

lemma normalize_await_waiting:
  assumes "wo_await (ws_options self) = AwaitWriteFinishOn config" and "event_needs_write_stability e"
    and "ev_stats e = Some s" and "pending_write_index self (ev_path e) = Some (length as)"
    and "ws_pending_writes self = as @ p # bs"
    and "clock w = (now, w1)" and "timestamp_expired clock (pw_last_checked p) (aw_poll_interval config) w1 = (b, w2)"
    and "timestamp_expired clock (pw_stable_since p) (aw_stability_threshold config) w2 = (calm, w3)"
  shows "normalize_await_write clock e (self, w) =
    (if \<not> b then ([], self, w2)
     else if pw_stats p = s then
       (if calm then ([e], self\<lparr>ws_pending_writes := as @ bs\<rparr>, w3)
        else ([], self\<lparr>ws_pending_writes := as @ p\<lparr>pw_last_checked := now, pw_event := e\<rparr> # bs\<rparr>, w3))
     else ([], self\<lparr>ws_pending_writes := as @
       p\<lparr>pw_last_checked := now, pw_event := e, pw_stats := s, pw_stable_since := now\<rparr> # bs\<rparr>, w2))"
  using assms by (auto simp: normalize_await_write_def Let_def await_write_threshold_millis_def)

lemma normalize_await_step:
  assumes "writes_ok self" and "reads_between clock t0 t1 R" and "w \<in> R"
    and "normalize_await_write clock e (self, w) = (es, self', w')"
  shows "writes_ok self' \<and> self' = self\<lparr>ws_pending_writes := ws_pending_writes self'\<rparr> \<and> w' \<in> R \<and>
    (if wo_await (ws_options self) = AwaitWriteFinishOff \<or> \<not> event_needs_write_stability e then es = [e]
     else es = [] \<or> es = [e] \<and> (\<exists>p \<in> set (ws_pending_writes self). write_path p = ev_path e \<and>
       ev_stats e = Some (pw_stats p) \<and> over_at t1 (write_threshold self) (pw_stable_since p)))"
proof (cases "wo_await (ws_options self)")
  case (AwaitWriteFinishOn config)
  show ?thesis
  proof (cases "event_needs_write_stability e \<and> ev_stats e \<noteq> None")
    case False
    then show ?thesis
      using assms AwaitWriteFinishOn by (auto simp: normalize_await_write_def split: if_splits)
  next
    case True
    then obtain s where e: "event_needs_write_stability e" "ev_stats e = Some s" by auto
    obtain now w1 where now: "clock w = (now, w1)" by fastforce
    then have w1: "w1 \<in> R" using assms(2,3) by (auto simp: reads_between_def)
    show ?thesis
    proof (cases rule: writes_split [of self "ev_path e"])
      case new
      from normalize_await_new [where clock = clock, OF AwaitWriteFinishOn e new(1) now] assms new(2) e w1 AwaitWriteFinishOn show ?thesis
        by (auto simp: writes_ok_def write_ok_def)
    next
      case (waits as p bs)
      obtain b w2 where b: "timestamp_expired clock (pw_last_checked p) (aw_poll_interval config) w1 = (b, w2)" by fastforce
      obtain calm w3 where st: "timestamp_expired clock (pw_stable_since p) (aw_stability_threshold config) w2 = (calm, w3)"
        by fastforce
      note w2 = expired_between [OF assms(2) w1 b]
      note w3 = expired_between [OF assms(2) w2(1) st]
      show ?thesis
        using normalize_await_waiting [where clock = clock, OF AwaitWriteFinishOn e waits(3,1) now b st] assms(1,4) waits e
          AwaitWriteFinishOn w2(1) w3(1,2)
        by (auto simp: writes_ok_def write_ok_def await_write_threshold_millis_def split: if_splits)
    qed
  qed
qed (use assms in \<open>auto simp: normalize_await_off\<close>)

lemma flush_writes_ok:
  assumes "writes_ok self" and "flush_stable_writes clock (self, w) = (events, self', w')"
  shows "writes_ok self'"
proof -
  obtain over kept w2 where r: "flush_rest clock pw_stable_since (write_threshold self) (ws_pending_writes self) w = (over, kept, w2)"
    by (metis prod_cases3)
  then have "ws_pending_writes self' = kept" using flush_writes_loop(1) [OF assms(2)] by (simp add: flush_loop_all)
  moreover obtain N where "kept = nths (ws_pending_writes self) N"
    using flush_rest_subseq [OF r] by (auto simp: subseq_conv_nths)
  ultimately show ?thesis
    using assms(1) by (auto simp: writes_ok_def list_all_iff nths_map [symmetric] dest: in_set_nthsD)
qed

subsection \<open>Samples\<close>

text \<open>A clock that stands still: the world is the time.\<close>

definition still_clock :: "(64 word) clock" where
  "still_clock w = (w, w)"

definition sample_event :: "event_name \<Rightarrow> string \<Rightarrow> 64 word \<Rightarrow> event" where
  "sample_event name path n =
     \<lparr>ev_name = name, ev_path = str path,
      ev_stats = (if name = Unlink then None else Some \<lparr>st_size = n, st_mode = 0x81A4, st_modified_nanos = n\<rparr>),
      ev_raw = None, ev_error = None\<rparr>"

text \<open>A watcher that waits until a write has been unchanged for the threshold.\<close>

definition waiting_state :: "32 word \<Rightarrow> 32 word \<Rightarrow> watch_state" where
  "waiting_state threshold poll = new_watch_state (default_watch_options
     \<lparr>wo_await := AwaitWriteFinishOn \<lparr>aw_stability_threshold = threshold, aw_poll_interval = poll\<rparr>\<rparr>)"

definition at_times :: "(64 word \<times> event) list \<Rightarrow> watch_state \<Rightarrow> event list \<times> watch_state" where
  "at_times es self = foldl (\<lambda>(out, self) (t, e).
     case normalize_await_write still_clock e (self, t) of (es, self, _) \<Rightarrow> (out @ es, self)) ([], self) es"

definition flushed_at :: "64 word \<Rightarrow> watch_state \<Rightarrow> event list" where
  "flushed_at t self = fst (flush_stable_writes still_clock (self, t))"

text \<open>
  Three ways in which what is reported is not what happened. A change seen within the polling interval
  is dropped, and the write is then reported with numbers it no longer has.
\<close>

lemma stale_write_reported:
  "fst (at_times [(0, sample_event Add ''a'' 1), (50, sample_event Change ''a'' 2)] (waiting_state 100 100)) = []"
  "flushed_at 100 (snd (at_times [(0, sample_event Add ''a'' 1), (50, sample_event Change ''a'' 2)] (waiting_state 100 100))) =
     [sample_event Add ''a'' 1]"
  by code_simp+

text \<open>A removal does not stop a write that waits: the removed file is reported as added later.\<close>

lemma removed_file_added:
  "fst (at_times [(0, sample_event Add ''a'' 1), (50, sample_event Unlink ''a'' 0)] (waiting_state 100 10)) =
     [sample_event Unlink ''a'' 0]"
  "flushed_at 100 (snd (at_times [(0, sample_event Add ''a'' 1), (50, sample_event Unlink ''a'' 0)] (waiting_state 100 10))) =
     [sample_event Add ''a'' 1]"
  by code_simp+

text \<open>A new file that is written again is reported as changed, never as added.\<close>

lemma added_file_changed:
  "flushed_at 200 (snd (at_times [(0, sample_event Add ''a'' 1), (50, sample_event Change ''a'' 2)] (waiting_state 100 10))) =
     [sample_event Change ''a'' 2]"
  by code_simp

text \<open>A file that becomes a directory: the directory is reported first, then the removal.\<close>

lemma directory_before_removal:
  "normalize_atomic still_clock (sample_event Unlink ''a'' 0) (new_watch_state default_watch_options, 0) \<bind>
     (\<lambda>(es1, self, _). normalize_atomic still_clock (sample_event AddDir ''a'' 1) (self, 0) \<bind>
       (\<lambda>(es2, self, _). Some (es1 @ es2 @ fst (flush_expired_pending_unlinks still_clock (self, 200))))) =
   Some [sample_event AddDir ''a'' 1, sample_event Unlink ''a'' 0]"
  by code_simp

lemma triple_parts: "n = (fst n, fst (snd n), snd (snd n))"
  by simp

lemma still_at: "still_clock t = (t, t)"
  by (simp add: still_clock_def)

lemma still_between: "reads_between still_clock t t {t}"
  by (simp add: reads_between_def still_clock_def)

subsection \<open>What a reported write had been\<close>

text \<open>
  The operations on the waiting writes, each at a time of its own: the watcher looks at an event, or
  flushes. What each reports, and the state after it.
\<close>

datatype await_op = Look event | Flush

fun await_step :: "64 word \<times> await_op \<Rightarrow> watch_state \<Rightarrow> event list \<times> watch_state" where
  "await_step (t, Look e) self = (case normalize_await_write still_clock e (self, t) of (es, self, _) \<Rightarrow> (es, self))"
| "await_step (t, Flush) self = (case flush_stable_writes still_clock (self, t) of (es, self, _) \<Rightarrow> (es, self))"

abbreviation await_state :: "(64 word \<times> await_op) list \<Rightarrow> watch_state \<Rightarrow> watch_state" where
  "await_state ops self \<equiv> fold (\<lambda>op self. snd (await_step op self)) ops self"

text \<open>The writes the watcher was told of, with their times and the numbers they had then.\<close>

type_synonym look = "64 word \<times> mstring \<times> file_stats"

fun looks_of :: "64 word \<times> await_op \<Rightarrow> look list" where
  "looks_of (t, Look e) =
     (if event_needs_write_stability e then (case ev_stats e of None \<Rightarrow> [] | Some s \<Rightarrow> [(t, ev_path e, s)]) else [])"
| "looks_of (t, Flush) = []"

text \<open>
  After the looks \<open>earlier\<close>, no later look found other numbers at the path, unless it came within the
  polling interval of a look before it at the same path.
\<close>

fun unchanged_after :: "32 word \<Rightarrow> mstring \<Rightarrow> file_stats \<Rightarrow> look list \<Rightarrow> look list \<Rightarrow> bool" where
  "unchanged_after poll path s earlier [] = True"
| "unchanged_after poll path s earlier ((t, p, s') # later) =
     ((p = path \<and> s' \<noteq> s \<longrightarrow> (\<exists>(t', p', _) \<in> set earlier. p' = path \<and> \<not> over_at t poll t')) \<and>
      unchanged_after poll path s (earlier @ [(t, p, s')]) later)"

lemma unchanged_after_append:
  "unchanged_after poll path s earlier (later @ [(t, p, s')]) \<longleftrightarrow> unchanged_after poll path s earlier later \<and>
   (p = path \<and> s' \<noteq> s \<longrightarrow> (\<exists>(t', p', _) \<in> set (earlier @ later). p' = path \<and> \<not> over_at t poll t'))"
  by (induction poll path s earlier later rule: unchanged_after.induct) auto

text \<open>At \<open>since\<close> the numbers were found, and the looks that followed did not find others.\<close>

definition same_since :: "32 word \<Rightarrow> look list \<Rightarrow> mstring \<Rightarrow> file_stats \<Rightarrow> 64 word \<Rightarrow> bool" where
  "same_since poll H path s since \<longleftrightarrow>
     (\<exists>before later. H = before @ (since, path, s) # later \<and> unchanged_after poll path s (before @ [(since, path, s)]) later)"

lemma same_since_now: "same_since poll (H @ [(t, path, s)]) path s t"
  unfolding same_since_def by (intro exI [of _ H] exI [of _ "[]"]) simp

lemma same_since_more:
  assumes "same_since poll H path s since"
    and "p = path \<and> s' \<noteq> s \<longrightarrow> (\<exists>(t', p', _) \<in> set H. p' = path \<and> \<not> over_at t poll t')"
  shows "same_since poll (H @ [(t, p, s')]) path s since"
proof -
  obtain before later where H: "H = before @ (since, path, s) # later"
      "unchanged_after poll path s (before @ [(since, path, s)]) later"
    using assms(1) by (auto simp: same_since_def)
  then have "unchanged_after poll path s (before @ [(since, path, s)]) (later @ [(t, p, s')])"
    using assms(2) by (simp add: unchanged_after_append)
  with H(1) show ?thesis unfolding same_since_def by (intro exI [of _ before] exI [of _ "later @ [(t, p, s')]"]) simp
qed

text \<open>A waiting write, after the looks \<open>H\<close>.\<close>

definition waits_since :: "32 word \<Rightarrow> look list \<Rightarrow> pending_write \<Rightarrow> bool" where
  "waits_since poll H p \<longleftrightarrow> same_since poll H (write_path p) (pw_stats p) (pw_stable_since p) \<and>
     (\<exists>s. (pw_last_checked p, write_path p, s) \<in> set H)"

lemma waits_since_other:
  "waits_since poll H p \<Longrightarrow> write_path p \<noteq> path \<Longrightarrow> waits_since poll (H @ [(t, path, s)]) p"
  by (auto simp: waits_since_def intro: same_since_more)

lemma still_expired: "timestamp_expired still_clock since window t = (over_at t window since, t)"
  by (simp add: timestamp_expired_def still_clock_def over_at_def)

lemma look_step:
  assumes "wo_await (ws_options self) = AwaitWriteFinishOn config" and "writes_ok self"
    and "\<forall>p \<in> set (ws_pending_writes self). waits_since (aw_poll_interval config) H p"
    and "event_needs_write_stability e" and "ev_stats e = Some s" and "await_step (t, Look e) self = (es, self')"
  shows "(\<forall>p \<in> set (ws_pending_writes self'). waits_since (aw_poll_interval config) (H @ [(t, ev_path e, s)]) p) \<and>
    (es = [] \<or> es = [e] \<and> (\<exists>since. same_since (aw_poll_interval config) (H @ [(t, ev_path e, s)]) (ev_path e) s since \<and>
       over_at t (aw_stability_threshold config) since))"
proof -
  let ?H = "H @ [(t, ev_path e, s)]" and ?poll = "aw_poll_interval config"
  have run: "normalize_await_write still_clock e (self, t) = (es, self', snd (snd (normalize_await_write still_clock e (self, t))))"
    using assms(6) by (auto split: prod.splits)
  show ?thesis
  proof (cases rule: writes_split [of self "ev_path e"])
    case new
    have "waits_since ?poll ?H \<lparr>pw_event = e, pw_stats = s, pw_stable_since = t, pw_last_checked = t\<rparr>"
      by (auto simp: waits_since_def same_since_now)
    then show ?thesis
      using run normalize_await_new [where clock = still_clock, OF assms(1,4,5) new(1) still_at] assms(3) new(2) waits_since_other
      by auto
  next
    case (waits as p bs)
    have others: "waits_since ?poll ?H q" if "q \<in> set (as @ bs)" for q
    proof -
      have "ev_path e \<notin> write_path ` set (as @ bs)" using assms(2) waits(1,2) by (simp add: writes_ok_def image_Un)
      then have "write_path q \<noteq> ev_path e" using that by (metis image_eqI)
      then show ?thesis using waits_since_other assms(3) that waits(1) by auto
    qed
    have p: "waits_since ?poll H p" using assms(3) waits(1) by simp
    then obtain s0 where last: "same_since ?poll H (ev_path e) (pw_stats p) (pw_stable_since p)"
        "(pw_last_checked p, ev_path e, s0) \<in> set H"
      using waits(2) by (auto simp: waits_since_def)
    note result = normalize_await_waiting [where clock = still_clock, OF assms(1,4,5) waits(3,1) still_at still_expired still_expired]
    consider (early) "\<not> over_at t ?poll (pw_last_checked p)" | (same) "over_at t ?poll (pw_last_checked p)" "pw_stats p = s"
      | (other) "over_at t ?poll (pw_last_checked p)" "pw_stats p \<noteq> s" by blast
    then show ?thesis
    proof cases
      case early
      have "same_since ?poll ?H (ev_path e) (pw_stats p) (pw_stable_since p)"
        by (rule same_since_more [OF last(1)]) (use last(2) early in blast)
      then have "waits_since ?poll ?H p" using last(2) waits(2) by (auto simp: waits_since_def)
      then show ?thesis using run result early others waits(1) by auto
    next
      case same
      then have since: "same_since ?poll ?H (ev_path e) s (pw_stable_since p)" using last(1) by (auto intro: same_since_more)
      then have "waits_since ?poll ?H (p\<lparr>pw_last_checked := t, pw_event := e\<rparr>)" using same(2) by (auto simp: waits_since_def)
      then show ?thesis using run result same since others by (auto split: if_splits)
    next
      case other
      have "waits_since ?poll ?H (p\<lparr>pw_last_checked := t, pw_event := e, pw_stats := s, pw_stable_since := t\<rparr>)"
        by (auto simp: waits_since_def same_since_now)
      then show ?thesis using run result other others by auto
    qed
  qed
qed

lemma flush_step:
  assumes "writes_ok self" and "await_step (t, Flush) self = (es, self')"
  shows "set (ws_pending_writes self') \<subseteq> set (ws_pending_writes self) \<and>
    (\<forall>e \<in> set es. \<exists>p \<in> set (ws_pending_writes self). pw_event p = e \<and> ev_stats e = Some (pw_stats p) \<and>
       over_at t (write_threshold self) (pw_stable_since p))"
proof -
  have f: "flush_stable_writes still_clock (self, t) = (es, self', snd (snd (flush_stable_writes still_clock (self, t))))"
    using assms(2) by (auto split: prod.splits)
  obtain over kept w where r: "flush_rest still_clock pw_stable_since (write_threshold self) (ws_pending_writes self) t = (over, kept, w)"
    by (metis prod_cases3)
  then have "ws_pending_writes self' = kept" using flush_writes_loop(1) [OF f] by (simp add: flush_loop_all)
  then have "set (ws_pending_writes self') \<subseteq> set (ws_pending_writes self)"
    using flush_rest_subseq [OF r] set_nths_subset by (fastforce simp: subseq_conv_nths)
  moreover have "ev_stats (pw_event p) = Some (pw_stats p)" if "p \<in> set (ws_pending_writes self)" for p
    using assms(1) that by (auto simp: writes_ok_def write_ok_def list_all_iff)
  ultimately show ?thesis using flush_writes_between(3) [OF still_between singletonI f] by fast
qed

text \<open>One operation keeps the table, and what it reports of a write had been the same.\<close>

definition table_ok :: "await_write_finish_options \<Rightarrow> look list \<Rightarrow> watch_state \<Rightarrow> bool" where
  "table_ok config H self \<longleftrightarrow> wo_await (ws_options self) = AwaitWriteFinishOn config \<and> writes_ok self \<and>
     (\<forall>p \<in> set (ws_pending_writes self). waits_since (aw_poll_interval config) H p)"

lemma await_step_ok:
  assumes "table_ok config H self" and "await_step (t, op) self = (es, self')"
  shows "table_ok config (H @ looks_of (t, op)) self' \<and>
    (\<forall>e \<in> set es. event_needs_write_stability e \<longrightarrow> (\<exists>s since. ev_stats e = Some s \<and>
       same_since (aw_poll_interval config) (H @ looks_of (t, op)) (ev_path e) s since \<and>
       over_at t (aw_stability_threshold config) since))"
proof -
  have on: "wo_await (ws_options self) = AwaitWriteFinishOn config" and ok: "writes_ok self"
    and waits: "\<forall>p \<in> set (ws_pending_writes self). waits_since (aw_poll_interval config) H p"
    using assms(1) by (auto simp: table_ok_def)
  show ?thesis
  proof (cases op)
    case Flush
    then have f: "flush_stable_writes still_clock (self, t) = (es, self', snd (snd (flush_stable_writes still_clock (self, t))))"
      using assms(2) by (auto split: prod.splits)
    have options: "ws_options self' = ws_options self" using flush_writes_loop(2) [OF f] by (metis watch_state.select_convs(1) watch_state.surjective watch_state.update_convs(8))
    note step = flush_step [OF ok assms(2) [unfolded Flush]]
    have "\<exists>s since. ev_stats e = Some s \<and> same_since (aw_poll_interval config) H (ev_path e) s since \<and>
        over_at t (aw_stability_threshold config) since" if "e \<in> set es" for e
      using step that waits on by (fastforce simp: waits_since_def await_write_threshold_millis_def)
    then show ?thesis using flush_writes_ok [OF ok f] step waits on options Flush by (auto simp: table_ok_def)
  next
    case (Look e)
    then have run: "normalize_await_write still_clock e (self, t) = (es, self', snd (snd (normalize_await_write still_clock e (self, t))))"
      using assms(2) by (auto split: prod.splits)
    note step = normalize_await_step [OF ok still_between singletonI run]
    have options: "wo_await (ws_options self') = AwaitWriteFinishOn config"
      using step on by (metis watch_state.select_convs(1) watch_state.surjective watch_state.update_convs(8))
    show ?thesis
    proof (cases "event_needs_write_stability e \<and> ev_stats e \<noteq> None")
      case True
      then obtain s where s: "event_needs_write_stability e" "ev_stats e = Some s" by auto
      from look_step [OF on ok waits s assms(2) [unfolded Look]] step options s Look show ?thesis by (auto simp: table_ok_def)
    next
      case False
      then have "self' = self" "es = [] \<or> es = [e] \<and> \<not> event_needs_write_stability e" "looks_of (t, op) = []"
        using run on Look by (auto simp: normalize_await_write_def split: if_splits)
      then show ?thesis using assms(1) by auto
    qed
  qed
qed

lemma await_run_ok: "table_ok config H self \<Longrightarrow> table_ok config (H @ concat (map looks_of ops)) (await_state ops self)"
proof (induction ops arbitrary: H self)
  case (Cons op ops)
  obtain t o' where "op = (t, o')" by (cases op)
  with await_step_ok [OF Cons.prems, of t o'] have "table_ok config (H @ looks_of op) (snd (await_step op self))"
    by (metis prod.collapse)
  from Cons.IH [OF this] show ?case by simp
qed simp

subsection \<open>Properties\<close>

text \<open>
  Property C26. The watched directories are a well-formed table: each directory once, none without children,
  the children of each sorted and without repetition. Adding and removing a child keep this and
  change exactly that child of that directory.
\<close>

theorem watched_directories:
  assumes "dirs_ok self"
  shows "dirs_ok (add_child dir child self) \<and> dirs_ok (remove_child dir child self) \<and>
    children_of (add_child dir child self) = (children_of self)(dir := insert child (children_of self dir)) \<and>
    children_of (remove_child dir child self) = (children_of self)(dir := children_of self dir - {child})"
  using add_child_ok remove_child_ok add_child_children remove_child_children assms by blast

theorem watched_directories_witness:
  "let self = add_child (str ''d'') (str ''a'') (new_watch_state default_watch_options) in
     dirs_ok (add_child (str ''d'') (str ''b'') self) \<and> dirs_ok (remove_child (str ''d'') (str ''b'') self) \<and>
     children_of (add_child (str ''d'') (str ''b'') self) =
       (children_of self)(str ''d'' := insert (str ''b'') (children_of self (str ''d''))) \<and>
     children_of (remove_child (str ''d'') (str ''b'') self) =
       (children_of self)(str ''d'' := children_of self (str ''d'') - {str ''b''})"
  unfolding Let_def by (rule watched_directories) (rule add_child_ok, simp add: dirs_ok_def new_watch_state_def)

text \<open>
  Property C23. A removal is held back for the window of atomic writes and no longer: a flush at times between
  two readings gives up every removal whose window is over at the first, keeps every one whose window
  is not over at the last, and neither loses nor repeats one.
\<close>

theorem unlink_window_kept:
  assumes "reads_between clock t0 t1 R" and "w \<in> R"
    and "flush_expired_pending_unlinks clock (self, w) = (events, self', w')"
  shows "mset (map pt_event (ws_pending_unlinks self)) = mset events + mset (map pt_event (ws_pending_unlinks self')) \<and>
    (\<forall>p \<in> set (ws_pending_unlinks self'). \<not> over_at t0 (unlink_window self) (pt_created_at p)) \<and>
    (\<forall>e \<in> set events. \<exists>p \<in> set (ws_pending_unlinks self). pt_event p = e \<and> over_at t1 (unlink_window self) (pt_created_at p))"
  using flush_unlinks_between [OF assms] by blast

theorem unlink_window_kept_witness:
  "let self = (new_watch_state default_watch_options)\<lparr>ws_pending_unlinks :=
       [\<lparr>pt_event = sample_event Unlink ''a'' 0, pt_created_at = 0\<rparr>, \<lparr>pt_event = sample_event Unlink ''b'' 0, pt_created_at = 50\<rparr>]\<rparr>;
     self' = self\<lparr>ws_pending_unlinks := [\<lparr>pt_event = sample_event Unlink ''b'' 0, pt_created_at = 50\<rparr>]\<rparr> in
   mset (map pt_event (ws_pending_unlinks self)) =
     mset [sample_event Unlink ''a'' 0] + mset (map pt_event (ws_pending_unlinks self')) \<and>
   (\<forall>p \<in> set (ws_pending_unlinks self'). \<not> over_at 120 (unlink_window self) (pt_created_at p)) \<and>
   (\<forall>e \<in> set [sample_event Unlink ''a'' 0].
      \<exists>p \<in> set (ws_pending_unlinks self). pt_event p = e \<and> over_at 120 (unlink_window self) (pt_created_at p))"
  unfolding Let_def
  by (rule unlink_window_kept [OF still_between [of 120] singletonI])
    (simp add: flush_expired_pending_unlinks_def flush_loop_all timestamp_expired_def still_clock_def
      new_watch_state_def default_watch_options_def atomic_window_millis_def millis_to_uint64_def word_sle_eq)

text \<open>
  Property C24. A removal followed by the creation of the same path is one change when the creation comes within
  the window, and the removal and the creation when it comes later; nothing of it is left behind.
\<close>

theorem atomic_write_is_change:
  assumes "wo_atomic (ws_options self) \<noteq> AtomicOff" and "ev_name u = Unlink" and "ev_name a = Add"
    and "ev_path u = ev_path a" and "is_dot_swap_file (ev_path a) = Some False"
    and "pending_unlink_index self (ev_path a) = None" and "clock w1 = (t1, w1')" and "clock w2 = (t2, w2')"
  shows "normalize_atomic clock u (self, w1) \<bind>
      (\<lambda>(es1, self1, _). normalize_atomic clock a (self1, w2) \<bind> (\<lambda>(es2, self2, _). Some (es1 @ es2, self2))) =
    Some (if over_at t2 (unlink_window self) t1 then [u, a] else [a\<lparr>ev_name := Change\<rparr>], self)"
  using unlink_held_back [OF assms(1) _ assms(2), of clock w1 t1 w1'] add_after_unlink [OF assms(1,3,4,6), of clock w2 t2 w2' t1]
    assms(4,5,7,8) by simp

theorem atomic_write_is_change_witness:
  "normalize_atomic still_clock (sample_event Unlink ''a'' 0) (new_watch_state default_watch_options, 7) \<bind>
      (\<lambda>(es1, self1, _). normalize_atomic still_clock (sample_event Add ''a'' 1) (self1, 9) \<bind> (\<lambda>(es2, self2, _). Some (es1 @ es2, self2))) =
    Some (if over_at 9 (unlink_window (new_watch_state default_watch_options)) 7
          then [sample_event Unlink ''a'' 0, sample_event Add ''a'' 1]
          else [(sample_event Add ''a'' 1)\<lparr>ev_name := Change\<rparr>], new_watch_state default_watch_options)"
  by (rule atomic_write_is_change [OF _ _ _ _ _ _ still_at still_at]) (code_simp+)

text \<open>
  Property C25. With waiting on, whatever looks and flushes came before, a write is reported, by a look at it or by a
  flush, only with numbers that a look at its path had found at least the threshold before, and since
  then no look at the path found other numbers but those that came within the polling interval of
  a look before them, which are not compared; so the file itself may have changed. The clock does
  not move within an operation.
\<close>

theorem write_reported_when_stable:
  assumes "wo_await (ws_options self) = AwaitWriteFinishOn config" and "ws_pending_writes self = []"
    and "e \<in> set (fst (await_step (t, op) (await_state ops self)))" and "event_needs_write_stability e"
  shows "\<exists>s since before later. ev_stats e = Some s \<and> over_at t (aw_stability_threshold config) since \<and>
    concat (map looks_of (ops @ [(t, op)])) = before @ (since, ev_path e, s) # later \<and>
    unchanged_after (aw_poll_interval config) (ev_path e) s (before @ [(since, ev_path e, s)]) later"
proof -
  have "table_ok config [] self" using assms(1,2) by (simp add: table_ok_def writes_ok_def)
  from await_run_ok [OF this] have "table_ok config (concat (map looks_of ops)) (await_state ops self)" by simp
  from await_step_ok [OF this prod.collapse [symmetric]] assms(3,4) show ?thesis
    by (fastforce simp: same_since_def)
qed

text \<open>A write that is found changed once, and reported by a flush.\<close>

theorem write_reported_when_stable_witness:
  "let ops = [(0, Look (sample_event Add ''a'' 1)), (50, Look (sample_event Change ''a'' 2)), (90, Look (sample_event Change ''a'' 2))];
     e = sample_event Change ''a'' 2 in
   \<exists>s since before later. ev_stats e = Some s \<and> over_at 150 100 since \<and>
    concat (map looks_of (ops @ [(150, Flush)])) = before @ (since, ev_path e, s) # later \<and>
    unchanged_after 10 (ev_path e) s (before @ [(since, ev_path e, s)]) later"
proof -
  let ?ops = "[(0, Look (sample_event Add ''a'' 1)), (50, Look (sample_event Change ''a'' 2)), (90, Look (sample_event Change ''a'' 2))]"
  have "sample_event Change ''a'' 2 \<in> set (fst (await_step (150, Flush) (await_state ?ops (waiting_state 100 10))))"
    by code_simp
  from write_reported_when_stable [OF _ _ this, of "\<lparr>aw_stability_threshold = 100, aw_poll_interval = 10\<rparr>"]
  show ?thesis
    unfolding Let_def by (simp add: waiting_state_def new_watch_state_def event_needs_write_stability_def sample_event_def
        del: looks_of.simps unchanged_after.simps)
qed

end
