(* ===== verification/Chokidar_Backend.thy ===== *)
theory Chokidar_Backend
  imports Chokidar_State
begin

text \<open>
  The backend of the watcher: the queue of raw events and the table of native watches of its C stub
  (\<open>chokidar/fs_native.c\<close>, compiled for Linux), and the functions of \<open>backend_native.mbt\<close> that call
  it. Memory suffices, so the stub's copies of strings succeed. The counter of handles is a number
  without a bound; in C it is a signed \<open>int\<close>, so the model holds for the first \<open>2\<^sup>31 - 2\<close> watches of a run, after
  which the increment is undefined. The kernel is a parameter.
\<close>

subsection \<open>The host\<close>

text \<open>
  An event as the kernel lays it out: the watch descriptor and the name, empty when its length is 0.
  A \<open>read\<close> gives the events of one buffer, none when there is nothing to read.
\<close>

record inotify_event =
  ie_wd :: int
  ie_name :: bytes

text \<open>
  What a watcher uses of its environment: \<open>inotify\<close>, the clock, the file system at a moment,
  \<open>getenv\<close>, and the callbacks, which are values that can be compared. A callback changes the world;
  it does not call the watcher that calls it.
\<close>

record ('c, 'w) host =
  h_inotify_init :: "'w \<Rightarrow> int \<times> 'w"
  h_inotify_add_watch :: "int \<Rightarrow> bytes \<Rightarrow> 'w \<Rightarrow> int \<times> 'w"
  h_inotify_rm_watch :: "int \<Rightarrow> int \<Rightarrow> 'w \<Rightarrow> 'w"
  h_inotify_read :: "int \<Rightarrow> 'w \<Rightarrow> inotify_event list \<times> 'w"
  h_now :: "'w \<Rightarrow> 64 word \<times> 'w"
  h_files :: "'w \<Rightarrow> file_system"
  h_getenv :: "bytes \<Rightarrow> 'w \<Rightarrow> bytes option"
  h_call :: "'c \<Rightarrow> event \<Rightarrow> 'w \<Rightarrow> 'w"

subsection \<open>The static variables of the stub\<close>

record backend_event =
  be_name :: bytes
  be_watched :: bytes
  be_path :: bytes

record native_watch =
  nw_id :: int
  nw_fd :: int
  nw_path :: bytes

record chokidar_backend =
  cb_events :: "backend_event list"
  cb_overflow :: bool
  cb_next_handle :: int
  cb_watches :: "native_watch list"
  cb_inotify_fd :: int

definition initial_backend :: chokidar_backend where
  "initial_backend = \<lparr>cb_events = [], cb_overflow = False, cb_next_handle = 1, cb_watches = [], cb_inotify_fd = -1\<rparr>"

abbreviation (input) CHOKIDAR_MAX_EVENTS :: nat where "CHOKIDAR_MAX_EVENTS \<equiv> 1024"
abbreviation (input) CHOKIDAR_MAX_WATCHES :: nat where "CHOKIDAR_MAX_WATCHES \<equiv> 256"

subsection \<open>The event queue\<close>

definition chokidar_backend_enqueue_raw_event_cstrings ::
    "bytes \<Rightarrow> bytes \<Rightarrow> bytes \<Rightarrow> chokidar_backend \<Rightarrow> chokidar_backend" where
  "chokidar_backend_enqueue_raw_event_cstrings name watched path b =
     (if CHOKIDAR_MAX_EVENTS \<le> length (cb_events b) then b\<lparr>cb_overflow := True\<rparr>
      else b\<lparr>cb_events := cb_events b @ [\<lparr>be_name = name, be_watched = watched, be_path = path\<rparr>]\<rparr>)"

definition chokidar_backend_enqueue_raw_event :: "bytes \<Rightarrow> bytes \<Rightarrow> bytes \<Rightarrow> chokidar_backend \<Rightarrow> chokidar_backend" where
  "chokidar_backend_enqueue_raw_event name watched path b =
     chokidar_backend_enqueue_raw_event_cstrings (cstr name) (cstr watched) (cstr path) b"

definition chokidar_backend_clear_events :: "chokidar_backend \<Rightarrow> chokidar_backend" where
  "chokidar_backend_clear_events b = b\<lparr>cb_events := [], cb_overflow := False\<rparr>"

subsection \<open>The native watches\<close>

definition chokidar_find_watch_by_wd :: "chokidar_backend \<Rightarrow> int \<Rightarrow> nat option" where
  "chokidar_find_watch_by_wd b wd = first_index (\<lambda>x. nw_fd x = wd) (cb_watches b)"

text \<open>The inner loop of the poll, over the events of a buffer.\<close>

fun poll_events :: "inotify_event list \<Rightarrow> chokidar_backend \<Rightarrow> chokidar_backend" where
  "poll_events [] b = b"
| "poll_events (ev # evs) b =
     poll_events evs
       (case chokidar_find_watch_by_wd b (ie_wd ev) of
          None \<Rightarrow> b
        | Some idx \<Rightarrow> chokidar_backend_enqueue_raw_event_cstrings (str ''change'') (nw_path (cb_watches b ! idx)) (cstr (ie_name ev)) b)"

partial_function (option) poll_reads :: "('c, 'w) host \<Rightarrow> chokidar_backend \<Rightarrow> 'w \<Rightarrow> (chokidar_backend \<times> 'w) run" where
  "poll_reads host b w =
     (case h_inotify_read host (cb_inotify_fd b) w of (evs, w) \<Rightarrow>
        if evs = [] then Some (b, w) else poll_reads host (poll_events evs b) w)"

definition chokidar_native_poll :: "('c, 'w) host \<Rightarrow> chokidar_backend \<Rightarrow> 'w \<Rightarrow> (chokidar_backend \<times> 'w) run" where
  "chokidar_native_poll host b w = (if cb_inotify_fd b < 0 then Some (b, w) else poll_reads host b w)"

definition chokidar_native_watch_path ::
    "('c, 'w) host \<Rightarrow> int \<Rightarrow> bytes \<Rightarrow> chokidar_backend \<Rightarrow> 'w \<Rightarrow> int \<times> chokidar_backend \<times> 'w" where
  "chokidar_native_watch_path host handle path b w =
     (case (if cb_inotify_fd b < 0 then h_inotify_init host w else (cb_inotify_fd b, w)) of (fd, w) \<Rightarrow>
        let b = b\<lparr>cb_inotify_fd := fd\<rparr> in
        if fd < 0 then (-1, b, w)
        else case h_inotify_add_watch host fd path w of (wd, w) \<Rightarrow>
          if wd < 0 then (-1, b, w)
          else if CHOKIDAR_MAX_WATCHES \<le> length (cb_watches b) then (-1, b, h_inotify_rm_watch host fd wd w)
          else (handle, b\<lparr>cb_watches := cb_watches b @ [\<lparr>nw_id = handle, nw_fd = wd, nw_path = path\<rparr>]\<rparr>, w))"

definition chokidar_native_close_id :: "('c, 'w) host \<Rightarrow> int \<Rightarrow> chokidar_backend \<Rightarrow> 'w \<Rightarrow> chokidar_backend \<times> 'w" where
  "chokidar_native_close_id host handle b w =
     (case first_index (\<lambda>x. nw_id x = handle) (cb_watches b) of
        None \<Rightarrow> (b, w)
      | Some i \<Rightarrow>
          let x = cb_watches b ! i;
              w = (if 0 \<le> nw_fd x \<and> 0 \<le> cb_inotify_fd b then h_inotify_rm_watch host (cb_inotify_fd b) (nw_fd x) w else w)
          in (b\<lparr>cb_watches := array_remove i (cb_watches b)\<rparr>, w))"

subsection \<open>The exported functions\<close>

definition chokidar_backend_watch ::
    "('c, 'w) host \<Rightarrow> bytes \<Rightarrow> int \<Rightarrow> int \<Rightarrow> chokidar_backend \<Rightarrow> 'w \<Rightarrow> int \<times> chokidar_backend \<times> 'w" where
  "chokidar_backend_watch host path use_polling interval b w =
     (let handle = cb_next_handle b; b = b\<lparr>cb_next_handle := cb_next_handle b + 1\<rparr> in
      if use_polling \<noteq> 0 then (handle, b, w)
      else case chokidar_native_watch_path host handle (cstr path) b w of (result, b, w) \<Rightarrow>
        (if result < 0 then -1 else handle, b, w))"

definition chokidar_backend_close :: "('c, 'w) host \<Rightarrow> int \<Rightarrow> chokidar_backend \<Rightarrow> 'w \<Rightarrow> chokidar_backend \<times> 'w" where
  "chokidar_backend_close host handle b w = chokidar_native_close_id host handle b w"

definition chokidar_backend_event_count :: "('c, 'w) host \<Rightarrow> chokidar_backend \<Rightarrow> 'w \<Rightarrow> (int \<times> chokidar_backend \<times> 'w) run" where
  "chokidar_backend_event_count host b w = do {
     (b, w) \<leftarrow> chokidar_native_poll host b w;
     Some (int (length (cb_events b)) + (if cb_overflow b then 1 else 0), b, w)
   }"

definition chokidar_backend_event_name :: "int \<Rightarrow> chokidar_backend \<Rightarrow> bytes" where
  "chokidar_backend_event_name index b =
     (if index = int (length (cb_events b)) \<and> cb_overflow b then str ''overflow''
      else if index < 0 \<or> int (length (cb_events b)) \<le> index then []
      else be_name (cb_events b ! nat index))"

definition chokidar_backend_watched_path :: "int \<Rightarrow> chokidar_backend \<Rightarrow> bytes" where
  "chokidar_backend_watched_path index b =
     (if index = int (length (cb_events b)) \<and> cb_overflow b then []
      else if index < 0 \<or> int (length (cb_events b)) \<le> index then []
      else be_watched (cb_events b ! nat index))"

definition chokidar_backend_event_path :: "int \<Rightarrow> chokidar_backend \<Rightarrow> bytes" where
  "chokidar_backend_event_path index b =
     (if index = int (length (cb_events b)) \<and> cb_overflow b then []
      else if index < 0 \<or> int (length (cb_events b)) \<le> index then []
      else be_path (cb_events b ! nat index))"

definition chokidar_backend_platform :: bytes where
  "chokidar_backend_platform = str ''linux''"

definition chokidar_getenv_valid :: "('c, 'w) host \<Rightarrow> bytes \<Rightarrow> 'w \<Rightarrow> int" where
  "chokidar_getenv_valid host name w = (if h_getenv host (cstr name) w = None then 0 else 1)"

definition chokidar_getenv_value :: "('c, 'w) host \<Rightarrow> bytes \<Rightarrow> 'w \<Rightarrow> bytes" where
  "chokidar_getenv_value host name w = (case h_getenv host (cstr name) w of None \<Rightarrow> [] | Some val \<Rightarrow> cstr val)"

subsection \<open>The callers\<close>

definition backend_string_to_utf8_bytes :: "mstring \<Rightarrow> bytes run" where
  "backend_string_to_utf8_bytes s = do {
     let byte_length = iter_fold count_char 0 (string_chars s);
     (arr, _) \<leftarrow> iter_fold fill_char (Some (replicate byte_length 0, 0)) (string_chars s);
     Some arr
   }"

definition backend_bytes_to_string :: "bytes \<Rightarrow> mstring run" where
  "backend_bytes_to_string bs = decode_lossy bs False"

definition chokidar_getenv :: "('c, 'w) host \<Rightarrow> mstring \<Rightarrow> 'w \<Rightarrow> mstring option run" where
  "chokidar_getenv host name w = do {
     name_bytes \<leftarrow> backend_string_to_utf8_bytes name;
     if chokidar_getenv_valid host name_bytes w = 0 then Some None
     else do { v \<leftarrow> backend_bytes_to_string (chokidar_getenv_value host name_bytes w); Some (Some v) }
   }"

text \<open>The functions below work on the stub's variables and the world.\<close>

type_synonym 'w world = "chokidar_backend \<times> 'w"

definition backend_watch ::
    "('c, 'w) host \<Rightarrow> mstring \<Rightarrow> watch_options \<Rightarrow> 'w world \<Rightarrow> ((mstring + int) \<times> 'w world) run" where
  "backend_watch host path options s = do {
     bs \<leftarrow> backend_string_to_utf8_bytes path;
     let (handle, s) = chokidar_backend_watch host bs (if wo_use_polling options then 1 else 0) (sint (wo_interval options)) (fst s) (snd s);
     Some (if 0 \<le> handle then Inr handle else Inl (str ''failed to start backend watcher''), s)
   }"

definition backend_close :: "('c, 'w) host \<Rightarrow> int \<Rightarrow> 'w world \<Rightarrow> 'w world" where
  "backend_close host handle s = chokidar_backend_close host handle (fst s) (snd s)"

definition raw_event_at :: "chokidar_backend \<Rightarrow> int \<Rightarrow> raw_event run" where
  "raw_event_at b index = do {
     event_name \<leftarrow> backend_bytes_to_string (chokidar_backend_event_name index b);
     raw_path \<leftarrow> backend_bytes_to_string (chokidar_backend_event_path index b);
     watched_path \<leftarrow> backend_bytes_to_string (chokidar_backend_watched_path index b);
     platform \<leftarrow> backend_bytes_to_string chokidar_backend_platform;
     Some \<lparr>re_backend_event_name = event_name, re_watched_path = watched_path,
       re_event_path = (if raw_path = [] then None else Some raw_path), re_platform = platform,
       re_error_message = (if event_name = str ''overflow'' then Some (str ''backend event queue overflow'') else None)\<rparr>
   }"

fun drain_loop :: "chokidar_backend \<Rightarrow> int \<Rightarrow> nat \<Rightarrow> raw_event list run" where
  "drain_loop b index 0 = Some []"
| "drain_loop b index (Suc k) = do { e \<leftarrow> raw_event_at b index; es \<leftarrow> drain_loop b (index + 1) k; Some (e # es) }"

definition backend_drain_events :: "('c, 'w) host \<Rightarrow> 'w world \<Rightarrow> (raw_event list \<times> 'w world) run" where
  "backend_drain_events host s = do {
     (count, b, w) \<leftarrow> chokidar_backend_event_count host (fst s) (snd s);
     events \<leftarrow> drain_loop b 0 (nat count);
     Some (events, chokidar_backend_clear_events b, w)
   }"

subsection \<open>The tables stay in their bounds\<close>

definition backend_ok :: "chokidar_backend \<Rightarrow> bool" where
  "backend_ok b \<longleftrightarrow> length (cb_events b) \<le> CHOKIDAR_MAX_EVENTS \<and> length (cb_watches b) \<le> CHOKIDAR_MAX_WATCHES \<and>
     (cb_overflow b \<longrightarrow> length (cb_events b) = CHOKIDAR_MAX_EVENTS) \<and>
     distinct (map nw_id (cb_watches b)) \<and> list_all (\<lambda>x. nw_id x < cb_next_handle b) (cb_watches b)"

lemma initial_ok: "backend_ok initial_backend"
  by (simp add: backend_ok_def initial_backend_def)

lemma enqueue_ok: "backend_ok b \<Longrightarrow> backend_ok (chokidar_backend_enqueue_raw_event_cstrings n p q b)"
  by (auto simp: backend_ok_def chokidar_backend_enqueue_raw_event_cstrings_def)

lemma poll_events_ok: "backend_ok b \<Longrightarrow> backend_ok (poll_events evs b)"
  by (induction evs b rule: poll_events.induct) (auto simp: enqueue_ok split: option.splits)

lemma clear_ok: "backend_ok b \<Longrightarrow> backend_ok (chokidar_backend_clear_events b)"
  by (simp add: backend_ok_def chokidar_backend_clear_events_def)

lemma poll_reads_ok:
  fixes host :: "('c, 'w) host"
  assumes "poll_reads host b w = Some y"
  shows "backend_ok b \<longrightarrow> backend_ok (fst y)"
proof (rule poll_reads.raw_induct [where P = "\<lambda>_ b _ y. backend_ok b \<longrightarrow> backend_ok (fst y)", OF _ assms])
  fix reads :: "('c, 'w) host \<Rightarrow> chokidar_backend \<Rightarrow> 'w \<Rightarrow> (chokidar_backend \<times> 'w) run" and host b w y
  assume IH: "\<And>host b w y. reads host b w = Some y \<Longrightarrow> backend_ok b \<longrightarrow> backend_ok (fst y)"
    and run: "(case h_inotify_read host (cb_inotify_fd b) w of
        (evs, w) \<Rightarrow> if evs = [] then Some (b, w) else reads host (poll_events evs b) w) = Some y"
  show "backend_ok b \<longrightarrow> backend_ok (fst y)"
    using run IH poll_events_ok by (auto split: prod.splits if_splits)
qed

lemma event_count_ok:
  assumes "backend_ok b" and "chokidar_backend_event_count host b w = Some (n, b', w')"
  shows "backend_ok b' \<and> 0 \<le> n \<and> n \<le> int CHOKIDAR_MAX_EVENTS + 1"
  using assms poll_reads_ok [of host b w "(b', w')"]
  by (auto simp: chokidar_backend_event_count_def chokidar_native_poll_def backend_ok_def bind_eq_Some_conv split: if_splits)

lemma watch_ok:
  assumes "backend_ok b" and "chokidar_backend_watch host path use_polling interval b w = (handle, b', w')"
  shows "backend_ok b' \<and> (handle = -1 \<or> handle = cb_next_handle b)"
proof -
  let ?b = "b\<lparr>cb_next_handle := cb_next_handle b + 1\<rparr>"
  have b: "backend_ok ?b" "list_all (\<lambda>x. nw_id x < cb_next_handle b) (cb_watches b)"
    using assms(1) by (auto simp: backend_ok_def list_all_iff)
  have fresh: "cb_next_handle b \<notin> nw_id ` set (cb_watches b)" using b(2) by (auto simp: list_all_iff)
  have native: "backend_ok b2 \<and> (r < 0 \<or> r = cb_next_handle b)"
    if "chokidar_native_watch_path host (cb_next_handle b) (cstr path) ?b w = (r, b2, w2)" for r b2 w2
    using that b fresh
    by (auto simp: chokidar_native_watch_path_def Let_def backend_ok_def list_all_iff split: prod.splits if_splits)
  obtain r b2 w2 where "chokidar_native_watch_path host (cb_next_handle b) (cstr path) ?b w = (r, b2, w2)"
    by (metis prod_cases3)
  with native [OF this] assms(2) b show ?thesis by (auto simp: chokidar_backend_watch_def Let_def split: if_splits)
qed

lemma close_ok:
  assumes "backend_ok b" and "chokidar_backend_close host handle b w = (b', w')"
  shows "backend_ok b' \<and> handle \<notin> nw_id ` set (cb_watches b')"
proof (cases "first_index (\<lambda>x. nw_id x = handle) (cb_watches b)")
  case None
  with assms show ?thesis by (auto simp: chokidar_backend_close_def chokidar_native_close_id_def first_index_None)
next
  case (Some i)
  then obtain as bs where b: "cb_watches b = as @ cb_watches b ! i # bs" "i = length as" "nw_id (cb_watches b ! i) = handle"
    by (rule first_index_split)
  define x where "x = cb_watches b ! i"
  have x: "cb_watches b = as @ x # bs" "nw_id x = handle" using b x_def by simp_all
  have "cb_watches b' = as @ bs" "cb_events b' = cb_events b" "cb_overflow b' = cb_overflow b" "cb_next_handle b' = cb_next_handle b"
    using assms(2) Some x b(2) by (auto simp: chokidar_backend_close_def chokidar_native_close_id_def Let_def)
  then show ?thesis using assms(1) x by (auto simp: backend_ok_def)
qed

text \<open>What a drain returns: the queued events in their order, and the mark of an overflow.\<close>

lemma drain_loop_length: "drain_loop b i k = Some es \<Longrightarrow> length es = k"
  by (induction b i k arbitrary: es rule: drain_loop.induct) (auto simp: bind_eq_Some_conv)

lemma drain_ok:
  assumes "backend_ok b" and "backend_drain_events host (b, w) = Some (es, b', w')"
  shows "backend_ok b' \<and> cb_events b' = [] \<and> \<not> cb_overflow b' \<and> length es \<le> CHOKIDAR_MAX_EVENTS + 1"
proof -
  obtain n b1 where "chokidar_backend_event_count host b w = Some (n, b1, w')" "drain_loop b1 0 (nat n) = Some es"
    "b' = chokidar_backend_clear_events b1"
    using assms(2) by (auto simp: backend_drain_events_def bind_eq_Some_conv)
  with event_count_ok [OF assms(1)] drain_loop_length show ?thesis
    by (fastforce simp: chokidar_backend_clear_events_def clear_ok backend_ok_def)
qed

subsection \<open>Property\<close>

text \<open>
  Property C22. The tables of the stub stay within their bounds: watches and queued events never exceed their
  arrays, an overflow is marked only on a full queue, the handles in use are distinct and below the
  next one. A drain returns at most the queue and the mark, and leaves the queue empty.
\<close>

theorem backend_tables_bounded:
  assumes "backend_ok b"
  shows "backend_ok (chokidar_backend_enqueue_raw_event_cstrings name watched path b) \<and>
    backend_ok (fst (snd (chokidar_backend_watch host root use_polling interval b w))) \<and>
    backend_ok (fst (chokidar_backend_close host handle b w)) \<and>
    handle \<notin> nw_id ` set (cb_watches (fst (chokidar_backend_close host handle b w))) \<and>
    (case backend_drain_events host (b, w) of
       None \<Rightarrow> True
     | Some (es, b', w') \<Rightarrow> backend_ok b' \<and> cb_events b' = [] \<and> \<not> cb_overflow b' \<and> length es \<le> CHOKIDAR_MAX_EVENTS + 1)"
proof -
  have "backend_ok (fst (snd (chokidar_backend_watch host root use_polling interval b w)))"
    using watch_ok [OF assms, of host root use_polling interval w] by (metis prod.collapse)
  moreover have "backend_ok (fst (chokidar_backend_close host handle b w)) \<and>
      handle \<notin> nw_id ` set (cb_watches (fst (chokidar_backend_close host handle b w)))"
    using close_ok [OF assms, of host handle w] by (metis prod.collapse)
  ultimately show ?thesis using enqueue_ok [OF assms] by (auto split: option.split dest: drain_ok [OF assms])
qed

theorem backend_tables_bounded_witness:
  "let host = \<lparr>h_inotify_init = (\<lambda>w. (3, w)), h_inotify_add_watch = (\<lambda>_ _ w. (1, w)), h_inotify_rm_watch = (\<lambda>_ _ w. w),
      h_inotify_read = (\<lambda>_ w. ([], w)), h_now = (\<lambda>w. (1000, w)), h_files = (\<lambda>_. undefined),
      h_getenv = (\<lambda>_ _. None), h_call = (\<lambda>_ _ w. w)\<rparr> :: (nat, unit) host;
     b = fst (snd (chokidar_backend_watch host (str ''/w'') 0 100 initial_backend ())) in
    backend_ok (chokidar_backend_enqueue_raw_event_cstrings (str ''change'') (str ''/w'') (str ''a'') b) \<and>
    backend_ok (fst (snd (chokidar_backend_watch host (str ''/v'') 0 100 b ()))) \<and>
    backend_ok (fst (chokidar_backend_close host 1 b ())) \<and>
    1 \<notin> nw_id ` set (cb_watches (fst (chokidar_backend_close host 1 b ()))) \<and>
    (case backend_drain_events host (b, ()) of
       None \<Rightarrow> True
     | Some (es, b', w') \<Rightarrow> backend_ok b' \<and> cb_events b' = [] \<and> \<not> cb_overflow b' \<and> length es \<le> CHOKIDAR_MAX_EVENTS + 1)"
  unfolding Let_def by (rule backend_tables_bounded) code_simp

end
