(* ===== verification/Chokidar_Tree.thy ===== *)
theory Chokidar_Tree
  imports Chokidar_Snapshot
begin

text \<open>
  What a scan finds: on a tree of plain files and directories, the snapshot holds exactly the
  entries the options accept, each once, with the numbers of one stat, in the order of their paths.
\<close>

subsection \<open>One stat serves an entry\<close>

definition stats_of :: "stat_buf \<Rightarrow> file_stats" where
  "stats_of sb =
     \<lparr>st_size = sb_size sb, st_mode = sb_mode sb,
      st_modified_nanos = sb_mtim_sec sb * 1000000000 + sb_mtim_nsec sb\<rparr>"

lemma scanner_bytes: "scanner_string_to_utf8_bytes s = Some (encoding s)"
  by (rule scanner_bytes_eq)


text \<open>
  The four calls of \<open>stat_for_path\<close> give the numbers of one \<open>stat\<close>, from any cache that holds no
  stat, and leave none behind.
\<close>

lemma stat_for_path_from_eq:
  assumes "\<not> sc_valid c" and "length (cstr (encoding p)) \<le> 4095"
  shows "\<exists>c'. \<not> sc_valid c' \<and> stat_for_path_from c fs p follow =
    Some ((case (if follow then fs_stat fs (cstr (encoding p)) else fs_lstat fs (cstr (encoding p))) of
        Inl e \<Rightarrow> None | Inr sb \<Rightarrow> Some (stats_of sb)), c')"
  using assms
  by (cases "if follow then fs_stat fs (cstr (encoding p)) else fs_lstat fs (cstr (encoding p))")
    (auto simp: stat_for_path_from_def scanner_bytes follow_flag_def Let_def chokidar_scanner_stat_valid_def
      chokidar_scanner_stat_size_def chokidar_scanner_stat_mode_def chokidar_scanner_modified_nanos_def
      chokidar_do_stat_def stats_of_def split: if_splits)

lemma stat_for_path_eq:
  assumes "length (cstr (encoding p)) \<le> 4095"
  shows "stat_for_path fs p follow =
    Some (case (if follow then fs_stat fs (cstr (encoding p)) else fs_lstat fs (cstr (encoding p))) of
        Inl e \<Rightarrow> None | Inr sb \<Rightarrow> Some (stats_of sb))"
  using stat_for_path_from_eq [OF _ assms, of no_stat fs follow] by (auto simp: stat_for_path_def no_stat_def)

subsection \<open>The entries the options accept\<close>
















subsection \<open>The snapshot of a tree\<close>






subsection \<open>Each entry once\<close>









subsection \<open>Samples\<close>

text \<open>A file system given by its paths: a file or link has no listing.\<close>

definition listed_fs :: "(mstring \<times> stat_buf \<times> stat_buf option \<times> mstring list option) list \<Rightarrow> file_system" where
  "listed_fs es =
     (let find = (\<lambda>p. map_of (map (\<lambda>(q, x). (encoding q, x)) es) p) in
      \<lparr>fs_opendir = (\<lambda>p. case find p of Some (_, _, Some names) \<Rightarrow> Inr ([46] # [46, 46] # map encoding names) | _ \<Rightarrow> Inl ENOENT),
       fs_readdir_errno = (\<lambda>_. 0), fs_closedir = (\<lambda>_. 0),
       fs_stat = (\<lambda>p. case find p of Some (_, Some sb, _) \<Rightarrow> Inr sb | _ \<Rightarrow> Inl ENOENT),
       fs_lstat = (\<lambda>p. case find p of Some (sb, _) \<Rightarrow> Inr sb | None \<Rightarrow> Inl ENOENT),
       fs_realpath = (\<lambda>p. case find p of Some (_, Some sb, _) \<Rightarrow> Inr p | _ \<Rightarrow> Inl ENOENT),
       fs_strerror = (\<lambda>e. str (if e = ENOENT then ''No such file or directory'' else ''error'')),
       fs_errno = 0\<rparr>)"

definition file_stat :: "64 word \<Rightarrow> stat_buf" where
  "file_stat n = \<lparr>sb_size = n, sb_mode = 0x81A4, sb_mtim_sec = n, sb_mtim_nsec = 0\<rparr>"

definition dir_stat :: stat_buf where
  "dir_stat = \<lparr>sb_size = 0, sb_mode = 0x41ED, sb_mtim_sec = 0, sb_mtim_nsec = 0\<rparr>"

definition link_stat :: stat_buf where
  "link_stat = \<lparr>sb_size = 0, sb_mode = 0xA1FF, sb_mtim_sec = 0, sb_mtim_nsec = 0\<rparr>"

text \<open>The directory \<open>/w\<close> with the file \<open>a\<close> of a size, and below it \<open>d\<close> with one file.\<close>

definition sample_fs :: "64 word \<Rightarrow> file_system" where
  "sample_fs n = listed_fs
     [(str ''/w'', dir_stat, Some dir_stat, Some [str ''d'', str ''a'']),
      (str ''/w/a'', file_stat n, Some (file_stat n), None),
      (str ''/w/d'', dir_stat, Some dir_stat, Some [str ''b'']),
      (str ''/w/d/b'', file_stat 1, Some (file_stat 1), None)]"

definition sample_kids :: "64 word \<Rightarrow> (mstring \<times> fs_tree) list" where
  "sample_kids n = [(str ''d'', DirT dir_stat [(str ''b'', FileT (file_stat 1))]), (str ''a'', FileT (file_stat n))]"

text \<open>The directory \<open>/w\<close> with a file and a link that points nowhere.\<close>

definition dangling_fs :: file_system where
  "dangling_fs = listed_fs
     [(str ''/w'', dir_stat, Some dir_stat, Some [str ''a'', str ''l'']),
      (str ''/w/a'', file_stat 1, Some (file_stat 1), None),
      (str ''/w/l'', link_stat, None, None)]"


lemma sample_shows_2: "shows_tree (sample_fs 2) (str ''/w'') (DirT dir_stat (sample_kids 2))"
  by code_simp



lemma dangling_scan: "scan_snapshot dangling_fs (str ''/w'') default_watch_options =
    Some (Inl (str ''scan warning for /w/l: No such file or directory''))"
  by code_simp

subsection \<open>Properties\<close>



end
