(* ===== verification/Chokidar_Watcher.thy ===== *)
theory Chokidar_Watcher
  imports Chokidar_Timing Chokidar_Backend Chokidar_Tree
begin

text \<open>
  The watcher (\<open>chokidar/watcher.mbt\<close>, \<open>emitter.mbt\<close>): its listeners, the paths it watches, and the
  cycle that reports what changed. A watcher is its state and its listeners; an operation works on
  the watcher, the backend's variables and the world. A raised \<open>ChokidarError\<close> is its message.
\<close>

subsection \<open>Listeners\<close>

record 'c listener_entry =
  le_event :: event_name
  le_callback :: 'c

record 'c watcher =
  wt_state :: watch_state
  wt_listeners :: "'c listener_entry list"

type_synonym ('c, 'w) watching = "'c watcher \<times> 'w world"

definition emitter_on :: "event_name \<Rightarrow> 'c \<Rightarrow> 'c listener_entry list \<Rightarrow> 'c listener_entry list" where
  "emitter_on event callback listeners = listeners @ [\<lparr>le_event = event, le_callback = callback\<rparr>]"

definition emitter_off :: "event_name \<Rightarrow> 'c \<Rightarrow> 'c listener_entry list \<Rightarrow> 'c listener_entry list" where
  "emitter_off event callback listeners =
     filter (\<lambda>entry. \<not> (le_event entry = event \<and> le_callback entry = callback)) listeners"

fun call_listeners :: "('c, 'w) host \<Rightarrow> event_name \<Rightarrow> event \<Rightarrow> 'c listener_entry list \<Rightarrow> 'w \<Rightarrow> 'w" where
  "call_listeners host name event [] w = w"
| "call_listeners host name event (entry # entries) w =
     call_listeners host name event entries (if le_event entry = name then h_call host (le_callback entry) event w else w)"

definition emitter_emit :: "('c, 'w) host \<Rightarrow> 'c listener_entry list \<Rightarrow> event \<Rightarrow> 'w \<Rightarrow> 'w" where
  "emitter_emit host listeners event w =
     (let w = call_listeners host (ev_name event) event listeners w
      in if ev_name event \<noteq> Ready \<and> ev_name event \<noteq> Raw \<and> ev_name event \<noteq> Error \<and> ev_name event \<noteq> All
         then call_listeners host All event listeners w else w)"

definition watcher_emit :: "('c, 'w) host \<Rightarrow> event \<Rightarrow> ('c, 'w) watching \<Rightarrow> ('c, 'w) watching" where
  "watcher_emit host event s =
     (case s of (self, b, w) \<Rightarrow> (self, b, emitter_emit host (wt_listeners self) event w))"

definition watcher_on :: "event_name \<Rightarrow> 'c \<Rightarrow> 'c watcher \<Rightarrow> 'c watcher" where
  "watcher_on event callback self = self\<lparr>wt_listeners := emitter_on event callback (wt_listeners self)\<rparr>"

definition watcher_off :: "event_name \<Rightarrow> 'c \<Rightarrow> 'c watcher \<Rightarrow> 'c watcher" where
  "watcher_off event callback self = self\<lparr>wt_listeners := emitter_off event callback (wt_listeners self)\<rparr>"

definition watcher_new :: "watch_options \<Rightarrow> 'c watcher" where
  "watcher_new options = \<lparr>wt_state = new_watch_state options, wt_listeners = []\<rparr>"

definition with_state :: "(watch_state \<Rightarrow> watch_state) \<Rightarrow> ('c, 'w) watching \<Rightarrow> ('c, 'w) watching" where
  "with_state f s = (case s of (self, wd) \<Rightarrow> (self\<lparr>wt_state := f (wt_state self)\<rparr>, wd))"

definition world_clock :: "('c, 'w) host \<Rightarrow> 'w world clock" where
  "world_clock host wd = (case wd of (b, w) \<Rightarrow> case h_now host w of (t, w) \<Rightarrow> (t, b, w))"

subsection \<open>Reporting an event\<close>

fun emit_allowed :: "('c, 'w) host \<Rightarrow> event list \<Rightarrow> ('c, 'w) watching \<Rightarrow> ('c, 'w) watching" where
  "emit_allowed host [] s = s"
| "emit_allowed host (item # items) s =
     (case s of (self, wd) \<Rightarrow> case allow_event (ev_name item) (ev_path item) (wt_state self) of (ok, st) \<Rightarrow>
        let s = (self\<lparr>wt_state := st\<rparr>, wd)
        in emit_allowed host items (if ok then watcher_emit host item s else s))"

definition dispatch_ready_event :: "('c, 'w) host \<Rightarrow> event \<Rightarrow> ('c, 'w) watching \<Rightarrow> ('c, 'w) watching run" where
  "dispatch_ready_event host event s =
     (case s of (self, wd) \<Rightarrow> do {
        (normalized, st, wd) \<leftarrow> normalize_atomic (world_clock host) event (wt_state self, wd);
        Some (emit_allowed host normalized (self\<lparr>wt_state := st\<rparr>, wd))
      })"

fun dispatch_all :: "('c, 'w) host \<Rightarrow> event list \<Rightarrow> ('c, 'w) watching \<Rightarrow> ('c, 'w) watching run" where
  "dispatch_all host [] s = Some s"
| "dispatch_all host (e # es) s = do { s \<leftarrow> dispatch_ready_event host e s; dispatch_all host es s }"

definition event_with_stats :: "('c, 'w) host \<Rightarrow> event \<Rightarrow> ('c, 'w) watching \<Rightarrow> event option run" where
  "event_with_stats host event s =
     (case s of (self, b, w) \<Rightarrow>
        let options = ws_options (wt_state self) in
        if wo_always_stat options \<and> ev_stats event = None \<and>
           (ev_name event = Add \<or> ev_name event = AddDir \<or> ev_name event = Change)
        then do {
          full \<leftarrow> absolute_path_for (ev_path event) (wo_cwd options);
          r \<leftarrow> stat_for_path (h_files host w) full (wo_follow_symlinks options);
          Some (case r of None \<Rightarrow> None | Some st \<Rightarrow> Some (event\<lparr>ev_stats := Some st\<rparr>))
        }
        else Some (Some event))"

definition emit_event :: "('c, 'w) host \<Rightarrow> event \<Rightarrow> ('c, 'w) watching \<Rightarrow> ('c, 'w) watching run" where
  "emit_event host event s = do {
     let options = ws_options (wt_state (fst s));
     ignore \<leftarrow> (if ws_closed (wt_state (fst s)) then Some True
                else is_ignored (ev_path event) (ev_stats event) (wo_ignored options));
     if ignore then Some s
     else do {
       e \<leftarrow> event_with_stats host event s;
       case e of
         None \<Rightarrow> Some s
       | Some event \<Rightarrow>
           (case s of (self, wd) \<Rightarrow>
             (case normalize_await_write (world_clock host) event (wt_state self, wd) of (ready_events, st, wd) \<Rightarrow>
                dispatch_all host ready_events (self\<lparr>wt_state := st\<rparr>, wd)))
     }
   }"

fun emit_all :: "('c, 'w) host \<Rightarrow> event list \<Rightarrow> ('c, 'w) watching \<Rightarrow> ('c, 'w) watching run" where
  "emit_all host [] s = Some s"
| "emit_all host (e # es) s = do { s \<leftarrow> emit_event host e s; emit_all host es s }"

subsection \<open>Events of a scan\<close>

definition record_event_in_watched :: "event \<Rightarrow> watch_state \<Rightarrow> watch_state run" where
  "record_event_in_watched event st =
     (if ev_name event = Add \<or> ev_name event = AddDir then do {
        d \<leftarrow> path_dirname (ev_path event); n \<leftarrow> path_basename (ev_path event); Some (add_child d n st)
      }
      else if ev_name event = Unlink \<or> ev_name event = UnlinkDir then do {
        d \<leftarrow> path_dirname (ev_path event); n \<leftarrow> path_basename (ev_path event); Some (remove_child d n st)
      }
      else Some st)"

definition scanned_event :: "mstring \<Rightarrow> event \<Rightarrow> watch_options \<Rightarrow> event run" where
  "scanned_event root event options = do {
     full \<leftarrow> join_path root (ev_path event);
     path \<leftarrow> event_path_for full (wo_cwd options);
     Some (event\<lparr>ev_path := path\<rparr>)
   }"

definition emit_scanned_event :: "('c, 'w) host \<Rightarrow> mstring \<Rightarrow> event \<Rightarrow> ('c, 'w) watching \<Rightarrow> ('c, 'w) watching run" where
  "emit_scanned_event host root event s =
     (case s of (self, wd) \<Rightarrow> do {
        event \<leftarrow> scanned_event root event (ws_options (wt_state self));
        st \<leftarrow> record_event_in_watched event (wt_state self);
        emit_event host event (self\<lparr>wt_state := st\<rparr>, wd)
      })"

definition queue_scanned_event :: "mstring \<Rightarrow> event \<Rightarrow> watch_state \<Rightarrow> watch_state run" where
  "queue_scanned_event root event st = do {
     event \<leftarrow> scanned_event root event (ws_options st);
     st \<leftarrow> record_event_in_watched event st;
     Some (st\<lparr>ws_pending_events := ws_pending_events st @ [event]\<rparr>)
   }"

fun emit_scanned :: "('c, 'w) host \<Rightarrow> mstring \<Rightarrow> event list \<Rightarrow> ('c, 'w) watching \<Rightarrow> ('c, 'w) watching run" where
  "emit_scanned host root [] s = Some s"
| "emit_scanned host root (e # es) s = do { s \<leftarrow> emit_scanned_event host root e s; emit_scanned host root es s }"

fun queue_scanned :: "mstring \<Rightarrow> event list \<Rightarrow> watch_state \<Rightarrow> watch_state run" where
  "queue_scanned root [] st = Some st"
| "queue_scanned root (e # es) st = do { st \<leftarrow> queue_scanned_event root e st; queue_scanned root es st }"

definition initial_events_from_entries :: "snapshot_entry list \<Rightarrow> watch_options \<Rightarrow> event list" where
  "initial_events_from_entries entries options =
     (if wo_ignore_initial options then []
      else map (\<lambda>entry. event_from_entry (event_name_for_add (se_kind entry)) entry) entries)"

definition scan_root :: "('c, 'w) host \<Rightarrow> mstring \<Rightarrow> bool \<Rightarrow> ('c, 'w) watching \<Rightarrow> (mstring option \<times> ('c, 'w) watching) run" where
  "scan_root host root initial s =
     (case s of (self, b, w) \<Rightarrow> do {
        let old_entries = snapshot_for (wt_state self) root;
        let options = ws_options (wt_state self);
        r \<leftarrow> scan_snapshot (h_files host w) root options;
        case r of
          Inl message \<Rightarrow> Some (Some message, s)
        | Inr new_entries \<Rightarrow> do {
            let st = set_snapshot root new_entries (wt_state self);
            let events = (if initial then initial_events_from_entries new_entries options
                          else diff_snapshots old_entries new_entries);
            if initial then do { st \<leftarrow> queue_scanned root events st; Some (None, self\<lparr>wt_state := st\<rparr>, b, w) }
            else do { s \<leftarrow> emit_scanned host root events (self\<lparr>wt_state := st\<rparr>, b, w); Some (None, s) }
          }
      })"

subsection \<open>A cycle\<close>

definition raw_event_affects_root :: "raw_event \<Rightarrow> mstring \<Rightarrow> bool run" where
  "raw_event_affects_root raw root =
     (if re_watched_path raw = [] then Some True
      else if re_watched_path raw = root then Some True
      else case re_event_path raw of
        None \<Rightarrow> Some False
      | Some path \<Rightarrow> do { full \<leftarrow> join_path (re_watched_path raw) path; recursive_path_matches root full })"

definition path_for_raw_event :: "raw_event \<Rightarrow> watch_options \<Rightarrow> mstring run" where
  "path_for_raw_event raw options =
     (case re_event_path raw of
        Some path \<Rightarrow> do { full \<leftarrow> join_path (re_watched_path raw) path; event_path_for full (wo_cwd options) }
      | None \<Rightarrow> event_path_for (re_watched_path raw) (wo_cwd options))"

definition plain_event :: "event_name \<Rightarrow> event" where
  "plain_event name = \<lparr>ev_name = name, ev_path = [], ev_stats = None, ev_raw = None, ev_error = None\<rparr>"

fun emit_raw_events :: "('c, 'w) host \<Rightarrow> raw_event list \<Rightarrow> ('c, 'w) watching \<Rightarrow> ('c, 'w) watching run" where
  "emit_raw_events host [] s = Some s"
| "emit_raw_events host (raw # raws) s = do {
     path \<leftarrow> path_for_raw_event raw (ws_options (wt_state (fst s)));
     s \<leftarrow> emit_event host ((plain_event Raw)\<lparr>ev_path := path, ev_raw := Some raw\<rparr>) s;
     emit_raw_events host raws s
   }"

text \<open>The scans of a cycle; the first that fails ends them.\<close>

fun scan_roots :: "('c, 'w) host \<Rightarrow> mstring list \<Rightarrow> ('c, 'w) watching \<Rightarrow> (mstring option \<times> ('c, 'w) watching) run" where
  "scan_roots host [] s = Some (None, s)"
| "scan_roots host (root # roots) s = do {
     (e, s) \<leftarrow> scan_root host root False s;
     case e of Some message \<Rightarrow> Some (Some message, s) | None \<Rightarrow> scan_roots host roots s
   }"

fun scan_affected :: "('c, 'w) host \<Rightarrow> raw_event \<Rightarrow> mstring list \<Rightarrow> ('c, 'w) watching \<Rightarrow> (mstring option \<times> ('c, 'w) watching) run" where
  "scan_affected host raw [] s = Some (None, s)"
| "scan_affected host raw (root # roots) s = do {
     affects \<leftarrow> raw_event_affects_root raw root;
     if affects then do {
       (e, s) \<leftarrow> scan_root host root False s;
       case e of Some message \<Rightarrow> Some (Some message, s) | None \<Rightarrow> scan_affected host raw roots s
     }
     else scan_affected host raw roots s
   }"

fun scan_for_events :: "('c, 'w) host \<Rightarrow> raw_event list \<Rightarrow> ('c, 'w) watching \<Rightarrow> (mstring option \<times> ('c, 'w) watching) run" where
  "scan_for_events host [] s = Some (None, s)"
| "scan_for_events host (raw # raws) s = do {
     (e, s) \<leftarrow> scan_affected host raw (ws_root_paths (wt_state (fst s))) s;
     case e of Some message \<Rightarrow> Some (Some message, s) | None \<Rightarrow> scan_for_events host raws s
   }"

definition process_raw_events :: "('c, 'w) host \<Rightarrow> raw_event list \<Rightarrow> ('c, 'w) watching \<Rightarrow> (mstring option \<times> ('c, 'w) watching) run" where
  "process_raw_events host raw_events s = do {
     s \<leftarrow> emit_all host (ws_pending_events (wt_state (fst s))) s;
     let s = with_state (\<lambda>st. st\<lparr>ws_pending_events := []\<rparr>) s;
     s \<leftarrow> (if \<not> ws_ready (wt_state (fst s))
           then emit_event host (plain_event Ready) (with_state (\<lambda>st. st\<lparr>ws_ready := True\<rparr>) s)
           else Some s);
     s \<leftarrow> emit_raw_events host raw_events s;
     if wo_use_polling (ws_options (wt_state (fst s)))
     then scan_roots host (ws_root_paths (wt_state (fst s))) s
     else scan_for_events host raw_events s
   }"

definition finish_process_cycle :: "('c, 'w) host \<Rightarrow> ('c, 'w) watching \<Rightarrow> ('c, 'w) watching run" where
  "finish_process_cycle host s =
     (case s of (self, wd) \<Rightarrow>
        case flush_stable_writes (world_clock host) (wt_state self, wd) of (ready_events, st, wd) \<Rightarrow> do {
          (self, wd) \<leftarrow> dispatch_all host ready_events (self\<lparr>wt_state := st\<rparr>, wd);
          let (pendings, st, wd) = flush_expired_pending_unlinks (world_clock host) (wt_state self, wd);
          let s = emit_allowed host pendings (self\<lparr>wt_state := st\<rparr>, wd);
          Some (with_state clear_throttles s)
        })"

definition watcher_process :: "('c, 'w) host \<Rightarrow> ('c, 'w) watching \<Rightarrow> (mstring option \<times> ('c, 'w) watching) run" where
  "watcher_process host s =
     (case s of (self, wd) \<Rightarrow>
        if ws_closed (wt_state self) then Some (None, s)
        else do {
          (raw_events, wd) \<leftarrow> backend_drain_events host wd;
          (error, s) \<leftarrow> process_raw_events host raw_events (self, wd);
          s \<leftarrow> finish_process_cycle host s;
          case error of
            Some message \<Rightarrow> Some (Some message, watcher_emit host ((plain_event Error)\<lparr>ev_error := Some message\<rparr>) s)
          | None \<Rightarrow> Some (None, s)
        })"

subsection \<open>Starting and ending\<close>

record planned_add =
  pa_root :: mstring
  pa_handle :: int
  pa_entries :: "snapshot_entry list"
  pa_events :: "event list"

fun close_planned_adds :: "('c, 'w) host \<Rightarrow> planned_add list \<Rightarrow> 'w world \<Rightarrow> 'w world" where
  "close_planned_adds host [] wd = wd"
| "close_planned_adds host (plan # plans) wd = close_planned_adds host plans (backend_close host (pa_handle plan) wd)"

text \<open>The paths are planned first; a failure closes what was started and adds nothing.\<close>

fun plan_adds ::
    "('c, 'w) host \<Rightarrow> watch_options \<Rightarrow> mstring list \<Rightarrow> planned_add list \<Rightarrow> 'w world \<Rightarrow> ((mstring + planned_add list) \<times> 'w world) run" where
  "plan_adds host options [] plans wd = Some (Inr plans, wd)"
| "plan_adds host options (path # paths) plans wd = do {
     root \<leftarrow> normalize_path_ck path;
     (h, wd) \<leftarrow> backend_watch host root options wd;
     case h of
       Inl message \<Rightarrow> Some (Inl message, close_planned_adds host plans wd)
     | Inr handle \<Rightarrow> do {
         r \<leftarrow> scan_snapshot (h_files host (snd wd)) root options;
         case r of
           Inl message \<Rightarrow> Some (Inl message, close_planned_adds host plans (backend_close host handle wd))
         | Inr entries \<Rightarrow>
             plan_adds host options paths
               (plans @ [\<lparr>pa_root = root, pa_handle = handle, pa_entries = entries,
                  pa_events = initial_events_from_entries entries options\<rparr>]) wd
       }
   }"

fun commit_adds :: "planned_add list \<Rightarrow> watch_state \<Rightarrow> watch_state run" where
  "commit_adds [] st = Some st"
| "commit_adds (plan # plans) st = do {
     d \<leftarrow> path_dirname (pa_root plan);
     n \<leftarrow> path_basename (pa_root plan);
     let st = remember_root (pa_root plan) (add_child d n st);
     let st = st\<lparr>ws_handles := ws_handles st @ [pa_handle plan]\<rparr>;
     let st = set_snapshot (pa_root plan) (pa_entries plan) st;
     st \<leftarrow> queue_scanned (pa_root plan) (pa_events plan) st;
     commit_adds plans st
   }"

datatype watch_paths = One mstring | Many "mstring list"

definition watch_path_values :: "watch_paths \<Rightarrow> mstring list" where
  "watch_path_values paths = (case paths of One path \<Rightarrow> [path] | Many items \<Rightarrow> items)"

definition watcher_add :: "('c, 'w) host \<Rightarrow> watch_paths \<Rightarrow> ('c, 'w) watching \<Rightarrow> (mstring option \<times> ('c, 'w) watching) run" where
  "watcher_add host paths s =
     (case s of (self, wd) \<Rightarrow>
        if [] \<in> set (watch_path_values paths) then Some (Some (str ''watch path must not be empty''), s)
        else do {
          (r, wd) \<leftarrow> plan_adds host (ws_options (wt_state self)) (watch_path_values paths) [] wd;
          case r of
            Inl message \<Rightarrow> Some (Some message, self, wd)
          | Inr plans \<Rightarrow> do { st \<leftarrow> commit_adds plans (wt_state self); Some (None, self\<lparr>wt_state := st\<rparr>, wd) }
        })"

fun close_handles :: "('c, 'w) host \<Rightarrow> int list \<Rightarrow> 'w world \<Rightarrow> 'w world" where
  "close_handles host [] wd = wd"
| "close_handles host (handle # handles) wd = close_handles host handles (backend_close host handle wd)"

definition watcher_close :: "('c, 'w) host \<Rightarrow> ('c, 'w) watching \<Rightarrow> ('c, 'w) watching" where
  "watcher_close host s =
     (case s of (self, wd) \<Rightarrow>
        (\<lparr>wt_state = watch_state_clear ((wt_state self)\<lparr>ws_closed := True\<rparr>), wt_listeners = []\<rparr>,
         close_handles host (ws_handles (wt_state self)) wd))"

subsection \<open>Options from the environment\<close>

fun lowercase_chars :: "int list \<Rightarrow> mstring \<Rightarrow> mstring run" where
  "lowercase_chars [] result = Some result"
| "lowercase_chars (ch # chs) result = do {
     piece \<leftarrow> char_to_string (if 65 \<le> ch \<and> ch \<le> 90 then ch + 32 else ch);
     lowercase_chars chs (result @ piece)
   }"

definition ascii_lowercase :: "mstring \<Rightarrow> mstring run" where
  "ascii_lowercase s = lowercase_chars (string_chars s) []"

fun parse_digits :: "int list \<Rightarrow> 32 word \<Rightarrow> 32 word option" where
  "parse_digits [] result = Some result"
| "parse_digits (ch # chs) result =
     (let d = ch - 48 in if d < 0 \<or> 9 < d then None else parse_digits chs (result * 10 + word_of_int d))"

definition parse_int_option :: "mstring \<Rightarrow> 32 word option" where
  "parse_int_option s = (if s = [] then None else parse_digits (string_chars s) 0)"

definition apply_env_overrides :: "('c, 'w) host \<Rightarrow> watch_options \<Rightarrow> 'w \<Rightarrow> watch_options run" where
  "apply_env_overrides host options w = do {
     p \<leftarrow> chokidar_getenv host (str ''CHOKIDAR_USEPOLLING'') w;
     opts \<leftarrow> (case p of
         Some val \<Rightarrow> do {
           lower \<leftarrow> ascii_lowercase val;
           Some (if lower = str ''false'' \<or> lower = str ''0'' then options\<lparr>wo_use_polling := False\<rparr>
                 else options\<lparr>wo_use_polling := (lower \<noteq> [])\<rparr>)
         }
       | None \<Rightarrow> Some options);
     i \<leftarrow> chokidar_getenv host (str ''CHOKIDAR_INTERVAL'') w;
     Some (case i of
         Some val \<Rightarrow> (case parse_int_option val of Some n \<Rightarrow> opts\<lparr>wo_interval := n\<rparr> | None \<Rightarrow> opts)
       | None \<Rightarrow> opts)
   }"

definition chokidar_watch :: "('c, 'w) host \<Rightarrow> watch_paths \<Rightarrow> watch_options \<Rightarrow> 'w world \<Rightarrow> ((mstring + 'c watcher) \<times> 'w world) run" where
  "chokidar_watch host paths options wd = do {
     options \<leftarrow> apply_env_overrides host options (snd wd);
     (e, self, wd) \<leftarrow> watcher_add host paths (watcher_new options, wd);
     Some (case e of Some message \<Rightarrow> Inl message | None \<Rightarrow> Inr self, wd)
   }"

end
