(* ===== verification/Chokidar_Cycle.thy ===== *)
theory Chokidar_Cycle
  imports Chokidar_Watcher
begin

text \<open>
  What a cycle of the watcher tells its listeners: the events it reports, in order, each to every
  listener of its kind and then to those of all kinds; no path is reported changed twice; an error is
  the last event; a closed watcher is silent. What the callbacks are told is read off a log that the
  world keeps.
\<close>

subsection \<open>What listeners are told\<close>

definition logs :: "('c, 'w) host \<Rightarrow> ('w \<Rightarrow> ('c \<times> event) list) \<Rightarrow> bool" where
  "logs host lg \<longleftrightarrow> (\<forall>c e w. lg (h_call host c e w) = lg w @ [(c, e)]) \<and> (\<forall>w. lg (snd (h_now host w)) = lg w) \<and>
     (\<forall>fd w. lg (snd (h_inotify_read host fd w)) = lg w)"

abbreviation callbacks :: "event_name \<Rightarrow> 'c listener_entry list \<Rightarrow> 'c list" where
  "callbacks name ls \<equiv> map le_callback (filter (\<lambda>l. le_event l = name) ls)"

definition forwarded :: "event_name \<Rightarrow> bool" where
  "forwarded name \<longleftrightarrow> name \<noteq> Ready \<and> name \<noteq> Raw \<and> name \<noteq> Error \<and> name \<noteq> All"

definition told :: "'c listener_entry list \<Rightarrow> event \<Rightarrow> ('c \<times> event) list" where
  "told ls e = map (\<lambda>c. (c, e)) (callbacks (ev_name e) ls @ (if forwarded (ev_name e) then callbacks All ls else []))"

definition reported :: "'c listener_entry list \<Rightarrow> event list \<Rightarrow> ('c \<times> event) list" where
  "reported ls es = concat (map (told ls) es)"

lemma reported_simps [simp]:
  "reported ls [] = []" "reported ls (e # es) = told ls e @ reported ls es" "reported ls (es @ fs) = reported ls es @ reported ls fs"
  by (simp_all add: reported_def)

lemma call_listeners_log:
  "logs host lg \<Longrightarrow> lg (call_listeners host name e ls w) = lg w @ map (\<lambda>c. (c, e)) (callbacks name ls)"
  by (induction host name e ls w rule: call_listeners.induct) (auto simp: logs_def)

lemma emit_log: "logs host lg \<Longrightarrow> lg (emitter_emit host ls e w) = lg w @ told ls e"
  by (simp add: emitter_emit_def call_listeners_log told_def forwarded_def Let_def)

subsection \<open>A part of a cycle\<close>

definition changes :: "event list \<Rightarrow> mstring list" where
  "changes es = map ev_path (filter (\<lambda>e. ev_name e = Change) es)"

lemma changes_simps [simp]: "changes [] = []" "changes (es @ fs) = changes es @ changes fs"
  "changes (e # es) = (if ev_name e = Change then ev_path e # changes es else changes es)"
  by (simp_all add: changes_def)

abbreviation state_of :: "('c, 'w) watching \<Rightarrow> watch_state" where
  "state_of s \<equiv> wt_state (fst s)"

abbreviation listeners_of :: "('c, 'w) watching \<Rightarrow> 'c listener_entry list" where
  "listeners_of s \<equiv> wt_listeners (fst s)"

text \<open>
  A part of a cycle leads from a watcher to another and reports some events; it keeps what only the
  start and the end of a watcher change, and remembers the changes it reports.
\<close>

definition same_watcher :: "('c, 'w) watching \<Rightarrow> ('c, 'w) watching \<Rightarrow> bool" where
  "same_watcher s s' \<longleftrightarrow> listeners_of s' = listeners_of s \<and> ws_options (state_of s') = ws_options (state_of s) \<and>
     ws_closed (state_of s') = ws_closed (state_of s) \<and> ws_root_paths (state_of s') = ws_root_paths (state_of s)"

definition cycle_part :: "('w \<Rightarrow> ('c \<times> event) list) \<Rightarrow> ('c, 'w) watching \<Rightarrow> event list \<Rightarrow> ('c, 'w) watching \<Rightarrow> bool" where
  "cycle_part lg s es s' \<longleftrightarrow> same_watcher s s' \<and> lg (snd (snd s')) = lg (snd (snd s)) @ reported (listeners_of s) es \<and>
     ws_throttled_changes (state_of s') = ws_throttled_changes (state_of s) @ changes es \<and>
     (distinct (ws_throttled_changes (state_of s)) \<longrightarrow> distinct (ws_throttled_changes (state_of s')))"

lemma cycle_part_trans: "cycle_part lg s es s' \<Longrightarrow> cycle_part lg s' fs s'' \<Longrightarrow> cycle_part lg s (es @ fs) s''"
  unfolding cycle_part_def same_watcher_def by auto

definition part :: "('w \<Rightarrow> ('c \<times> event) list) \<Rightarrow> ('c, 'w) watching \<Rightarrow> ('c, 'w) watching \<Rightarrow> bool" where
  "part lg s s' \<longleftrightarrow> (\<exists>es. cycle_part lg s es s')"

lemma part_trans: "part lg s s' \<Longrightarrow> part lg s' s'' \<Longrightarrow> part lg s s''"
  unfolding part_def using cycle_part_trans by blast

lemma part_silent:
  "same_watcher s s' \<Longrightarrow> lg (snd (snd s')) = lg (snd (snd s)) \<Longrightarrow>
   ws_throttled_changes (state_of s') = ws_throttled_changes (state_of s) \<Longrightarrow> part lg s s'"
  unfolding part_def cycle_part_def by (rule exI [of _ "[]"]) simp

lemma part_refl [simp]: "part lg s s"
  by (rule part_silent) (simp_all add: same_watcher_def)

lemma clock_log: "logs host lg \<Longrightarrow> lg (snd (snd (world_clock host wd))) = lg (snd wd)"
  unfolding world_clock_def logs_def by (cases wd) (simp split: prod.splits, metis snd_conv)

lemma expired_log:
  assumes "logs host lg" and "timestamp_expired (world_clock host) since window wd = (b, wd')"
  shows "lg (snd wd') = lg (snd wd)"
  using clock_log [OF assms(1), of wd] assms(2) by (auto simp: timestamp_expired_def split: prod.splits)

lemma flush_rest_log:
  "logs host lg \<Longrightarrow> flush_rest (world_clock host) since window ps wd = (over, kept, wd') \<Longrightarrow> lg (snd wd') = lg (snd wd)"
proof (induction ps arbitrary: wd over kept wd')
  case (Cons p ps)
  obtain b wd1 where b: "timestamp_expired (world_clock host) (since p) window wd = (b, wd1)" by (metis surj_pair)
  obtain o1 k1 wd2 where r: "flush_rest (world_clock host) since window ps wd1 = (o1, k1, wd2)" by (metis prod_cases3)
  show ?case using Cons.IH [OF Cons.prems(1) r] expired_log [OF Cons.prems(1) b] Cons.prems(2) b r by (auto split: if_splits)
qed simp

lemma flush_loop_log:
  assumes "logs host lg" and "flush_loop (world_clock host) since event_of window 0 ps [] wd = (es, kept, wd')"
  shows "lg (snd wd') = lg (snd wd)"
proof -
  obtain over kept1 wd1 where r: "flush_rest (world_clock host) since window ps wd = (over, kept1, wd1)" by (metis prod_cases3)
  then have "wd' = wd1" using assms(2) by (simp add: flush_loop_all)
  then show ?thesis using flush_rest_log [OF assms(1) r] by simp
qed

lemma emit_one_part:
  assumes "logs host lg" and "allow_event (ev_name item) (ev_path item) (wt_state self) = (ok, st)"
  shows "part lg (self, wd)
    (let s = (self\<lparr>wt_state := st\<rparr>, wd) in if ok then watcher_emit host item s else s)"
proof -
  have st: "ws_options st = ws_options (wt_state self)" "ws_closed st = ws_closed (wt_state self)"
      "ws_root_paths st = ws_root_paths (wt_state self)"
      "ws_throttled_changes st = ws_throttled_changes (wt_state self) @ changes (if ok then [item] else [])"
      "distinct (ws_throttled_changes (wt_state self)) \<longrightarrow> distinct (ws_throttled_changes st)"
    using assms(2) by (auto simp: allow_event_def split: if_splits)
  have "cycle_part lg (self, wd) (if ok then [item] else [])
      (if ok then watcher_emit host item (self\<lparr>wt_state := st\<rparr>, wd) else (self\<lparr>wt_state := st\<rparr>, wd))"
    using st emit_log [OF assms(1)]
    by (cases ok) (simp_all add: cycle_part_def same_watcher_def watcher_emit_def split: prod.splits if_splits)
  then show ?thesis unfolding part_def Let_def by blast
qed

lemma emit_allowed_part: "logs host lg \<Longrightarrow> part lg s (emit_allowed host items s)"
proof (induction items arbitrary: s)
  case (Cons item items)
  obtain self wd where s: "s = (self, wd)" by (metis surj_pair)
  obtain ok st where a: "allow_event (ev_name item) (ev_path item) (wt_state self) = (ok, st)" by (metis surj_pair)
  show ?case
    using part_trans [OF emit_one_part [OF Cons.prems a, of wd] Cons.IH [OF Cons.prems]] s a by (simp add: Let_def)
qed simp

lemma atomic_kept:
  assumes "logs host lg" and "normalize_atomic (world_clock host) e (st, wd) = Some (es, st', wd')"
  shows "lg (snd wd') = lg (snd wd) \<and> (\<exists>ps. st' = st\<lparr>ws_pending_unlinks := ps\<rparr>)"
proof -
  have keep: "\<exists>ps. st = st\<lparr>ws_pending_unlinks := ps\<rparr>" by (rule exI [of _ "ws_pending_unlinks st"]) simp
  show ?thesis
    using assms(2) clock_log [OF assms(1), of wd] expired_log [OF assms(1)] keep
    by (auto simp: normalize_atomic_def Let_def bind_eq_Some_conv split: if_splits option.splits prod.splits)
qed

lemma dispatch_part:
  assumes "logs host lg" and "dispatch_ready_event host e s = Some s'"
  shows "part lg s s'"
proof -
  obtain self b w where s: "s = (self, b, w)" by (metis prod_cases3)
  obtain es st wd where n: "normalize_atomic (world_clock host) e (wt_state self, b, w) = Some (es, st, wd)"
    and s': "s' = emit_allowed host es (self\<lparr>wt_state := st\<rparr>, wd)"
    using assms(2) s by (auto simp: dispatch_ready_event_def bind_eq_Some_conv)
  have "part lg s (self\<lparr>wt_state := st\<rparr>, wd)"
    using atomic_kept [OF assms(1) n] s by (intro part_silent) (auto simp: same_watcher_def)
  then show ?thesis using s' emit_allowed_part [OF assms(1)] part_trans by blast
qed

lemma dispatch_all_part: "logs host lg \<Longrightarrow> dispatch_all host es s = Some s' \<Longrightarrow> part lg s s'"
  by (induction es arbitrary: s) (auto simp: bind_eq_Some_conv intro: part_trans dispatch_part)

lemma await_kept:
  assumes "logs host lg" and "normalize_await_write (world_clock host) e (st, wd) = (es, st', wd')"
  shows "lg (snd wd') = lg (snd wd) \<and> (\<exists>ps. st' = st\<lparr>ws_pending_writes := ps\<rparr>)"
proof -
  have keep: "\<exists>ps. st = st\<lparr>ws_pending_writes := ps\<rparr>" by (rule exI [of _ "ws_pending_writes st"]) simp
  show ?thesis
    using assms(2) clock_log [OF assms(1), of wd] expired_log [OF assms(1)] keep
    by (auto simp: normalize_await_write_def Let_def split: if_splits option.splits prod.splits await_write_finish.splits)
qed

lemma emit_event_part:
  assumes "logs host lg" and "emit_event host e s = Some s'"
  shows "part lg s s'"
proof (cases "s' = s")
  case False
  obtain self b w where s: "s = (self, b, w)" by (metis prod_cases3)
  with assms(2) False obtain e' where
    e': "(case normalize_await_write (world_clock host) e' (wt_state self, b, w) of
        (ready_events, st, wd) \<Rightarrow> dispatch_all host ready_events (self\<lparr>wt_state := st\<rparr>, wd)) = Some s'"
    by (auto simp: emit_event_def Let_def bind_eq_Some_conv split: if_splits option.splits)
  obtain es st wd where n: "normalize_await_write (world_clock host) e' (wt_state self, b, w) = (es, st, wd)"
    by (metis prod_cases3)
  with e' have d: "dispatch_all host es (self\<lparr>wt_state := st\<rparr>, wd) = Some s'" by simp
  have "part lg s (self\<lparr>wt_state := st\<rparr>, wd)"
    using await_kept [OF assms(1) n] s by (intro part_silent) (auto simp: same_watcher_def)
  then show ?thesis using dispatch_all_part [OF assms(1) d] part_trans by blast
qed simp

lemma emit_all_part: "logs host lg \<Longrightarrow> emit_all host es s = Some s' \<Longrightarrow> part lg s s'"
  by (induction es arbitrary: s) (auto simp: bind_eq_Some_conv intro: part_trans emit_event_part)

lemma recorded_kept: "record_event_in_watched e st = Some st' \<Longrightarrow> \<exists>ds. st' = st\<lparr>ws_dirs := ds\<rparr>"
proof -
  assume r: "record_event_in_watched e st = Some st'"
  have "\<exists>ds. st = st\<lparr>ws_dirs := ds\<rparr>" by (rule exI [of _ "ws_dirs st"]) simp
  moreover have "\<exists>ds. add_child d c st = st\<lparr>ws_dirs := ds\<rparr>" "\<exists>ds. remove_child d c st = st\<lparr>ws_dirs := ds\<rparr>" for d c
    using calculation by (auto simp: add_child_def ensure_dir_def remove_child_def Let_def split: option.splits)
  ultimately show ?thesis
    using r by (auto simp: record_event_in_watched_def bind_eq_Some_conv split: if_splits)
qed

lemma emit_scanned_part: "logs host lg \<Longrightarrow> emit_scanned host root es s = Some s' \<Longrightarrow> part lg s s'"
proof (induction es arbitrary: s)
  case (Cons e es)
  obtain self b w where s: "s = (self, b, w)" by (metis prod_cases3)
  obtain e' st s1 where r: "record_event_in_watched e' (wt_state self) = Some st"
    and e: "emit_event host e' (self\<lparr>wt_state := st\<rparr>, b, w) = Some s1" and rest: "emit_scanned host root es s1 = Some s'"
    using Cons.prems(2) s by (auto simp: emit_scanned_event_def bind_eq_Some_conv)
  have "part lg s (self\<lparr>wt_state := st\<rparr>, b, w)"
    using recorded_kept [OF r] s by (intro part_silent) (auto simp: same_watcher_def)
  then show ?case using emit_event_part [OF Cons.prems(1) e] Cons.IH [OF Cons.prems(1) rest] part_trans by blast
qed simp

lemma scan_root_part:
  assumes "logs host lg" and "scan_root host root False s = Some (err, s')"
  shows "part lg s s'"
proof (cases "s' = s")
  case False
  obtain self b w where s: "s = (self, b, w)" by (metis prod_cases3)
  obtain r where "scan_snapshot (h_files host w) root (ws_options (wt_state self)) = Some r"
    using assms(2) s by (auto simp: scan_root_def Let_def bind_eq_Some_conv)
  then obtain new where e: "emit_scanned host root (diff_snapshots (snapshot_for (wt_state self) root) new)
      (self\<lparr>wt_state := set_snapshot root new (wt_state self)\<rparr>, b, w) = Some s'"
    using assms(2) False s by (cases r) (auto simp: scan_root_def Let_def bind_eq_Some_conv)
  have "part lg s (self\<lparr>wt_state := set_snapshot root new (wt_state self)\<rparr>, b, w)"
    using s by (intro part_silent) (auto simp: same_watcher_def set_snapshot_def)
  then show ?thesis using emit_scanned_part [OF assms(1) e] part_trans by blast
qed simp

lemma scan_roots_part: "logs host lg \<Longrightarrow> scan_roots host roots s = Some (err, s') \<Longrightarrow> part lg s s'"
  by (induction roots arbitrary: s)
    (auto simp: bind_eq_Some_conv split: option.splits intro: part_trans scan_root_part)

lemma scan_affected_part: "logs host lg \<Longrightarrow> scan_affected host raw roots s = Some (err, s') \<Longrightarrow> part lg s s'"
  by (induction roots arbitrary: s)
    (auto simp: bind_eq_Some_conv split: option.splits if_splits intro: part_trans scan_root_part)

lemma scan_for_events_part: "logs host lg \<Longrightarrow> scan_for_events host raws s = Some (err, s') \<Longrightarrow> part lg s s'"
  by (induction raws arbitrary: s)
    (auto simp: bind_eq_Some_conv split: option.splits intro: part_trans scan_affected_part)

lemma raw_events_part: "logs host lg \<Longrightarrow> emit_raw_events host raws s = Some s' \<Longrightarrow> part lg s s'"
  by (induction raws arbitrary: s) (auto simp: bind_eq_Some_conv intro: part_trans emit_event_part)

lemma with_state_part:
  "ws_throttled_changes (f (state_of s)) = ws_throttled_changes (state_of s) \<Longrightarrow> ws_options (f (state_of s)) = ws_options (state_of s) \<Longrightarrow>
   ws_closed (f (state_of s)) = ws_closed (state_of s) \<Longrightarrow> ws_root_paths (f (state_of s)) = ws_root_paths (state_of s) \<Longrightarrow>
   part lg s (with_state f s)"
  by (rule part_silent) (auto simp: with_state_def same_watcher_def split: prod.splits)

lemma process_raw_part:
  assumes "logs host lg" and "process_raw_events host raws s = Some (err, s')"
  shows "part lg s s'"
proof -
  let ?clear = "with_state (\<lambda>st. st\<lparr>ws_pending_events := []\<rparr>)" and ?ready = "with_state (\<lambda>st. st\<lparr>ws_ready := True\<rparr>)"
  obtain s1 s2 s3 where 1: "emit_all host (ws_pending_events (state_of s)) s = Some s1"
    and 2: "(if \<not> ws_ready (state_of (?clear s1)) then emit_event host (plain_event Ready) (?ready (?clear s1))
             else Some (?clear s1)) = Some s2"
    and 3: "emit_raw_events host raws s2 = Some s3"
    and 4: "(if wo_use_polling (ws_options (state_of s3)) then scan_roots host (ws_root_paths (state_of s3)) s3
             else scan_for_events host raws s3) = Some (err, s')"
    using assms(2) unfolding process_raw_events_def Let_def bind_eq_Some_conv by blast
  have "part lg s s1" using emit_all_part [OF assms(1) 1] .
  moreover have "part lg s1 (?clear s1)" "part lg (?clear s1) (?ready (?clear s1))" by (rule with_state_part; simp)+
  moreover have "part lg (?clear s1) s2 \<or> part lg (?ready (?clear s1)) s2"
    using 2 emit_event_part [OF assms(1)] by (auto split: if_splits)
  moreover have "part lg s2 s3" using raw_events_part [OF assms(1) 3] .
  moreover have "part lg s3 s'" using 4 scan_roots_part [OF assms(1)] scan_for_events_part [OF assms(1)] by (auto split: if_splits)
  ultimately show ?thesis using part_trans by metis
qed

lemma finish_part:
  assumes "logs host lg" and "finish_process_cycle host s = Some s'"
  shows "\<exists>s1. part lg s s1 \<and> s' = with_state clear_throttles s1"
proof -
  obtain self wd where s: "s = (self, wd)" by (metis surj_pair)
  obtain es st wd1 where f: "flush_stable_writes (world_clock host) (wt_state self, wd) = (es, st, wd1)" by (metis prod_cases3)
  obtain self2 wd2 where d: "dispatch_all host es (self\<lparr>wt_state := st\<rparr>, wd1) = Some (self2, wd2)"
    using assms(2) s f by (auto simp: finish_process_cycle_def bind_eq_Some_conv)
  obtain us st3 wd3 where u: "flush_expired_pending_unlinks (world_clock host) (wt_state self2, wd2) = (us, st3, wd3)"
    by (metis prod_cases3)
  have s': "s' = with_state clear_throttles (emit_allowed host us (self2\<lparr>wt_state := st3\<rparr>, wd3))"
    using assms(2) s f d u by (simp add: finish_process_cycle_def)
  have "lg (snd wd1) = lg (snd wd)" "lg (snd wd3) = lg (snd wd2)"
    using flush_loop_log [OF assms(1) flush_writes_loop(1) [OF f]] flush_loop_log [OF assms(1) flush_unlinks_loop(1) [OF u]]
    by simp_all
  moreover obtain ps qs where "st = (wt_state self)\<lparr>ws_pending_writes := ps\<rparr>" "st3 = (wt_state self2)\<lparr>ws_pending_unlinks := qs\<rparr>"
    using flush_writes_loop(2) [OF f] flush_unlinks_loop(2) [OF u] by blast
  ultimately have "part lg s (self\<lparr>wt_state := st\<rparr>, wd1)" "part lg (self2, wd2) (self2\<lparr>wt_state := st3\<rparr>, wd3)"
    using s by (auto intro!: part_silent simp: same_watcher_def)
  moreover have "part lg (self\<lparr>wt_state := st\<rparr>, wd1) (self2, wd2)" using dispatch_all_part [OF assms(1) d] .
  moreover have "part lg (self2\<lparr>wt_state := st3\<rparr>, wd3) (emit_allowed host us (self2\<lparr>wt_state := st3\<rparr>, wd3))"
    by (rule emit_allowed_part [OF assms(1)])
  ultimately show ?thesis using s' part_trans by metis
qed

text \<open>A cycle that starts with no changes remembered ends so, and what it reports changes no path twice.\<close>

lemma read_log: "logs host lg \<Longrightarrow> h_inotify_read host fd w = (evs, w') \<Longrightarrow> lg w' = lg w"
  unfolding logs_def by (metis snd_conv)

lemma poll_log:
  fixes host :: "('c, 'w) host"
  assumes "poll_reads host b w = Some y"
  shows "logs host lg \<longrightarrow> lg (snd y) = lg w"
proof (rule poll_reads.raw_induct [where P = "\<lambda>host _ w y. logs host lg \<longrightarrow> lg (snd y) = lg w", OF _ assms])
  fix reads :: "('c, 'w) host \<Rightarrow> chokidar_backend \<Rightarrow> 'w \<Rightarrow> (chokidar_backend \<times> 'w) run" and host b w y
  assume IH: "\<And>host b w y. reads host b w = Some y \<Longrightarrow> logs host lg \<longrightarrow> lg (snd y) = lg w"
    and run: "(case h_inotify_read host (cb_inotify_fd b) w of
        (evs, w) \<Rightarrow> if evs = [] then Some (b, w) else reads host (poll_events evs b) w) = Some y"
  show "logs host lg \<longrightarrow> lg (snd y) = lg w"
    using run IH read_log [of host lg] by (auto split: prod.splits if_splits)
qed

lemma drain_log:
  assumes "logs host lg" and "backend_drain_events host wd = Some (raws, wd')"
  shows "lg (snd wd') = lg (snd wd)"
  using assms(2) poll_log [of host "fst wd" "snd wd"] assms(1)
  by (auto simp: backend_drain_events_def chokidar_backend_event_count_def chokidar_native_poll_def bind_eq_Some_conv
      split: if_splits)

subsection \<open>A cycle\<close>

abbreviation error_event :: "mstring \<Rightarrow> event" where
  "error_event message \<equiv> (plain_event Error)\<lparr>ev_error := Some message\<rparr>"

lemma emit_error:
  "logs host lg \<Longrightarrow> lg (snd (snd (watcher_emit host e s))) = lg (snd (snd s)) @ told (listeners_of s) e"
  "fst (watcher_emit host e s) = fst s"
  by (auto simp: watcher_emit_def emit_log split: prod.splits)

lemma process_reports:
  assumes "logs host lg" and "ws_throttled_changes (state_of s) = []" and "watcher_process host s = Some (err, s')"
  shows "\<exists>es. lg (snd (snd s')) = lg (snd (snd s)) @ reported (listeners_of s) es \<and> distinct (changes es) \<and>
    ws_throttled_changes (state_of s') = [] \<and> same_watcher s s' \<and>
    (case err of None \<Rightarrow> True | Some m \<Rightarrow> \<exists>fs. es = fs @ [error_event m])"
proof (cases "ws_closed (state_of s)")
  case True
  then have "err = None" "s' = s" using assms(3) by (auto simp: watcher_process_def split: prod.splits)
  then show ?thesis using assms(2) by (intro exI [of _ "[]"]) (simp add: same_watcher_def)
next
  case False
  obtain self wd where s: "s = (self, wd)" by (metis surj_pair)
  obtain raws wd1 s2 s3 where d: "backend_drain_events host wd = Some (raws, wd1)"
    and p: "process_raw_events host raws (self, wd1) = Some (err, s2)" and f: "finish_process_cycle host s2 = Some s3"
    and s': "s' = (case err of None \<Rightarrow> s3 | Some m \<Rightarrow> watcher_emit host (error_event m) s3)"
    using assms(3) False s by (auto simp: watcher_process_def bind_eq_Some_conv split: option.splits)
  obtain s4 where s4: "part lg s2 s4" "s3 = with_state clear_throttles s4" using finish_part [OF assms(1) f] by blast
  have "part lg s (self, wd1)" using drain_log [OF assms(1) d] s by (intro part_silent) (auto simp: same_watcher_def)
  then obtain es where es: "cycle_part lg s es s4"
    using process_raw_part [OF assms(1) p] s4(1) part_trans unfolding part_def by metis
  have s3: "snd s3 = snd s4" "listeners_of s3 = listeners_of s4" "ws_throttled_changes (state_of s3) = []" "same_watcher s s3"
    using s4(2) es by (auto simp: with_state_def clear_throttles_def cycle_part_def same_watcher_def split: prod.splits)
  have lg: "lg (snd (snd s3)) = lg (snd (snd s)) @ reported (listeners_of s) es" "distinct (changes es)"
    using es s3(1) assms(2) by (auto simp: cycle_part_def)
  show ?thesis
  proof (cases err)
    case None
    then show ?thesis using lg s3 s' by (intro exI [of _ es]) simp
  next
    case (Some m)
    then show ?thesis using lg s3 s' emit_error(1) [OF assms(1), of "error_event m" s3]
      by (intro exI [of _ "es @ [error_event m]"]) (simp add: same_watcher_def plain_event_def emit_error(2))
  qed
qed

subsection \<open>Samples\<close>

text \<open>A host whose world is the log of what the callbacks were told, with one file in \<open>/w\<close>.\<close>

definition small_fs :: "64 word \<Rightarrow> file_system" where
  "small_fs n = listed_fs [(str ''/w'', dir_stat, Some dir_stat, Some [str ''a'']),
     (str ''/w/a'', file_stat n, Some (file_stat n), None)]"

definition sample_host :: "64 word \<Rightarrow> (nat, (nat \<times> event) list) host" where
  "sample_host n =
     \<lparr>h_inotify_init = (\<lambda>w. (3, w)), h_inotify_add_watch = (\<lambda>_ _ w. (1, w)), h_inotify_rm_watch = (\<lambda>_ _ w. w),
      h_inotify_read = (\<lambda>_ w. ([], w)), h_now = (\<lambda>w. (1000, w)), h_files = (\<lambda>_. small_fs n),
      h_getenv = (\<lambda>_ _. None), h_call = (\<lambda>c e w. w @ [(c, e)])\<rparr>"

lemma sample_logs: "logs (sample_host n) (\<lambda>w. w)"
  by (simp add: logs_def sample_host_def)

definition polling_options :: watch_options where
  "polling_options = default_watch_options\<lparr>wo_use_polling := True, wo_ignore_initial := True\<rparr>"

text \<open>A watcher of \<open>/w\<close>, which it has not scanned, with a listener for all events.\<close>

definition sample_watching :: "(nat, (nat \<times> event) list) watching" where
  "sample_watching =
     (\<lparr>wt_state = set_snapshot (str ''/w'') [] (remember_root (str ''/w'') (new_watch_state polling_options)),
       wt_listeners = [\<lparr>le_event = All, le_callback = 7\<rparr>]\<rparr>, initial_backend, [])"

definition run_result :: "('e \<times> 's) run \<Rightarrow> 's" where
  "run_result x = snd (the x)"

lemma run_result: "map_option fst x = Some e \<Longrightarrow> x = Some (e, run_result x)"
  by (cases x) (auto simp: run_result_def)

subsection \<open>Properties\<close>

text \<open>
  Property C21. A cycle tells its listeners a sequence of events, each to the listeners of its kind and then to
  those of all kinds, in which no path is reported changed twice, and forgets the changes at its end.
  When a scan fails, the error is the last event, after all the others.
\<close>

theorem cycle_reports:
  assumes "logs host lg" and "ws_throttled_changes (wt_state (fst s)) = []" and "watcher_process host s = Some (err, s')"
  shows "\<exists>es. lg (snd (snd s')) = lg (snd (snd s)) @ reported (wt_listeners (fst s)) es \<and> distinct (changes es) \<and>
    ws_throttled_changes (wt_state (fst s')) = [] \<and>
    (case err of None \<Rightarrow> True | Some m \<Rightarrow> \<exists>fs. es = fs @ [error_event m])"
  using process_reports [OF assms] by blast

theorem cycle_reports_witness:
  "let s = sample_watching; s' = run_result (watcher_process (sample_host 2) s) in
   \<exists>es. snd (snd s') = snd (snd s) @ reported (wt_listeners (fst s)) es \<and> distinct (changes es) \<and>
    ws_throttled_changes (wt_state (fst s')) = [] \<and>
    (case None of None \<Rightarrow> True | Some m \<Rightarrow> \<exists>fs. es = fs @ [error_event m])"
  unfolding Let_def by (rule cycle_reports [OF sample_logs _ run_result])
    (simp add: sample_watching_def set_snapshot_def remember_root_def new_watch_state_def, code_simp)

text \<open>
  A watcher that was closed reports nothing more: a cycle, an event and an error leave it and the
  world as they are.
\<close>

theorem closed_watcher_is_silent:
  "watcher_process host (watcher_close host s) = Some (None, watcher_close host s) \<and>
   emit_event host e (watcher_close host s) = Some (watcher_close host s) \<and>
   watcher_emit host e (watcher_close host s) = watcher_close host s"
  by (cases s)
    (simp add: watcher_process_def watcher_close_def watch_state_clear_def emit_event_def watcher_emit_def
      emitter_emit_def Let_def split: prod.splits)

end
