(* ===== verification/Glob.thy ===== *)
theory Glob
  imports String_Ops String_Search
begin

text \<open>
  Glob patterns of the file watcher, compiled from its \<open>glob.mbt\<close>: the matcher over arrays of
  characters, the expansion of braces, the directory a pattern starts from, and the separation of
  a list of patterns into positive and negated ones. A language of atoms says what a pattern
  without braces matches, trees of alternatives what braces mean.
\<close>

subsection \<open>The matcher\<close>

text \<open>The characters of the syntax.\<close>

abbreviation (input) Slash :: int where "Slash \<equiv> 47"
abbreviation (input) Asterisk :: int where "Asterisk \<equiv> 42"
abbreviation (input) Question :: int where "Question \<equiv> 63"
abbreviation (input) Open_Class :: int where "Open_Class \<equiv> 91"
abbreviation (input) Close_Class :: int where "Close_Class \<equiv> 93"
abbreviation (input) Caret :: int where "Caret \<equiv> 94"
abbreviation (input) Hyphen :: int where "Hyphen \<equiv> 45"
abbreviation (input) Open_Brace :: int where "Open_Brace \<equiv> 123"
abbreviation (input) Close_Brace :: int where "Close_Brace \<equiv> 125"
abbreviation (input) Comma :: int where "Comma \<equiv> 44"

function class_skip :: "int list \<Rightarrow> nat \<Rightarrow> nat" where
  "class_skip pat i = (if i < length pat \<and> pat ! i \<noteq> Close_Class then class_skip pat (i + 1) else i)"
  by pat_completeness auto
termination by (relation "measure (\<lambda>(pat, i). length pat - i)") auto

function class_scan :: "int \<Rightarrow> int list \<Rightarrow> nat \<Rightarrow> bool \<Rightarrow> bool \<times> nat" where
  "class_scan ch pat i found =
     (if i < length pat \<and> pat ! i \<noteq> Close_Class then
        if i + 2 < length pat \<and> pat ! (i + 1) = Hyphen \<and> pat ! (i + 2) \<noteq> Close_Class
        then class_scan ch pat (i + 3) (if pat ! i \<le> ch \<and> ch \<le> pat ! (i + 2) then True else found)
        else class_scan ch pat (i + 1) (if ch = pat ! i then True else found)
      else (found, i))"
  by pat_completeness auto
termination by (relation "measure (\<lambda>(ch, pat, i, found). length pat - i)") auto

declare class_skip.simps [simp del] class_scan.simps [simp del]

definition match_char_class :: "int list \<Rightarrow> nat \<Rightarrow> int list \<Rightarrow> nat \<Rightarrow> bool \<times> nat" where
  "match_char_class pat pi pth si =
     (if length pth \<le> si then
        let i = class_skip pat pi in (False, if i < length pat then i + 1 else i)
      else
        let ch = pth ! si;
            negate = (pi < length pat \<and> pat ! pi = Caret);
            (found, i) = class_scan ch pat (if negate then pi + 1 else pi) False;
            next_pi = (if i < length pat then i + 1 else i)
        in (if negate then \<not> found else found, next_pi))"

lemma class_skip_stop: "\<not> (i < length pat \<and> pat ! i \<noteq> Close_Class) \<Longrightarrow> class_skip pat i = i"
  by (subst class_skip.simps) (simp only: if_False)

lemma class_skip_step: "i < length pat \<Longrightarrow> pat ! i \<noteq> Close_Class \<Longrightarrow> class_skip pat i = class_skip pat (i + 1)"
  by (subst class_skip.simps) simp

lemma class_scan_stop: "\<not> (i < length pat \<and> pat ! i \<noteq> Close_Class) \<Longrightarrow> class_scan ch pat i found = (found, i)"
  by (subst class_scan.simps) (simp only: if_False)

abbreviation range_at :: "int list \<Rightarrow> nat \<Rightarrow> bool" where
  "range_at pat i \<equiv> i + 2 < length pat \<and> pat ! (i + 1) = Hyphen \<and> pat ! (i + 2) \<noteq> Close_Class"

lemma class_scan_range:
  "i < length pat \<Longrightarrow> pat ! i \<noteq> Close_Class \<Longrightarrow> range_at pat i \<Longrightarrow>
   class_scan ch pat i found = class_scan ch pat (i + 3) (if pat ! i \<le> ch \<and> ch \<le> pat ! (i + 2) then True else found)"
  by (subst class_scan.simps) (simp only: if_True simp_thms)

lemma class_scan_char:
  "i < length pat \<Longrightarrow> pat ! i \<noteq> Close_Class \<Longrightarrow> \<not> range_at pat i \<Longrightarrow>
   class_scan ch pat i found = class_scan ch pat (i + 1) (if ch = pat ! i then True else found)"
  by (subst class_scan.simps) (simp only: if_True if_False simp_thms)

lemma class_skip_bounds: "i \<le> length pat \<Longrightarrow> i \<le> class_skip pat i \<and> class_skip pat i \<le> length pat"
proof (induction pat i rule: class_skip.induct)
  case (1 pat i)
  then show ?case
    by (cases "i < length pat \<and> pat ! i \<noteq> Close_Class") (auto simp: class_skip_stop class_skip_step)
qed

lemma class_scan_bounds:
  "i \<le> length pat \<Longrightarrow> i \<le> snd (class_scan ch pat i found) \<and> snd (class_scan ch pat i found) \<le> length pat"
proof (induction "length pat - i" arbitrary: i found rule: less_induct)
  case less
  consider "\<not> (i < length pat \<and> pat ! i \<noteq> Close_Class)"
    | "i < length pat" "pat ! i \<noteq> Close_Class" "range_at pat i"
    | "i < length pat" "pat ! i \<noteq> Close_Class" "\<not> range_at pat i" by blast
  then show ?case
  proof cases
    case 2
    then show ?thesis 
      using less.hyps [of "i + 3" "if pat ! i \<le> ch \<and> ch \<le> pat ! (i + 2) then True else found"]
      unfolding class_scan_range [OF 2] by linarith
  next
    case 3
    then show ?thesis 
      using less.hyps [of "i + 1" "if ch = pat ! i then True else found"]
      unfolding class_scan_char [OF 3] by linarith
  qed (use less.prems in \<open>simp add: class_scan_stop\<close>)
qed

lemma match_char_class_bounds:
  assumes "pi \<le> length pat"
  shows "pi \<le> snd (match_char_class pat pi pth si)" and "snd (match_char_class pat pi pth si) \<le> length pat"
proof -
  let ?j = "if pi < length pat \<and> pat ! pi = Caret then pi + 1 else pi"
  have "?j \<le> snd (class_scan (pth ! si) pat ?j False)" "snd (class_scan (pth ! si) pat ?j False) \<le> length pat"
    using class_scan_bounds [of ?j pat "pth ! si" False] assms by simp_all
  moreover have "pi \<le> class_skip pat pi" "class_skip pat pi \<le> length pat"
    using class_skip_bounds [OF assms] by simp_all
  ultimately show "pi \<le> snd (match_char_class pat pi pth si)"
    "snd (match_char_class pat pi pth si) \<le> length pat"
    by (auto simp: match_char_class_def Let_def split: prod.split if_splits)
qed

text \<open>
  The matcher with its two loops: \<open>segments_loop\<close> tries the positions after a separator and then
  the end, \<open>star_loop\<close> every position up to the next separator. Reading past the pattern aborts.
\<close>

function glob_go :: "int list \<Rightarrow> nat \<Rightarrow> int list \<Rightarrow> nat \<Rightarrow> bool run"
  and segments_loop :: "int list \<Rightarrow> nat \<Rightarrow> int list \<Rightarrow> nat \<Rightarrow> bool run"
  and star_loop :: "int list \<Rightarrow> nat \<Rightarrow> int list \<Rightarrow> nat \<Rightarrow> bool run" where
  "glob_go pat pi pth si =
     (if pi = length pat then Some (si = length pth)
      else if length pat < pi then None
      else if pi + 1 < length pat \<and> pat ! pi = Asterisk \<and> pat ! (pi + 1) = Asterisk then
        let next_pi = (if pi + 2 < length pat \<and> pat ! (pi + 2) = Slash then pi + 3 else pi + 2) in
        do {
          b \<leftarrow> glob_go pat next_pi pth si;
          if b then Some True else segments_loop pat next_pi pth si
        }
      else if pat ! pi = Asterisk then star_loop pat (pi + 1) pth si
      else if pat ! pi = Question then
        if si < length pth \<and> pth ! si \<noteq> Slash then glob_go pat (pi + 1) pth (si + 1) else Some False
      else if pat ! pi = Open_Class then
        if fst (match_char_class pat (pi + 1) pth si)
        then glob_go pat (snd (match_char_class pat (pi + 1) pth si)) pth (si + 1)
        else Some False
      else if si < length pth \<and> pat ! pi = pth ! si then glob_go pat (pi + 1) pth (si + 1)
      else Some False)"
| "segments_loop pat next_pi pth i =
     (if i < length pth then
        if pth ! i = Slash then do {
          b \<leftarrow> glob_go pat next_pi pth (i + 1);
          if b then Some True else segments_loop pat next_pi pth (i + 1)
        }
        else segments_loop pat next_pi pth (i + 1)
      else glob_go pat next_pi pth (length pth))"
| "star_loop pat next_pi pth i =
     (if i \<le> length pth then do {
        b \<leftarrow> glob_go pat next_pi pth i;
        if b then Some True
        else if i < length pth \<and> pth ! i \<noteq> Slash then star_loop pat next_pi pth (i + 1)
        else Some False
      }
      else Some False)"
  by pat_completeness auto
termination
proof (relation "measures
    [\<lambda>c. case c of Inl (pat, pi, pth, si) \<Rightarrow> length pat - pi | Inr (Inl (pat, pi, pth, i)) \<Rightarrow> length pat - pi
       | Inr (Inr (pat, pi, pth, i)) \<Rightarrow> length pat - pi,
     \<lambda>c. case c of Inl _ \<Rightarrow> 0 | Inr _ \<Rightarrow> 1,
     \<lambda>c. case c of Inl _ \<Rightarrow> 0 | Inr (Inl (pat, pi, pth, i)) \<Rightarrow> length pth - i
       | Inr (Inr (pat, pi, pth, i)) \<Rightarrow> length pth - i]", goal_cases)
  case (6 pat pi pth si)
  then show ?case using match_char_class_bounds(1) [of "pi + 1" pat pth si] by auto
qed auto

declare glob_go.simps [simp del] segments_loop.simps [simp del] star_loop.simps [simp del]

definition glob_match_single :: "mstring \<Rightarrow> mstring \<Rightarrow> bool run" where
  "glob_match_single pattern path = glob_go (string_chars pattern) 0 (string_chars path) 0"

subsection \<open>The language of a pattern\<close>

text \<open>
  What a pattern without braces means: a list of atoms, each of which consumes a part of the path.
  \<open>Star\<close> consumes any characters up to a separator, \<open>Globstar\<close> nothing, everything up to and
  including some separator, or all that is left.
\<close>

datatype atom = Lit int | One | In_Class bool "(int \<times> int) list" | Star | Globstar

fun class_ranges :: "int list \<Rightarrow> (int \<times> int) list" where
  "class_ranges (a # h # b # cs) =
     (if h = Hyphen then (a, b) # class_ranges cs else (a, a) # class_ranges (h # b # cs))"
| "class_ranges (a # cs) = (a, a) # class_ranges cs"
| "class_ranges [] = []"

definition in_ranges :: "(int \<times> int) list \<Rightarrow> int \<Rightarrow> bool" where
  "in_ranges rs c \<longleftrightarrow> list_ex (\<lambda>(a, b). a \<le> c \<and> c \<le> b) rs"

definition class_content :: "int list \<Rightarrow> int list" where
  "class_content p = takeWhile (\<lambda>c. c \<noteq> Close_Class) p"

definition class_rest :: "int list \<Rightarrow> int list" where
  "class_rest p = drop 1 (dropWhile (\<lambda>c. c \<noteq> Close_Class) p)"

definition class_atom :: "int list \<Rightarrow> atom" where
  "class_atom p = (case p of
      [] \<Rightarrow> In_Class False []
    | c # q \<Rightarrow> if c = Caret then In_Class True (class_ranges (class_content q))
               else In_Class False (class_ranges (class_content p)))"

lemma class_rest_length: "length (class_rest p) \<le> length p"
  using length_dropWhile_le [of "\<lambda>c. c \<noteq> Close_Class" p] unfolding class_rest_def by simp

function pattern_atoms :: "int list \<Rightarrow> atom list" where
  "pattern_atoms p =
     (if p = [] then []
      else if prefix [Asterisk, Asterisk, Slash] p then Globstar # pattern_atoms (drop 3 p)
      else if prefix [Asterisk, Asterisk] p then Globstar # pattern_atoms (drop 2 p)
      else if hd p = Asterisk then Star # pattern_atoms (tl p)
      else if hd p = Question then One # pattern_atoms (tl p)
      else if hd p = Open_Class then class_atom (tl p) # pattern_atoms (class_rest (tl p))
      else Lit (hd p) # pattern_atoms (tl p))"
  by pat_completeness auto
termination
proof (relation "measure length", goal_cases)
  case (6 p)
  then show ?case using class_rest_length [of "tl p"] by (cases p) auto
qed auto

declare pattern_atoms.simps [simp del]

fun matches :: "atom list \<Rightarrow> int list \<Rightarrow> bool" where
  "matches [] s \<longleftrightarrow> s = []"
| "matches (Lit c # as) s \<longleftrightarrow> (\<exists>w. s = c # w \<and> matches as w)"
| "matches (One # as) s \<longleftrightarrow> (\<exists>c w. s = c # w \<and> c \<noteq> Slash \<and> matches as w)"
| "matches (In_Class negated rs # as) s \<longleftrightarrow> (\<exists>c w. s = c # w \<and> in_ranges rs c \<noteq> negated \<and> matches as w)"
| "matches (Star # as) s \<longleftrightarrow> (\<exists>u w. s = u @ w \<and> Slash \<notin> set u \<and> matches as w)"
| "matches (Globstar # as) s \<longleftrightarrow>
     (\<exists>u w. s = u @ w \<and> (u = [] \<or> last u = Slash \<or> w = []) \<and> matches as w)"

lemma drop_Cons_nth: "i < length xs \<Longrightarrow> drop i xs = xs ! i # drop (i + 1) xs"
  by (simp add: Cons_nth_drop_Suc)

lemma class_content_simps [simp]:
  "class_content [] = []" "class_content (c # p) = (if c = Close_Class then [] else c # class_content p)"
  by (simp_all add: class_content_def)

lemma class_ranges_plain:
  assumes "\<not> (2 \<le> length cs \<and> cs ! 0 = Hyphen)"
  shows "class_ranges (a # cs) = (a, a) # class_ranges cs"
  using assms by (cases "a # cs" rule: class_ranges.cases) auto

lemma class_scan_eq:
  assumes "i \<le> length pat"
  shows "class_scan ch pat i found =
    (in_ranges (class_ranges (class_content (drop i pat))) ch \<or> found, i + length (class_content (drop i pat)))"
  using assms
proof (induction "length pat - i" arbitrary: i found rule: less_induct)
  case less
  consider "\<not> (i < length pat \<and> pat ! i \<noteq> Close_Class)"
    | "i < length pat" "pat ! i \<noteq> Close_Class" "range_at pat i"
    | "i < length pat" "pat ! i \<noteq> Close_Class" "\<not> range_at pat i" by blast
  then show ?case
  proof cases
    case 1
    then have "class_content (drop i pat) = []"
      by (cases "drop i pat") (auto simp: class_content_def dest: nth_via_drop)
    with 1 show ?thesis by (simp add: class_scan_stop in_ranges_def)
  next
    case 2
    then have d: "drop i pat = pat ! i # pat ! (i + 1) # pat ! (i + 2) # drop (i + 3) pat"
      using drop_Cons_nth [of i pat] drop_Cons_nth [of "i + 1" pat] drop_Cons_nth [of "i + 2" pat]
      by (simp add: eval_nat_numeral)
    with 2 show ?thesis using less.hyps [of "i + 3"]
      unfolding class_scan_range [OF 2] by (auto simp: in_ranges_def)
  next
    case 3
    then have d: "drop i pat = pat ! i # drop (i + 1) pat" by (simp add: drop_Cons_nth)
    let ?t = "class_content (drop (i + 1) pat)"
    have "\<not> (2 \<le> length ?t \<and> ?t ! 0 = Hyphen)"
    proof (intro notI, elim conjE)
      assume len: "2 \<le> length ?t" and hyphen: "?t ! 0 = Hyphen"
      have "length ?t \<le> length (drop (i + 1) pat)"
        unfolding class_content_def by (rule length_takeWhile_le)
      with len have "i + 2 < length pat" by simp
      moreover have "?t ! 1 \<in> set ?t" using len by simp
      then have "?t ! 1 \<noteq> Close_Class" unfolding class_content_def by (rule set_takeWhileD [THEN conjunct2])
      moreover have "?t ! k = pat ! (i + 1 + k)" if "k < 2" for k
      proof -
        have "k < length ?t" using len that by simp
        then have "?t ! k = drop (i + 1) pat ! k"
          unfolding class_content_def by (rule takeWhile_nth)
        also have "\<dots> = pat ! (i + 1 + k)" using \<open>i + 2 < length pat\<close> by (intro nth_drop) simp
        finally show ?thesis .
      qed
      from this [of 0] this [of 1] have "?t ! 0 = pat ! (i + 1)" "?t ! 1 = pat ! (i + 2)" by simp_all
      ultimately show False using 3 hyphen by simp
    qed
    then have "class_ranges (class_content (drop i pat)) = (pat ! i, pat ! i) # class_ranges ?t"
      using class_ranges_plain 3(2) d by simp
    with 3 d show ?thesis using less.hyps [of "i + 1"]
      unfolding class_scan_char [OF 3] by (auto simp: in_ranges_def)
  qed
qed

lemma drop_class_content: "drop (length (class_content p)) p = dropWhile (\<lambda>c. c \<noteq> Close_Class) p"
  unfolding class_content_def dropWhile_eq_drop ..

lemma after_class:
  assumes "i \<le> length pat" and "j = i + length (class_content (drop i pat))"
  shows "drop (if j < length pat then j + 1 else j) pat = class_rest (drop i pat)"
proof -
  have "drop j pat = dropWhile (\<lambda>c. c \<noteq> Close_Class) (drop i pat)"
    using assms drop_class_content [of "drop i pat"] by (simp add: add.commute)
  then have "class_rest (drop i pat) = drop (j + 1) pat"
    unfolding class_rest_def by (metis add.commute drop_drop)
  then show ?thesis by simp
qed

lemma class_skip_eq: "i \<le> length pat \<Longrightarrow> class_skip pat i = i + length (class_content (drop i pat))"
proof (induction pat i rule: class_skip.induct)
  case (1 pat i)
  show ?case
  proof (cases "i < length pat \<and> pat ! i \<noteq> Close_Class")
    case True
    with 1 show ?thesis by (simp add: class_skip_step drop_Cons_nth)
  next
    case False
    then have "class_content (drop i pat) = []"
      by (cases "drop i pat") (auto simp: class_content_def dest: nth_via_drop)
    with False show ?thesis by (simp add: class_skip_stop)
  qed
qed

lemma match_char_class_past: "length pth \<le> si \<Longrightarrow> \<not> fst (match_char_class pat pi pth si)"
  by (simp add: match_char_class_def Let_def)

lemma match_char_class_eq:
  assumes "pi \<le> length pat" and "si < length pth"
  obtains neg rs where "class_atom (drop pi pat) = In_Class neg rs"
    and "fst (match_char_class pat pi pth si) \<longleftrightarrow> in_ranges rs (pth ! si) \<noteq> neg"
    and "drop (snd (match_char_class pat pi pth si)) pat = class_rest (drop pi pat)"
proof (cases "pi < length pat \<and> pat ! pi = Caret")
  case True
  then have d: "drop pi pat = Caret # drop (pi + 1) pat" by (simp add: drop_Cons_nth)
  then have "class_rest (drop pi pat) = class_rest (drop (pi + 1) pat)" by (simp add: class_rest_def)
  with True d assms after_class [of "pi + 1" pat] show ?thesis
    by (intro that [of True "class_ranges (class_content (drop (pi + 1) pat))"])
      (auto simp: match_char_class_def class_scan_eq class_atom_def Let_def split: if_splits simp del: class_content_simps)
next
  case False
  then have "class_atom (drop pi pat) = In_Class False (class_ranges (class_content (drop pi pat)))"
    by (cases "drop pi pat") (auto simp: class_atom_def dest: nth_via_drop)
  with False assms after_class [of pi pat] show ?thesis
    by (intro that [of False "class_ranges (class_content (drop pi pat))"])
      (auto simp: match_char_class_def class_scan_eq Let_def simp del: class_content_simps)
qed

text \<open>What the two loops look for, from a position of the path on.\<close>

definition after_separator :: "atom list \<Rightarrow> int list \<Rightarrow> bool" where
  "after_separator as s \<longleftrightarrow> (\<exists>u w. s = u @ w \<and> (u \<noteq> [] \<and> last u = Slash \<or> w = []) \<and> matches as w)"

lemma after_separator_Nil: "after_separator as [] \<longleftrightarrow> matches as []"
  by (auto simp: after_separator_def)

lemma after_separator_Cons:
  "after_separator as (c # s) \<longleftrightarrow> c = Slash \<and> matches as s \<or> after_separator as s"
proof
  assume "after_separator as (c # s)"
  then obtain u w where *: "c # s = u @ w" "u \<noteq> [] \<and> last u = Slash \<or> w = []" "matches as w"
    by (auto simp: after_separator_def)
  then obtain u' where "u = c # u'" by (cases u) auto
  with * show "c = Slash \<and> matches as s \<or> after_separator as s"
    by (cases "u' = []") (auto simp: after_separator_def)
next
  assume "c = Slash \<and> matches as s \<or> after_separator as s"
  then show "after_separator as (c # s)"
  proof
    assume "c = Slash \<and> matches as s"
    then show ?thesis unfolding after_separator_def by (intro exI [of _ "[c]"] exI [of _ s]) simp
  next
    assume "after_separator as s"
    then obtain u w where "s = u @ w" "u \<noteq> [] \<and> last u = Slash \<or> w = []" "matches as w"
      by (auto simp: after_separator_def)
    then show ?thesis unfolding after_separator_def
      by (intro exI [of _ "c # u"] exI [of _ w]) auto
  qed
qed

lemma matches_Globstar: "matches (Globstar # as) s \<longleftrightarrow> matches as s \<or> after_separator as s"
proof
  assume "matches (Globstar # as) s"
  then obtain u w where "s = u @ w" "u = [] \<or> last u = Slash \<or> w = []" "matches as w" by auto
  then show "matches as s \<or> after_separator as s"
    by (cases "u = []") (auto simp: after_separator_def)
next
  assume "matches as s \<or> after_separator as s"
  then show "matches (Globstar # as) s"
  proof
    assume "matches as s"
    then show ?thesis unfolding matches.simps by (intro exI [of _ "[]"] exI [of _ s]) simp
  qed (auto simp: after_separator_def)
qed

lemma matches_Star_Nil: "matches (Star # as) [] \<longleftrightarrow> matches as []"
  by simp

lemma matches_Star_Cons:
  "matches (Star # as) (c # s) \<longleftrightarrow> matches as (c # s) \<or> c \<noteq> Slash \<and> matches (Star # as) s"
proof
  assume "matches (Star # as) (c # s)"
  then obtain u w where *: "c # s = u @ w" "Slash \<notin> set u" "matches as w" by auto
  then show "matches as (c # s) \<or> c \<noteq> Slash \<and> matches (Star # as) s" by (cases u) auto
next
  assume "matches as (c # s) \<or> c \<noteq> Slash \<and> matches (Star # as) s"
  then show "matches (Star # as) (c # s)"
  proof
    assume "c \<noteq> Slash \<and> matches (Star # as) s"
    then obtain u w where "c \<noteq> Slash" "s = u @ w" "Slash \<notin> set u" "matches as w" by auto
    then show ?thesis unfolding matches.simps by (intro exI [of _ "c # u"] exI [of _ w]) auto
  next
    assume "matches as (c # s)"
    then show ?thesis unfolding matches.simps by (intro exI [of _ "[]"] exI [of _ "c # s"]) simp
  qed
qed

declare matches.simps(5,6) [simp del]

lemma pattern_atoms_cases:
  assumes "pi < length pat"
  shows "pattern_atoms (drop pi pat) =
    (if pi + 1 < length pat \<and> pat ! pi = Asterisk \<and> pat ! (pi + 1) = Asterisk
     then Globstar # pattern_atoms (drop (if pi + 2 < length pat \<and> pat ! (pi + 2) = Slash then pi + 3 else pi + 2) pat)
     else if pat ! pi = Asterisk then Star # pattern_atoms (drop (pi + 1) pat)
     else if pat ! pi = Question then One # pattern_atoms (drop (pi + 1) pat)
     else if pat ! pi = Open_Class
     then class_atom (drop (pi + 1) pat) # pattern_atoms (class_rest (drop (pi + 1) pat))
     else Lit (pat ! pi) # pattern_atoms (drop (pi + 1) pat))"
proof -
  have d: "drop pi pat = pat ! pi # drop (pi + 1) pat" using assms by (rule drop_Cons_nth)
  have "prefix [Asterisk, Asterisk] (drop pi pat) \<longleftrightarrow>
      pi + 1 < length pat \<and> pat ! pi = Asterisk \<and> pat ! (pi + 1) = Asterisk"
    by (cases "pi + 1 < length pat") (auto simp: d Cons_nth_drop_Suc [symmetric])
  moreover have "prefix [Asterisk, Asterisk, Slash] (drop pi pat) \<longleftrightarrow>
      prefix [Asterisk, Asterisk] (drop pi pat) \<and> pi + 2 < length pat \<and> pat ! (pi + 2) = Slash"
    by (cases "pi + 1 < length pat"; cases "pi + 2 < length pat")
      (auto simp: d Cons_nth_drop_Suc [symmetric])
  ultimately show ?thesis
    by (subst pattern_atoms.simps) (auto simp: d eval_nat_numeral)
qed

lemma glob_loops_eq:
  shows "pi \<le> length pat \<Longrightarrow> si \<le> length pth \<Longrightarrow>
      glob_go pat pi pth si = Some (matches (pattern_atoms (drop pi pat)) (drop si pth))"
    and "pi \<le> length pat \<Longrightarrow> si \<le> length pth \<Longrightarrow>
      segments_loop pat pi pth si = Some (after_separator (pattern_atoms (drop pi pat)) (drop si pth))"
    and "pi \<le> length pat \<Longrightarrow> si \<le> length pth \<Longrightarrow>
      star_loop pat pi pth si = Some (matches (Star # pattern_atoms (drop pi pat)) (drop si pth))"
proof (induction pat pi pth si and pat pi pth si and pat pi pth si
    rule: glob_go_segments_loop_star_loop.induct)
  case (1 pat pi pth si)
  show ?case
  proof (cases "pi = length pat")
    case True
    with 1 show ?thesis by (simp add: glob_go.simps pattern_atoms.simps [of "[]"]) auto
  next
    case False
    with 1 have pi: "pi < length pat" by simp
    let ?globstar = "pi + 1 < length pat \<and> pat ! pi = Asterisk \<and> pat ! (pi + 1) = Asterisk"
    let ?next = "if pi + 2 < length pat \<and> pat ! (pi + 2) = Slash then pi + 3 else pi + 2"
    have next_ok: "?globstar \<Longrightarrow> ?next \<le> length pat" by simp
    consider (globstar) ?globstar | (star) "\<not> ?globstar" "pat ! pi = Asterisk"
      | (one) "pat ! pi = Question" | (cls) "pat ! pi = Open_Class"
      | (lit) "pat ! pi \<noteq> Asterisk" "pat ! pi \<noteq> Question" "pat ! pi \<noteq> Open_Class" by blast
    then show ?thesis
    proof cases
      case globstar
      have go: "glob_go pat ?next pth si = Some (matches (pattern_atoms (drop ?next pat)) (drop si pth))"
        using 1(1) [OF False _ globstar refl next_ok [OF globstar] \<open>si \<le> length pth\<close>] pi by simp
      have loop: "\<not> matches (pattern_atoms (drop ?next pat)) (drop si pth) \<Longrightarrow>
          segments_loop pat ?next pth si = Some (after_separator (pattern_atoms (drop ?next pat)) (drop si pth))"
        using 1(2) [OF False _ globstar refl go _ next_ok [OF globstar] \<open>si \<le> length pth\<close>] pi by simp
      show ?thesis
        unfolding pattern_atoms_cases [OF pi] using pi globstar go loop
        by (subst glob_go.simps) (simp add: Let_def matches_Globstar del: drop_drop)
    next
      case star
      with 1 pi show ?thesis unfolding pattern_atoms_cases [OF pi]
        by (subst glob_go.simps) auto
    next
      case one
      with 1 pi show ?thesis unfolding pattern_atoms_cases [OF pi]
        by (cases "si < length pth"; subst glob_go.simps) (auto simp: drop_Cons_nth)
    next
      case cls
      show ?thesis
      proof (cases "si < length pth")
        case True
        obtain neg rs where c: "class_atom (drop (pi + 1) pat) = In_Class neg rs"
            "fst (match_char_class pat (pi + 1) pth si) \<longleftrightarrow> in_ranges rs (pth ! si) \<noteq> neg"
            "drop (snd (match_char_class pat (pi + 1) pth si)) pat = class_rest (drop (pi + 1) pat)"
          using match_char_class_eq [of "pi + 1" pat si pth] pi True by auto
        have "snd (match_char_class pat (pi + 1) pth si) \<le> length pat"
          using match_char_class_bounds(2) [of "pi + 1" pat pth si] pi by simp
        with 1 pi cls c True show ?thesis unfolding pattern_atoms_cases [OF pi]
          by (cases "si < length pth"; subst glob_go.simps) (auto simp: drop_Cons_nth)
      next
        case False
        then show ?thesis unfolding pattern_atoms_cases [OF pi] using pi cls match_char_class_past
          by (subst glob_go.simps) (auto simp: class_atom_def split: list.split)
      qed
    next
      case lit
      with 1(6) 1(8) pi show ?thesis unfolding pattern_atoms_cases [OF pi]
        by (cases "si < length pth"; subst glob_go.simps) (auto simp: drop_Cons_nth)
    qed
  qed
next
  case (2 pat next_pi pth i)
  then show ?case
    by (cases "i < length pth"; cases "pth ! i = Slash"; subst segments_loop.simps)
      (simp_all add: drop_Cons_nth after_separator_Cons after_separator_Nil)
next
  case (3 pat next_pi pth i)
  then show ?case
    by (cases "i < length pth"; cases "pth ! i = Slash"; subst star_loop.simps)
      (auto simp: drop_Cons_nth matches_Star_Cons matches_Star_Nil)
qed

lemma glob_match_single_eq [run_simps]:
  "glob_match_single pattern path =
     Some (matches (pattern_atoms (string_chars pattern)) (string_chars path))"
  using glob_loops_eq(1) [of 0 "string_chars pattern" 0 "string_chars path"]
  by (simp add: glob_match_single_def)

text \<open>
  The matcher accepts a path exactly when the path is in the language of the pattern,
  and never reads outside the pattern or the path: literal characters and \<open>?\<close> consume one
  character, a class one of its set, \<open>*\<close> any run without a separator, \<open>**\<close> any number of whole
  segments or everything that is left.
\<close>

theorem glob_match_single_language:
  "glob_match_single pattern path =
     Some (matches (pattern_atoms (string_chars pattern)) (string_chars path))"
  by (rule glob_match_single_eq)

subsection \<open>The directory a pattern starts from\<close>

definition base_of :: "mstring \<Rightarrow> int \<Rightarrow> mstring run" where
  "base_of pattern last_slash =
     (if last_slash < 0 then Some (str ''.'') else string_sub pattern 0 (Some last_slash))"

fun base_loop :: "mstring \<Rightarrow> int list \<Rightarrow> int \<Rightarrow> int \<Rightarrow> mstring run" where
  "base_loop pattern [] i last_slash = base_of pattern last_slash"
| "base_loop pattern (ch # chars) i last_slash =
     (if ch = Asterisk \<or> ch = Question \<or> ch = Open_Class \<or> ch = Open_Brace then base_of pattern last_slash
      else base_loop pattern chars (i + 1) (if ch = Slash then i else last_slash))"

definition extract_base_dir :: "mstring \<Rightarrow> mstring run" where
  "extract_base_dir pattern = base_loop pattern (string_chars pattern) 0 (-1)"

lemma string_chars_plain: "no_surrogates s \<Longrightarrow> string_chars s = map uint s"
  by (induction s rule: string_chars.induct) (simp_all add: no_surrogates_def)

definition literal_chars :: "int list \<Rightarrow> bool" where
  "literal_chars u \<longleftrightarrow> list_all (\<lambda>c. c \<noteq> Asterisk \<and> c \<noteq> Question \<and> c \<noteq> Open_Class) u"

lemma matches_literal:
  "literal_chars u \<Longrightarrow>
   matches (pattern_atoms (u @ p)) s \<longleftrightarrow> (\<exists>w. s = u @ w \<and> matches (pattern_atoms p) w)"
proof (induction u arbitrary: s)
  case (Cons c u)
  then show ?case by (subst pattern_atoms.simps) (auto simp: literal_chars_def)
qed simp

lemma pair_beyond:
  "is_leading_surrogate a \<Longrightarrow> is_trailing_surrogate b \<Longrightarrow> code_point_of_surrogate_pair a b \<noteq> uint (c :: code_unit)"
  using uint_lt2p [of c] unfolding code_point_of_surrogate_pair_def is_leading_surrogate_def
    is_trailing_surrogate_def word_le_def by simp

lemma string_chars_prefix:
  "string_chars path = map uint u @ w \<Longrightarrow> prefix u path"
proof (induction u arbitrary: path)
  case (Cons c u)
  then show ?case
    by (cases path rule: string_chars.cases) (auto simp: pair_beyond word_uint_eq_iff split: if_splits)
qed simp

text \<open>Where the scan stops, everything up to the last separator is literal.\<close>

definition stop_ok :: "mstring \<Rightarrow> int \<Rightarrow> bool" where
  "stop_ok pattern l \<longleftrightarrow> l = -1 \<or> (\<exists>k < length pattern. l = int k \<and> pattern ! k = 47 \<and>
     literal_chars (map uint (take (Suc k) pattern)))"

lemma base_loop_stop:
  assumes "n \<le> length pattern" and "literal_chars (map uint (take n pattern))" and "stop_ok pattern l"
  shows "\<exists>l'. base_loop pattern (map uint (drop n pattern)) (int n) l = base_of pattern l' \<and> stop_ok pattern l'"
  using assms
proof (induction "length pattern - n" arbitrary: n l)
  case 0
  then show ?case by auto
next
  case (Suc m)
  then have d: "drop n pattern = pattern ! n # drop (Suc n) pattern" and n: "n < length pattern"
    by (simp_all add: Cons_nth_drop_Suc)
  let ?c = "uint (pattern ! n)"
  show ?case
  proof (cases "?c = Asterisk \<or> ?c = Question \<or> ?c = Open_Class \<or> ?c = Open_Brace")
    case True
    with Suc.prems show ?thesis by (auto simp: d)
  next
    case False
    then have lit: "literal_chars (map uint (take (Suc n) pattern))"
      using Suc.prems n by (simp add: literal_chars_def take_Suc_conv_app_nth)
    have "pattern ! n = 47" if "?c = Slash" using that by (simp add: word_uint_eq_iff)
    then have "stop_ok pattern (if ?c = Slash then int n else l)"
      using Suc.prems lit n by (auto simp: stop_ok_def)
    with False lit n Suc.hyps(1) [of "Suc n"] Suc.hyps(2) show ?thesis
      by (simp add: d add.commute)
  qed
qed

lemma extract_base_dir_literal:
  assumes "no_surrogates pattern" and "extract_base_dir pattern = Some b"
  shows "b = str ''.'' \<or> literal_chars (map uint (b @ str ''/'')) \<and> prefix (b @ str ''/'') pattern"
proof -
  obtain l where l: "base_of pattern l = Some b" "stop_ok pattern l"
    using base_loop_stop [of 0 pattern "-1"] assms
    by (auto simp: extract_base_dir_def string_chars_plain literal_chars_def stop_ok_def)
  then consider "l = -1" | k where "k < length pattern" "l = int k" "pattern ! k = 47"
      "literal_chars (map uint (take (Suc k) pattern))"
    by (auto simp: stop_ok_def)
  then show ?thesis
  proof cases
    case 1
    with l show ?thesis by (simp add: base_of_def)
  next
    case 2
    then have "b = take k pattern"
      using l(1) string_sub_eq [of 0 k pattern] assms(1)
      by (simp add: base_of_def cut_ok_no_surrogates)
    then have "b @ str ''/'' = take (Suc k) pattern"
      using 2 by (simp add: take_Suc_conv_app_nth)
    with 2 show ?thesis by (simp add: take_is_prefix)
  qed
qed

text \<open>
  Property C34. The directory a pattern starts from contains every path the pattern matches, so that
  a watch on it misses nothing: the path starts with the directory and a separator, or the
  directory is the current one.
\<close>

theorem base_dir_covers:
  assumes "no_surrogates pattern" and "extract_base_dir pattern = Some dir"
    and "glob_match_single pattern path = Some True"
  shows "dir = str ''.'' \<or> prefix (dir @ str ''/'') path"
proof (cases "dir = str ''.''")
  case False
  then have lit: "literal_chars (map uint (dir @ str ''/''))" and "prefix (dir @ str ''/'') pattern"
    using extract_base_dir_literal [OF assms(1,2)] by auto
  then obtain q where "pattern = (dir @ str ''/'') @ q" by (auto elim: prefixE)
  then have "string_chars pattern = map uint (dir @ str ''/'') @ map uint q"
    using string_chars_plain [OF assms(1)] by simp
  then obtain w where "string_chars path = map uint (dir @ str ''/'') @ w"
    using assms(3) glob_match_single_eq [of pattern path] matches_literal [OF lit] by auto
  then show ?thesis using string_chars_prefix by blast
qed simp

lemma base_dir_covers_example:
  "no_surrogates (str ''src/*.js'')" "extract_base_dir (str ''src/*.js'') = Some (str ''src'')"
  "glob_match_single (str ''src/*.js'') (str ''src/a.js'') = Some True"
  by code_simp+

theorem base_dir_covers_witness:
  "str ''src'' = (str ''.'' :: mstring) \<or> prefix (str ''src'' @ str ''/'') (str ''src/a.js'' :: mstring)"
  by (rule base_dir_covers [OF base_dir_covers_example])

end
