(* ===== verification/Glob_Braces.thy ===== *)
theory Glob_Braces
  imports Glob "HOL-Library.Multiset"
begin

text \<open>
  Braces in glob patterns: finding the first group, splitting it into its alternatives and
  expanding it, the match of a whole pattern, and the separation of a list of patterns into
  positive and negated ones. The indices the code takes from the array of characters are used as
  indices of code units, so the two agree on strings without surrogates.
\<close>

subsection \<open>Expansion\<close>

fun brace_loop :: "int list \<Rightarrow> int \<Rightarrow> int \<Rightarrow> int \<Rightarrow> (int \<times> int) option" where
  "brace_loop [] i depth start = None"
| "brace_loop (c # chars) i depth start =
     (if c = Open_Brace then brace_loop chars (i + 1) (depth + 1) (if depth = 0 then i else start)
      else if c = Close_Brace then
        if depth - 1 = 0 \<and> 0 \<le> start then Some (start, i) else brace_loop chars (i + 1) (depth - 1) start
      else brace_loop chars (i + 1) depth start)"

definition find_brace_range :: "mstring \<Rightarrow> (int \<times> int) option" where
  "find_brace_range pattern = brace_loop (string_chars pattern) 0 0 (-1)"

fun alts_loop :: "mstring \<Rightarrow> int list \<Rightarrow> int \<Rightarrow> int \<Rightarrow> int \<Rightarrow> mstring list \<Rightarrow> mstring list run" where
  "alts_loop inner [] i depth start result =
     do { s \<leftarrow> string_sub inner start None; Some (result @ [s]) }"
| "alts_loop inner (c # chars) i depth start result =
     (if c = Open_Brace then alts_loop inner chars (i + 1) (depth + 1) start result
      else if c = Close_Brace then alts_loop inner chars (i + 1) (depth - 1) start result
      else if c = Comma \<and> depth = 0 then do {
        s \<leftarrow> string_sub inner start (Some i);
        alts_loop inner chars (i + 1) depth (i + 1) (result @ [s])
      }
      else alts_loop inner chars (i + 1) depth start result)"

definition split_brace_alts :: "mstring \<Rightarrow> mstring list run" where
  "split_brace_alts inner = alts_loop inner (string_chars inner) 0 0 0 []"

text \<open>What is replaced is shorter than the group it replaces, so the expansion ends.\<close>

lemma string_sub_length:
  "string_sub s i (Some j) = Some t \<Longrightarrow> 0 \<le> i \<Longrightarrow> 0 \<le> j \<Longrightarrow>
   i \<le> j \<and> j \<le> int (length s) \<and> int (length t) = j - i"
  by (auto simp: string_sub_def Let_def slice_def split: if_splits)

lemma string_sub_None_length:
  "string_sub s i None = Some t \<Longrightarrow> 0 \<le> i \<Longrightarrow> i \<le> int (length s) \<and> int (length t) = int (length s) - i"
  by (auto simp: string_sub_def Let_def slice_def split: if_splits)

lemma string_sub_le: "string_sub s i j = Some t \<Longrightarrow> length t \<le> length s"
  by (auto simp: string_sub_def Let_def slice_def split: if_splits option.splits)

lemma alts_loop_length:
  "alts_loop inner chars i depth start result = Some alts \<Longrightarrow> 0 \<le> i \<Longrightarrow> 0 \<le> start \<Longrightarrow>
   list_all (\<lambda>t. length t \<le> length inner) result \<Longrightarrow> list_all (\<lambda>t. length t \<le> length inner) alts"
proof (induction inner chars i depth start result rule: alts_loop.induct)
  case (1 inner i depth start result)
  then show ?case by (auto simp: bind_eq_Some_conv dest: string_sub_le)
next
  case (2 inner c chars i depth start result)
  then show ?case
    by (auto simp: bind_eq_Some_conv dest: string_sub_le split: if_splits)
qed

lemma brace_loop_bounds:
  "brace_loop chars i depth start = Some (s, e) \<Longrightarrow> 0 \<le> i \<Longrightarrow> start < i \<Longrightarrow>
    0 \<le> s \<and> s < e"
  by (induction chars i depth start rule: brace_loop.induct) (auto split: if_splits)

function expand_braces :: "mstring \<Rightarrow> mstring list run" where
  "expand_braces pattern =
     (case find_brace_range pattern of
        None \<Rightarrow> Some [pattern]
      | Some (start, stop) \<Rightarrow> do {
          pre \<leftarrow> string_sub pattern 0 (Some start);
          inner \<leftarrow> string_sub pattern (start + 1) (Some stop);
          suf \<leftarrow> string_sub pattern (stop + 1) None;
          alts \<leftarrow> split_brace_alts inner;
          expanded \<leftarrow> those (map (\<lambda>alt. expand_braces ((pre @ alt) @ suf)) alts);
          Some (concat expanded)
        })"
  by pat_completeness auto
termination
proof (relation "measure length", goal_cases)
  case (2 pattern range start stop pre inner suf alts alt)
  then have "0 \<le> start" "start < stop"
    using brace_loop_bounds [of "string_chars pattern" 0 0 "-1" start stop]
    by (simp_all add: find_brace_range_def)
  moreover have "length alt \<le> length inner"
    using 2 alts_loop_length [of inner "string_chars inner" 0 0 0 "[]" alts]
    by (auto simp: split_brace_alts_def list_all_iff)
  ultimately show ?case
    using 2 string_sub_length [of pattern 0 start pre] string_sub_length [of pattern "start + 1" stop inner]
      string_sub_None_length [of pattern "stop + 1" suf]
    by auto
qed simp

declare expand_braces.simps [simp del]

fun any_match :: "mstring list \<Rightarrow> mstring \<Rightarrow> bool run" where
  "any_match [] path = Some False"
| "any_match (p # ps) path =
     do { b \<leftarrow> glob_match_single p path; if b then Some True else any_match ps path }"

definition glob_match :: "mstring \<Rightarrow> mstring \<Rightarrow> bool run" where
  "glob_match pattern path = do { ps \<leftarrow> expand_braces pattern; any_match ps path }"

subsection \<open>Trees of alternatives\<close>

datatype brace = Text mstring | Alts "brace list list"

fun render_brace :: "brace \<Rightarrow> mstring" and render_seq :: "brace list \<Rightarrow> mstring"
  and render_alts :: "brace list list \<Rightarrow> mstring" where
  "render_brace (Text t) = t"
| "render_brace (Alts as) = str ''{'' @ render_alts as @ str ''}''"
| "render_seq [] = []"
| "render_seq (b # bs) = render_brace b @ render_seq bs"
| "render_alts [] = []"
| "render_alts [a] = render_seq a"
| "render_alts (a # b # as) = render_seq a @ str '','' @ render_alts (b # as)"

fun expansions_brace :: "brace \<Rightarrow> mstring list" and expansions :: "brace list \<Rightarrow> mstring list"
  and expansions_alts :: "brace list list \<Rightarrow> mstring list" where
  "expansions_brace (Text t) = [t]"
| "expansions_brace (Alts as) = expansions_alts as"
| "expansions [] = [[]]"
| "expansions (b # bs) = [x @ y. x \<leftarrow> expansions_brace b, y \<leftarrow> expansions bs]"
| "expansions_alts [] = []"
| "expansions_alts (a # as) = expansions a @ expansions_alts as"

definition text_ok :: "bool \<Rightarrow> mstring \<Rightarrow> bool" where
  "text_ok inside t \<longleftrightarrow> no_surrogates t \<and> 123 \<notin> set t \<and> 125 \<notin> set t \<and> (inside \<longrightarrow> 44 \<notin> set t)"

fun brace_ok :: "bool \<Rightarrow> brace \<Rightarrow> bool" and seq_ok :: "bool \<Rightarrow> brace list \<Rightarrow> bool"
  and alts_ok :: "brace list list \<Rightarrow> bool" where
  "brace_ok inside (Text t) \<longleftrightarrow> text_ok inside t"
| "brace_ok inside (Alts as) \<longleftrightarrow> as \<noteq> [] \<and> alts_ok as"
| "seq_ok inside [] \<longleftrightarrow> True"
| "seq_ok inside (b # bs) \<longleftrightarrow> brace_ok inside b \<and> seq_ok inside bs"
| "alts_ok [] \<longleftrightarrow> True"
| "alts_ok (a # as) \<longleftrightarrow> seq_ok True a \<and> alts_ok as"

lemma uint_unit_eq [simp]:
  "uint (c :: code_unit) = 123 \<longleftrightarrow> c = 123" "uint (c :: code_unit) = 125 \<longleftrightarrow> c = 125"
  "uint (c :: code_unit) = 44 \<longleftrightarrow> c = 44"
  by (simp_all add: word_uint_eq_iff)

lemma uint_syntax [simp]:
  "uint (123 :: code_unit) = 123" "uint (125 :: code_unit) = 125" "uint (44 :: code_unit) = 44"
  by simp_all

lemma text_ok_Cons:
  "text_ok inside (c # t) \<longleftrightarrow> no_surrogates [c] \<and> c \<noteq> 123 \<and> c \<noteq> 125 \<and> (inside \<longrightarrow> c \<noteq> 44) \<and> text_ok inside t"
  by (auto simp: text_ok_def)

lemma brace_loop_text:
  "text_ok inside t \<Longrightarrow>
   brace_loop (map uint t @ cs) i d start = brace_loop cs (i + int (length t)) d start"
  by (induction t arbitrary: i) (auto simp: text_ok_Cons ac_simps)

lemma brace_loop_balanced:
  "brace_ok inside b \<Longrightarrow> 1 \<le> d \<Longrightarrow>
    brace_loop (map uint (render_brace b) @ cs) i d start =
    brace_loop cs (i + int (length (render_brace b))) d start"
  "seq_ok inside bs \<Longrightarrow> 1 \<le> d \<Longrightarrow>
    brace_loop (map uint (render_seq bs) @ cs) i d start =
    brace_loop cs (i + int (length (render_seq bs))) d start"
  "alts_ok as \<Longrightarrow> 1 \<le> d \<Longrightarrow>
    brace_loop (map uint (render_alts as) @ cs) i d start =
    brace_loop cs (i + int (length (render_alts as))) d start"
proof (induction b and bs and as arbitrary: inside cs i d and inside cs i d and cs i d
    rule: render_brace_render_seq_render_alts.induct)
  case (1 t)
  then show ?case by (simp add: brace_loop_text)
next
  case (2 as)
  then show ?case by (simp; simp add: ac_simps)
next
  case (4 b bs)
  then have "brace_ok inside b" "seq_ok inside bs" by simp_all
  from 4(1) [OF this(1) 4(4)] 4(2) [OF this(2) 4(4)] show ?case by (simp add: ac_simps)
next
  case (7 a b as)
  then have "seq_ok True a" "alts_ok (b # as)" by simp_all
  from 7(1) [OF this(1) 7(4)] 7(2) [OF this(2) 7(4)] show ?case by (simp; simp add: ac_simps)
next
  case (6 a)
  then have "seq_ok True a" by simp
  from 6(1) [OF this 6(3)] show ?case by simp
qed simp_all

lemma alts_loop_text:
  "text_ok inside t \<Longrightarrow> inside \<or> d \<noteq> 0 \<Longrightarrow>
   alts_loop inner (map uint t @ cs) i d start result = alts_loop inner cs (i + int (length t)) d start result"
  by (induction t arbitrary: i) (auto simp: text_ok_Cons ac_simps)

lemma alts_loop_balanced:
  "brace_ok True b \<Longrightarrow> 0 \<le> d \<Longrightarrow>
    alts_loop inner (map uint (render_brace b) @ cs) i d start result =
    alts_loop inner cs (i + int (length (render_brace b))) d start result"
  "seq_ok True bs \<Longrightarrow> 0 \<le> d \<Longrightarrow>
    alts_loop inner (map uint (render_seq bs) @ cs) i d start result =
    alts_loop inner cs (i + int (length (render_seq bs))) d start result"
  "alts_ok as \<Longrightarrow> 1 \<le> d \<Longrightarrow>
    alts_loop inner (map uint (render_alts as) @ cs) i d start result =
    alts_loop inner cs (i + int (length (render_alts as))) d start result"
proof (induction b and bs and as arbitrary: cs i d and cs i d and cs i d
    rule: render_brace_render_seq_render_alts.induct)
  case (1 t)
  then show ?case by (simp add: alts_loop_text)
next
  case (2 as)
  then show ?case by (simp; simp add: ac_simps)
next
  case (4 b bs)
  then show ?case by (simp; simp add: ac_simps)
next
  case (7 a b as)
  then show ?case by (simp; simp add: ac_simps)
qed auto

lemma no_surrogates_render:
  "brace_ok inside b \<Longrightarrow> no_surrogates (render_brace b)"
  "seq_ok inside bs \<Longrightarrow> no_surrogates (render_seq bs)"
  "alts_ok as \<Longrightarrow> no_surrogates (render_alts as)"
  by (induction b and bs and as arbitrary: inside and inside
      rule: render_brace_render_seq_render_alts.induct)
    (auto simp: text_ok_def is_trailing_surrogate_def is_leading_surrogate_def)

lemma alts_loop_alts:
  assumes "as \<noteq> []" and "alts_ok as" and "no_surrogates pre"
  shows "alts_loop (pre @ render_alts as) (map uint (render_alts as)) (int (length pre)) 0 (int (length pre)) result =
    Some (result @ map render_seq as)"
  using assms
proof (induction as arbitrary: pre result)
  case (Cons a as)
  then have a: "seq_ok True a" "no_surrogates (render_seq a)" and as: "alts_ok as" "no_surrogates (render_alts as)"
    using no_surrogates_render(2,3) by auto
  show ?case
  proof (cases as)
    case Nil
    have "string_sub (pre @ render_seq a) (int (length pre)) None = Some (render_seq a)"
      using Cons.prems(3) a by (subst string_sub_from) (simp_all add: cut_ok_no_surrogates)
    then show ?thesis
      using Nil alts_loop_balanced(2) [OF a(1), of 0 "pre @ render_seq a" "[]"] by simp
  next
    case (Cons b bs)
    let ?pre = "pre @ render_seq a @ [44]" and ?inner = "pre @ render_seq a @ 44 # render_alts as"
    have inner: "no_surrogates ?inner"
      using Cons.prems(3) a as by (simp add: is_trailing_surrogate_def is_leading_surrogate_def)
    have sub: "string_sub ?inner (int (length pre)) (Some (int (length pre + length (render_seq a)))) = Some (render_seq a)"
      using inner by (subst string_sub_eq) (simp_all add: cut_ok_no_surrogates slice_def)
    have "no_surrogates ?pre" using inner by simp
    from Cons.IH [OF _ as(1) this] Cons have
      "alts_loop ?inner (map uint (render_alts as)) (int (length ?pre)) 0 (int (length ?pre)) (result @ [render_seq a]) =
        Some (result @ map render_seq (a # as))" by simp
    then show ?thesis
      using Cons alts_loop_balanced(2) [OF a(1), of 0 ?inner "44 # map uint (render_alts as)"] sub
      by (simp; simp add: ac_simps)
  qed
qed simp

lemma split_brace_alts_render:
  "as \<noteq> [] \<Longrightarrow> alts_ok as \<Longrightarrow> split_brace_alts (render_alts as) = Some (map render_seq as)"
  using alts_loop_alts [of as "[]" "[]"] no_surrogates_render(3) [of as]
  by (simp add: split_brace_alts_def string_chars_plain)

lemma seq_ok_append: "seq_ok inside (xs @ ys) \<longleftrightarrow> seq_ok inside xs \<and> seq_ok inside ys"
  by (induction xs) auto

lemma seq_ok_outside: "seq_ok True bs \<Longrightarrow> seq_ok False bs"
proof (induction bs)
  case (Cons b bs)
  then show ?case by (cases b) (simp_all add: text_ok_def)
qed simp

lemma render_seq_append: "render_seq (xs @ ys) = render_seq xs @ render_seq ys"
  by (induction xs) auto

lemma expansions_texts: "expansions (map Text ts @ bs) = map ((@) (concat ts)) (expansions bs)"
proof (induction ts)
  case (Cons t ts)
  then show ?case by (simp add: comp_def)
qed (simp add: map_idI)

lemma render_texts: "render_seq (map Text ts) = concat ts"
  by (induction ts) auto

lemma texts_ok: "seq_ok inside (map Text ts) \<Longrightarrow> text_ok inside (concat ts)"
  by (induction ts) (auto simp: text_ok_def)

lemma expansions_append: "expansions (xs @ ys) = [x @ y. x \<leftarrow> expansions xs, y \<leftarrow> expansions ys]"
proof (induction xs)
  case (Cons b bs)
  have assoc: "[x @ z. x \<leftarrow> xs, z \<leftarrow> [u @ v. u \<leftarrow> us, v \<leftarrow> vs]] = [w @ v. w \<leftarrow> [x @ u. x \<leftarrow> xs, u \<leftarrow> us], v \<leftarrow> vs]"
    for xs us vs :: "mstring list"
  proof (induction xs)
    case (Cons x xs)
    have "(@) (x @ u) = (\<lambda>v. x @ u @ v)" for u :: mstring by (rule ext) simp
    with Cons show ?case by (simp add: map_concat comp_def)
  qed simp
  from Cons show ?case by (simp add: assoc)
qed (simp add: map_idI)

lemma alts_ok_iff: "alts_ok as \<longleftrightarrow> (\<forall>a \<in> set as. seq_ok True a)"
  by (induction as) auto

lemma render_alts_length: "a \<in> set as \<Longrightarrow> length (render_seq a) \<le> length (render_alts as)"
proof (induction as)
  case (Cons b as)
  then show ?case by (cases as) auto
qed simp

lemma expansions_alts_eq: "expansions_alts as = concat (map expansions as)"
  by (induction as) auto

lemma expansions_group:
  "expansions (map Text ts @ Alts as # rest) = concat (map (\<lambda>a. expansions (map Text ts @ a @ rest)) as)"
proof -
  have "expansions (Alts as # rest) = concat (map (\<lambda>a. expansions (a @ rest)) as)"
    by (induction as) (simp_all add: expansions_append expansions_alts_eq)
  then show ?thesis by (simp add: expansions_texts map_concat comp_def)
qed

lemma seq_cases:
  obtains (texts) ts where "bs = map Text ts"
    | (group) ts as rest where "bs = map Text ts @ Alts as # rest"
proof (induction bs)
  case (Cons b bs)
  show ?case
  proof (cases b)
    case (Text t)
    with Cons show ?thesis by (metis append_Cons list.simps(9))
  next
    case (Alts as)
    then show ?thesis using Cons.prems(2) [of "[]"] by simp
  qed
qed (metis list.simps(8))

lemma find_brace_range_texts:
  assumes "text_ok False t" shows "find_brace_range t = None"
  using assms brace_loop_text [of False t "[]" 0 0 "-1"]
  by (simp add: find_brace_range_def string_chars_plain text_ok_def)

lemma find_brace_range_group:
  assumes "text_ok False t" and "alts_ok as" and "no_surrogates r"
  shows "find_brace_range (t @ str ''{'' @ render_alts as @ str ''}'' @ r) =
    Some (int (length t), int (length t) + 1 + int (length (render_alts as)))"
proof -
  have "string_chars (t @ str ''{'' @ render_alts as @ str ''}'' @ r) =
      map uint t @ Open_Brace # map uint (render_alts as) @ Close_Brace # map uint r"
    using assms no_surrogates_render(3) [of as]
    by (subst string_chars_plain) (simp_all add: text_ok_def is_trailing_surrogate_def is_leading_surrogate_def)
  then show ?thesis
    using assms brace_loop_text [of False t _ 0 0 "-1"] brace_loop_balanced(3) [of as 1]
    by (simp add: find_brace_range_def)
qed

lemma those_map_Some: "(\<And>x. x \<in> set xs \<Longrightarrow> f x = Some (g x)) \<Longrightarrow> those (map f xs) = Some (map g xs)"
  by (induction xs) auto

lemma expand_braces_seq: "seq_ok False bs \<Longrightarrow> expand_braces (render_seq bs) = Some (expansions bs)"
proof (induction "length (render_seq bs)" arbitrary: bs rule: less_induct)
  case less
  show ?case
  proof (cases bs rule: seq_cases)
    case (texts ts)
    then show ?thesis using less.prems texts_ok [of False ts] expansions_texts [of ts "[]"]
      by (subst expand_braces.simps) (simp add: render_texts find_brace_range_texts)
  next
    case (group ts as rest)
    let ?t = "concat ts" and ?r = "render_seq rest"
    have ok: "text_ok False ?t" "as \<noteq> []" "alts_ok as" "seq_ok False rest" "no_surrogates ?r"
      using less.prems group texts_ok no_surrogates_render(2) by (auto simp: seq_ok_append)
    let ?p = "?t @ str ''{'' @ render_alts as @ str ''}'' @ ?r"
    have p: "render_seq bs = ?p" using group by (simp add: render_seq_append render_texts)
    have plain: "no_surrogates ?p" using no_surrogates_render(2) [OF less.prems] p by simp
    have alt: "expand_braces (?t @ render_seq a @ ?r) = Some (expansions (map Text ts @ a @ rest))"
      if "a \<in> set as" for a
    proof -
      have "seq_ok True a" "length (render_seq a) \<le> length (render_alts as)"
        using that ok(3) by (auto simp: alts_ok_iff render_alts_length)
      then have "seq_ok False (map Text ts @ a @ rest)"
        using less.prems group by (simp add: seq_ok_append seq_ok_outside)
      moreover have "length (render_seq (map Text ts @ a @ rest)) < length (render_seq bs)"
        using \<open>length (render_seq a) \<le> _\<close> p by (simp add: render_seq_append render_texts)
      ultimately show ?thesis using less.hyps by (metis render_seq_append render_texts)
    qed
    have pre: "string_sub ?p 0 (Some (int (length ?t))) = Some ?t"
      using plain string_sub_eq [of 0 "length ?t" ?p] by (simp add: cut_ok_no_surrogates)
    have inner: "string_sub ?p (int (length ?t) + 1) (Some (int (length ?t) + 1 + int (length (render_alts as)))) =
        Some (render_alts as)"
      using plain string_sub_eq [of "length ?t + 1" "length ?t + 1 + length (render_alts as)" ?p]
      by (simp add: cut_ok_no_surrogates slice_def ac_simps)
    have suf: "string_sub ?p (int (length ?t) + 1 + int (length (render_alts as)) + 1) None = Some ?r"
      using plain string_sub_from [of "length ?t + 1 + length (render_alts as) + 1" ?p]
      by (simp add: cut_ok_no_surrogates ac_simps)
    have "expand_braces ?p =
        do { expanded \<leftarrow> those (map (\<lambda>a. expand_braces (?t @ render_seq a @ ?r)) as); Some (concat expanded) }"
      unfolding expand_braces.simps [of ?p] find_brace_range_group [OF ok(1,3,5)]
      by (simp only: option.case prod.case pre inner suf Option.bind.bind_lunit
          split_brace_alts_render [OF ok(2,3)] map_map comp_def append_assoc)
    then show ?thesis
      using those_map_Some [of as _ "\<lambda>a. expansions (map Text ts @ a @ rest)", OF alt]
      unfolding p by (simp add: group expansions_group)
  qed
qed

lemma any_match_eq:
  "any_match ps path = Some (\<exists>p \<in> set ps. matches (pattern_atoms (string_chars p)) (string_chars path))"
  by (induction ps) (simp_all add: run_simps)

text \<open>
  Expanding the braces of a pattern gives all the choices of one alternative for every
  group, nested groups included, in the order of the alternatives, leftmost group first; the
  expansion of every such pattern ends without an abort.
\<close>

theorem expand_braces_render:
  assumes "seq_ok False bs"
  shows "expand_braces (render_seq bs) = Some (expansions bs)"
  using assms by (rule expand_braces_seq)

definition demo_braces :: "brace list" where
  "demo_braces = [Text (str ''a''), Alts [[Text (str ''b''), Alts [[Text (str ''c'')], []]], [Text (str ''d'')]],
     Text (str ''e'')]"

lemma demo_braces_ok:
  "seq_ok False demo_braces" "render_seq demo_braces = str ''a{b{c,},d}e''"
  "expansions demo_braces = [str ''abce'', str ''abe'', str ''ade'']"
  by (simp_all add: demo_braces_def text_ok_def is_trailing_surrogate_def is_leading_surrogate_def)

theorem expand_braces_render_witness:
  "expand_braces (str ''a{b{c,},d}e'') = Some [str ''abce'', str ''abe'', str ''ade'']"
  using expand_braces_render [OF demo_braces_ok(1)] by (simp only: demo_braces_ok)

text \<open>
  Property C33. A path matches a pattern with braces when it is in the language of one of its
  expansions.
\<close>

theorem glob_match_language:
  assumes "seq_ok False bs"
  shows "glob_match (render_seq bs) path =
    Some (\<exists>p \<in> set (expansions bs). matches (pattern_atoms (string_chars p)) (string_chars path))"
  using assms by (simp add: glob_match_def expand_braces_seq any_match_eq)

lemma demo_match: "glob_match_single (str ''ade'') (str ''ade'') = Some True"
  by code_simp

theorem glob_match_language_witness: "glob_match (str ''a{b{c,},d}e'') (str ''ade'') = Some True"
  using glob_match_language [OF demo_braces_ok(1), of "str ''ade''"] demo_match
  by (simp only: demo_braces_ok glob_match_single_eq option.inject) simp

subsection \<open>Lists of patterns\<close>

record glob_pattern =
  gp_raw :: mstring
  gp_base_dir :: mstring
  gp_is_negation :: bool

definition parse_one :: "mstring \<Rightarrow> glob_pattern run" where
  "parse_one p = do {
     is_neg \<leftarrow> has_prefix p (str ''!'');
     clean \<leftarrow> (if is_neg then string_sub p 1 None else Some p);
     dir \<leftarrow> extract_base_dir clean;
     Some \<lparr>gp_raw = clean, gp_base_dir = dir, gp_is_negation = is_neg\<rparr>
   }"

definition parse_glob :: "mstring \<Rightarrow> glob_pattern list run" where
  "parse_glob raw = do { ps \<leftarrow> expand_braces raw; those (map parse_one ps) }"

fun push_globs :: "glob_pattern list \<Rightarrow> glob_pattern list \<Rightarrow> glob_pattern list \<Rightarrow>
    glob_pattern list \<times> glob_pattern list" where
  "push_globs [] positives negations = (positives, negations)"
| "push_globs (gp # gps) positives negations =
     (if gp_is_negation gp then push_globs gps positives (negations @ [gp])
      else push_globs gps (positives @ [gp]) negations)"

fun globs_loop :: "mstring list \<Rightarrow> glob_pattern list \<Rightarrow> glob_pattern list \<Rightarrow>
    (glob_pattern list \<times> glob_pattern list) run" where
  "globs_loop [] positives negations = Some (positives, negations)"
| "globs_loop (raw # patterns) positives negations = do {
     gps \<leftarrow> parse_glob raw;
     let (positives, negations) = push_globs gps positives negations;
     globs_loop patterns positives negations
   }"

definition parse_globs :: "mstring list \<Rightarrow> (glob_pattern list \<times> glob_pattern list) run" where
  "parse_globs patterns = do {
     (positives, negations) \<leftarrow> globs_loop patterns [] [];
     Some (positives, filter (\<lambda>neg. \<not> list_ex (\<lambda>pos. gp_raw pos = gp_raw neg) positives) negations)
   }"

subsection \<open>Which patterns apply\<close>

lemma push_globs_eq:
  "push_globs gps ps ns = (ps @ filter (\<lambda>g. \<not> gp_is_negation g) gps, ns @ filter gp_is_negation gps)"
  by (induction gps arbitrary: ps ns) simp_all

lemma globs_loop_eq:
  "globs_loop patterns ps ns = map_option
     (\<lambda>gss. (ps @ filter (\<lambda>g. \<not> gp_is_negation g) (concat gss), ns @ filter gp_is_negation (concat gss)))
     (those (map parse_glob patterns))"
proof (induction patterns arbitrary: ps ns)
  case (Cons raw patterns)
  then show ?case
    by (cases "parse_glob raw"; cases "those (map parse_glob patterns)") (simp_all add: push_globs_eq Let_def)
qed simp

lemma those_map_Some_id: "those (map Some ys) = Some ys"
  by (induction ys) simp_all

lemma those_eq_SomeD: "those xs = Some ys \<Longrightarrow> xs = map Some ys"
proof (induction xs arbitrary: ys)
  case (Cons x xs)
  then obtain y zs where "x = Some y" "those xs = Some zs" "ys = y # zs"
    by (cases x; cases "those xs") simp_all
  with Cons.IH show ?case by simp
qed simp

lemma those_map_mset:
  assumes "those (map f xs) = Some ys" and "mset xs = mset zs"
  obtains ws where "those (map f zs) = Some ws" and "mset ws = mset ys"
proof -
  have f: "map f xs = map Some ys" using assms(1) by (rule those_eq_SomeD)
  have "mset (map f zs) = mset (map Some ys)" using assms(2) f by (metis mset_map)
  then have same: "set (map f zs) = set (map Some ys)" by (rule mset_eq_setD)
  have "f z = Some (the (f z))" if "z \<in> set zs" for z
  proof -
    have "f z \<in> set (map Some ys)" unfolding same [symmetric] using that by simp
    then show ?thesis by auto
  qed
  then have "map f zs = map Some (map (\<lambda>z. the (f z)) zs)" by simp
  moreover have "mset (map (\<lambda>z. the (f z)) zs) = image_mset the (mset (map f zs))"
    by (simp add: image_mset.compositionality comp_def)
  then have "mset (map (\<lambda>z. the (f z)) zs) = mset ys"
    unfolding \<open>mset (map f zs) = mset (map Some ys)\<close> by (simp add: image_mset.compositionality comp_def)
  ultimately show thesis using that by (metis those_map_Some_id)
qed

text \<open>
  Property C35. The order of the patterns does not matter: permuting them permutes the positive
  and the negated patterns that apply, and no negation remains that repeats a positive one,
  wherever in the list the two stood.
\<close>

theorem parse_globs_order:
  assumes "parse_globs patterns = Some (pos, neg)" and "mset patterns = mset permuted"
  shows "(\<exists>pos' neg'. parse_globs permuted = Some (pos', neg') \<and> mset pos' = mset pos \<and> mset neg' = mset neg) \<and>
    gp_raw ` set pos \<inter> gp_raw ` set neg = {}"
proof -
  obtain gss where gss: "those (map parse_glob patterns) = Some gss"
    using assms(1) by (auto simp: parse_globs_def globs_loop_eq bind_eq_Some_conv)
  obtain hss where hss: "those (map parse_glob permuted) = Some hss" and m: "mset hss = mset gss"
    using gss assms(2) by (rule those_map_mset)
  have concat: "mset (concat hss) = mset (concat gss)"
    using m by (simp add: mset_concat sum_mset_sum_list [symmetric])
  have pos: "mset (filter (\<lambda>g. \<not> gp_is_negation g) (concat hss)) = mset (filter (\<lambda>g. \<not> gp_is_negation g) (concat gss))"
    using concat by (simp only: mset_filter)
  then have same: "set (filter (\<lambda>g. \<not> gp_is_negation g) (concat hss)) = set (filter (\<lambda>g. \<not> gp_is_negation g) (concat gss))"
    by (rule mset_eq_setD)
  let ?keep = "\<lambda>xs neg. \<not> list_ex (\<lambda>pos. gp_raw pos = gp_raw neg) (filter (\<lambda>g. \<not> gp_is_negation g) xs)"
  have keep: "?keep (concat hss) = ?keep (concat gss)"
    using same by (simp only: list_ex_iff)
  have negs: "mset (filter gp_is_negation (concat hss)) = mset (filter gp_is_negation (concat gss))"
    using concat by (simp only: mset_filter)
  have neg: "mset (filter (?keep (concat hss)) (filter gp_is_negation (concat hss))) =
      mset (filter (?keep (concat gss)) (filter gp_is_negation (concat gss)))"
    unfolding keep mset_filter [of "?keep (concat gss)"] negs ..
  have result: "parse_globs ps = Some (filter (\<lambda>g. \<not> gp_is_negation g) (concat g),
      filter (?keep (concat g)) (filter gp_is_negation (concat g)))"
    if "those (map parse_glob ps) = Some g" for ps g
    using that by (simp add: parse_globs_def globs_loop_eq del: filter_filter)
  note eqs = assms(1) [unfolded result [OF gss] option.inject prod.inject]
  note pos_eq = eqs [THEN conjunct1, symmetric] and neg_eq = eqs [THEN conjunct2, symmetric]
  show ?thesis
  proof (intro conjI exI)
    show "parse_globs permuted = Some (filter (\<lambda>g. \<not> gp_is_negation g) (concat hss),
        filter (?keep (concat hss)) (filter gp_is_negation (concat hss)))" by (rule result [OF hss])
    show "gp_raw ` set pos \<inter> gp_raw ` set neg = {}"
      unfolding pos_eq neg_eq by (auto simp: list_ex_iff)
  qed (simp_all only: pos neg pos_eq neg_eq)
qed

definition js_pattern :: glob_pattern where
  "js_pattern = \<lparr>gp_raw = str ''*.js'', gp_base_dir = str ''.'', gp_is_negation = False\<rparr>"

lemma js_globs: "parse_globs [str ''*.js'', str ''!*.js''] = Some ([js_pattern], [])"
  by code_simp

theorem parse_globs_order_witness:
  "(\<exists>pos' neg'. parse_globs [str ''!*.js'', str ''*.js''] = Some (pos', neg') \<and>
     mset pos' = mset [js_pattern] \<and> mset neg' = mset []) \<and>
   gp_raw ` set [js_pattern] \<inter> gp_raw ` set ([] :: glob_pattern list) = {}"
  by (rule parse_globs_order [OF js_globs]) simp

text \<open>
  A character beyond the basic plane before a group makes the code cut the pattern at the wrong
  units: the group is not expanded, and a part of the pattern is lost.
\<close>

lemma expand_braces_after_pair:
  "expand_braces ([55357, 56832] @ str ''xx{a}'') = Some [[55357, 56832] @ str ''}'']"
  by code_simp

end
