(* ===== verification/Glob_Watcher.thy ===== *)
theory Glob_Watcher
  imports Chokidar_Cycle Glob_Braces
begin

text \<open>
  The watcher of glob patterns (\<open>glob-watcher/globwatcher.mbt\<close>, \<open>debounce.mbt\<close>, \<open>queue.mbt\<close>): it starts a
  watcher on the base directories of its patterns, keeps the events that match one of them, waits
  until they have stopped for a while, and runs a callback, one run at a time.
\<close>

subsection \<open>Debouncing\<close>

record debouncer =
  db_delay :: "32 word"
  db_last_event_at :: "64 word option"
  db_pending :: "event option"

definition debouncer_new :: "32 word \<Rightarrow> debouncer" where
  "debouncer_new delay = \<lparr>db_delay = delay, db_last_event_at = None, db_pending = None\<rparr>"

definition debouncer_feed :: "event \<Rightarrow> 64 word \<Rightarrow> debouncer \<Rightarrow> debouncer" where
  "debouncer_feed event now self = self\<lparr>db_last_event_at := Some now, db_pending := Some event\<rparr>"

text \<open>The delay is read as an unsigned number; the sum is one of 64 bits.\<close>

definition debouncer_flush :: "64 word \<Rightarrow> debouncer \<Rightarrow> event option \<times> debouncer" where
  "debouncer_flush now self =
     (case db_last_event_at self of
        None \<Rightarrow> (None, self)
      | Some last_at \<Rightarrow>
          let delay = ucast (db_delay self) :: 64 word in
          if last_at + delay \<le> now then (db_pending self, self\<lparr>db_last_event_at := None, db_pending := None\<rparr>)
          else (None, self))"

subsection \<open>The queue of callbacks\<close>

record callback_queue =
  cq_running :: bool
  cq_queued_event :: "event option"
  cq_queue_mode :: bool

definition callback_queue_new :: "bool \<Rightarrow> callback_queue" where
  "callback_queue_new queue_mode = \<lparr>cq_running = False, cq_queued_event = None, cq_queue_mode = queue_mode\<rparr>"

text \<open>
  The callback works on the queue, since it may ask for another run while it runs, and on the rest of
  the state; it returns the message of the error it raises.
\<close>

type_synonym 's callback = "event \<Rightarrow> callback_queue \<times> 's \<Rightarrow> (mstring option \<times> callback_queue \<times> 's) run"

partial_function (option) try_run ::
    "'s callback \<Rightarrow> (mstring \<Rightarrow> 's \<Rightarrow> 's) \<Rightarrow> event \<Rightarrow> callback_queue \<times> 's \<Rightarrow> (callback_queue \<times> 's) run" where
  "try_run cb on_err event s =
     (case s of (self, w) \<Rightarrow>
        if cq_running self
        then Some (if cq_queue_mode self then self\<lparr>cq_queued_event := Some event\<rparr> else self, w)
        else do {
          (err, self, w) \<leftarrow> cb event (self\<lparr>cq_running := True\<rparr>, w);
          let self = self\<lparr>cq_running := False\<rparr>;
          let w = (case err of Some msg \<Rightarrow> on_err msg w | None \<Rightarrow> w);
          case cq_queued_event self of
            Some queued \<Rightarrow> try_run cb on_err queued (self\<lparr>cq_queued_event := None\<rparr>, w)
          | None \<Rightarrow> Some (self, w)
        })"

declare try_run.simps [code]

subsection \<open>The watcher\<close>

record glob_options =
  go_delay :: "32 word"
  go_queue :: bool
  go_events :: "event_name list"
  go_ignore_initial :: bool
  go_ignored :: "matcher list"
  go_cwd :: "mstring option"
  go_depth :: int
  go_loop_interval :: int
  go_use_polling :: bool

definition default_glob_options :: glob_options where
  "default_glob_options =
     \<lparr>go_delay = 200, go_queue = True, go_events = [Add, Change, Unlink], go_ignore_initial = True, go_ignored = [],
      go_cwd = None, go_depth = 2147483647, go_loop_interval = 10, go_use_polling = True\<rparr>"

text \<open>The only listener of the inner watcher is the handler of a tick.\<close>

record 'c glob_watcher =
  gw_watcher :: "unit watcher"
  gw_debouncer :: debouncer
  gw_queue :: callback_queue
  gw_positives :: "glob_pattern list"
  gw_options :: glob_options
  gw_listeners :: "'c listener_entry list"

fun emit_to_listeners :: "('c, 'w) host \<Rightarrow> 'c listener_entry list \<Rightarrow> event \<Rightarrow> 'w \<Rightarrow> 'w" where
  "emit_to_listeners host [] event w = w"
| "emit_to_listeners host (entry # entries) event w =
     emit_to_listeners host entries event
       (if le_event entry = ev_name event \<or> le_event entry = All then h_call host (le_callback entry) event w else w)"

fun base_dirs_loop :: "glob_pattern list \<Rightarrow> mstring list \<Rightarrow> mstring list \<Rightarrow> mstring list" where
  "base_dirs_loop [] seen base_dirs = base_dirs"
| "base_dirs_loop (g # gs) seen base_dirs =
     (if gp_base_dir g \<notin> set seen then base_dirs_loop gs (seen @ [gp_base_dir g]) (base_dirs @ [gp_base_dir g])
      else base_dirs_loop gs seen base_dirs)"

definition resolved_dir :: "mstring \<Rightarrow> mstring \<Rightarrow> mstring" where
  "resolved_dir cwd d = (if d = str ''.'' then cwd else cwd @ str ''/'' @ d)"

definition negation_matcher :: "glob_pattern \<Rightarrow> matcher" where
  "negation_matcher g = MatchFunction (\<lambda>path _. glob_match (gp_raw g) path)"

fun any_positive :: "glob_pattern list \<Rightarrow> mstring \<Rightarrow> bool run" where
  "any_positive [] path = Some False"
| "any_positive (p # ps) path = do { b \<leftarrow> glob_match (gp_raw p) path; if b then Some True else any_positive ps path }"

definition tick_handler :: "event_name list \<Rightarrow> glob_pattern list \<Rightarrow> event \<Rightarrow> event list \<times> event list \<Rightarrow> (event list \<times> event list) run" where
  "tick_handler events positives event s =
     (case s of (direct_events, file_events) \<Rightarrow>
        if ev_name event = Ready \<or> ev_name event = Error \<or> ev_name event = Raw
        then Some (direct_events @ [event], file_events)
        else if ev_name event \<in> set events then do {
          matches \<leftarrow> any_positive positives (ev_path event);
          Some (direct_events, if matches then file_events @ [event] else file_events)
        }
        else Some s)"

text \<open>
  The handler of a tick reads only what does not change, and writes two arrays that nothing reads before
  the cycle has ended. So the world of the inner watcher records the events it is called with, and
  the calls take effect in their order after the cycle.
\<close>

fun handle_calls :: "event_name list \<Rightarrow> glob_pattern list \<Rightarrow> event list \<Rightarrow> event list \<times> event list \<Rightarrow> (event list \<times> event list) run" where
  "handle_calls events positives [] s = Some s"
| "handle_calls events positives (e # es) s = do { s \<leftarrow> tick_handler events positives e s; handle_calls events positives es s }"

definition tick_host :: "('c, 'w) host \<Rightarrow> (unit, 'w \<times> event list) host" where
  "tick_host host =
     \<lparr>h_inotify_init = (\<lambda>(w, calls). case h_inotify_init host w of (fd, w) \<Rightarrow> (fd, w, calls)),
      h_inotify_add_watch = (\<lambda>fd path (w, calls). case h_inotify_add_watch host fd path w of (wd, w) \<Rightarrow> (wd, w, calls)),
      h_inotify_rm_watch = (\<lambda>fd wd (w, calls). (h_inotify_rm_watch host fd wd w, calls)),
      h_inotify_read = (\<lambda>fd (w, calls). case h_inotify_read host fd w of (es, w) \<Rightarrow> (es, w, calls)),
      h_now = (\<lambda>(w, calls). case h_now host w of (t, w) \<Rightarrow> (t, w, calls)),
      h_files = (\<lambda>(w, calls). h_files host w), h_getenv = (\<lambda>name (w, calls). h_getenv host name w),
      h_call = (\<lambda>_ event (w, calls). (w, calls @ [event]))\<rparr>"

text \<open>Of the two errors, \<open>GlobError\<close> and \<open>SetupError\<close>, the callers use only the message.\<close>

definition glob_watcher_new ::
    "('c, 'w) host \<Rightarrow> watch_paths \<Rightarrow> glob_options \<Rightarrow> 'w world \<Rightarrow> ((mstring + 'c glob_watcher) \<times> 'w world) run" where
  "glob_watcher_new host glob options wd = do {
     let raw_patterns = watch_path_values glob;
     (positives, final_negations) \<leftarrow> parse_globs raw_patterns;
     if positives = [] then Some (Inl (str ''no positive glob patterns provided''), wd)
     else do {
       let all_ignored = go_ignored options @ map negation_matcher final_negations;
       let chokidar_opts = default_watch_options
         \<lparr>wo_ignore_initial := go_ignore_initial options, wo_ignored := all_ignored, wo_cwd := go_cwd options,
          wo_depth := go_depth options, wo_persistent := False, wo_use_polling := go_use_polling options\<rparr>;
       let base_dirs = base_dirs_loop positives [] [];
       let resolved_dirs = (case go_cwd options of None \<Rightarrow> base_dirs | Some cwd \<Rightarrow> map (resolved_dir cwd) base_dirs);
       let watch_paths = (if length resolved_dirs = 1 then watch_paths.One (resolved_dirs ! 0) else watch_paths.Many resolved_dirs);
       (r, b, w, _) \<leftarrow> chokidar_watch (tick_host host) watch_paths chokidar_opts (fst wd, snd wd, []);
       Some (case r of
           Inl message \<Rightarrow> Inl message
         | Inr watcher \<Rightarrow> Inr \<lparr>gw_watcher = watcher, gw_debouncer = debouncer_new (go_delay options),
             gw_queue = callback_queue_new (go_queue options), gw_positives = positives, gw_options = options,
             gw_listeners = []\<rparr>, b, w)
     }
   }"

text \<open>
  A tick may raise an error, and its callers look for one: its result has the message of the error
  besides the new state. Each of the three ways to its end returns without an error.
\<close>

definition glob_tick ::
    "('c, 'w) host \<Rightarrow> 'w world callback option \<Rightarrow> 'c glob_watcher \<times> 'w world \<Rightarrow>
     (mstring option \<times> 'c glob_watcher \<times> 'w world) run" where
  "glob_tick host cb s = do {
     let (self, b, w) = s;
     let watcher = watcher_on Raw () (watcher_on Error () (watcher_on Ready () (watcher_on All () (gw_watcher self))));
     (process_err, watcher, b, w, calls) \<leftarrow> watcher_process (tick_host host) (watcher, b, w, []);
     (direct_events, file_events) \<leftarrow> handle_calls (go_events (gw_options self)) (gw_positives self) calls ([], []);
     let watcher = watcher_off Raw () (watcher_off Error () (watcher_off Ready () (watcher_off All () watcher)));
     let w = fold (emit_to_listeners host (gw_listeners self)) direct_events w;
     let w = (case process_err of
         Some msg \<Rightarrow> emit_to_listeners host (gw_listeners self) (error_event msg) w
       | None \<Rightarrow> w);
     let (now, w) = h_now host w;
     let db = fold (\<lambda>event. debouncer_feed event now) file_events (gw_debouncer self);
     let (now2, w) = h_now host w;
     let (flushed, db) = debouncer_flush now2 db;
     let self = self\<lparr>gw_watcher := watcher, gw_debouncer := db\<rparr>;
     case flushed of
       None \<Rightarrow> Some (None, self, b, w)
     | Some event \<Rightarrow>
         (case cb of
            None \<Rightarrow> Some (None, self, b, w)
          | Some callback \<Rightarrow> do {
              (queue, wd) \<leftarrow> try_run callback
                (\<lambda>msg (b, w). (b, emit_to_listeners host (gw_listeners self) (error_event msg) w)) event (gw_queue self, b, w);
              Some (None, self\<lparr>gw_queue := queue\<rparr>, wd)
            })
   }"

definition glob_watcher_close :: "('c, 'w) host \<Rightarrow> 'c glob_watcher \<times> 'w world \<Rightarrow> 'c glob_watcher \<times> 'w world" where
  "glob_watcher_close host s =
     (case s of (self, b, w) \<Rightarrow>
        case watcher_close (tick_host host) (gw_watcher self, b, w, []) of
          (watcher, b, w, _) \<Rightarrow> (self\<lparr>gw_watcher := watcher, gw_listeners := []\<rparr>, b, w))"

subsection \<open>One run at a time\<close>

text \<open>
  A callback that asks for other runs: for each event it asks for it calls the queue again, as a
  tick inside the callback does, with a callback \<open>inner\<close> of any kind; then it ends with the error it raises and
  what it does to the rest of the state.
\<close>

fun ask_all :: "'s callback \<Rightarrow> (mstring \<Rightarrow> 's \<Rightarrow> 's) \<Rightarrow> event list \<Rightarrow> callback_queue \<times> 's \<Rightarrow> (callback_queue \<times> 's) run" where
  "ask_all inner on_err [] s = Some s"
| "ask_all inner on_err (e # es) s = do { s \<leftarrow> try_run inner on_err e s; ask_all inner on_err es s }"

definition asking ::
    "'s callback \<Rightarrow> (mstring \<Rightarrow> 's \<Rightarrow> 's) \<Rightarrow> (event \<Rightarrow> 's \<Rightarrow> event list \<times> mstring option \<times> 's) \<Rightarrow> 's callback" where
  "asking inner on_err f e s =
     (case s of (q, w) \<Rightarrow> case f e w of (es, err, w) \<Rightarrow> do { (q, w) \<leftarrow> ask_all inner on_err es (q, w); Some (err, q, w) })"

text \<open>While a run is on, the queue only notes the last event it was asked for; \<open>inner\<close> is not called.\<close>

definition asks :: "event list \<Rightarrow> callback_queue \<Rightarrow> callback_queue" where
  "asks es q = (if cq_queue_mode q \<and> es \<noteq> [] then q\<lparr>cq_queued_event := Some (last es)\<rparr> else q)"

lemma try_run_busy:
  "cq_running q \<Longrightarrow> try_run inner on_err e (q, w) = Some (if cq_queue_mode q then q\<lparr>cq_queued_event := Some e\<rparr> else q, w)"
  by (subst try_run.simps) simp

lemma ask_all_busy: "cq_running q \<Longrightarrow> ask_all inner on_err es (q, w) = Some (asks es q, w)"
  by (induction es arbitrary: q) (auto simp: asks_def try_run_busy)

lemma asking_busy:
  "cq_running q \<Longrightarrow> asking inner on_err f e (q, w) = (case f e w of (es, err, w) \<Rightarrow> Some (err, asks es q, w))"
  by (simp add: asking_def ask_all_busy split: prod.splits)

definition idle_queue :: "bool \<Rightarrow> callback_queue" where
  "idle_queue mode = callback_queue_new mode"

text \<open>The runs that follow the first: each with the last event that the one before asked for.\<close>

fun runs :: "(event \<Rightarrow> 's \<Rightarrow> event list \<times> mstring option \<times> 's) \<Rightarrow> (mstring \<Rightarrow> 's \<Rightarrow> 's) \<Rightarrow> event list \<Rightarrow> 's \<Rightarrow> 's" where
  "runs f on_err [] w = w"
| "runs f on_err (e # es) w =
     (case f e w of (_, err, w) \<Rightarrow> runs f on_err es (case err of None \<Rightarrow> w | Some msg \<Rightarrow> on_err msg w))"

fun chain :: "(event \<Rightarrow> 's \<Rightarrow> event list \<times> mstring option \<times> 's) \<Rightarrow> (mstring \<Rightarrow> 's \<Rightarrow> 's) \<Rightarrow> bool \<Rightarrow> event list \<Rightarrow> 's \<Rightarrow> bool" where
  "chain f on_err mode [] w = False"
| "chain f on_err mode [e] w = (\<not> mode \<or> fst (f e w) = [])"
| "chain f on_err mode (e # e' # es) w =
     (mode \<and> fst (f e w) \<noteq> [] \<and> e' = last (fst (f e w)) \<and> chain f on_err mode (e' # es) (runs f on_err [e] w))"

lemma try_run_step:
  "try_run (asking inner ask_err f) on_err e (idle_queue mode, w) =
     (if mode \<and> fst (f e w) \<noteq> [] then try_run (asking inner ask_err f) on_err (last (fst (f e w))) (idle_queue mode, runs f on_err [e] w)
      else Some (idle_queue mode, runs f on_err [e] w))"
  by (subst try_run.simps)
    (auto simp: asking_busy asks_def idle_queue_def callback_queue_new_def Let_def split: prod.splits option.splits)

lemma try_run_chain:
  "chain f on_err mode es w \<Longrightarrow>
   try_run (asking inner ask_err f) on_err (hd es) (idle_queue mode, w) = Some (idle_queue mode, runs f on_err es w)"
proof (induction f on_err mode es w rule: chain.induct)
  case (2 f on_err mode e w)
  then show ?case by (subst try_run_step) auto
next
  case (3 f on_err mode e e' es w)
  then have "try_run (asking inner ask_err f) on_err e (idle_queue mode, w) = try_run (asking inner ask_err f) on_err e' (idle_queue mode, runs f on_err [e] w)"
    by (subst try_run_step) simp
  then show ?case using 3 by (simp split: prod.splits)
qed simp

text \<open>What returns is a chain.\<close>

lemma try_run_returns_chain:
  fixes f :: "event \<Rightarrow> 's \<Rightarrow> event list \<times> mstring option \<times> 's"
  assumes "try_run cb on_err e s = Some y"
  shows "cb = asking inner ask_err f \<longrightarrow> fst s = idle_queue mode \<longrightarrow> (\<exists>es. chain f on_err mode (e # es) (snd s))"
proof (rule try_run.raw_induct [where P = "\<lambda>cb on_err e s y. cb = asking inner ask_err f \<longrightarrow> fst s = idle_queue mode \<longrightarrow> (\<exists>es. chain f on_err mode (e # es) (snd s))", OF _ assms])
  fix tr :: "'s callback \<Rightarrow> (mstring \<Rightarrow> 's \<Rightarrow> 's) \<Rightarrow> event \<Rightarrow> callback_queue \<times> 's \<Rightarrow> (callback_queue \<times> 's) run"
    and cb on_err e s y
  assume IH: "\<And>cb on_err e s y. tr cb on_err e s = Some y \<Longrightarrow>
      cb = asking inner ask_err f \<longrightarrow> fst s = idle_queue mode \<longrightarrow> (\<exists>es. chain f on_err mode (e # es) (snd s))"
    and run: "(case s of (self, w) \<Rightarrow>
        if cq_running self
        then Some (if cq_queue_mode self then self\<lparr>cq_queued_event := Some e\<rparr> else self, w)
        else cb e (self\<lparr>cq_running := True\<rparr>, w) \<bind> (\<lambda>(err, self, w).
          let self = self\<lparr>cq_running := False\<rparr>;
              w = (case err of None \<Rightarrow> w | Some msg \<Rightarrow> on_err msg w)
          in case cq_queued_event self of
            None \<Rightarrow> Some (self, w)
          | Some queued \<Rightarrow> tr cb on_err queued (self\<lparr>cq_queued_event := None\<rparr>, w))) = Some y"
  show "cb = asking inner ask_err f \<longrightarrow> fst s = idle_queue mode \<longrightarrow> (\<exists>es. chain f on_err mode (e # es) (snd s))"
  proof (intro impI)
    assume c: "cb = asking inner ask_err f" and i: "fst s = idle_queue mode"
    obtain w where s: "s = (idle_queue mode, w)" using i by (cases s) simp
    show "\<exists>es. chain f on_err mode (e # es) (snd s)"
    proof (cases "mode \<and> fst (f e w) \<noteq> []")
      case False
      then have "chain f on_err mode [e] (snd s)" using s by auto
      then show ?thesis by blast
    next
      case True
      then have "tr cb on_err (last (fst (f e w))) (idle_queue mode, runs f on_err [e] w) = Some y"
        using run s c
        by (auto simp: asking_busy asks_def idle_queue_def callback_queue_new_def Let_def split: prod.splits option.splits)
      from IH [OF this] c obtain es where "chain f on_err mode (last (fst (f e w)) # es) (runs f on_err [e] w)" by auto
      then have "chain f on_err mode (e # last (fst (f e w)) # es) (snd s)" using True s by simp
      then show ?thesis by blast
    qed
  qed
qed

subsection \<open>One event for a burst\<close>

text \<open>A tick of the debouncer: the events it is fed, the time it is fed them, the time it is asked.\<close>

type_synonym debounce_tick = "event list \<times> 64 word \<times> 64 word"

fun debounce_step :: "debounce_tick \<Rightarrow> debouncer \<Rightarrow> event option \<times> debouncer" where
  "debounce_step (es, t, t') db = debouncer_flush t' (fold (\<lambda>event. debouncer_feed event t) es db)"

fun debounce_run :: "debounce_tick list \<Rightarrow> debouncer \<Rightarrow> event option list" where
  "debounce_run [] db = []"
| "debounce_run (s # ss) db = (case debounce_step s db of (out, db) \<Rightarrow> out # debounce_run ss db)"

abbreviation debounce_state :: "debounce_tick list \<Rightarrow> debouncer \<Rightarrow> debouncer" where
  "debounce_state ss db \<equiv> fold (\<lambda>s db. snd (debounce_step s db)) ss db"

lemma debounce_run_append: "debounce_run (ss @ ts) db = debounce_run ss db @ debounce_run ts (debounce_state ss db)"
  by (induction ss arbitrary: db) (simp_all split: prod.splits)

lemma debounce_delay [simp]: "db_delay (snd (debounce_step s db)) = db_delay db"
proof -
  have "db_delay (fold (\<lambda>event. debouncer_feed event t) es db) = db_delay db" for es t
    by (induction es arbitrary: db) (simp_all add: debouncer_feed_def)
  then show ?thesis by (cases s) (auto simp: debouncer_flush_def Let_def split: option.splits)
qed

lemma debounce_state_delay [simp]: "db_delay (debounce_state ss db) = db_delay db"
  by (induction ss arbitrary: db) simp_all

lemma feed_all: "es \<noteq> [] \<Longrightarrow>
  fold (\<lambda>event. debouncer_feed event t) es db = db\<lparr>db_last_event_at := Some t, db_pending := Some (last es)\<rparr>"
  by (induction es arbitrary: db rule: list_nonempty_induct) (simp_all add: debouncer_feed_def)

definition due :: "64 word \<Rightarrow> 32 word \<Rightarrow> debounce_tick \<Rightarrow> bool" where
  "due t delay s \<longleftrightarrow> unat t + unat delay \<le> unat (snd (snd s))"

lemma due_word:
  assumes "unat (t :: 64 word) + unat (delay :: 32 word) < 2 ^ 64"
  shows "t + ucast delay \<le> t' \<longleftrightarrow> unat t + unat delay \<le> unat t'"
proof -
  have "unat delay < 2 ^ 64" using assms by simp
  then have u: "unat (ucast delay :: 64 word) = unat delay" by (simp add: unsigned_ucast_eq take_bit_nat_eq_self)
  have "unat (t + ucast delay) = unat t + unat delay" using assms u by (simp add: unat_word_ariths)
  then show ?thesis by (simp add: word_le_nat_alt)
qed

definition pulse :: "'a \<Rightarrow> nat option \<Rightarrow> nat \<Rightarrow> 'a option list" where
  "pulse x i n = map (\<lambda>k. if i = Some k then Some x else None) [0..<n]"

lemma pulse_Suc: "pulse x i (Suc n) = (if i = Some 0 then Some x else None) # pulse x (case i of Some (Suc k) \<Rightarrow> Some k | _ \<Rightarrow> None) n"
proof -
  have "[0..<Suc n] = 0 # map Suc [0..<n]" by (simp add: upt_conv_Cons map_Suc_upt del: upt_Suc)
  then show ?thesis by (auto simp: pulse_def split: option.splits nat.splits simp del: upt_Suc)
qed

lemma idle_run: "list_all (\<lambda>s. fst s = []) ss \<Longrightarrow> db_last_event_at db = None \<Longrightarrow> debounce_run ss db = pulse x None (length ss)"
  by (induction ss) (auto simp: pulse_Suc debouncer_flush_def, simp add: pulse_def)

lemma waiting_run:
  assumes "unat t + unat delay < 2 ^ 64"
  shows "list_all (\<lambda>s. fst s = []) ss \<Longrightarrow> db = \<lparr>db_delay = delay, db_last_event_at = Some t, db_pending = Some x\<rparr> \<Longrightarrow>
    debounce_run ss db = pulse x (first_index (due t delay) ss) (length ss)"
proof (induction ss)
  case (Cons s ss)
  obtain t1 t' where s: "s = ([], t1, t')" using Cons.prems(1) by (cases s) auto
  show ?case
  proof (cases "due t delay s")
    case True
    have "debounce_run ss (db\<lparr>db_last_event_at := None, db_pending := None\<rparr>) = pulse x None (length ss)"
      using Cons.prems by (intro idle_run) simp_all
    then show ?thesis using True s Cons.prems(2) due_word [OF assms, of t'] by (simp add: debouncer_flush_def due_def pulse_Suc)
  next
    case False
    then have "debounce_step s db = (None, db)"
      using s Cons.prems(2) due_word [OF assms, of t'] by (simp add: debouncer_flush_def due_def)
    then show ?thesis using False Cons by (auto simp: pulse_Suc split: option.splits)
  qed
qed (simp add: pulse_def)

text \<open>A burst and what follows it while nothing more comes.\<close>

lemma burst_run:
  assumes "unat t + unat (db_delay db) < 2 ^ 64" and "es \<noteq> []" and "list_all (\<lambda>s. fst s = []) quiet"
  shows "debounce_run ((es, t, t0) # quiet) db =
    pulse (last es) (first_index (due t (db_delay db)) ((es, t, t0) # quiet)) (Suc (length quiet))"
proof -
  let ?db = "db\<lparr>db_last_event_at := Some t, db_pending := Some (last es)\<rparr>"
  have "debounce_run ((es, t, t0) # quiet) db = debounce_run (([], t, t0) # quiet) ?db" using assms(2) by (simp add: feed_all)
  also have "\<dots> = pulse (last es) (first_index (due t (db_delay db)) (([], t, t0) # quiet)) (Suc (length quiet))"
    using waiting_run [OF assms(1), of "([], t, t0) # quiet" ?db] assms(3) by (cases db) simp
  finally show ?thesis by (simp add: due_def)
qed

subsection \<open>A tick\<close>

definition direct_event :: "event \<Rightarrow> bool" where
  "direct_event e \<longleftrightarrow> ev_name e = Ready \<or> ev_name e = Error \<or> ev_name e = Raw"

definition wanted_event :: "'c glob_watcher \<Rightarrow> event \<Rightarrow> bool" where
  "wanted_event self e \<longleftrightarrow> \<not> direct_event e \<and> ev_name e \<in> set (go_events (gw_options self)) \<and>
     any_positive (gw_positives self) (ev_path e) = Some True"

lemma handle_calls_eq:
  "handle_calls (go_events (gw_options self)) (gw_positives self) es (ds, fs) = Some y \<Longrightarrow>
   y = (ds @ filter direct_event es, fs @ filter (wanted_event self) es)"
proof (induction es arbitrary: ds fs)
  case (Cons e es)
  then obtain s where s: "tick_handler (go_events (gw_options self)) (gw_positives self) e (ds, fs) = Some s"
      "handle_calls (go_events (gw_options self)) (gw_positives self) es s = Some y"
    by (auto simp: bind_eq_Some_conv)
  have "s = (ds @ (if direct_event e then [e] else []), fs @ (if wanted_event self e then [e] else []))"
    using s(1) by (auto simp: tick_handler_def direct_event_def wanted_event_def bind_eq_Some_conv split: if_splits)
  with s(2) have "y = (ds @ (if direct_event e then [e] else []) @ filter direct_event es,
      fs @ (if wanted_event self e then [e] else []) @ filter (wanted_event self) es)"
    using Cons.IH by fastforce
  then show ?case by simp
qed simp

lemma tick_logs: "logs host lg \<Longrightarrow> logs (tick_host host) (\<lambda>(w, calls). map (Pair ()) calls)"
  by (auto simp: logs_def tick_host_def split: prod.splits)

text \<open>The handler is registered for all kinds of events, and is told each event once.\<close>

definition listening :: "unit watcher \<Rightarrow> unit watcher" where
  "listening watcher = watcher_on Raw () (watcher_on Error () (watcher_on Ready () (watcher_on All () watcher)))"

definition unlistening :: "unit watcher \<Rightarrow> unit watcher" where
  "unlistening watcher = watcher_off Raw () (watcher_off Error () (watcher_off Ready () (watcher_off All () watcher)))"

lemma listening_entries:
  "wt_listeners watcher = [] \<Longrightarrow> wt_listeners (listening watcher) =
    map (\<lambda>name. \<lparr>le_event = name, le_callback = ()\<rparr>) [All, Ready, Error, Raw]"
  by (simp add: listening_def watcher_on_def emitter_on_def)

lemma listening_told:
  "wt_listeners watcher = [] \<Longrightarrow> reported (wt_listeners (listening watcher)) es = map (Pair ()) es"
proof -
  assume "wt_listeners watcher = []"
  then have "told (wt_listeners (listening watcher)) e = [((), e)]" for e
    by (cases "ev_name e") (simp_all add: listening_entries told_def forwarded_def)
  then show ?thesis by (induction es) simp_all
qed

lemma unlistening_entries:
  "wt_listeners watcher = map (\<lambda>name. \<lparr>le_event = name, le_callback = ()\<rparr>) [All, Ready, Error, Raw] \<Longrightarrow>
   wt_listeners (unlistening watcher) = [] \<and> wt_state (unlistening watcher) = wt_state watcher"
  by (simp add: unlistening_def watcher_off_def emitter_off_def)

text \<open>Between two ticks the inner watcher has no listeners and remembers no change.\<close>

definition between_ticks :: "'c glob_watcher \<Rightarrow> bool" where
  "between_ticks self \<longleftrightarrow> wt_listeners (gw_watcher self) = [] \<and> ws_throttled_changes (wt_state (gw_watcher self)) = []"

lemma cycle_calls:
  assumes "logs host lg" and "between_ticks self"
    and "watcher_process (tick_host host) (listening (gw_watcher self), b, w, []) = Some (err, watcher, b1, w1, calls)"
  shows "distinct (changes calls) \<and> wt_listeners (unlistening watcher) = [] \<and>
    ws_throttled_changes (wt_state (unlistening watcher)) = [] \<and>
    (case err of None \<Rightarrow> True | Some m \<Rightarrow> \<exists>es. calls = es @ [error_event m])"
proof -
  let ?s = "(listening (gw_watcher self), b, w, [])"
  have t: "ws_throttled_changes (state_of ?s) = []"
    using assms(2) by (simp add: between_ticks_def listening_def watcher_on_def)
  have e: "wt_listeners (gw_watcher self) = []" using assms(2) by (simp add: between_ticks_def)
  obtain es where es: "map (Pair ()) calls = reported (listeners_of ?s) es" "distinct (changes es)"
      "ws_throttled_changes (wt_state watcher) = []" "wt_listeners watcher = listeners_of ?s"
      "case err of None \<Rightarrow> True | Some m \<Rightarrow> \<exists>fs. es = fs @ [error_event m]"
    using process_reports [OF tick_logs [OF assms(1)] t assms(3)] by (auto simp: same_watcher_def)
  have "calls = es" using es(1) listening_told [OF e] by (simp add: inj_map_eq_map inj_on_def)
  moreover have "wt_listeners (unlistening watcher) = [] \<and> wt_state (unlistening watcher) = wt_state watcher"
    using es(4) listening_entries [OF e] by (intro unlistening_entries) simp
  ultimately show ?thesis using es by (cases err) simp_all
qed

text \<open>With no listeners of its own, a tick is a cycle, a step of the debouncer and at most one call of the queue.\<close>

lemma emit_nobody [simp]: "fold (emit_to_listeners host []) es w = w" "emit_to_listeners host [] e w = w"
  by (induction es arbitrary: w) simp_all

lemma glob_tick_eq:
  assumes "gw_listeners self = []"
  shows "glob_tick host (Some cb) (self, b, w) = do {
     (err, watcher, b1, w1, calls) \<leftarrow> watcher_process (tick_host host) (listening (gw_watcher self), b, w, []);
     (direct_events, file_events) \<leftarrow> handle_calls (go_events (gw_options self)) (gw_positives self) calls ([], []);
     let (t, w2) = h_now host w1;
     let (t', w3) = h_now host w2;
     let (out, db) = debounce_step (file_events, t, t') (gw_debouncer self);
     let self' = self\<lparr>gw_watcher := unlistening watcher, gw_debouncer := db\<rparr>;
     case out of
       None \<Rightarrow> Some (None, self', b1, w3)
     | Some event \<Rightarrow> do {
         (queue, wd) \<leftarrow> try_run cb (\<lambda>msg wd. wd) event (gw_queue self, b1, w3);
         Some (None, self'\<lparr>gw_queue := queue\<rparr>, wd)
       }
   }"
proof -
  have pairs: "(\<lambda>(b, w). (b, w)) = (\<lambda>wd. wd)" by auto
  show ?thesis
    unfolding glob_tick_def listening_def unlistening_def Let_def prod.case debounce_step.simps
    by (auto intro!: arg_cong2 [where f = Option.bind] simp: fun_eq_iff assms pairs id_def split: option.splits prod.splits)
qed

lemma handle_calls_result:
  assumes "handle_calls (go_events (gw_options self)) (gw_positives self) es ([], []) = Some y"
  shows "y = (filter direct_event es, filter (wanted_event self) es)"
  using handle_calls_eq [OF assms] by simp

text \<open>
  When a scan fails, the error is the last event the handler is called with, and the tick tells it to
  the listeners; it then tells them the error that the cycle raised, which is the same.
\<close>

lemma error_told_twice:
  assumes "logs host lg" and "between_ticks self"
    and "watcher_process (tick_host host) (listening (gw_watcher self), b, w, []) = Some (Some m, watcher, b1, w1, calls)"
    and "handle_calls (go_events (gw_options self)) (gw_positives self) calls ([], []) = Some (direct_events, file_events)"
  shows "\<exists>es. direct_events = es @ [error_event m]"
proof -
  obtain es where "calls = es @ [error_event m]" using cycle_calls [OF assms(1-3)] by auto
  then show ?thesis using handle_calls_result [OF assms(4)] by (simp add: direct_event_def plain_event_def)
qed

text \<open>No tick fails: the error of its cycle goes to the listeners of the glob watcher only.\<close>

definition never_fails :: "(mstring option \<times> 'a) run \<Rightarrow> bool" where
  "never_fails m \<longleftrightarrow> (\<forall>err r. m = Some (err, r) \<longrightarrow> err = None)"

lemma never_fails_intros:
  "never_fails (Some (None, r))"
  "(\<And>x. never_fails (f x)) \<Longrightarrow> never_fails (Option.bind m f)"
  by (auto simp: never_fails_def bind_eq_Some_conv)

lemma glob_tick_never_fails: "glob_tick host cb s = Some (err, r) \<Longrightarrow> err = None"
proof -
  have "never_fails (glob_tick host cb s)"
    unfolding glob_tick_def Let_def by (auto intro!: never_fails_intros split: prod.split option.split)
  then show "glob_tick host cb s = Some (err, r) \<Longrightarrow> err = None" unfolding never_fails_def by blast
qed

lemma tick_of_cycle:
  assumes "logs host lg" and "between_ticks self" and "gw_listeners self = []"
    and "glob_tick host (Some cb) (self, b, w) = Some (e, self', b', w')"
  shows "e = None \<and> (\<exists>err watcher b1 w1 calls t w2 t' w3.
    watcher_process (tick_host host) (listening (gw_watcher self), b, w, []) = Some (err, watcher, b1, w1, calls) \<and>
    h_now host w1 = (t, w2) \<and> h_now host w2 = (t', w3) \<and> distinct (changes calls) \<and> between_ticks self' \<and> gw_listeners self' = [] \<and>
    gw_debouncer self' = snd (debounce_step (filter (wanted_event self) calls, t, t') (gw_debouncer self)) \<and>
    (case fst (debounce_step (filter (wanted_event self) calls, t, t') (gw_debouncer self)) of
       None \<Rightarrow> (gw_queue self', b', w') = (gw_queue self, b1, w3)
     | Some e \<Rightarrow> try_run cb (\<lambda>msg wd. wd) e (gw_queue self, b1, w3) = Some (gw_queue self', b', w')))"
proof -
  obtain err watcher b1 w1 calls ds fs where
    p: "watcher_process (tick_host host) (listening (gw_watcher self), b, w, []) = Some (err, watcher, b1, w1, calls)"
    and h: "handle_calls (go_events (gw_options self)) (gw_positives self) calls ([], []) = Some (ds, fs)"
    using assms(4) unfolding glob_tick_eq [OF assms(3)] by (auto simp: bind_eq_Some_conv)
  obtain t w2 t' w3 where n: "h_now host w1 = (t, w2)" "h_now host w2 = (t', w3)" by (metis surj_pair)
  obtain out db where d: "debounce_step (fs, t, t') (gw_debouncer self) = (out, db)" by (metis surj_pair)
  have rest: "(case out of None \<Rightarrow> Some (None, self\<lparr>gw_watcher := unlistening watcher, gw_debouncer := db\<rparr>, b1, w3)
      | Some event \<Rightarrow> do { (queue, wd) \<leftarrow> try_run cb (\<lambda>msg wd. wd) event (gw_queue self, b1, w3);
          Some (None, self\<lparr>gw_watcher := unlistening watcher, gw_debouncer := db, gw_queue := queue\<rparr>, wd) }) = Some (e, self', b', w')"
    using assms(4) p h n d unfolding glob_tick_eq [OF assms(3)] by (simp add: Let_def del: debounce_step.simps)
  have fs: "fs = filter (wanted_event self) calls" using handle_calls_result [OF h] by simp
  note c = cycle_calls [OF assms(1,2) p]
  have "e = None \<and> distinct (changes calls) \<and> between_ticks self' \<and> gw_listeners self' = [] \<and> gw_debouncer self' = db \<and>
    (case out of None \<Rightarrow> (gw_queue self', b', w') = (gw_queue self, b1, w3)
     | Some e \<Rightarrow> try_run cb (\<lambda>msg wd. wd) e (gw_queue self, b1, w3) = Some (gw_queue self', b', w'))"
    using rest c assms(3) by (cases out) (auto simp: between_ticks_def bind_eq_Some_conv)
  then show ?thesis using p n d fs by auto
qed

subsection \<open>Properties\<close>

text \<open>
  Property C13. The queue runs the callback one run at a time. A callback may call the queue again while it
  runs, for any events and with any callback: those calls run nothing. From an idle queue a call
  returns exactly when the runs come to an end, each run after the first having the last event that the
  run before asked for, and none being dropped but those that a later one replaced. The queue is
  idle again afterwards. Without the queue mode there is the first run only.
\<close>

theorem callbacks_run_in_turn:
  "try_run (asking inner ask_err f) on_err e (idle_queue mode, w) = Some y \<longleftrightarrow>
   (\<exists>es. chain f on_err mode (e # es) w \<and> y = (idle_queue mode, runs f on_err (e # es) w))"
proof
  assume r: "try_run (asking inner ask_err f) on_err e (idle_queue mode, w) = Some y"
  then obtain es where c: "chain f on_err mode (e # es) w" using try_run_returns_chain [OF r, where inner = inner and ask_err = ask_err and f = f and mode = mode] by auto
  then show "\<exists>es. chain f on_err mode (e # es) w \<and> y = (idle_queue mode, runs f on_err (e # es) w)"
    using try_run_chain [OF c] r by auto
next
  assume "\<exists>es. chain f on_err mode (e # es) w \<and> y = (idle_queue mode, runs f on_err (e # es) w)"
  then show "try_run (asking inner ask_err f) on_err e (idle_queue mode, w) = Some y" using try_run_chain by fastforce
qed

text \<open>
  Property C12. Whatever came before, a burst of events that is followed by silence gives its last event exactly
  once, at the first tick at least the delay after the burst, and nothing else.
\<close>

theorem burst_gives_last_event:
  assumes "unat t + unat delay < 2 ^ 64" and "es \<noteq> []" and "list_all (\<lambda>s. fst s = []) quiet"
  shows "debounce_run (before @ (es, t, t0) # quiet) (debouncer_new delay) =
    debounce_run before (debouncer_new delay) @
    pulse (last es) (first_index (due t delay) ((es, t, t0) # quiet)) (Suc (length quiet))"
  using burst_run [of t "debounce_state before (debouncer_new delay)" es quiet t0] assms
  by (simp add: debounce_run_append debouncer_new_def)

theorem burst_gives_last_event_witness:
  "debounce_run ([([plain_event Add], 5, 5)] @ ([plain_event Add, plain_event Change], 10, 10) # [([], 100, 100), ([], 300, 300)])
     (debouncer_new 200) =
    debounce_run [([plain_event Add], 5, 5)] (debouncer_new 200) @
    pulse (last [plain_event Add, plain_event Change])
      (first_index (due 10 200) (([plain_event Add, plain_event Change], 10, 10) # [([], 100, 100), ([], 300, 300)]))
      (Suc (length [([] :: event list, 100 :: 64 word, 100 :: 64 word), ([], 300, 300)]))"
  by (rule burst_gives_last_event) simp_all

text \<open>
  A tick of a glob watcher without listeners of its own is one cycle of the inner watcher, in which
  no path is reported changed twice; the events that match a pattern and are of a chosen kind, in
  their order, feed the debouncer, and the callback is run exactly when the debouncer gives an event.
  The inner watcher is left with no listener.
\<close>

theorem tick_runs_settled_event:
  assumes "logs host lg" and "between_ticks self" and "gw_listeners self = []"
    and "glob_tick host (Some cb) (self, b, w) = Some (e, self', b', w')"
  shows "e = None \<and> (\<exists>err watcher b1 w1 calls t w2 t' w3.
    watcher_process (tick_host host) (listening (gw_watcher self), b, w, []) = Some (err, watcher, b1, w1, calls) \<and>
    h_now host w1 = (t, w2) \<and> h_now host w2 = (t', w3) \<and> distinct (changes calls) \<and> between_ticks self' \<and> gw_listeners self' = [] \<and>
    gw_debouncer self' = snd (debounce_step (filter (wanted_event self) calls, t, t') (gw_debouncer self)) \<and>
    (case fst (debounce_step (filter (wanted_event self) calls, t, t') (gw_debouncer self)) of
       None \<Rightarrow> (gw_queue self', b', w') = (gw_queue self, b1, w3)
     | Some e \<Rightarrow> try_run cb (\<lambda>msg wd. wd) e (gw_queue self, b1, w3) = Some (gw_queue self', b', w')))"
  by (rule tick_of_cycle [OF assms])

text \<open>A glob watcher of the files in \<open>/w\<close> that does not wait, and a callback that notes its event.\<close>

definition sample_glob :: "nat glob_watcher" where
  "sample_glob = \<lparr>gw_watcher = \<lparr>wt_state = wt_state (fst sample_watching), wt_listeners = []\<rparr>,
     gw_debouncer = debouncer_new 0, gw_queue = callback_queue_new True,
     gw_positives = [\<lparr>gp_raw = str ''/w/*'', gp_base_dir = str ''/w'', gp_is_negation = False\<rparr>],
     gw_options = default_glob_options, gw_listeners = []\<rparr>"

definition sample_callback :: "(chokidar_backend \<times> (nat \<times> event) list) callback" where
  "sample_callback e s = (case s of (q, b, log) \<Rightarrow> Some (None, q, b, log @ [(9, e)]))"

definition sample_tick :: "nat glob_watcher \<times> chokidar_backend \<times> (nat \<times> event) list" where
  "sample_tick = snd (the (glob_tick (sample_host 2) (Some sample_callback) (sample_glob, initial_backend, [])))"

lemma sample_ticks:
  "glob_tick (sample_host 2) (Some sample_callback) (sample_glob, initial_backend, []) =
   Some (None, fst sample_tick, fst (snd sample_tick), snd (snd sample_tick))"
proof -
  have "map_option (\<lambda>s. (fst s, map (ev_path \<circ> snd) (snd (snd (snd s)))))
      (glob_tick (sample_host 2) (Some sample_callback) (sample_glob, initial_backend, [])) = Some (None, [str ''/w/a''])"
    by code_simp
  then show ?thesis unfolding sample_tick_def by force
qed

lemma sample_between: "between_ticks sample_glob" "gw_listeners sample_glob = []"
  by (simp_all add: between_ticks_def sample_glob_def sample_watching_def set_snapshot_def remember_root_def new_watch_state_def)

theorem tick_runs_settled_event_witness:
  "(None :: mstring option) = None \<and> (\<exists>err watcher b1 w1 calls t w2 t' w3.
    watcher_process (tick_host (sample_host 2)) (listening (gw_watcher sample_glob), initial_backend, [], []) =
      Some (err, watcher, b1, w1, calls) \<and>
    h_now (sample_host 2) w1 = (t, w2) \<and> h_now (sample_host 2) w2 = (t', w3) \<and> distinct (changes calls) \<and>
    between_ticks (fst sample_tick) \<and> gw_listeners (fst sample_tick) = [] \<and>
    gw_debouncer (fst sample_tick) =
      snd (debounce_step (filter (wanted_event sample_glob) calls, t, t') (gw_debouncer sample_glob)) \<and>
    (case fst (debounce_step (filter (wanted_event sample_glob) calls, t, t') (gw_debouncer sample_glob)) of
       None \<Rightarrow> (gw_queue (fst sample_tick), snd sample_tick) = (gw_queue sample_glob, b1, w3)
     | Some e \<Rightarrow> try_run sample_callback (\<lambda>msg wd. wd) e (gw_queue sample_glob, b1, w3) =
         Some (gw_queue (fst sample_tick), snd sample_tick)))"
  using tick_runs_settled_event [OF sample_logs sample_between sample_ticks] by (simp only: prod.collapse)

end
