(* ===== verification/Mulp_Watch.thy ===== *)
theory Mulp_Watch
  imports Mulp_Command Glob_Watcher
begin

text \<open>
  The watch mode of the command with the watcher it uses (\<open>mulp_run_watch\<close> in \<open>src/cmd/mulp/main.mbt\<close>):
  the interface of the command to its watcher, filled with the glob watcher of all files below the
  working directory.
\<close>

subsection \<open>The watcher of the command\<close>

text \<open>The world of the command: its watcher, the backend's variables and the rest.\<close>

type_synonym 'v watch_world = "unit glob_watcher option \<times> chokidar_backend \<times> 'v"

definition watch_all_options :: "mstring \<Rightarrow> glob_options" where
  "watch_all_options cwd = default_glob_options\<lparr>go_cwd := Some cwd\<rparr>"

text \<open>The callback of the command raises no error and does not see the watcher.\<close>

definition event_callback ::
    "('v watch_world program_state \<Rightarrow> 'v watch_world program_state run) \<Rightarrow> ('v \<times> main_state) world callback" where
  "event_callback cb event s =
     (case s of (q, b, v, m) \<Rightarrow> do { ((_, b, v), m) \<leftarrow> cb ((None, b, v), m); Some (None, q, b, v, m) })"

definition new_watcher ::
    "(unit, 'v \<times> main_state) host \<Rightarrow> mstring \<Rightarrow> 'v watch_world program_state \<Rightarrow> (mstring option \<times> 'v watch_world program_state) run" where
  "new_watcher host cwd s =
     (case s of ((g, b, v), m) \<Rightarrow> do {
        (r, b, v, m) \<leftarrow> glob_watcher_new host (watch_paths.One (str ''**/*'')) (watch_all_options cwd) (b, v, m);
        Some (case r of
            Inl msg \<Rightarrow> (Some msg, (g, b, v), m)
          | Inr watcher \<Rightarrow> (None, (Some watcher, b, v), m))
      })"

definition tick_watcher ::
    "(unit, 'v \<times> main_state) host \<Rightarrow> ('v watch_world program_state \<Rightarrow> 'v watch_world program_state run) \<Rightarrow>
     'v watch_world program_state \<Rightarrow> (mstring option \<times> 'v watch_world program_state) run" where
  "tick_watcher host cb s =
     (case s of ((g, b, v), m) \<Rightarrow> do {
        watcher \<leftarrow> g;
        (err, watcher, b, v, m) \<leftarrow> glob_tick host (Some (event_callback cb)) (watcher, b, v, m);
        Some (err, (Some watcher, b, v), m)
      })"

definition close_watcher ::
    "(unit, 'v \<times> main_state) host \<Rightarrow> 'v watch_world program_state \<Rightarrow> 'v watch_world program_state" where
  "close_watcher host s =
     (case s of ((g, b, v), m) \<Rightarrow>
        (case g of
           None \<Rightarrow> s
         | Some watcher \<Rightarrow>
             (case glob_watcher_close host (watcher, b, v, m) of (watcher, b, v, m) \<Rightarrow> ((Some watcher, b, v), m))))"

definition sleep_ms :: "(int \<Rightarrow> 'v \<times> main_state \<Rightarrow> 'v \<times> main_state) \<Rightarrow> int \<Rightarrow> 'v watch_world program_state \<Rightarrow> 'v watch_world program_state" where
  "sleep_ms sleep n s = (case s of ((g, b, v), m) \<Rightarrow> case sleep n (v, m) of (v, m) \<Rightarrow> ((g, b, v), m))"

definition glob_watch_env ::
    "(unit, 'v \<times> main_state) host \<Rightarrow> (int \<Rightarrow> 'v \<times> main_state \<Rightarrow> 'v \<times> main_state) \<Rightarrow> 'v watch_world watch_env" where
  "glob_watch_env host sleep =
     \<lparr>we_new = new_watcher host, we_tick = tick_watcher host, we_close = close_watcher host, we_sleep = sleep_ms sleep\<rparr>"

subsection \<open>A round\<close>

lemma one_call:
  "try_run (event_callback cb) on_err e (idle_queue mode, b, v, m) =
   do { ((_, b, v), m) \<leftarrow> cb ((None, b, v), m); Some (idle_queue mode, b, v, m) }"
  by (subst try_run.simps)
    (auto simp: event_callback_def idle_queue_def callback_queue_new_def Let_def intro!: arg_cong2 [where f = Option.bind] split: prod.splits option.splits)

text \<open>The watcher between two rounds.\<close>

definition watcher_ready :: "unit glob_watcher \<Rightarrow> bool" where
  "watcher_ready self \<longleftrightarrow> between_ticks self \<and> gw_listeners self = [] \<and> gw_queue self = idle_queue True"

lemma round_of_cycle:
  assumes "logs host lg" and "watcher_ready self"
    and "we_tick (glob_watch_env host sleep) cb ((Some self, b, v), m) = Some (e, (g, b', v'), m')"
  shows "e = None \<and> (\<exists>self'. g = Some self' \<and> watcher_ready self' \<and>
    (\<exists>err watcher b1 w1 calls t w2 t' v3 m3.
      watcher_process (tick_host host) (listening (gw_watcher self), b, (v, m), []) = Some (err, watcher, b1, w1, calls) \<and>
      h_now host w1 = (t, w2) \<and> h_now host w2 = (t', v3, m3) \<and>
      gw_debouncer self' = snd (debounce_step (filter (wanted_event self) calls, t, t') (gw_debouncer self)) \<and>
      (case fst (debounce_step (filter (wanted_event self) calls, t, t') (gw_debouncer self)) of
         None \<Rightarrow> ((None, b', v'), m') = ((None, b1, v3), m3)
       | Some event \<Rightarrow> map_option (\<lambda>((_, b, v), m). ((None, b, v), m)) (cb ((None, b1, v3), m3)) = Some ((None, b', v'), m'))))"
proof -
  obtain self' where t: "glob_tick host (Some (event_callback cb)) (self, b, v, m) = Some (e, self', b', v', m')"
    and g: "g = Some self'"
    using assms(3) by (auto simp: glob_watch_env_def tick_watcher_def bind_eq_Some_conv)
  have r: "between_ticks self" "gw_listeners self = []" "gw_queue self = idle_queue True"
    using assms(2) by (simp_all add: watcher_ready_def)
  have no_error: "e = None" using glob_tick_never_fails [OF t] .
  obtain err watcher b1 w1 calls tm w2 t' w3 where
    p: "watcher_process (tick_host host) (listening (gw_watcher self), b, (v, m), []) = Some (err, watcher, b1, w1, calls)"
      "h_now host w1 = (tm, w2)" "h_now host w2 = (t', w3)" "between_ticks self'" "gw_listeners self' = []"
      "gw_debouncer self' = snd (debounce_step (filter (wanted_event self) calls, tm, t') (gw_debouncer self))"
    and c: "case fst (debounce_step (filter (wanted_event self) calls, tm, t') (gw_debouncer self)) of
       None \<Rightarrow> (gw_queue self', b', v', m') = (gw_queue self, b1, w3)
     | Some e \<Rightarrow> try_run (event_callback cb) (\<lambda>msg wd. wd) e (gw_queue self, b1, w3) = Some (gw_queue self', b', v', m')"
    using tick_of_cycle [OF assms(1) r(1,2) t] by blast
  obtain v3 m3 where w3: "w3 = (v3, m3)" by (metis surj_pair)
  let ?out = "fst (debounce_step (filter (wanted_event self) calls, tm, t') (gw_debouncer self))"
  have q: "gw_queue self' = idle_queue True \<and> (case ?out of None \<Rightarrow> ((None, b', v'), m') = ((None, b1, v3), m3)
      | Some event \<Rightarrow> map_option (\<lambda>((_, b, v), m). ((None, b, v), m)) (cb ((None, b1, v3), m3)) = Some ((None, b', v'), m'))"
    using c r(3) w3 by (auto simp: one_call bind_eq_Some_conv split: option.splits)
  have "watcher_ready self'" using p(4,5) conjunct1 [OF q] by (simp add: watcher_ready_def)
  moreover have "h_now host w2 = (t', v3, m3)" using p(3) w3 by simp
  ultimately show ?thesis using g no_error p(1,2,6) q by blast
qed

text \<open>
  So the loop of the command, which stops with status 1 when a tick reports an error, never does: only
  the interrupt ends it.
\<close>

lemma tick_reports_no_error: "tick_watcher host cb s = Some (e, s') \<Longrightarrow> e = None"
  by (auto simp: tick_watcher_def bind_eq_Some_conv split: prod.splits dest: glob_tick_never_fails)

subsection \<open>Starting\<close>

lemma scanned_throttles:
  "queue_scanned root es st = Some st' \<Longrightarrow> ws_throttled_changes st' = ws_throttled_changes st"
proof (induction es arbitrary: st)
  case (Cons e es)
  obtain e' st1 where r: "record_event_in_watched e' st = Some st1"
    and q: "queue_scanned root es (st1\<lparr>ws_pending_events := ws_pending_events st1 @ [e']\<rparr>) = Some st'"
    using Cons.prems by (auto simp: queue_scanned_event_def bind_eq_Some_conv)
  then show ?case using Cons.IH [OF q] recorded_kept [OF r] by auto
qed simp

lemma commit_throttles: "commit_adds plans st = Some st' \<Longrightarrow> ws_throttled_changes st' = ws_throttled_changes st"
proof (induction plans arbitrary: st)
  case (Cons p ps)
  obtain d n st1 where q: "queue_scanned (pa_root p) (pa_events p)
      (set_snapshot (pa_root p) (pa_entries p)
        ((remember_root (pa_root p) (add_child d n st))\<lparr>ws_handles :=
          ws_handles (remember_root (pa_root p) (add_child d n st)) @ [pa_handle p]\<rparr>)) = Some st1"
    and c: "commit_adds ps st1 = Some st'"
    using Cons.prems by (auto simp: bind_eq_Some_conv Let_def)
  have "ws_throttled_changes (add_child d n st) = ws_throttled_changes st"
    by (auto simp: add_child_def ensure_dir_def Let_def split: option.splits)
  then show ?case
    using Cons.IH [OF c] scanned_throttles [OF q] by (simp add: set_snapshot_def remember_root_def split: if_splits)
qed simp

lemma new_ready:
  assumes "glob_watcher_new host glob options wd = Some (Inr self, wd')" and "go_queue options"
  shows "watcher_ready self"
proof -
  obtain opts paths wd1 watcher st wd2 ps where
    a: "watcher_add (tick_host host) paths (watcher_new opts, wd1) = Some (None, watcher, wd2)"
    and self: "gw_watcher self = watcher" "gw_queue self = callback_queue_new (go_queue options)" "gw_listeners self = []"
    using assms(1) by (auto simp: glob_watcher_new_def chokidar_watch_def bind_eq_Some_conv Let_def split: if_splits sum.splits option.splits)
  obtain r wd3 where "plan_adds (tick_host host) opts (watch_path_values paths) [] wd1 = Some (r, wd3)"
    using a by (auto simp: watcher_add_def watcher_new_def new_watch_state_def bind_eq_Some_conv split: if_splits)
  then obtain plans where "commit_adds plans (new_watch_state opts) = Some (wt_state watcher)" "wt_listeners watcher = []"
    using a by (cases r) (auto simp: watcher_add_def watcher_new_def new_watch_state_def bind_eq_Some_conv split: if_splits)
  then show ?thesis
    using self assms(2) commit_throttles by (fastforce simp: watcher_ready_def between_ticks_def idle_queue_def new_watch_state_def)
qed

subsection \<open>Samples\<close>

text \<open>
  A host on which every reading of the clock takes 300 milliseconds and the file in \<open>/w\<close> changes with
  the time; its world is the time and a log.
\<close>

definition moving_host :: "(unit, (64 word \<times> (unit \<times> event) list) \<times> main_state) host" where
  "moving_host =
     \<lparr>h_inotify_init = (\<lambda>w. (3, w)), h_inotify_add_watch = (\<lambda>_ _ w. (1, w)), h_inotify_rm_watch = (\<lambda>_ _ w. w),
      h_inotify_read = (\<lambda>_ w. ([], w)), h_now = (\<lambda>((t, l), m). (t, (t + 300, l), m)),
      h_files = (\<lambda>((t, l), m). small_fs t), h_getenv = (\<lambda>_ _. None), h_call = (\<lambda>c e ((t, l), m). ((t, l @ [(c, e)]), m))\<rparr>"

lemma moving_logs: "logs moving_host (\<lambda>((t, l), m). l)"
  by (auto simp: logs_def moving_host_def)

definition quiet_main :: main_state where
  "quiet_main = \<lparr>mn_sigint_flag = False, mn_registered = True, mn_alive = True, mn_exit = None, mn_stdout = [], mn_stderr = []\<rparr>"

text \<open>A command that prints a byte, and the watcher of \<open>/w\<close> after its start and a change of the file.\<close>

definition print_one :: "(64 word \<times> (unit \<times> event) list) watch_world program_state \<Rightarrow>
    (64 word \<times> (unit \<times> event) list) watch_world program_state run" where
  "print_one s = Some (fst s, mulp_write_stdout [33] (snd s))"

definition started :: "(mstring + unit glob_watcher) \<times> ((64 word \<times> (unit \<times> event) list) \<times> main_state) world" where
  "started = the (glob_watcher_new moving_host (watch_paths.One (str ''**/*'')) (watch_all_options (str ''/w''))
     (initial_backend, (1000, []), quiet_main))"

definition started_watcher :: "unit glob_watcher" where
  "started_watcher = projr (fst started)"

lemma started: "glob_watcher_new moving_host (watch_paths.One (str ''**/*'')) (watch_all_options (str ''/w''))
    (initial_backend, (1000, []), quiet_main) = Some (Inr started_watcher, snd started)"
proof -
  have "map_option (\<lambda>x. isl (fst x)) (glob_watcher_new moving_host (watch_paths.One (str ''**/*'')) (watch_all_options (str ''/w''))
      (initial_backend, (1000, []), quiet_main)) = Some False"
    by code_simp
  then show ?thesis unfolding started_watcher_def started_def by (auto simp: isl_def)
qed

definition first_round :: "(64 word \<times> (unit \<times> event) list) watch_world program_state" where
  "first_round = snd (the (we_tick (glob_watch_env moving_host (\<lambda>_ w. w)) print_one
     ((Some started_watcher, initial_backend, (2000, [])), quiet_main)))"

lemma first_round:
  "we_tick (glob_watch_env moving_host (\<lambda>_ w. w)) print_one ((Some started_watcher, initial_backend, (2000, [])), quiet_main) =
   Some (None, (fst (fst first_round), fst (snd (fst first_round)), snd (snd (fst first_round))), snd first_round)"
proof -
  have "map_option (\<lambda>x. (fst x, mn_stdout (snd (snd x)))) (we_tick (glob_watch_env moving_host (\<lambda>_ w. w)) print_one
      ((Some started_watcher, initial_backend, (2000, [])), quiet_main)) = Some (None, [33])"
    by code_simp
  then show ?thesis unfolding first_round_def by auto
qed

subsection \<open>Properties\<close>

text \<open>
  Property C11. A round of watch mode is one cycle of the file watcher and runs the command exactly when the
  debouncer gives an event, once; the watcher is ready for the next round.
\<close>

theorem round_runs_command:
  assumes "logs host lg" and "watcher_ready self"
    and "we_tick (glob_watch_env host sleep) cb ((Some self, b, v), m) = Some (e, (g, b', v'), m')"
  shows "e = None \<and> (\<exists>self'. g = Some self' \<and> watcher_ready self' \<and>
    (\<exists>err watcher b1 w1 calls t w2 t' v3 m3.
      watcher_process (tick_host host) (listening (gw_watcher self), b, (v, m), []) = Some (err, watcher, b1, w1, calls) \<and>
      h_now host w1 = (t, w2) \<and> h_now host w2 = (t', v3, m3) \<and>
      gw_debouncer self' = snd (debounce_step (filter (wanted_event self) calls, t, t') (gw_debouncer self)) \<and>
      (case fst (debounce_step (filter (wanted_event self) calls, t, t') (gw_debouncer self)) of
         None \<Rightarrow> ((None, b', v'), m') = ((None, b1, v3), m3)
       | Some event \<Rightarrow> map_option (\<lambda>((_, b, v), m). ((None, b, v), m)) (cb ((None, b1, v3), m3)) = Some ((None, b', v'), m'))))"
  by (rule round_of_cycle [OF assms])

theorem round_runs_command_witness:
  "None = (None :: mstring option) \<and> (\<exists>self'. fst (fst first_round) = Some self' \<and> watcher_ready self' \<and>
    (\<exists>err watcher b1 w1 calls t w2 t' v3 m3.
      watcher_process (tick_host moving_host) (listening (gw_watcher started_watcher), initial_backend, ((2000, []), quiet_main), []) =
        Some (err, watcher, b1, w1, calls) \<and>
      h_now moving_host w1 = (t, w2) \<and> h_now moving_host w2 = (t', v3, m3) \<and>
      gw_debouncer self' =
        snd (debounce_step (filter (wanted_event started_watcher) calls, t, t') (gw_debouncer started_watcher)) \<and>
      (case fst (debounce_step (filter (wanted_event started_watcher) calls, t, t') (gw_debouncer started_watcher)) of
         None \<Rightarrow> ((None, fst (snd (fst first_round)), snd (snd (fst first_round))), snd first_round) = ((None, b1, v3), m3)
       | Some event \<Rightarrow> map_option (\<lambda>((_, b, v), m). ((None, b, v), m)) (print_one ((None, b1, v3), m3)) =
           Some ((None, fst (snd (fst first_round)), snd (snd (fst first_round))), snd first_round))))"
  by (rule round_runs_command [OF moving_logs new_ready [OF started] first_round])
    (simp add: watch_all_options_def default_glob_options_def)

end
