(* ===== verification/Posix_Shell.thy ===== *)
theory Posix_Shell
  imports Platform_Process
begin

text \<open>
  A reading of the POSIX shell's token rules, as the specification the quoting is measured
  against: single quotes keep every byte up to the next quote, a backslash keeps the next
  byte, blanks separate words and \<open>&&\<close> is an operator. A line that uses any other active byte
  of the shell has no reading here.
\<close>

datatype token = Word bytes | And_If

definition plain_byte :: "byte \<Rightarrow> bool" where
  "plain_byte c \<longleftrightarrow> c \<notin> set (str ''|;<>()$`=*?[]#~%!{}'' @ [0, 10, 13, 34])"

definition end_word :: "bytes option \<Rightarrow> token list \<Rightarrow> token list" where
  "end_word cur ts = (case cur of None \<Rightarrow> ts | Some w \<Rightarrow> Word w # ts)"

lemma end_word_simps [simp]: "end_word None = id" "end_word (Some w) = (#) (Word w)"
  by (auto simp: end_word_def)

abbreviation word_of :: "bytes option \<Rightarrow> bytes" where
  "word_of cur \<equiv> case cur of None \<Rightarrow> [] | Some w \<Rightarrow> w"

fun lex :: "bool \<Rightarrow> bytes option \<Rightarrow> bytes \<Rightarrow> token list option" where
  "lex True cur [] = None"
| "lex True cur (c # s) = (if c = 39 then lex False cur s else lex True (Some (word_of cur @ [c])) s)"
| "lex False cur [] = Some (end_word cur [])"
| "lex False cur [c] =
     (if c = 32 \<or> c = 9 then Some (end_word cur [])
      else if plain_byte c \<and> c \<notin> {38, 39, 92} then Some [Word (word_of cur @ [c])] else None)"
| "lex False cur (c # d # s) =
     (if c = 39 then lex True (Some (word_of cur)) (d # s)
      else if c = 92 then lex False (Some (word_of cur @ [d])) s
      else if c = 32 \<or> c = 9 then map_option (end_word cur) (lex False None (d # s))
      else if c = 38 then
        (if d = 38 then map_option (\<lambda>ts. end_word cur (And_If # ts)) (lex False None s) else None)
      else if plain_byte c then lex False (Some (word_of cur @ [c])) (d # s) else None)"

definition shell_tokens :: "bytes \<Rightarrow> token list option" where
  "shell_tokens line = lex False None line"

subsection \<open>Quoted words are read back\<close>

lemma lex_space: "lex False cur (32 # s) = map_option (end_word cur) (lex False None s)"
  by (cases s; cases cur) auto

lemma lex_quoted_body:
  "lex True (Some w) (concat (map (\<lambda>c. if c = 39 then [39, 92, 39, 39] else [c]) v) @ 39 # s) =
   lex False (Some (w @ v)) s"
proof (induction v arbitrary: w)
  case (Cons c v)
  let ?q = "concat (map (\<lambda>c. if c = 39 then [39, 92, 39, 39] else [c]) v) @ 39 # s"
  have "lex False (Some (w @ [39])) (39 # ?q) = lex True (Some (w @ [39])) ?q"
    by (cases ?q) simp_all
  then show ?case using Cons by simp
qed simp

lemma lex_quoted: "lex False cur (quoted v @ s) = lex False (Some (word_of cur @ v)) s"
proof -
  let ?q = "concat (map (\<lambda>c. if c = 39 then [39, 92, 39, 39] else [c]) v) @ 39 # s"
  have "lex False cur (39 # ?q) = lex True (Some (word_of cur)) ?q"
    by (cases ?q) simp_all
  then show ?thesis by (simp add: quoted_def lex_quoted_body)
qed

lemma lex_words:
  "ws \<noteq> [] \<Longrightarrow> lex False None (join_with [32] (map quoted ws)) = Some (map Word ws)"
proof (induction ws rule: induct_list012)
  case (2 w)
  then show ?case using lex_quoted [of None w "[]"] by (simp add: end_word_def)
next
  case (3 w v ws)
  then show ?case by (simp add: lex_quoted lex_space end_word_def)
qed simp

subsection \<open>The command line of a process\<close>

definition latin1 :: "mstring \<Rightarrow> bool" where
  "latin1 s \<longleftrightarrow> (\<forall>c \<in> set s. c < 256 \<and> c \<noteq> 0)"

lemma latin1_simps [simp]:
  "latin1 []" "latin1 (c # s) \<longleftrightarrow> c < 256 \<and> c \<noteq> 0 \<and> latin1 s"
  "latin1 (s @ t) \<longleftrightarrow> latin1 s \<and> latin1 t"
  by (auto simp: latin1_def)

lemma latin1_no_surrogates: "latin1 s \<Longrightarrow> no_surrogates s"
  by (auto simp: latin1_def plain_unit_def word_less_nat_alt intro!: no_surrogates_plain)

lemma low_unit:
  assumes "(c :: code_unit) < 256"
  shows "and c 255 = c"
proof -
  have "unat c < 2 ^ 8" using assms by (simp add: word_less_nat_alt)
  then have "take_bit 8 c = c"
    by (simp add: word_unat_eq_iff unsigned_take_bit_eq take_bit_nat_eq_self)
  then show ?thesis by (simp add: take_bit_eq_mask mask_eq_exp_minus_1)
qed

lemma low_unit_inj:
  assumes "(c :: code_unit) < 256" and "d < 256"
  shows "(ucast c :: byte) = ucast d \<longleftrightarrow> c = d"
proof
  assume "(ucast c :: byte) = ucast d"
  then have "take_bit 8 (unat c) = take_bit 8 (unat d)"
    by (simp add: word_unat_eq_iff unsigned_ucast_eq)
  moreover have "unat c < 2 ^ 8" "unat d < 2 ^ 8" using assms by (simp_all add: word_less_nat_alt)
  ultimately show "c = d" by (simp add: word_unat_eq_iff take_bit_nat_eq_self)
qed simp

lemma low_unit_quote: "(c :: code_unit) < 256 \<Longrightarrow> (ucast c :: byte) = 39 \<longleftrightarrow> c = 39"
  and low_unit_0: "(c :: code_unit) < 256 \<Longrightarrow> (ucast c :: byte) = 0 \<longleftrightarrow> c = 0"
  using low_unit_inj [of c 39] low_unit_inj [of c 0] by (simp_all add: word_less_nat_alt)

lemma bytes_from_ascii_latin1: "latin1 s \<Longrightarrow> bytes_from_ascii s = map ucast s"
  by (auto simp: bytes_from_ascii_def latin1_def low_unit)

lemma bytes_from_ascii_no_0: "latin1 s \<Longrightarrow> 0 \<notin> set (bytes_from_ascii s)"
  by (auto simp: bytes_from_ascii_latin1 latin1_def) (metis low_unit_0)

lemma latin1_quoted: "latin1 s \<Longrightarrow> latin1 (quoted s)"
  by (induction s) (auto simp: quoted_def word_less_nat_alt)

lemma latin1_join: "list_all latin1 ss \<Longrightarrow> latin1 (join_with [32] ss)"
  by (induction ss rule: induct_list012) (auto simp: word_less_nat_alt)

lemma map_join_with: "map f (join_with sep ss) = join_with (map f sep) (map (map f) ss)"
  by (induction ss rule: induct_list012) auto

lemma map_quoted: "latin1 s \<Longrightarrow> map ucast (quoted s) = (quoted (map ucast s) :: bytes)"
  by (induction s) (auto simp: quoted_def low_unit_quote)

definition latin1_command :: "process_command_t \<Rightarrow> bool" where
  "latin1_command c \<longleftrightarrow> latin1 (pc_program c) \<and> list_all latin1 (pc_args c) \<and>
     (case pc_cwd c of None \<Rightarrow> True | Some d \<Rightarrow> latin1 d)"

lemma latin1_command_ok: "latin1_command c \<Longrightarrow> command_ok c"
  by (auto simp: latin1_command_def command_ok_def latin1_no_surrogates list_all_iff
      split: option.splits)

definition command_bytes :: "process_command_t \<Rightarrow> bytes" where
  "command_bytes c =
     (case pc_cwd c of None \<Rightarrow> []
      | Some d \<Rightarrow> str ''cd '' @ quoted (map ucast d) @ str '' && '') @
     join_with [32] (map (\<lambda>a. quoted (map ucast a)) (pc_program c # pc_args c))"

lemma map_ucast_str [simp]: "map ucast (str s :: mstring) = (str s :: bytes)"
proof -
  have "ucast (of_char c :: code_unit) = (of_char c :: byte)" for c
    by (simp add: of_char_def unsigned_of_nat)
  then show ?thesis by (simp add: str_def)
qed

lemma command_line_bytes:
  assumes "latin1_command c"
  shows "bytes_from_ascii (command_line (pc_cwd c) (pc_program c # pc_args c)) = command_bytes c"
    and "latin1 (command_line (pc_cwd c) (pc_program c # pc_args c))"
proof -
  have all: "list_all latin1 (pc_program c # pc_args c)"
    using assms by (simp add: latin1_command_def)
  then have "list_all latin1 (map quoted (pc_program c # pc_args c))"
    by (auto simp: list_all_iff latin1_quoted)
  from latin1_join [OF this]
  show l: "latin1 (command_line (pc_cwd c) (pc_program c # pc_args c))"
    using assms
    by (auto simp: command_line_def latin1_command_def latin1_quoted word_less_nat_alt
        split: option.splits)
  have words: "map (\<lambda>a. map ucast (quoted a)) xs = (map (\<lambda>a. quoted (map ucast a)) xs :: bytes list)"
    if "list_all latin1 xs" for xs
    using that by (auto simp: list_all_iff map_quoted)
  have join: "map ucast (join_with [32] (map quoted xs)) =
      (join_with [32] (map (\<lambda>a. quoted (map ucast a)) xs) :: bytes)"
    if "list_all latin1 xs" for xs
    unfolding map_join_with map_map o_def words [OF that] by simp
  show "bytes_from_ascii (command_line (pc_cwd c) (pc_program c # pc_args c)) = command_bytes c"
    using assms join [OF all] unfolding bytes_from_ascii_latin1 [OF l]
    by (simp add: command_line_def command_bytes_def map_quoted latin1_command_def del: str_Cons str_Nil list.map(2) split: option.splits)
qed

text \<open>The tokens a command means: its program and arguments, after the change of directory.\<close>

definition intended_tokens :: "process_command_t \<Rightarrow> token list" where
  "intended_tokens c =
     (case pc_cwd c of None \<Rightarrow> []
      | Some d \<Rightarrow> [Word (str ''cd''), Word (map ucast d), And_If]) @
     map (\<lambda>a. Word (map ucast a)) (pc_program c # pc_args c)"

lemma tokens_of_command_bytes: "shell_tokens (command_bytes c) = Some (intended_tokens c)"
proof -
  have words: "lex False None (join_with [32] (map (\<lambda>a. quoted (map ucast a)) ws)) =
      Some (map (\<lambda>a. Word (map ucast a)) ws)" if "ws \<noteq> []" for ws :: "mstring list"
    using lex_words [of "map (map ucast) ws"] that by (simp add: o_def)
  have amp: "lex False cur (32 # 38 # 38 # 32 # s) =
      map_option (\<lambda>ts. end_word cur (And_If # ts)) (lex False None s)" for cur s
    by (simp add: lex_space option.map_comp o_def end_word_def)
  have cd: "lex False None (99 # 100 # 32 # s) =
      map_option (\<lambda>ts. Word (str ''cd'') # ts) (lex False None s)" for s
    by (cases s) (simp_all add: plain_byte_def end_word_def)
  show ?thesis
    using words [of "pc_program c # pc_args c"]
    by (cases "pc_cwd c")
      (simp_all add: shell_tokens_def command_bytes_def intended_tokens_def lex_quoted amp cd
        end_word_def del: list.map(2) lex.simps)
qed

text \<open>
  Property C1. Argument quoting is safe: whatever units below 256 the program name, the
  arguments and the directory hold (quotes, blanks and operators included), the bytes handed to
  the stub are read by the shell as exactly those words, after \<open>cd\<close> to the directory.
\<close>

theorem shell_command_tokens:
  assumes "latin1_command c"
  shows "\<exists>line. to_shell_command c = Some line \<and>
    shell_tokens (bytes_from_ascii line) = Some (intended_tokens c)"
  using to_shell_command_eq [OF latin1_command_ok [OF assms]] command_line_bytes(1) [OF assms]
    tokens_of_command_bytes [of c] by simp

theorem shell_command_tokens_witness:
  "\<exists>line. to_shell_command \<lparr>pc_program = str ''moon'', pc_args = [str ''it`s; rm -rf $HOME'' @ [39]],
       pc_cwd = Some (str ''/my dir'')\<rparr> = Some line \<and>
     shell_tokens (bytes_from_ascii line) =
       Some [Word (str ''cd''), Word (str ''/my dir''), And_If, Word (str ''moon''),
             Word (str ''it`s; rm -rf $HOME'' @ [39])]"
  using shell_command_tokens [of "\<lparr>pc_program = str ''moon'',
      pc_args = [str ''it`s; rm -rf $HOME'' @ [39]], pc_cwd = Some (str ''/my dir'')\<rparr>"]
  by (simp add: latin1_command_def intended_tokens_def word_less_nat_alt)

text \<open>
  Units from 256 up are cut to their low byte after the quoting, so a letter whose
  low byte is the quote ends the quoted word. With one such letter an argument becomes a second command.
\<close>

lemma quoting_broken_by_truncation:
  "\<exists>line. to_shell_command \<lparr>pc_program = str ''echo'',
        pc_args = [[295] @ str '' && rm '' @ [295]], pc_cwd = None\<rparr> = Some line \<and>
     shell_tokens (bytes_from_ascii line) =
       Some [Word (str ''echo''), Word [], And_If, Word (str ''rm''), Word []]"
proof -
  have "command_ok \<lparr>pc_program = str ''echo'',
      pc_args = [[295] @ str '' && rm '' @ [295]], pc_cwd = None\<rparr>"
    by (simp add: command_ok_def is_trailing_surrogate_def is_leading_surrogate_def)
  from to_shell_command_eq [OF this] show ?thesis
    by (simp add: command_line_def quoted_def bytes_from_ascii_def shell_tokens_def plain_byte_def
        end_word_def)
qed

end
