(* ===== verification/Command_Words.thy ===== *)
theory Command_Words
  imports Mulp_Command Posix_Shell
begin

text \<open>
  What the command runs (\<open>cmd/mulp\<close>), as the shell reads it: with a directory, arguments and files of
  units below 256 every word the command is made of is of such units, whatever the passes over the
  arguments, the search, the reader of the configuration and the path routines do with them;
  so the one line the shell is given is the words of a \<open>moon run\<close> in a directory.
\<close>

text \<open>The early return of an error, when there is none.\<close>

lemma bind_Inr:
  "(m \<bind> case_sum (\<lambda>e. Some (Inl (g e))) f) = Some (Inr y) \<longleftrightarrow> (\<exists>x. m = Some (Inr x) \<and> f x = Some (Inr y))"
  by (cases m) (auto split: sum.split)

subsection \<open>Path routines\<close>

lemma latin1_sub: "string_sub s i j = Some t \<Longrightarrow> latin1 s \<Longrightarrow> latin1 t"
  by (auto simp: string_sub_def Let_def latin1_def slice_def split: if_splits option.splits dest: in_set_takeD in_set_dropD)

lemma latin1_slash [simp]: "latin1 slash"
  by (simp add: slash_single word_less_nat_alt)

lemma latin1_join_with: "latin1 sep \<Longrightarrow> list_all latin1 ss \<Longrightarrow> latin1 (join_with sep ss)"
  by (induction sep ss rule: join_with.induct) auto

lemma latin1_split: "latin1 s \<Longrightarrow> list_all latin1 (split_on c s)"
  by (induction s) (auto split: list.split)

lemma latin1_strip: "latin1 s \<Longrightarrow> latin1 (strip s)"
  by (auto simp: strip_def latin1_def dest!: set_dropWhileD)

lemma latin1_normalize_dir: "normalize_dir s = Some t \<Longrightarrow> latin1 s \<Longrightarrow> latin1 t"
  by (auto simp: normalize_dir_def bind_eq_Some_conv split: if_splits dest: latin1_sub)

lemma latin1_parent_loop: "parent_loop s n = Some (Some t) \<Longrightarrow> latin1 s \<Longrightarrow> latin1 t"
  by (induction n) (auto simp: bind_eq_Some_conv split: if_splits dest: latin1_sub)

lemma latin1_parent_dir: "parent_dir s = Some (Some t) \<Longrightarrow> latin1 s \<Longrightarrow> latin1 t"
  by (auto simp: parent_dir_def bind_eq_Some_conv split: if_splits dest!: latin1_parent_loop dest: latin1_normalize_dir)

lemma latin1_normalize_path: "normalize_path s = Some t \<Longrightarrow> latin1 s \<Longrightarrow> latin1 t"
proof -
  assume t: "normalize_path s = Some t" and s: "latin1 s"
  have "list_all latin1 (foldl normalize_step b ss)" if "list_all latin1 b" "list_all latin1 ss" for b ss
    using that
  proof (induction ss arbitrary: b)
    case (Cons s ss)
    have "list_all latin1 (butlast b)" using Cons.prems(1) by (auto simp: list_all_iff dest: in_set_butlastD)
    then have "list_all latin1 (normalize_step b s)" using Cons.prems by (simp add: normalize_step_def del: str_Cons)
    then show ?case using Cons by simp
  qed simp
  from this [of "[]" "segments s"] have "list_all latin1 (resolve [] (segments s))"
    using s by (simp add: resolve_def segments_def latin1_split)
  moreover have "latin1 [47]" by (simp add: word_less_nat_alt)
  ultimately have "latin1 (render a (resolve [] (segments s)))" for a
    using latin1_join_with by (simp add: render_def)
  then show ?thesis using t unfolding normalize_path_eq by blast
qed

lemma latin1_join_config_path: "join_config_path cwd s = Some t \<Longrightarrow> latin1 cwd \<Longrightarrow> latin1 s \<Longrightarrow> latin1 t"
  by (auto simp: join_config_path_def bind_eq_Some_conv simp del: normalize_path_eq split: if_splits
      dest!: latin1_normalize_path dest: latin1_normalize_dir)

lemma latin1_dot: "latin1 (str ''.'')"
  by (simp add: word_less_nat_alt)

lemma latin1_relative: "path_relative_to_root s root = Some t \<Longrightarrow> latin1 s \<Longrightarrow> latin1 t"
  by (auto simp: path_relative_to_root_def bind_eq_Some_conv word_less_nat_alt split: if_splits dest: latin1_sub)

lemma latin1_infer_entry: "infer_entry_from_mulp_path s root = Some t \<Longrightarrow> latin1 s \<Longrightarrow> latin1 t"
  by (auto simp: infer_entry_from_mulp_path_def bind_eq_Some_conv latin1_dot simp del: str_Cons split: if_splits dest!: latin1_sub)

subsection \<open>The searches\<close>

definition latin1_reader :: "reader \<Rightarrow> bool" where
  "latin1_reader read \<longleftrightarrow> (\<forall>path contents. read path = Inr contents \<longrightarrow> latin1 contents)"

lemma latin1_discover_loop:
  assumes "discover_loop read start dir = Some r"
  shows "latin1 dir \<longrightarrow> (\<forall>doc. r = Inr doc \<longrightarrow> latin1 (doc_path doc) \<and> (\<exists>p. read p = Inr (doc_contents doc)))"
proof (rule discover_loop.raw_induct [OF _ assms])
  fix loop :: "reader \<Rightarrow> mstring \<Rightarrow> mstring \<Rightarrow> config_document result run" and read start dir r
  assume IH: "\<And>read start dir r. loop read start dir = Some r \<Longrightarrow>
      latin1 dir \<longrightarrow> (\<forall>doc. r = Inr doc \<longrightarrow> latin1 (doc_path doc) \<and> (\<exists>p. read p = Inr (doc_contents doc)))"
    and run: "(case read (discover_candidate dir) of
        Inl e \<Rightarrow> parent_dir dir \<bind> (\<lambda>p. case p of None \<Rightarrow> Some (Inl (config_error (str ''could not find '' @ default_config_file_name
                           @ str '' from '' @ start))) | Some parent \<Rightarrow> loop read start parent)
      | Inr contents \<Rightarrow> Some (Inr \<lparr>doc_path = discover_candidate dir, doc_contents = contents\<rparr>)) = Some r"
  show "latin1 dir \<longrightarrow> (\<forall>doc. r = Inr doc \<longrightarrow> latin1 (doc_path doc) \<and> (\<exists>p. read p = Inr (doc_contents doc)))"
  proof (intro impI allI)
    fix doc
    assume l: "latin1 dir" and doc: "r = Inr doc"
    show "latin1 (doc_path doc) \<and> (\<exists>p. read p = Inr (doc_contents doc))"
    proof (cases "read (discover_candidate dir)")
      case (Inl e)
      then obtain parent where p: "parent_dir dir = Some (Some parent)" "loop read start parent = Some r"
        using run doc by (auto simp: bind_eq_Some_conv split: option.splits)
      from IH [OF p(2)] latin1_parent_dir [OF p(1) l] doc show ?thesis by blast
    next
      case (Inr contents)
      have "latin1 (discover_candidate dir)"
        using l by (simp add: discover_candidate_def default_config_file_name_def word_less_nat_alt)
      with Inr run doc show ?thesis by auto
    qed
  qed
qed

lemma latin1_moon_root_loop:
  assumes "moon_root_loop read start dir = Some r"
  shows "latin1 dir \<longrightarrow> (\<forall>root. r = Inr root \<longrightarrow> latin1 root)"
proof (rule moon_root_loop.raw_induct [OF _ assms])
  fix loop :: "reader \<Rightarrow> mstring \<Rightarrow> mstring \<Rightarrow> mstring result run" and read start dir r
  assume IH: "\<And>read start dir r. loop read start dir = Some r \<Longrightarrow> latin1 dir \<longrightarrow> (\<forall>root. r = Inr root \<longrightarrow> latin1 root)"
    and run: "(case read (moon_root_candidate dir) of
        Inl e \<Rightarrow> parent_dir dir \<bind> (\<lambda>p. case p of None \<Rightarrow> Some (Inl (config_error (str ''could not find moon.mod.json from '' @ start)))
          | Some parent \<Rightarrow> loop read start parent)
      | Inr _ \<Rightarrow> Some (Inr dir)) = Some r"
  show "latin1 dir \<longrightarrow> (\<forall>root. r = Inr root \<longrightarrow> latin1 root)"
  proof (intro impI allI)
    fix root
    assume l: "latin1 dir" and root: "r = Inr root"
    show "latin1 root"
    proof (cases "read (moon_root_candidate dir)")
      case (Inl e)
      then obtain parent where p: "parent_dir dir = Some (Some parent)" "loop read start parent = Some r"
        using run root by (auto simp: bind_eq_Some_conv split: option.splits)
      from IH [OF p(2)] latin1_parent_dir [OF p(1) l] root show ?thesis by blast
    next
      case (Inr contents)
      with run root l show ?thesis by simp
    qed
  qed
qed

lemma latin1_moon_root: "discover_moon_root read cwd = Some (Inr root) \<Longrightarrow> latin1 cwd \<Longrightarrow> latin1 root"
  by (auto simp: discover_moon_root_def bind_eq_Some_conv dest!: latin1_moon_root_loop dest: latin1_normalize_dir)

lemma latin1_document:
  assumes "load_real_config read cwd conf = Some (Inr doc)" and "latin1 cwd" and "latin1_reader read"
    and "\<And>p. conf = Some p \<Longrightarrow> latin1 p"
  shows "latin1 (doc_path doc) \<and> latin1 (doc_contents doc)"
proof (cases conf)
  case None
  then obtain start where "normalize_dir cwd = Some start" "discover_loop read start start = Some (Inr doc)"
    using assms(1) by (auto simp: load_real_config_def discover_real_config_def bind_eq_Some_conv)
  with latin1_discover_loop latin1_normalize_dir [OF _ assms(2)] assms(3) show ?thesis
    by (fastforce simp: latin1_reader_def)
next
  case (Some path)
  then obtain resolved where r: "join_config_path cwd path = Some resolved"
    using assms(1) by (auto simp: load_real_config_def bind_eq_Some_conv)
  with Some assms(1) obtain contents where "read resolved = Inr contents" "doc = \<lparr>doc_path = resolved, doc_contents = contents\<rparr>"
    by (cases "read resolved") (auto simp: load_real_config_def)
  with r latin1_join_config_path [OF _ assms(2) assms(4)] Some assms(3) show ?thesis
    by (auto simp: latin1_reader_def)
qed

subsection \<open>The reader of the configuration\<close>

lemma latin1_quoted_return: "quoted_return_after source marker = Some (Inr v) \<Longrightarrow> latin1 source \<Longrightarrow> latin1 v"
  by (auto simp: quoted_return_after_def bind_eq_Some_conv split: option.splits dest: latin1_sub)

definition latin1_config :: "mulp_config \<Rightarrow> bool" where
  "latin1_config c \<longleftrightarrow> latin1 (entry (mulp c)) \<and> latin1 (default_task (mulp c))"

definition latin1_state :: "config_state \<Rightarrow> bool" where
  "latin1_state st \<longleftrightarrow> latin1 (cs_entry st) \<and> latin1 (cs_default st)"

lemma latin1_mbt_config: "parse_mulp_mbt_config source = Some (Inr c) \<Longrightarrow> latin1 source \<Longrightarrow> latin1_config c"
proof -
  assume c: "parse_mulp_mbt_config source = Some (Inr c)" and l: "latin1 source"
  obtain name ent task where q: "quoted_return_after source (str ''pub fn package_name'') = Some name"
      "quoted_return_after source (str ''pub fn entry_package'') = Some ent"
      "quoted_return_after source (str ''pub fn default_task'') = Some task"
    using c unfolding parse_mulp_mbt_config_def bind_eq_Some_conv by blast
  show ?thesis
    using c q latin1_quoted_return [OF _ l]
    by (cases task; cases ent) (auto simp: parse_mulp_mbt_config_def latin1_config_def simp del: str_Cons)
qed

lemma latin1_assignment:
  assumes "split_assignment line = Some (Inr (key, v))" and "latin1 line"
  shows "latin1 v"
proof -
  have "v = strip (split_on 61 line ! 1)" and "length (split_on 61 line) = 2"
    using assms(1) by (auto simp: split_assignment_eq [OF latin1_no_surrogates [OF assms(2)]] split: if_splits)
  then show ?thesis using latin1_split [OF assms(2), of 61] by (simp add: latin1_strip list_all_length)
qed

lemma latin1_quoted_value: "parse_quoted_value key v = Some (Inr t) \<Longrightarrow> latin1 v \<Longrightarrow> latin1 t"
  by (auto simp: parse_quoted_value_def bind_eq_Some_conv split: if_splits dest: latin1_sub)

lemma latin1_set_key: "set_key st key v = Inr st' \<Longrightarrow> latin1_state st \<Longrightarrow> latin1 v \<Longrightarrow> latin1_state st'"
  by (auto simp: set_key_def Let_def latin1_state_def simp del: str_Cons split: if_splits)

lemma latin1_assign_line: "assign_line st line = Some (Inr st') \<Longrightarrow> latin1_state st \<Longrightarrow> latin1 line \<Longrightarrow> latin1_state st'"
  by (auto simp: assign_line_def bind_Inr simp del: str_Cons split: if_splits
      dest!: latin1_assignment dest: latin1_quoted_value latin1_set_key)

lemma latin1_config_line:
  assumes "config_line st view = Some (Inr st')" and "latin1_state st" and "latin1 view"
  shows "latin1_state st'"
proof -
  have line: "view_trim view = Some (strip view)" using latin1_no_surrogates [OF assms(3)] by (rule view_trim_plain)
  obtain skipped where skipped: "(if strip view = [] then Some True else has_prefix (strip view) (str ''#'')) = Some skipped"
    using assms(1) by (auto simp: config_line_def line bind_eq_Some_conv simp del: str_Cons)
  show ?thesis
  proof (cases skipped)
    case True
    then show ?thesis using assms(1,2) skipped by (simp add: config_line_def line del: str_Cons)
  next
    case False
    then obtain sec where "(case sec of None \<Rightarrow> assign_line st (strip view) | Some name \<Rightarrow> Some (Inr (st\<lparr>cs_section := name\<rparr>))) = Some (Inr st')"
      using assms(1) skipped by (auto simp: config_line_def line bind_Inr simp del: str_Cons)
    then show ?thesis
      using assms(2) latin1_assign_line [OF _ assms(2) latin1_strip [OF assms(3)]]
      by (cases sec) (auto simp: latin1_state_def)
  qed
qed

lemma latin1_config_lines:
  "config_lines st views = Some (Inr st') \<Longrightarrow> latin1_state st \<Longrightarrow> list_all latin1 views \<Longrightarrow> latin1_state st'"
proof (induction views arbitrary: st)
  case (Cons v vs)
  then obtain st1 where "config_line st v = Some (Inr st1)" "config_lines st1 vs = Some (Inr st')"
    by (auto simp: bind_Inr)
  then show ?case using Cons latin1_config_line by auto
qed simp

lemma latin1_parse_config:
  assumes "parse_config source = Some (Inr c)" and "latin1 source"
  shows "latin1_config c"
proof -
  have start: "latin1_state config_start" by (simp add: latin1_state_def config_start_def)
  obtain script where script: "find_substring source (str ''pub fn default_task'') = Some script"
    using assms(1) by (auto simp: parse_config_def bind_eq_Some_conv)
  show ?thesis
  proof (cases script)
    case None
    then obtain r where r: "config_lines config_start (split_on 10 source) = Some r"
        "(case r of Inl err \<Rightarrow> Inl err | Inr st \<Rightarrow> finish_config st) = Inr c"
      using assms(1) script by (auto simp: parse_config_def run_simps bind_eq_Some_conv simp del: str_Cons)
    then obtain st where "r = Inr st" "finish_config st = Inr c" by (cases r) auto
    then show ?thesis
      using r latin1_config_lines [OF _ start latin1_split [OF assms(2)]]
      by (auto simp: finish_config_def latin1_config_def latin1_state_def split: if_splits)
  next
    case (Some i)
    then show ?thesis using assms script latin1_mbt_config by (simp add: parse_config_def del: str_Cons)
  qed
qed

subsection \<open>The passes over the arguments\<close>

lemma latin1_cwd_arg:
  "command_cwd_from_args cwd args = Some (Inr d) \<Longrightarrow> latin1 cwd \<Longrightarrow> list_all latin1 args \<Longrightarrow> latin1 d"
proof (induction cwd args rule: command_cwd_from_args.induct)
  case (2 cwd arg rest)
  then show ?case by (auto simp: bind_eq_Some_conv simp del: str_Cons split: if_splits list.splits dest: latin1_join_config_path)
qed simp

lemma map_sum_Inr: "map_sum id f r = Inr y \<longleftrightarrow> (\<exists>x. r = Inr x \<and> y = f x)"
  by (cases r) auto

lemma latin1_without_cwd: "args_without_cwd args = Inr rest \<Longrightarrow> list_all latin1 args \<Longrightarrow> list_all latin1 rest"
  by (induction args arbitrary: rest rule: args_without_cwd.induct)
    (auto simp: map_sum_Inr simp del: str_Cons split: if_splits list.splits)

lemma latin1_without_config: "args_without_config_path args = Inr rest \<Longrightarrow> list_all latin1 args \<Longrightarrow> list_all latin1 rest"
  by (induction args arbitrary: rest rule: args_without_config_path.induct)
    (auto simp: map_sum_Inr simp del: str_Cons split: if_splits list.splits)

lemma latin1_config_arg: "command_config_path_from_args args = Inr (Some p) \<Longrightarrow> list_all latin1 args \<Longrightarrow> latin1 p"
  by (induction args rule: command_config_path_from_args.induct) (auto split: if_splits list.splits)

lemma latin1_log_and_script: "list_all latin1 args \<Longrightarrow> list_all latin1 (normalize_script_args (args_without_log_flags args))"
  by (auto simp: normalize_script_args_def args_without_log_flags_def list_all_iff word_less_nat_alt)

fun action_task :: "cli_action \<Rightarrow> mstring" where
  "action_task (Run t) = t"
| "action_task (Watch t) = t"
| "action_task (Tree t) = t"
| "action_task _ = []"

lemma latin1_action:
  "parse_args_loop path act level saw args = Inr r \<Longrightarrow> latin1 (action_task act) \<Longrightarrow> list_all latin1 args \<Longrightarrow>
   latin1 (action_task (action r))"
proof (induction args arbitrary: path act level saw rule: length_induct)
  case (1 args)
  have IH: "latin1 (action_task (action r))"
    if "parse_args_loop path act level saw ys = Inr r" "latin1 (action_task act)" "length ys < length args" "list_all latin1 ys"
    for path act level saw ys
    using "1.IH" that by blast
  show ?case
  proof (cases args)
    case Nil
    then show ?thesis using "1.prems" by auto
  next
    case (Cons arg rest)
    show ?thesis
      using "1.prems" unfolding Cons parse_args_loop.simps(2)
      by (cases rest) (auto simp del: str_Cons parse_args_loop.simps split: if_split_asm elim!: IH simp: Cons)
  qed
qed

lemma latin1_action_args: "latin1 (action_task act) \<Longrightarrow> list_all latin1 (action_args act)"
  by (cases act) (simp_all add: action_args_def word_less_nat_alt)

subsection \<open>What is run\<close>

definition moon_process :: "process_command_t \<Rightarrow> bool" where
  "moon_process p \<longleftrightarrow> pc_program p = str ''moon'' \<and> prefix [str ''run''] (pc_args p) \<and> pc_cwd p \<noteq> None"

text \<open>
  A result that leaves the outside alone, or comes from one shell line: that of a \<open>moon run\<close> whose
  words satisfy \<open>ok\<close>.
\<close>

definition tame :: "(mstring \<Rightarrow> bool) \<Rightarrow> 'w command_env \<Rightarrow> 'w \<Rightarrow> (command_result \<times> 'w) run \<Rightarrow> bool" where
  "tame ok env w x \<longleftrightarrow>
     (\<forall>r w'. x = Some (r, w') \<longrightarrow> w' = w \<and> cr_status r \<in> {0, 1} \<or>
       (\<exists>p line. moon_process p \<and> list_all ok (pc_args p) \<and> (\<forall>d. pc_cwd p = Some d \<longrightarrow> ok d) \<and>
          to_shell_command p = Some line \<and> w' = ce_effect env (bytes_from_ascii line) w))"

lemma tame_unchanged: "cr_status r \<in> {0, 1} \<Longrightarrow> tame ok env w (Some (r, w))"
  by (auto simp: tame_def)

lemma tame_or_fail: "(\<And>x. r = Inr x \<Longrightarrow> tame ok env w (k x)) \<Longrightarrow> tame ok env w (or_fail r w k)"
  by (auto simp: or_fail_def tame_unchanged failed_def split: sum.split)

lemma tame_bind: "(\<And>x. m = Some x \<Longrightarrow> tame ok env w (k x)) \<Longrightarrow> tame ok env w (m \<bind> k)"
  by (cases m) (simp_all add: tame_def)

lemma tame_run:
  assumes "moon_process p" and "list_all ok (pc_args p)" and "\<And>d. pc_cwd p = Some d \<Longrightarrow> ok d"
  shows "tame ok env w (run_and_report env p w)"
proof -
  have "tame ok env w (Some (r, ce_effect env (bytes_from_ascii line) w))" if "to_shell_command p = Some line" for r line
    using assms that unfolding tame_def by blast
  then show ?thesis
    unfolding run_and_report_def Let_def by (auto intro!: tame_bind split: sum.split)
qed

lemma tame_execute:
  assumes "mc_executable c = str ''moon''" and "prefix [str ''run''] (mc_args c)" and "list_all ok (mc_args c)" and "ok cwd"
    and "\<And>root. discover_moon_root (ce_read env w) cwd = Some (Inr root) \<Longrightarrow> ok root"
  shows "tame ok env w (execute_moon_run_command env c cwd w)"
  unfolding execute_moon_run_command_def Let_def
  using assms
  by (auto intro!: tame_bind tame_run simp: moon_process_def with_cwd_def process_command_def split: sum.split)

lemma tame_script:
  assumes "latin1 cwd" and "list_all latin1 args" and "latin1 (doc_path doc)"
  shows "tame latin1 env w (run_script env cwd args doc w)"
proof -
  have root: "latin1 root" if "discover_moon_root (ce_read env w) cwd = Some (Inr root)" for root
    using latin1_moon_root [OF that assms(1)] .
  have script: "latin1 s" if "script_path_from env w cwd doc = Some s" for s
  proof -
    note path = that
    obtain r where r: "discover_moon_root (ce_read env w) cwd = Some r"
      using path by (auto simp: script_path_from_def bind_eq_Some_conv)
    with path assms(3) latin1_relative show ?thesis by (cases r) (auto simp: script_path_from_def)
  qed
  have "tame latin1 env w (execute_moon_run_command env
      (moon_run_script_command s (normalize_script_args (args_without_log_flags sargs))) cwd w)"
    if "args_without_config_path args = Inr sargs" "script_path_from env w cwd doc = Some s" for sargs s
    using latin1_log_and_script [OF latin1_without_config [OF that(1) assms(2)]] script [OF that(2)] assms(1) root
    by (intro tame_execute) (simp_all add: moon_run_script_command_def word_less_nat_alt)
  then show ?thesis
    unfolding run_script_def Let_def by (intro tame_or_fail tame_bind) simp_all
qed

lemma latin1_entry_command:
  assumes "moon_run_command_with_entry config cli e = Inr c" and "latin1_config config" and "latin1 (action_task (action cli))"
    and "\<And>s. e = Some s \<Longrightarrow> latin1 s"
  shows "mc_executable c = str ''moon''" and "prefix [str ''run''] (mc_args c)" and "list_all latin1 (mc_args c)"
proof -
  obtain ent where ent: "configured_or_inferred_entry config e = Inr ent"
      "c = \<lparr>mc_executable = str ''moon'', mc_args = [str ''run'', ent, str ''--''] @ action_args (action cli)\<rparr>"
    using assms(1) by (auto simp: moon_run_command_with_entry_def split: sum.split_asm)
  then have "latin1 ent"
    using assms(2,4) by (auto simp: configured_or_inferred_entry_def latin1_config_def split: if_split_asm option.split_asm)
  with ent(2) latin1_action_args [OF assms(3)]
  show "mc_executable c = str ''moon''" "prefix [str ''run''] (mc_args c)" "list_all latin1 (mc_args c)"
    by (simp_all add: word_less_nat_alt)
qed

lemma tame_config:
  assumes "latin1 cwd" and "list_all latin1 args" and "latin1 (doc_path doc)" and "latin1 (doc_contents doc)"
  shows "tame latin1 env w (run_config env cwd args doc w)"
proof -
  have root: "latin1 root" if "discover_moon_root (ce_read env w) cwd = Some (Inr root)" for root
    using latin1_moon_root [OF that assms(1)] .
  have run: "tame latin1 env w (execute_moon_run_command env c cwd w)"
    if "parse_config (doc_contents doc) = Some (Inr config)" "parse_args args (default_task (mulp config)) = Inr cli"
      "(case r of Inl _ \<Rightarrow> Some None | Inr root \<Rightarrow> infer_entry_from_mulp_path (doc_path doc) root \<bind> (\<lambda>e. Some (Some e))) = Some e"
      "moon_run_command_with_entry config cli e = Inr c" for config cli r e c
  proof -
    note inferred = that(3)
    have config: "latin1_config config" using latin1_parse_config [OF that(1) assms(4)] .
    then have "latin1 (action_task (action cli))"
      using latin1_action [OF that(2) [unfolded parse_args_def] _ assms(2)] by (simp add: latin1_config_def)
    moreover have "latin1 s" if "e = Some s" for s
      using inferred that latin1_infer_entry [OF _ assms(3)] by (cases r) (auto simp: bind_eq_Some_conv)
    ultimately show ?thesis
      using latin1_entry_command [OF that(4) config] assms(1) root by (intro tame_execute) simp_all
  qed
  show ?thesis
    unfolding run_config_def Let_def by (intro tame_or_fail tame_bind) (hypsubst, rule run; assumption)
qed

lemma tame_result:
  assumes "latin1 cwd" and "list_all latin1 args" and "latin1_reader (ce_read env w)"
  shows "tame latin1 env w (mulp_command_result_from env cwd args w)"
proof -
  have branch: "tame latin1 env w (if script then run_script env d rest doc w else run_config env d rest doc w)"
    if "command_cwd_from_args cwd args = Some (Inr d)" "args_without_cwd args = Inr rest"
      "command_config_path_from_args rest = Inr conf" "load_real_config (ce_read env w) d conf = Some (Inr doc)"
    for d rest conf doc script
  proof -
    have d: "latin1 d" using latin1_cwd_arg [OF that(1) assms(1,2)] .
    have rest: "list_all latin1 rest" using latin1_without_cwd [OF that(2) assms(2)] .
    have "latin1 p" if "conf = Some p" for p
      using latin1_config_arg [of rest p] \<open>command_config_path_from_args rest = Inr conf\<close> that rest by simp
    from latin1_document [OF that(4) d assms(3) this] show ?thesis
      using tame_script [OF d rest, of doc env w] tame_config [OF d rest, of doc env w] by simp
  qed
  have choice: "tame latin1 env w (if b then x else y)" if "tame latin1 env w x" "tame latin1 env w y" for b x y
    using that by simp
  show ?thesis
    unfolding mulp_command_result_from_def
    by (rule choice, rule tame_unchanged, simp, rule choice, rule tame_unchanged, simp)
      (intro tame_bind tame_or_fail, hypsubst, rule branch; assumption)
qed

subsection \<open>Properties\<close>

text \<open>
  Property C28. With a directory, arguments and files of units below 256, whatever else they hold, the command
  changes nothing outside except by at most one line it gives to the shell, and the shell reads that
  line as \<open>cd\<close> to a directory and a \<open>moon run\<close> with further words: no unit of an argument, a path
  or a configuration adds a command. When nothing is run the status is 0 or 1.
\<close>

theorem command_only_runs_moon:
  assumes "latin1 cwd" and "list_all latin1 args" and "latin1_reader (ce_read env w)"
    and "mulp_command_result_from env cwd args w = Some (r, w')"
  shows "w' = w \<and> cr_status r \<in> {0, 1} \<or>
    (\<exists>line dir rest. w' = ce_effect env line w \<and>
       shell_tokens line =
         Some ([Word (str ''cd''), Word dir, And_If, Word (str ''moon''), Word (str ''run'')] @ map Word rest))"
proof -
  have words: "\<exists>dir rest. shell_tokens (bytes_from_ascii line) =
      Some ([Word (str ''cd''), Word dir, And_If, Word (str ''moon''), Word (str ''run'')] @ map Word rest)"
    if "moon_process p" "list_all latin1 (pc_args p)" "\<forall>d. pc_cwd p = Some d \<longrightarrow> latin1 d" "to_shell_command p = Some line"
    for p line
  proof -
    note process = that(1)
    obtain d as where p: "pc_program p = str ''moon''" "pc_args p = str ''run'' # as" "pc_cwd p = Some d"
      using process by (auto simp: moon_process_def prefix_def simp del: str_Cons)
    then have l: "latin1_command p" using that(2,3) by (simp add: latin1_command_def word_less_nat_alt)
    have "shell_tokens (bytes_from_ascii line) = Some (intended_tokens p)"
      using that(4) to_shell_command_eq [OF latin1_command_ok [OF l]] command_line_bytes(1) [OF l] tokens_of_command_bytes [of p]
      by simp
    then show ?thesis using p by (auto simp: intended_tokens_def simp del: str_Cons intro!: exI [of _ "map (map ucast) as"])
  qed
  show ?thesis
    using tame_result [OF assms(1-3)] assms(4) words unfolding tame_def by meson
qed

text \<open>A task whose name would be a second command were it not quoted.\<close>

lemma demo_hostile_run:
  "\<exists>r w'. mulp_command_result_from demo_command_env (str ''/w/app'') [str ''x'' @ [39] @ str ''&& rm -rf ~''] [] = Some (r, w') \<and> w' \<noteq> []"
proof -
  let ?task = "str ''x'' @ [39] @ str ''&& rm -rf ~''"
  let ?p = "\<lparr>pc_program = str ''moon'',
      pc_args = [str ''run'', str ''--quiet'', str ''--target'', str ''native'', str ''app/mulp.mbtx'', str ''--'', ?task],
      pc_cwd = Some (str ''/w'')\<rparr>"
  have "mulp_command_result_from demo_command_env (str ''/w/app'') [?task] [] = run_and_report demo_command_env ?p []"
    using script_line [of "[Task_Item ?task]" demo_command_env "[]"
        "str ''/w/app''" "\<lparr>doc_path = str ''/w/app/mulp.mbtx'', doc_contents = []\<rparr>"
        "[str ''w'']" "[str ''app'', str ''mulp.mbtx'']"]
      demo_dirs demo_searches
    by (simp add: demo_command_env_def load_real_config_def suffix_def render_def)
  moreover have "map_option (\<lambda>x. snd x \<noteq> []) (run_and_report demo_command_env ?p []) = Some True"
    by code_simp
  ultimately show ?thesis by auto
qed

theorem command_only_runs_moon_witness:
  "\<exists>line dir rest. map_option snd (mulp_command_result_from demo_command_env (str ''/w/app'')
      [str ''x'' @ [39] @ str ''&& rm -rf ~''] []) = Some [line] \<and>
    shell_tokens line =
      Some ([Word (str ''cd''), Word dir, And_If, Word (str ''moon''), Word (str ''run'')] @ map Word rest)"
proof -
  let ?args = "[str ''x'' @ [39] @ str ''&& rm -rf ~'']"
  obtain r w' where run: "mulp_command_result_from demo_command_env (str ''/w/app'') ?args [] = Some (r, w')" "w' \<noteq> []"
    using demo_hostile_run by blast
  have hyps: "latin1 (str ''/w/app'')" "list_all latin1 ?args" "latin1_reader (ce_read demo_command_env [])"
    by (auto simp: word_less_nat_alt latin1_reader_def demo_command_env_def demo_files_def)
  obtain line dir rest where "w' = [line]"
    "shell_tokens line = Some ([Word (str ''cd''), Word dir, And_If, Word (str ''moon''), Word (str ''run'')] @ map Word rest)"
    using command_only_runs_moon [OF hyps run(1)] run(2) by (auto simp: demo_command_env_def simp del: str_Cons)
  then show ?thesis using run(1) by (intro exI [of _ line] exI [of _ dir] exI [of _ rest]) simp
qed

end
