(* ===== verification/Posix_IO.thy ===== *)
theory Posix_IO
  imports C_Memory
begin

text \<open>
  The system calls and stdio functions the C stubs rely on, as the interface they are a client
  of: a record of operations over a state of any type, and the laws of stdio files as a
  locale. \<open>disk\<close> is a file system in memory that satisfies the laws.
\<close>

datatype open_mode = Read_Binary | Write_Binary | Append_Binary

datatype file_kind = Regular_File | Directory | Symbolic_Link | Other_Kind

text \<open>What \<open>stat\<close> and \<open>lstat\<close> report; times in seconds.\<close>

record stat_info =
  st_kind :: file_kind
  st_size :: int
  st_mtime :: int
  st_ctime :: int
  st_atime :: int
  st_mode :: nat

text \<open>\<open>mkdir\<close> succeeds, finds the name taken, or fails in another way.\<close>

datatype mkdir_result = Made | Exists | Failed

record 's posix =
  px_alloc :: "nat \<Rightarrow> bool"
  px_mkdir :: "bytes \<Rightarrow> 's \<Rightarrow> mkdir_result \<times> 's"
  px_unlink :: "bytes \<Rightarrow> 's \<Rightarrow> bool \<times> 's"
  px_symlink :: "bytes \<Rightarrow> bytes \<Rightarrow> 's \<Rightarrow> bool \<times> 's"
  px_stat :: "bytes \<Rightarrow> 's \<Rightarrow> stat_info option"
  px_lstat :: "bytes \<Rightarrow> 's \<Rightarrow> stat_info option"
  px_fopen :: "bytes \<Rightarrow> open_mode \<Rightarrow> 's \<Rightarrow> nat option \<times> 's"
  px_fread :: "nat \<Rightarrow> nat \<Rightarrow> 's \<Rightarrow> bytes \<times> 's"
  px_fwrite :: "nat \<Rightarrow> bytes \<Rightarrow> 's \<Rightarrow> nat \<times> 's"
  px_fclose :: "nat \<Rightarrow> 's \<Rightarrow> bool \<times> 's"

subsection \<open>The laws of stdio files\<close>

text \<open>
  For regular files. \<open>content\<close> is what a name holds, \<open>unread\<close> what a stream opened for reading has
  left, and \<open>target\<close> the name of a stream opened for writing with what the file will hold once the
  stream is closed. A read returns all it is asked for unless the file ends. A write goes to a buffer:
  nothing is promised of the file before the stream is closed, nor when the close fails, nor after a
  write that reports fewer bytes than it was given. A state in which another stream may have
  written the same file gives no \<open>target\<close>.
\<close>

locale stdio =
  fixes px :: "'s posix"
    and content :: "'s \<Rightarrow> bytes \<Rightarrow> bytes option"
    and unread :: "'s \<Rightarrow> nat \<Rightarrow> bytes option"
    and target :: "'s \<Rightarrow> nat \<Rightarrow> (bytes \<times> bytes) option"
  assumes open_read: "px_fopen px p Read_Binary s = (Some h, s') \<Longrightarrow>
      content s p \<noteq> None \<and> unread s' h = content s p \<and> content s' = content s"
    and read_chunk: "unread s h = Some c \<Longrightarrow>
      fst (px_fread px h n s) = take n c \<and> unread (snd (px_fread px h n s)) h = Some (drop n c) \<and>
      content (snd (px_fread px h n s)) = content s"
    and close_read: "unread s h = Some c \<Longrightarrow> content (snd (px_fclose px h s)) = content s"
    and open_write: "px_fopen px p Write_Binary s = (Some h, s') \<Longrightarrow> target s' h = Some (p, [])"
    and open_append: "px_fopen px p Append_Binary s = (Some h, s') \<Longrightarrow>
      target s' h = Some (p, case content s p of None \<Rightarrow> [] | Some c \<Rightarrow> c)"
    and write_chunk: "target s h = Some (p, c) \<Longrightarrow> px_fwrite px h bs s = (length bs, s') \<Longrightarrow>
      target s' h = Some (p, c @ bs)"
    and close_write: "target s h = Some (p, c) \<Longrightarrow> px_fclose px h s = (True, s') \<Longrightarrow> content s' p = Some c"

subsection \<open>A file system in memory\<close>

text \<open>
  A stream for writing has a name and a buffer of \<open>buffer_size\<close> bytes. A write that does not fit
  flushes the buffer first; when the room of the disk ends, a flush writes what fits and fails.
\<close>

record disk =
  dk_files :: "bytes \<Rightarrow> bytes option"
  dk_dirs :: "bytes list"
  dk_unread :: "nat \<Rightarrow> bytes option"
  dk_buffers :: "nat \<Rightarrow> (bytes \<times> bytes) option"
  dk_next :: nat
  dk_room :: nat

definition buffer_size :: nat where
  "buffer_size = 4"

definition disk_fopen :: "bytes \<Rightarrow> open_mode \<Rightarrow> disk \<Rightarrow> nat option \<times> disk" where
  "disk_fopen p mode s =
     (let h = dk_next s in
      case mode of
        Read_Binary \<Rightarrow>
          (case dk_files s p of
             None \<Rightarrow> (None, s)
           | Some c \<Rightarrow> (Some h, s\<lparr>dk_unread := (dk_unread s)(h \<mapsto> c), dk_buffers := (dk_buffers s)(h := None),
                                 dk_next := Suc h\<rparr>))
      | Write_Binary \<Rightarrow>
          (if p \<in> set (dk_dirs s) then (None, s)
           else (Some h, s\<lparr>dk_files := (dk_files s)(p \<mapsto> []),
                           dk_buffers := (dk_buffers s)(h \<mapsto> (p, [])), dk_next := Suc h\<rparr>))
      | Append_Binary \<Rightarrow>
          (if p \<in> set (dk_dirs s) then (None, s)
           else (Some h, s\<lparr>dk_files := (dk_files s)(p \<mapsto> (case dk_files s p of None \<Rightarrow> [] | Some c \<Rightarrow> c)),
                           dk_buffers := (dk_buffers s)(h \<mapsto> (p, [])), dk_next := Suc h\<rparr>)))"

definition disk_fread :: "nat \<Rightarrow> nat \<Rightarrow> disk \<Rightarrow> bytes \<times> disk" where
  "disk_fread h n s =
     (case dk_unread s h of
        None \<Rightarrow> ([], s)
      | Some c \<Rightarrow> (take n c, s\<lparr>dk_unread := (dk_unread s)(h \<mapsto> drop n c)\<rparr>))"

text \<open>Writing bytes at the end of a file that exists, as far as the room goes.\<close>

definition disk_flush :: "bytes \<Rightarrow> bytes \<Rightarrow> disk \<Rightarrow> bool \<times> disk" where
  "disk_flush p bs s =
     (case dk_files s p of
        None \<Rightarrow> (False, s)
      | Some c \<Rightarrow>
          (let n = min (length bs) (dk_room s)
           in (n = length bs, s\<lparr>dk_files := (dk_files s)(p \<mapsto> c @ take n bs), dk_room := dk_room s - n\<rparr>)))"

definition disk_fwrite :: "nat \<Rightarrow> bytes \<Rightarrow> disk \<Rightarrow> nat \<times> disk" where
  "disk_fwrite h bs s =
     (case dk_buffers s h of
        None \<Rightarrow> (0, s)
      | Some (p, buffer) \<Rightarrow>
          (if bs = [] \<or> length buffer + length bs \<le> buffer_size
           then (length bs, s\<lparr>dk_buffers := (dk_buffers s)(h \<mapsto> (p, buffer @ bs))\<rparr>)
           else (case disk_flush p (buffer @ bs) s of
                  (ok, s) \<Rightarrow> (if ok then length bs else 0, s\<lparr>dk_buffers := (dk_buffers s)(h \<mapsto> (p, []))\<rparr>))))"

definition disk_fclose :: "nat \<Rightarrow> disk \<Rightarrow> bool \<times> disk" where
  "disk_fclose h s =
     (case dk_buffers s h of
        None \<Rightarrow> (True, s\<lparr>dk_unread := (dk_unread s)(h := None)\<rparr>)
      | Some (p, buffer) \<Rightarrow>
          (case disk_flush p buffer s of (ok, s) \<Rightarrow> (ok, s\<lparr>dk_buffers := (dk_buffers s)(h := None)\<rparr>)))"

definition disk_unread :: "disk \<Rightarrow> nat \<Rightarrow> bytes option" where
  "disk_unread s h = (case dk_buffers s h of None \<Rightarrow> dk_unread s h | Some _ \<Rightarrow> None)"

definition disk_target :: "disk \<Rightarrow> nat \<Rightarrow> (bytes \<times> bytes) option" where
  "disk_target s h =
     (case dk_buffers s h of
        None \<Rightarrow> None
      | Some (p, buffer) \<Rightarrow> map_option (\<lambda>c. (p, c @ buffer)) (dk_files s p))"

definition disk_mkdir :: "bytes \<Rightarrow> disk \<Rightarrow> mkdir_result \<times> disk" where
  "disk_mkdir p s =
     (if p \<in> set (dk_dirs s) \<or> dk_files s p \<noteq> None then (Exists, s)
      else if dk_room s = 0 then (Failed, s)
      else (Made, s\<lparr>dk_dirs := p # dk_dirs s\<rparr>))"

definition disk_stat :: "bytes \<Rightarrow> disk \<Rightarrow> stat_info option" where
  "disk_stat p s =
     (case dk_files s p of
        Some c \<Rightarrow> Some \<lparr>st_kind = Regular_File, st_size = int (length c), st_mtime = 0, st_ctime = 0,
                        st_atime = 0, st_mode = 420\<rparr>
      | None \<Rightarrow>
          (if p \<in> set (dk_dirs s)
           then Some \<lparr>st_kind = Directory, st_size = 0, st_mtime = 0, st_ctime = 0, st_atime = 0,
                      st_mode = 493\<rparr>
           else None))"

definition disk_px :: "disk posix" where
  "disk_px = \<lparr>px_alloc = (\<lambda>_. True), px_mkdir = disk_mkdir,
     px_unlink = (\<lambda>p s. (dk_files s p \<noteq> None, s\<lparr>dk_files := (dk_files s)(p := None)\<rparr>)),
     px_symlink = (\<lambda>_ _ s. (False, s)), px_stat = disk_stat, px_lstat = disk_stat,
     px_fopen = disk_fopen, px_fread = disk_fread, px_fwrite = disk_fwrite, px_fclose = disk_fclose\<rparr>"

definition empty_disk :: "nat \<Rightarrow> disk" where
  "empty_disk room = \<lparr>dk_files = (\<lambda>_. None), dk_dirs = [], dk_unread = (\<lambda>_. None),
     dk_buffers = (\<lambda>_. None), dk_next = 0, dk_room = room\<rparr>"

lemma disk_write_target:
  assumes "disk_target s h = Some (p, c)" and "disk_fwrite h bs s = (length bs, s')"
  shows "disk_target s' h = Some (p, c @ bs)"
proof -
  obtain buffer d where b: "dk_buffers s h = Some (p, buffer)" "dk_files s p = Some d" "c = d @ buffer"
    using assms(1) by (auto simp: disk_target_def split: option.splits)
  show ?thesis
  proof (cases "bs = [] \<or> length buffer + length bs \<le> buffer_size")
    case True
    then show ?thesis using assms(2) b by (auto simp: disk_target_def disk_fwrite_def)
  next
    case False
    then have "min (length (buffer @ bs)) (dk_room s) = length (buffer @ bs)"
      using assms(2) b by (auto simp: disk_fwrite_def disk_flush_def Let_def split: if_splits)
    then show ?thesis using False assms(2) b by (auto simp: disk_target_def disk_fwrite_def disk_flush_def Let_def)
  qed
qed

lemma disk_close_target:
  assumes "disk_target s h = Some (p, c)" and "disk_fclose h s = (True, s')"
  shows "dk_files s' p = Some c"
  using assms by (auto simp: disk_target_def disk_fclose_def disk_flush_def Let_def split: option.splits prod.splits)

lemmas disk_px_simps = disk_px_def disk_fopen_def disk_fread_def disk_fclose_def disk_unread_def disk_target_def

interpretation disk: stdio disk_px dk_files disk_unread disk_target
proof
  fix s s' :: disk and p c bs h
  show "disk_target s h = Some (p, c) \<Longrightarrow> px_fwrite disk_px h bs s = (length bs, s') \<Longrightarrow> disk_target s' h = Some (p, c @ bs)"
    by (rule disk_write_target) (simp_all add: disk_px_def)
  show "disk_target s h = Some (p, c) \<Longrightarrow> px_fclose disk_px h s = (True, s') \<Longrightarrow> dk_files s' p = Some c"
    by (rule disk_close_target) (simp_all add: disk_px_def)
qed (auto simp: disk_px_simps Let_def split: option.splits if_splits)

end
