(* ===== verification/File_Stream.thy ===== *)
theory File_Stream
  imports Posix_IO
begin

text \<open>
  The C stub of the file streams (\<open>stream/file_reader_stub.c\<close>, its POSIX branch): readers and
  writers with the two counters of open streams, directory creation, symbolic links and the
  metadata line. The stub's statics and the operating system are one state.
\<close>

record 's stream_state =
  open_readers :: int
  open_writers :: int
  os :: 's

record file_reader =
  fr_file :: "nat option"
  fr_chunk_size :: int

record file_writer =
  fw_file :: "nat option"

subsection \<open>Directories\<close>

definition mulp_mkdir_if_needed :: "'s posix \<Rightarrow> bytes \<Rightarrow> 's \<Rightarrow> bool \<times> 's" where
  "mulp_mkdir_if_needed px path s =
     (if path = [] then (True, s)
      else case px_mkdir px path s of
        (Made, s') \<Rightarrow> (True, s')
      | (Exists, s') \<Rightarrow> (True, s')
      | (Failed, s') \<Rightarrow> (False, s'))"

text \<open>The copy is cut at each separator in turn while its prefix is created.\<close>

function parent_dirs_loop :: "'s posix \<Rightarrow> bytes \<Rightarrow> nat \<Rightarrow> 's \<Rightarrow> bool \<times> 's" where
  "parent_dirs_loop px copy index s =
     (if index < length copy then
        (if copy ! index = 47 \<or> copy ! index = 92 then
           (case mulp_mkdir_if_needed px (take index copy) s of
              (True, s') \<Rightarrow> parent_dirs_loop px copy (Suc index) s'
            | (False, s') \<Rightarrow> (False, s'))
         else parent_dirs_loop px copy (Suc index) s)
      else (True, s))"
  by pat_completeness auto
termination by (relation "measure (\<lambda>(_, copy, index, _). length copy - index)") auto

declare parent_dirs_loop.simps [simp del]

definition mulp_ensure_parent_dirs :: "'s posix \<Rightarrow> bytes \<Rightarrow> 's \<Rightarrow> bool \<times> 's" where
  "mulp_ensure_parent_dirs px path s =
     (if \<not> px_alloc px (length (cstr path) + 1) then (False, s)
      else parent_dirs_loop px (cstr path) 1 s)"

definition mulp_make_directory_path :: "'s posix \<Rightarrow> bytes \<Rightarrow> 's \<Rightarrow> bool \<times> 's" where
  "mulp_make_directory_path px path s =
     (case mulp_ensure_parent_dirs px path s of
        (False, s) \<Rightarrow> (False, s)
      | (True, s) \<Rightarrow>
          (if \<not> px_alloc px (length (cstr path) + 1) then (False, s)
           else mulp_mkdir_if_needed px (cstr path) s))"

definition mulp_make_symlink_path :: "'s posix \<Rightarrow> bytes \<Rightarrow> bytes \<Rightarrow> 's \<Rightarrow> bool \<times> 's" where
  "mulp_make_symlink_path px target path s =
     (case mulp_ensure_parent_dirs px path s of
        (False, s) \<Rightarrow> (False, s)
      | (True, s) \<Rightarrow> px_symlink px (cstr target) (cstr path) (snd (px_unlink px (cstr path) s)))"

definition mulp_path_is_directory_for_test :: "'s posix \<Rightarrow> bytes \<Rightarrow> 's \<Rightarrow> bool" where
  "mulp_path_is_directory_for_test px path s =
     (case px_stat px (cstr path) s of None \<Rightarrow> False | Some info \<Rightarrow> st_kind info = Directory)"

definition mulp_path_is_symlink_for_test :: "'s posix \<Rightarrow> bytes \<Rightarrow> 's \<Rightarrow> bool" where
  "mulp_path_is_symlink_for_test px path s =
     (case px_lstat px (cstr path) s of None \<Rightarrow> False | Some info \<Rightarrow> st_kind info = Symbolic_Link)"

subsection \<open>Readers\<close>

definition mulp_open_file_reader ::
    "'s posix \<Rightarrow> bytes \<Rightarrow> int \<Rightarrow> 's stream_state \<Rightarrow> file_reader \<times> 's stream_state" where
  "mulp_open_file_reader px path chunk_size st =
     (case px_fopen px (cstr path) Read_Binary (os st) of
        (file, s) \<Rightarrow>
          (\<lparr>fr_file = file, fr_chunk_size = chunk_size\<rparr>,
           st\<lparr>os := s, open_readers := open_readers st + (if file = None then 0 else 1)\<rparr>))"

definition mulp_file_reader_is_open :: "file_reader \<Rightarrow> bool" where
  "mulp_file_reader_is_open reader = (fr_file reader \<noteq> None)"

definition mulp_file_reader_close ::
    "'s posix \<Rightarrow> file_reader \<Rightarrow> 's stream_state \<Rightarrow> file_reader \<times> 's stream_state" where
  "mulp_file_reader_close px reader st =
     (case fr_file reader of
        None \<Rightarrow> (reader, st)
      | Some h \<Rightarrow>
          (reader\<lparr>fr_file := None\<rparr>,
           st\<lparr>os := snd (px_fclose px h (os st)), open_readers := open_readers st - 1\<rparr>))"

text \<open>
  A read fills a zeroed block of the chunk size; what a short read got is copied to a block of
  its own size, and an empty read closes the reader.
\<close>

definition mulp_file_reader_read ::
    "'s posix \<Rightarrow> file_reader \<Rightarrow> 's stream_state \<Rightarrow> (bytes \<times> file_reader \<times> 's stream_state) run" where
  "mulp_file_reader_read px reader st =
     (case fr_file reader of
        None \<Rightarrow> Some ([], reader, st)
      | Some h \<Rightarrow>
          if fr_chunk_size reader < 0 then None
          else
            (let n = nat (fr_chunk_size reader);
                 (got, s) = px_fread px h n (os st);
                 buffer = got @ replicate (n - length got) 0;
                 st' = st\<lparr>os := s\<rparr>
             in if length got = 0 then
                  (let (reader', st'') = mulp_file_reader_close px reader st'
                   in Some ([], reader', st''))
                else if length got = n then Some (buffer, reader, st')
                else Some (map (\<lambda>index. buffer ! index) [0..<length got], reader, st')))"

subsection \<open>Writers\<close>

definition mulp_open_file_writer ::
    "'s posix \<Rightarrow> bytes \<Rightarrow> 's stream_state \<Rightarrow> file_writer \<times> 's stream_state" where
  "mulp_open_file_writer px path st =
     (case mulp_ensure_parent_dirs px path (os st) of
        (False, s) \<Rightarrow> (\<lparr>fw_file = None\<rparr>, st\<lparr>os := s\<rparr>)
      | (True, s) \<Rightarrow>
          (case px_fopen px (cstr path) Write_Binary s of
             (file, s) \<Rightarrow>
               (\<lparr>fw_file = file\<rparr>,
                st\<lparr>os := s, open_writers := open_writers st + (if file = None then 0 else 1)\<rparr>)))"

definition mulp_file_writer_is_open :: "file_writer \<Rightarrow> bool" where
  "mulp_file_writer_is_open writer = (fw_file writer \<noteq> None)"

definition mulp_file_writer_write ::
    "'s posix \<Rightarrow> file_writer \<Rightarrow> bytes \<Rightarrow> 's stream_state \<Rightarrow> bool \<times> 's stream_state" where
  "mulp_file_writer_write px writer chunk st =
     (case fw_file writer of
        None \<Rightarrow> (False, st)
      | Some h \<Rightarrow>
          (case px_fwrite px h chunk (os st) of (n, s) \<Rightarrow> (n = length chunk, st\<lparr>os := s\<rparr>)))"

definition mulp_file_writer_close ::
    "'s posix \<Rightarrow> file_writer \<Rightarrow> 's stream_state \<Rightarrow> bool \<times> file_writer \<times> 's stream_state" where
  "mulp_file_writer_close px writer st =
     (case fw_file writer of
        None \<Rightarrow> (True, writer, st)
      | Some h \<Rightarrow>
          (case px_fclose px h (os st) of
             (ok, s) \<Rightarrow> (ok, writer\<lparr>fw_file := None\<rparr>,
                         st\<lparr>os := s, open_writers := open_writers st - 1\<rparr>)))"

definition mulp_write_file_bytes ::
    "'s posix \<Rightarrow> bytes \<Rightarrow> bytes \<Rightarrow> 's stream_state \<Rightarrow> bool \<times> 's stream_state" where
  "mulp_write_file_bytes px path contents st =
     (case mulp_ensure_parent_dirs px path (os st) of
        (False, s) \<Rightarrow> (False, st\<lparr>os := s\<rparr>)
      | (True, s) \<Rightarrow>
          (case px_fopen px (cstr path) Write_Binary s of
             (None, s) \<Rightarrow> (False, st\<lparr>os := s\<rparr>)
           | (Some h, s) \<Rightarrow>
               (let (n, s) = px_fwrite px h contents s;
                    (ok, s) = px_fclose px h s
                in (n = length contents \<and> ok, st\<lparr>os := s\<rparr>))))"

subsection \<open>Metadata\<close>

definition int64 :: "int \<Rightarrow> int run" where
  "int64 x = (if - (2 ^ 63) \<le> x \<and> x < 2 ^ 63 then Some x else None)"

fun octal :: "nat \<Rightarrow> bytes" where
  "octal n = (if n < 8 then [of_nat (48 + n)] else octal (n div 8) @ [of_nat (48 + n mod 8)])"

declare octal.simps [simp del]

definition kind_name :: "file_kind \<Rightarrow> bytes" where
  "kind_name k =
     (case k of Regular_File \<Rightarrow> str ''file'' | Directory \<Rightarrow> str ''directory''
      | Symbolic_Link \<Rightarrow> str ''symlink'' | Other_Kind \<Rightarrow> str ''other'')"

text \<open>
  The line is printed into 160 bytes and copied back with the length \<open>snprintf\<close> reports; the
  milliseconds are 64-bit products.
\<close>

definition metadata_line :: "stat_info \<Rightarrow> bytes run" where
  "metadata_line info = do {
     mtime \<leftarrow> int64 (st_mtime info * 1000);
     ctime \<leftarrow> int64 (st_ctime info * 1000);
     let (buffer, len) = snprintf 160
       (kind_name (st_kind info) @ [10] @ format_d (st_size info) @ [10] @ format_d mtime @ [10] @
        octal (and (st_mode info) 4095) @ [10] @ format_d ctime @ [10]);
     load_range (map Some buffer @ fresh (160 - length buffer)) 0 (nat len)
   }"

definition mulp_file_metadata_bytes :: "'s posix \<Rightarrow> bytes \<Rightarrow> 's \<Rightarrow> bytes run" where
  "mulp_file_metadata_bytes px path s =
     (case px_lstat px (cstr path) s of None \<Rightarrow> Some [] | Some info \<Rightarrow> metadata_line info)"

subsection \<open>Parent directories\<close>

definition parent_prefixes :: "bytes \<Rightarrow> bytes list" where
  "parent_prefixes p = map (\<lambda>i. take i p) (filter (\<lambda>i. p ! i = 47 \<or> p ! i = 92) [1..<length p])"

fun make_all :: "'s posix \<Rightarrow> bytes list \<Rightarrow> 's \<Rightarrow> bool \<times> 's" where
  "make_all px [] s = (True, s)"
| "make_all px (p # ps) s =
     (case mulp_mkdir_if_needed px p s of (True, s') \<Rightarrow> make_all px ps s' | (False, s') \<Rightarrow> (False, s'))"

lemma parent_dirs_loop_eq:
  "parent_dirs_loop px copy i s =
   make_all px (map (\<lambda>i. take i copy) (filter (\<lambda>i. copy ! i = 47 \<or> copy ! i = 92) [i..<length copy])) s"
proof (induction px copy i s rule: parent_dirs_loop.induct)
  case (1 px copy i s)
  show ?case
  proof (cases "i < length copy")
    case True
    then have "[i..<length copy] = i # [Suc i..<length copy]" by (simp add: upt_conv_Cons)
    with True 1 show ?thesis
      by (subst parent_dirs_loop.simps) (auto split: prod.splits bool.splits)
  qed (simp add: parent_dirs_loop.simps)
qed

lemma ensure_parent_dirs_eq [run_simps]:
  "px_alloc px (length (cstr path) + 1) \<Longrightarrow>
   mulp_ensure_parent_dirs px path s = make_all px (parent_prefixes (cstr path)) s"
  by (simp add: mulp_ensure_parent_dirs_def parent_dirs_loop_eq parent_prefixes_def)

text \<open>What a directory layer promises: a name that was made, or found, exists from then on.\<close>

locale directories =
  fixes px :: "'s posix" and present :: "'s \<Rightarrow> bytes \<Rightarrow> bool"
  assumes made: "px_mkdir px p s = (r, s') \<Longrightarrow> r \<noteq> Failed \<Longrightarrow> present s' p"
    and kept: "px_mkdir px p s = (r, s') \<Longrightarrow> present s q \<Longrightarrow> present s' q"
begin

lemma mkdir_kept: "mulp_mkdir_if_needed px p s = (b, s') \<Longrightarrow> present s q \<Longrightarrow> present s' q"
  using kept by (auto simp: mulp_mkdir_if_needed_def split: if_splits prod.splits mkdir_result.splits)

lemma mkdir_made: "mulp_mkdir_if_needed px p s = (True, s') \<Longrightarrow> p = [] \<or> present s' p"
  using made by (fastforce simp: mulp_mkdir_if_needed_def split: if_splits prod.splits mkdir_result.splits)

lemma make_all_kept: "make_all px ps s = (b, s') \<Longrightarrow> present s q \<Longrightarrow> present s' q"
proof (induction ps arbitrary: s)
  case (Cons p ps)
  then show ?case using mkdir_kept by (fastforce split: prod.splits bool.splits)
qed simp

lemma make_all_made: "make_all px ps s = (True, s') \<Longrightarrow> \<forall>p \<in> set ps. p = [] \<or> present s' p"
proof (induction ps arbitrary: s)
  case (Cons p ps)
  then show ?case using mkdir_made make_all_kept by (fastforce split: prod.splits bool.splits)
qed simp

end

interpretation disk_dirs: directories disk_px "\<lambda>s p. p \<in> set (dk_dirs s) \<or> dk_files s p \<noteq> None"
  by unfold_locales (auto simp: disk_px_def disk_mkdir_def split: if_splits)

subsection \<open>Metadata lines fit\<close>

lemma length_octal:
  assumes "n < 8 ^ Suc k"
  shows "length (octal n) \<le> Suc k"
  using assms
proof (induction k arbitrary: n)
  case 0
  then show ?case by (simp add: octal.simps)
next
  case (Suc k)
  have "n div 8 < 8 ^ Suc k"
    using Suc.prems by (simp add: less_mult_imp_div_less mult.commute)
  then have "length (octal (n div 8)) \<le> Suc k" by (rule Suc.IH)
  then show ?case by (subst octal.simps) simp
qed

lemma length_format_d:
  assumes "- (2 ^ 63) \<le> x" and "x < 2 ^ 63"
  shows "length (format_d x :: bytes) \<le> 20"
proof -
  have "nat \<bar>x\<bar> < 10 ^ Suc 18" using assms by auto
  from length_decimal [OF this, where 'a = 8] show ?thesis by (auto simp: format_d_def abs_if split: if_splits)
qed

definition metadata_text :: "stat_info \<Rightarrow> bytes" where
  "metadata_text info = kind_name (st_kind info) @ [10] @ format_d (st_size info) @ [10] @
     format_d (st_mtime info * 1000) @ [10] @ octal (and (st_mode info) 4095) @ [10] @
     format_d (st_ctime info * 1000) @ [10]"

definition stat_in_range :: "stat_info \<Rightarrow> bool" where
  "stat_in_range info \<longleftrightarrow> - (2 ^ 63) \<le> st_size info \<and> st_size info < 2 ^ 63 \<and>
     - (2 ^ 63) \<le> st_mtime info * 1000 \<and> st_mtime info * 1000 < 2 ^ 63 \<and>
     - (2 ^ 63) \<le> st_ctime info * 1000 \<and> st_ctime info * 1000 < 2 ^ 63"

lemma metadata_line_eq [run_simps]:
  assumes "stat_in_range info"
  shows "metadata_line info = Some (metadata_text info)"
proof -
  have "and (st_mode info) 4095 = take_bit 12 (st_mode info)"
    by (simp add: take_bit_eq_mask mask_eq_exp_minus_1)
  then have "and (st_mode info) 4095 < 8 ^ Suc 3"
    using take_bit_nat_less_exp [of 12 "st_mode info"] by simp
  then have "length (octal (and (st_mode info) 4095)) \<le> 4" using length_octal [of _ 3] by simp
  moreover have "length (kind_name (st_kind info)) \<le> 9"
    by (simp add: kind_name_def split: file_kind.split)
  moreover have "length (format_d (st_size info) :: bytes) \<le> 20"
    "length (format_d (st_mtime info * 1000) :: bytes) \<le> 20"
    "length (format_d (st_ctime info * 1000) :: bytes) \<le> 20"
    using assms unfolding stat_in_range_def by (blast intro: length_format_d)+
  ultimately have "length (metadata_text info) \<le> 78"
    by (simp add: metadata_text_def)
  then have "snprintf 160 (metadata_text info) = (metadata_text info @ [0], int (length (metadata_text info)))"
    by (intro snprintf_fits) simp
  note printed = this
  have times: "int64 (st_mtime info * 1000) = Some (st_mtime info * 1000)"
    "int64 (st_ctime info * 1000) = Some (st_ctime info * 1000)"
    using assms by (simp_all add: int64_def stat_in_range_def)
  show ?thesis
    unfolding metadata_line_def times bind.bind_lunit metadata_text_def [symmetric] printed
    by (simp add: load_range_def)
qed

subsection \<open>The counters\<close>

text \<open>
  The readers and writers the program holds, with the state of the stub. A finalizer closes an
  object that is collected, so a collected object leaves the table through a close.
\<close>

record 's stream_table =
  tb_readers :: "file_reader list"
  tb_writers :: "file_writer list"
  tb_state :: "'s stream_state"

inductive stream_step :: "'s posix \<Rightarrow> 's stream_table \<Rightarrow> 's stream_table \<Rightarrow> bool" for px where
  open_reader:
    "mulp_open_file_reader px path n (tb_state t) = (r, st) \<Longrightarrow>
     stream_step px t (t\<lparr>tb_readers := tb_readers t @ [r], tb_state := st\<rparr>)"
| read_reader:
    "i < length (tb_readers t) \<Longrightarrow>
     mulp_file_reader_read px (tb_readers t ! i) (tb_state t) = Some (bs, r, st) \<Longrightarrow>
     stream_step px t (t\<lparr>tb_readers := (tb_readers t)[i := r], tb_state := st\<rparr>)"
| close_reader:
    "i < length (tb_readers t) \<Longrightarrow>
     mulp_file_reader_close px (tb_readers t ! i) (tb_state t) = (r, st) \<Longrightarrow>
     stream_step px t (t\<lparr>tb_readers := (tb_readers t)[i := r], tb_state := st\<rparr>)"
| drop_reader:
    "tb_readers t = rs @ r # rs' \<Longrightarrow> \<not> mulp_file_reader_is_open r \<Longrightarrow>
     stream_step px t (t\<lparr>tb_readers := rs @ rs'\<rparr>)"
| open_writer:
    "mulp_open_file_writer px path (tb_state t) = (w, st) \<Longrightarrow>
     stream_step px t (t\<lparr>tb_writers := tb_writers t @ [w], tb_state := st\<rparr>)"
| write_writer:
    "i < length (tb_writers t) \<Longrightarrow>
     mulp_file_writer_write px (tb_writers t ! i) chunk (tb_state t) = (ok, st) \<Longrightarrow>
     stream_step px t (t\<lparr>tb_state := st\<rparr>)"
| close_writer:
    "i < length (tb_writers t) \<Longrightarrow>
     mulp_file_writer_close px (tb_writers t ! i) (tb_state t) = (ok, w, st) \<Longrightarrow>
     stream_step px t (t\<lparr>tb_writers := (tb_writers t)[i := w], tb_state := st\<rparr>)"
| drop_writer:
    "tb_writers t = ws @ w # ws' \<Longrightarrow> \<not> mulp_file_writer_is_open w \<Longrightarrow>
     stream_step px t (t\<lparr>tb_writers := ws @ ws'\<rparr>)"
| write_bytes:
    "mulp_write_file_bytes px path contents (tb_state t) = (ok, st) \<Longrightarrow>
     stream_step px t (t\<lparr>tb_state := st\<rparr>)"

inductive_cases stream_stepE: "stream_step px t t'"

definition counters_ok :: "'s stream_table \<Rightarrow> bool" where
  "counters_ok t \<longleftrightarrow>
     open_readers (tb_state t) = int (length (filter mulp_file_reader_is_open (tb_readers t))) \<and>
     open_writers (tb_state t) = int (length (filter mulp_file_writer_is_open (tb_writers t)))"

lemma length_filter_update:
  "i < length xs \<Longrightarrow>
   int (length (filter P (xs[i := y]))) =
   int (length (filter P xs)) - (if P (xs ! i) then 1 else 0) + (if P y then 1 else 0)"
  by (subst (2) id_take_nth_drop [of i xs]) (auto simp: upd_conv_take_nth_drop)

lemma reader_close_count:
  "mulp_file_reader_close px r st = (r', st') \<Longrightarrow>
   \<not> mulp_file_reader_is_open r' \<and> open_writers st' = open_writers st \<and>
   open_readers st' = open_readers st - (if mulp_file_reader_is_open r then 1 else 0)"
  by (auto simp: mulp_file_reader_close_def mulp_file_reader_is_open_def split: option.splits)

lemma reader_read_count:
  "mulp_file_reader_read px r st = Some (bs, r', st') \<Longrightarrow>
   open_writers st' = open_writers st \<and>
   open_readers st' = open_readers st - (if mulp_file_reader_is_open r then 1 else 0) +
     (if mulp_file_reader_is_open r' then 1 else 0)"
  using reader_close_count [of px r]
  by (auto simp: mulp_file_reader_read_def mulp_file_reader_is_open_def Let_def
      split: option.splits if_splits prod.splits)

lemma writer_close_count:
  "mulp_file_writer_close px w st = (ok, w', st') \<Longrightarrow>
   \<not> mulp_file_writer_is_open w' \<and> open_readers st' = open_readers st \<and>
   open_writers st' = open_writers st - (if mulp_file_writer_is_open w then 1 else 0)"
  by (auto simp: mulp_file_writer_close_def mulp_file_writer_is_open_def split: option.splits prod.splits)

lemma writer_write_count:
  "mulp_file_writer_write px w chunk st = (ok, st') \<Longrightarrow>
   open_readers st' = open_readers st \<and> open_writers st' = open_writers st"
  by (auto simp: mulp_file_writer_write_def split: option.splits prod.splits)

lemma write_bytes_count:
  "mulp_write_file_bytes px path contents st = (ok, st') \<Longrightarrow>
   open_readers st' = open_readers st \<and> open_writers st' = open_writers st"
  by (auto simp: mulp_write_file_bytes_def Let_def split: option.splits prod.splits bool.splits)

lemma stream_step_counters:
  assumes "stream_step px t t'" and "counters_ok t"
  shows "counters_ok t'"
  using assms
proof (cases rule: stream_step.cases)
  case (open_reader path n r st)
  then show ?thesis using assms(2)
    by (auto simp: mulp_open_file_reader_def counters_ok_def mulp_file_reader_is_open_def split: prod.splits)
next
  case (read_reader i bs r st)
  then show ?thesis using assms(2) reader_read_count [OF read_reader(3)]
    by (simp add: counters_ok_def length_filter_update)
next
  case (close_reader i r st)
  then show ?thesis using assms(2) reader_close_count [OF close_reader(3)]
    by (simp add: counters_ok_def length_filter_update)
next
  case (open_writer path w st)
  then show ?thesis using assms(2)
    by (auto simp: mulp_open_file_writer_def counters_ok_def mulp_file_writer_is_open_def
        split: prod.splits bool.splits)
next
  case (write_writer i chunk ok st)
  then show ?thesis using assms(2) writer_write_count [OF write_writer(3)] by (simp add: counters_ok_def)
next
  case (close_writer i ok w st)
  then show ?thesis using assms(2) writer_close_count [OF close_writer(3)]
    by (simp add: counters_ok_def length_filter_update)
next
  case (write_bytes path contents ok st)
  then show ?thesis using assms(2) write_bytes_count [OF write_bytes(2)] by (simp add: counters_ok_def)
qed (auto simp: counters_ok_def)

subsection \<open>Reading and writing through the laws of stdio\<close>

context stdio
begin

lemma read_end:
  assumes "fr_file r = Some h" and "0 < fr_chunk_size r" and "unread (os st) h = Some []"
  shows "\<exists>r' st'. mulp_file_reader_read px r st = Some ([], r', st') \<and> fr_file r' = None \<and>
    open_readers st' = open_readers st - 1 \<and> content (os st') = content (os st)"
  using assms read_chunk [of "os st" h "[]" "nat (fr_chunk_size r)"] close_read
  by (auto simp: mulp_file_reader_read_def mulp_file_reader_close_def Let_def split: prod.splits)

lemma read_more:
  assumes "fr_file r = Some h" and "0 < fr_chunk_size r" and "unread (os st) h = Some c" and "c \<noteq> []"
  shows "\<exists>st'. mulp_file_reader_read px r st = Some (take (nat (fr_chunk_size r)) c, r, st') \<and>
    unread (os st') h = Some (drop (nat (fr_chunk_size r)) c) \<and>
    open_readers st' = open_readers st \<and> content (os st') = content (os st)"
proof -
  let ?n = "nat (fr_chunk_size r)"
  obtain s where s: "px_fread px h ?n (os st) = (take ?n c, s)" "unread s h = Some (drop ?n c)"
    "content s = content (os st)"
    using read_chunk [OF assms(3), of ?n] by (metis prod.collapse)
  have "0 < length (take ?n c)" using assms(2,4) by simp
  moreover have "map (\<lambda>i. (take ?n c @ replicate (?n - length (take ?n c)) 0) ! i)
      [0..<length (take ?n c)] = take ?n c"
    by (rule nth_equalityI) (auto simp: nth_append)
  ultimately show ?thesis
    using assms(1,2) s by (auto simp: mulp_file_reader_read_def Let_def)
qed

lemma open_reader_ok:
  assumes "mulp_open_file_reader px path n st = (r, st')" and "mulp_file_reader_is_open r"
  shows "\<exists>h c. fr_file r = Some h \<and> fr_chunk_size r = n \<and> content (os st) (cstr path) = Some c \<and>
    unread (os st') h = Some c \<and> open_readers st' = open_readers st + 1 \<and>
    content (os st') = content (os st)"
  using assms open_read
  by (fastforce simp: mulp_open_file_reader_def mulp_file_reader_is_open_def split: prod.splits)

lemma write_bytes_content:
  assumes "mulp_write_file_bytes px path contents st = (True, st')"
  shows "content (os st') (cstr path) = Some contents"
proof -
  obtain s where "mulp_ensure_parent_dirs px path (os st) = (True, s)"
    using assms by (auto simp: mulp_write_file_bytes_def split: prod.splits bool.splits)
  moreover obtain h s1 where f: "px_fopen px (cstr path) Write_Binary s = (Some h, s1)"
    using assms calculation
    by (auto simp: mulp_write_file_bytes_def split: prod.splits option.splits)
  moreover obtain n s2 where w: "px_fwrite px h contents s1 = (n, s2)" by fastforce
  moreover obtain ok s3 where c: "px_fclose px h s2 = (ok, s3)" by fastforce
  ultimately have "n = length contents" "ok" "st' = st\<lparr>os := s3\<rparr>"
    using assms by (auto simp: mulp_write_file_bytes_def)
  then show ?thesis
    using write_chunk [OF open_write [OF f], of contents s2] close_write [of s2 h "cstr path" contents s3] w c
    by simp
qed

end

subsection \<open>Properties\<close>

text \<open>
  When the creation of the parent directories of a path reports success, every
  prefix of the path that ends before a separator exists, on any system whose \<open>mkdir\<close> makes
  what it says it made and removes nothing.
\<close>

theorem ensure_parent_dirs_present:
  assumes "directories px present" and "px_alloc px (length (cstr path) + 1)"
    and "mulp_ensure_parent_dirs px path s = (True, s')"
  shows "\<forall>p \<in> set (parent_prefixes (cstr path)). p = [] \<or> present s' p"
  using directories.make_all_made [OF assms(1), of "parent_prefixes (cstr path)" s s'] assms(2,3)
  by (simp add: run_simps)

theorem ensure_parent_dirs_present_witness:
  "{str ''out'', str ''out/js''} \<subseteq>
     set (dk_dirs (snd (mulp_ensure_parent_dirs disk_px (str ''out/js/app.js'') (empty_disk 9))))"
proof -
  define path :: bytes where "path = str ''out/js/app.js''"
  have c: "cstr path = path" by (simp add: path_def cstr_def)
  have p: "parent_prefixes path = [str ''out'', str ''out/js'']"
    by (simp add: path_def parent_prefixes_def upt_rec)
  have "fst (mulp_ensure_parent_dirs disk_px path (empty_disk 9)) = True"
    and none: "dk_files (snd (mulp_ensure_parent_dirs disk_px path (empty_disk 9))) q = None" for q
    by (simp_all add: ensure_parent_dirs_eq c p mulp_mkdir_if_needed_def disk_px_def disk_mkdir_def
        empty_disk_def)
  then have "mulp_ensure_parent_dirs disk_px path (empty_disk 9) =
      (True, snd (mulp_ensure_parent_dirs disk_px path (empty_disk 9)))"
    by (metis prod.collapse)
  from ensure_parent_dirs_present [OF disk_dirs.directories_axioms _ this]
  show ?thesis unfolding path_def [symmetric] using none by (simp add: c p disk_px_def)
qed

text \<open>
  The metadata line always fits the 160 bytes it is printed into, whatever the
  kind, size, mode and times, as long as the times in milliseconds are 64-bit numbers.
\<close>

theorem metadata_line_fits:
  assumes "stat_in_range info"
  shows "metadata_line info = Some (metadata_text info)"
  using assms by (rule metadata_line_eq)

theorem metadata_line_fits_witness:
  "metadata_line \<lparr>st_kind = Directory, st_size = 4096, st_mtime = 2, st_ctime = 1, st_atime = 0,
       st_mode = 16877\<rparr> =
     Some (str ''directory'' @ [10] @ str ''4096'' @ [10] @ str ''2000'' @ [10] @ str ''755'' @ [10] @
       str ''1000'' @ [10])"
proof -
  have "and 16877 4095 = (493 :: nat)" by simp
  then show ?thesis
    using metadata_line_fits [of "\<lparr>st_kind = Directory, st_size = 4096, st_mtime = 2, st_ctime = 1,
        st_atime = 0, st_mode = 16877\<rparr>"]
    by (simp add: stat_in_range_def metadata_text_def kind_name_def format_d_def decimal.simps octal.simps)
qed

text \<open>
  From a state with no stream open, the two counters always equal the number of
  readers and of writers that are open, through every sequence of opens, reads (the last of
  which closes), writes, closes and finalizers.
\<close>

theorem open_counters_exact:
  assumes "(stream_step px)\<^sup>*\<^sup>* t t'" and "counters_ok t"
  shows "counters_ok t'"
  using assms by (induction rule: rtranclp_induct) (auto intro: stream_step_counters)

theorem open_counters_exact_witness:
  "counters_ok
    \<lparr>tb_readers = [fst (mulp_open_file_reader disk_px [97] 4 \<lparr>open_readers = 0, open_writers = 0, os = empty_disk 9\<rparr>)],
     tb_writers = [],
     tb_state = snd (mulp_open_file_reader disk_px [97] 4
       \<lparr>open_readers = 0, open_writers = 0, os = empty_disk 9\<rparr>)\<rparr>"
proof -
  let ?t = "\<lparr>tb_readers = [], tb_writers = [],
    tb_state = \<lparr>open_readers = 0, open_writers = 0, os = empty_disk 9\<rparr>\<rparr>"
  have "stream_step disk_px ?t (?t\<lparr>tb_readers := tb_readers ?t @
      [fst (mulp_open_file_reader disk_px [97] 4 (tb_state ?t))],
      tb_state := snd (mulp_open_file_reader disk_px [97] 4 (tb_state ?t))\<rparr>)"
    by (rule stream_step.open_reader) simp
  then have "(stream_step disk_px)\<^sup>*\<^sup>* ?t (?t\<lparr>tb_readers := tb_readers ?t @
      [fst (mulp_open_file_reader disk_px [97] 4 (tb_state ?t))],
      tb_state := snd (mulp_open_file_reader disk_px [97] 4 (tb_state ?t))\<rparr>)"
    by (rule r_into_rtranclp)
  from open_counters_exact [OF this] show ?thesis by (simp add: counters_ok_def)
qed

text \<open>
  A whole-file write that reports success has left exactly the given bytes under
  the name, on any system that keeps the laws of stdio.
\<close>

theorem write_file_bytes_content:
  assumes "stdio px content unread target"
    and "mulp_write_file_bytes px path contents st = (True, st')"
  shows "content (os st') (cstr path) = Some contents"
  using stdio.write_bytes_content [OF assms] .

theorem write_file_bytes_content_witness:
  "dk_files (os (snd (mulp_write_file_bytes disk_px [97] [1, 2]
     \<lparr>open_readers = 0, open_writers = 0, os = empty_disk 9\<rparr>))) [97] = Some [1, 2]"
proof -
  have "fst (mulp_write_file_bytes disk_px [97] [1, 2]
      \<lparr>open_readers = 0, open_writers = 0, os = empty_disk 9\<rparr>) = True"
    by (simp add: mulp_write_file_bytes_def mulp_ensure_parent_dirs_def parent_dirs_loop.simps cstr_def
        disk_px_def disk_fopen_def disk_fwrite_def disk_flush_def disk_fclose_def buffer_size_def empty_disk_def Let_def)
  then have "mulp_write_file_bytes disk_px [97] [1, 2]
      \<lparr>open_readers = 0, open_writers = 0, os = empty_disk 9\<rparr> =
    (True, snd (mulp_write_file_bytes disk_px [97] [1, 2]
      \<lparr>open_readers = 0, open_writers = 0, os = empty_disk 9\<rparr>))"
    by (metis prod.collapse)
  from write_file_bytes_content [OF disk.stdio_axioms this] show ?thesis by (simp add: cstr_def)
qed

end
