(* ===== verification/Byte_Stream.thy ===== *)
theory Byte_Stream
  imports File_Stream Utf8 Platform_Process
begin

text \<open>
  Byte streams: a pull function, a close function and a flag that says the stream is used up;
  the stream over a file reader of \<open>File_Stream\<close>; reading a stream to its end; and the
  function the command reads its configuration files with. The state the two functions work on
  is the reader they share and the state of the stub.
\<close>

record 's byte_stream =
  bst_pull :: "'s \<Rightarrow> (bytes option result \<times> 's) run"
  bst_close :: "'s \<Rightarrow> 's"
  bst_consumed :: bool

definition byte_stream_from_pull_with_close ::
    "('s \<Rightarrow> (bytes option result \<times> 's) run) \<Rightarrow> ('s \<Rightarrow> 's) \<Rightarrow> 's byte_stream" where
  "byte_stream_from_pull_with_close pull close = \<lparr>bst_pull = pull, bst_close = close, bst_consumed = False\<rparr>"

definition byte_stream_close :: "'s byte_stream \<Rightarrow> 's \<Rightarrow> 's byte_stream \<times> 's" where
  "byte_stream_close self s =
     (if \<not> bst_consumed self then (self\<lparr>bst_consumed := True\<rparr>, bst_close self s) else (self, s))"

definition read_next ::
    "'s byte_stream \<Rightarrow> 's \<Rightarrow> (bytes option result \<times> 's byte_stream \<times> 's) run" where
  "read_next self s =
     (if bst_consumed self then Some (Inl (stream_error (str ''byte stream already consumed'')), self, s)
      else do {
        (r, s) \<leftarrow> bst_pull self s;
        case r of
          Inr None \<Rightarrow> Some (Inr None, byte_stream_close self s)
        | Inr (Some chunk) \<Rightarrow> Some (Inr (Some chunk), self, s)
        | Inl err \<Rightarrow> Some (Inl err, byte_stream_close self s)
      })"

definition exceeded :: "int \<Rightarrow> mulp_error" where
  "exceeded max_bytes = stream_error ((str ''byte stream exceeded '' @ format_d max_bytes) @ str '' bytes'')"

partial_function (option) read_all_loop ::
    "int \<Rightarrow> 's byte_stream \<Rightarrow> 's \<Rightarrow> mstring list \<Rightarrow> int \<Rightarrow> (mstring result \<times> 's byte_stream \<times> 's) run" where
  "read_all_loop max_bytes self s chunks count = do {
     (r, self, s) \<leftarrow> read_next self s;
     case r of
       Inr None \<Rightarrow> Some (Inr (array_join chunks []), self, s)
     | Inl err \<Rightarrow> Some (Inl err, self, s)
     | Inr (Some chunk) \<Rightarrow> do {
         count \<leftarrow> int32 (count + int (length chunk));
         if count > max_bytes
         then Some (Inl (exceeded max_bytes), byte_stream_close self s)
         else do {
           text \<leftarrow> decode_lossy chunk False;
           read_all_loop max_bytes self s (chunks @ [text]) count
         }
       }
   }"

definition read_all ::
    "int \<Rightarrow> 's byte_stream \<Rightarrow> 's \<Rightarrow> (mstring result \<times> 's byte_stream \<times> 's) run" where
  "read_all max_bytes self s = read_all_loop max_bytes self s [] 0"

subsection \<open>The stream over a file\<close>

type_synonym 's file_state = "file_reader \<times> 's stream_state"

definition file_pull ::
    "'s posix \<Rightarrow> ('s stream_state \<Rightarrow> bool) \<Rightarrow> 's file_state \<Rightarrow> (bytes option result \<times> 's file_state) run" where
  "file_pull px is_cancelled s =
     (if is_cancelled (snd s) then Some (Inl (task_failed (str ''stream'') (str ''cancelled'')), s)
      else do {
        (chunk, s) \<leftarrow> mulp_file_reader_read px (fst s) (snd s);
        Some (Inr (if chunk = [] then None else Some chunk), s)
      })"

definition file_close :: "'s posix \<Rightarrow> 's file_state \<Rightarrow> 's file_state" where
  "file_close px s = mulp_file_reader_close px (fst s) (snd s)"

definition file_byte_stream_with_cancel_check ::
    "'s posix \<Rightarrow> mstring \<Rightarrow> int \<Rightarrow> ('s stream_state \<Rightarrow> bool) \<Rightarrow> 's stream_state \<Rightarrow>
      (('s file_state byte_stream \<times> file_reader) result \<times> 's stream_state) run" where
  "file_byte_stream_with_cancel_check px path chunk_size is_cancelled st =
     (if chunk_size \<le> 0
      then Some (Inl (stream_error (str ''file byte stream chunk size must be positive'')), st)
      else do {
        p \<leftarrow> utf8_encode path;
        let (reader, st) = mulp_open_file_reader px p chunk_size st;
        if \<not> mulp_file_reader_is_open reader
        then Some (Inl (file_system_error (str ''cannot open file: '' @ path)), st)
        else Some (Inr (byte_stream_from_pull_with_close (file_pull px is_cancelled) (file_close px), reader), st)
      })"

definition file_byte_stream ::
    "'s posix \<Rightarrow> mstring \<Rightarrow> int \<Rightarrow> 's stream_state \<Rightarrow>
      (('s file_state byte_stream \<times> file_reader) result \<times> 's stream_state) run" where
  "file_byte_stream px path chunk_size st =
     file_byte_stream_with_cancel_check px path chunk_size (\<lambda>_. False) st"

definition read_text_file :: "'s posix \<Rightarrow> mstring \<Rightarrow> 's stream_state \<Rightarrow> (mstring result \<times> 's stream_state) run" where
  "read_text_file px path st = do {
     (opened, st) \<leftarrow> file_byte_stream px path 4096 st;
     case opened of
       Inl _ \<Rightarrow> Some (Inl (config_error (str ''could not read config: '' @ path)), st)
     | Inr (stream, reader) \<Rightarrow> do {
         (r, _, _, st) \<leftarrow> read_all 1048576 stream (reader, st);
         Some (r, st)
       }
   }"

subsection \<open>Reading a source of chunks to its end\<close>

text \<open>
  What a reader of a stream relies on: while \<open>has s cs\<close> holds the pulls deliver the chunks
  \<open>cs\<close> one by one and then the end; closing, at any time, releases what the source holds.
\<close>

locale chunk_source =
  fixes pull :: "'s \<Rightarrow> (bytes option result \<times> 's) run" and close_source :: "'s \<Rightarrow> 's"
    and has :: "'s \<Rightarrow> bytes list \<Rightarrow> bool" and released :: "'s \<Rightarrow> bool"
  assumes next_chunk: "has s (c # cs) \<Longrightarrow> \<exists>s'. pull s = Some (Inr (Some c), s') \<and> has s' cs"
    and at_end: "has s [] \<Longrightarrow> \<exists>s'. pull s = Some (Inr None, s') \<and> released (close_source s')"
    and closing: "has s cs \<Longrightarrow> released (close_source s)"
begin

abbreviation stream :: "'s byte_stream" where
  "stream \<equiv> byte_stream_from_pull_with_close pull close_source"

lemma next_of_chunk: "has s (c # cs) \<Longrightarrow> \<exists>s'. read_next stream s = Some (Inr (Some c), stream, s') \<and> has s' cs"
  using next_chunk [of s c cs] by (auto simp: read_next_def byte_stream_from_pull_with_close_def)

lemma next_at_end:
  "has s [] \<Longrightarrow> \<exists>s'. read_next stream s = Some (Inr None, stream\<lparr>bst_consumed := True\<rparr>, s') \<and> released s'"
  using at_end [of s]
  by (auto simp: read_next_def byte_stream_close_def byte_stream_from_pull_with_close_def)

lemma read_all_loop_result:
  assumes "has s cs" and "0 \<le> count" and "count \<le> m" and "m < 2 ^ 30"
    and "list_all (\<lambda>c. length c \<le> 2 ^ 30) cs"
  shows "\<exists>b s'. read_all_loop m stream s acc count =
      Some (if count + int (length (concat cs)) \<le> m
            then Inr (concat acc @ concat (map decoded cs)) else Inl (exceeded m), b, s') \<and>
    released s' \<and> bst_consumed b"
  using assms(1-3,5)
proof (induction cs arbitrary: s acc count)
  case Nil
  then obtain s' where "read_next stream s = Some (Inr None, stream\<lparr>bst_consumed := True\<rparr>, s')" "released s'"
    using next_at_end by blast
  with Nil show ?case
    by (subst read_all_loop.simps) (simp add: run_simps join_with_Nil)
next
  case (Cons c cs)
  then obtain s' where s': "read_next stream s = Some (Inr (Some c), stream, s')" "has s' cs"
    using next_of_chunk by blast
  have fits: "int32 (count + int (length c)) = Some (count + int (length c))"
  proof -
    have "int (length c) \<le> 2 ^ 30" using Cons.prems(4) by simp
    then show ?thesis using Cons.prems assms(4) by (simp add: int32_def int32_ok_def)
  qed
  show ?case
  proof (cases "count + int (length c) \<le> m")
    case False
    then have "\<not> count + int (length (concat (c # cs))) \<le> m" by simp
    with False fits s' closing [OF s'(2)] show ?thesis
      by (subst read_all_loop.simps)
        (simp add: byte_stream_close_def byte_stream_from_pull_with_close_def)
  next
    case True
    then obtain b t where "read_all_loop m stream s' (acc @ [decoded c]) (count + int (length c)) =
        Some (if count + int (length c) + int (length (concat cs)) \<le> m
              then Inr (concat (acc @ [decoded c]) @ concat (map decoded cs)) else Inl (exceeded m), b, t)"
      "released t" "bst_consumed b"
      using Cons.IH [OF s'(2), of "count + int (length c)" "acc @ [decoded c]"] Cons.prems by auto
    with True fits s' show ?thesis
      by (subst read_all_loop.simps) (auto simp: decode_lossy_eq strip_bom_def add.assoc)
  qed
qed

end

subsection \<open>A file is such a source\<close>

function chunks_of :: "nat \<Rightarrow> bytes \<Rightarrow> bytes list" where
  "chunks_of n xs = (if n = 0 \<or> xs = [] then [] else take n xs # chunks_of n (drop n xs))"
  by pat_completeness auto
termination by (relation "measure (\<lambda>(n, xs). length xs)") auto

declare chunks_of.simps [simp del]

lemma chunks_of_Nil [simp]: "chunks_of n [] = []"
  by (simp add: chunks_of.simps)

lemma concat_chunks_of: "0 < n \<Longrightarrow> concat (chunks_of n xs) = xs"
  by (induction n xs rule: chunks_of.induct) (subst chunks_of.simps, simp)

lemma chunks_of_bounded: "list_all (\<lambda>c. length c \<le> n) (chunks_of n xs)"
  by (induction n xs rule: chunks_of.induct) (subst chunks_of.simps, simp)

lemma chunks_of_short: "xs \<noteq> [] \<Longrightarrow> length xs \<le> n \<Longrightarrow> chunks_of n xs = [xs]"
  by (subst chunks_of.simps) (cases n; simp)

text \<open>
  Decoding an encoding chunk by chunk gives the text back exactly when every chunk begins with a
  character: a cut character is decoded to more than its bytes.
\<close>

lemma decode_chunks_ok:
  assumes "utf16_ok s" and "encoding s = c" and "0 < n" and "list_all (\<lambda>chunk. \<not> cont (hd chunk)) (chunks_of n c)"
  shows "concat (map decoded (chunks_of n c)) = s"
  using assms
proof (induction n c arbitrary: s rule: chunks_of.induct)
  case (1 n c)
  show ?case
  proof (cases "c = []")
    case True
    then show ?thesis using decoded_encoding [OF "1.prems"(1)] "1.prems"(2) by simp
  next
    case False
    have chunks: "chunks_of n c = take n c # chunks_of n (drop n c)" using False "1.prems"(3) by (subst chunks_of.simps) simp
    have cut: "encoding s = take n c @ drop n c" using "1.prems"(2) by simp
    have "drop n c = [] \<or> \<not> cont (hd (drop n c))"
      using "1.prems"(3,4) chunks by (auto simp: chunks_of.simps [of n "drop n c"])
    from encoding_cut [OF "1.prems"(1) cut this] obtain t u where
      tu: "s = t @ u" "utf16_ok t" "utf16_ok u" "encoding t = take n c" "encoding u = drop n c" by blast
    have "decoded (take n c) = t" using decoded_encoding [OF tu(2)] tu(4) by simp
    moreover have "concat (map decoded (chunks_of n (drop n c))) = u"
      using "1.IH" [of u] False "1.prems"(3,4) tu chunks by simp
    ultimately show ?thesis using tu(1) chunks by simp
  qed
qed

lemma decode_chunks_bytes:
  assumes "0 < n"
  shows "length c \<le> sum_list (map unit_bytes (concat (map decoded (chunks_of n c)))) \<and>
    (\<not> list_all (\<lambda>chunk. \<not> cont (hd chunk)) (chunks_of n c) \<longrightarrow>
      length c < sum_list (map unit_bytes (concat (map decoded (chunks_of n c)))))"
  using assms
proof (induction n c rule: chunks_of.induct)
  case (1 n c)
  show ?case
  proof (cases "c = []")
    case False
    have chunks: "chunks_of n c = take n c # chunks_of n (drop n c)" using False "1.prems" by (subst chunks_of.simps) simp
    obtain b bs where b: "take n c = b # bs" using False "1.prems" by (cases "take n c") auto
    have le: "length (take n c) \<le> sum_list (map unit_bytes (decoded (take n c)))"
      using decoded_bytes [of "take n c"] by (simp add: length_encoding decoded_ok)
    have less: "length (take n c) < sum_list (map unit_bytes (decoded (take n c)))" if "cont (hd (take n c))"
      using decoded_bytes_more [of b bs] that by (simp add: b length_encoding decoded_ok del: decoded.simps)
    have "length c = length (take n c) + length (drop n c)" by simp
    then show ?thesis using "1.IH" False "1.prems" le less chunks by auto
  qed simp
qed

lemma decode_chunks:
  assumes "utf16_ok s" and "encoding s = c" and "0 < n"
  shows "concat (map decoded (chunks_of n c)) = s \<longleftrightarrow> list_all (\<lambda>chunk. \<not> cont (hd chunk)) (chunks_of n c)"
  using decode_chunks_ok [OF assms] decode_chunks_bytes [OF assms(3), of c] length_encoding [OF assms(1)] assms(2) by auto

text \<open>The reader is open on \<open>concat cs\<close>; \<open>k\<close> and \<open>files\<close> are what is to be restored or kept.\<close>

context stdio
begin

definition file_released :: "int \<Rightarrow> (bytes \<Rightarrow> bytes option) \<Rightarrow> 's file_state \<Rightarrow> bool" where
  "file_released k files s \<longleftrightarrow> open_readers (snd s) = k \<and> content (os (snd s)) = files"

definition file_has :: "int \<Rightarrow> int \<Rightarrow> (bytes \<Rightarrow> bytes option) \<Rightarrow> 's file_state \<Rightarrow> bytes list \<Rightarrow> bool" where
  "file_has n k files s cs \<longleftrightarrow> 0 < n \<and>
     (\<exists>h c. fr_file (fst s) = Some h \<and> fr_chunk_size (fst s) = n \<and> unread (os (snd s)) h = Some c \<and>
       cs = chunks_of (nat n) c \<and> open_readers (snd s) = k + 1 \<and> content (os (snd s)) = files)"

sublocale file_source: chunk_source "file_pull px (\<lambda>_. False)" "file_close px" "file_has n k files" "file_released k files"
  for n k files
proof
  fix s :: "'s file_state" and c cs
  assume "file_has n k files s (c # cs)"
  then obtain h d where s: "0 < n" "fr_file (fst s) = Some h" "fr_chunk_size (fst s) = n"
    "unread (os (snd s)) h = Some d" "c # cs = chunks_of (nat n) d" "open_readers (snd s) = k + 1"
    "content (os (snd s)) = files" by (auto simp: file_has_def)
  then have "d \<noteq> []" by auto
  moreover from this s(1,5) have c: "c = take (nat n) d" "cs = chunks_of (nat n) (drop (nat n) d)"
    by (subst (asm) chunks_of.simps; simp)+
  ultimately obtain st' where "mulp_file_reader_read px (fst s) (snd s) = Some (c, fst s, st')"
    "unread (os st') h = Some (drop (nat n) d)" "open_readers st' = k + 1" "content (os st') = files"
    using read_more [of "fst s" h "snd s" d] s by auto
  moreover have "c \<noteq> []" using c \<open>d \<noteq> []\<close> s(1) by simp
  ultimately show "\<exists>s'. file_pull px (\<lambda>_. False) s = Some (Inr (Some c), s') \<and> file_has n k files s' cs"
    using s c by (auto simp: file_pull_def file_has_def)
next
  fix s :: "'s file_state"
  assume "file_has n k files s []"
  then obtain h where s: "0 < n" "fr_file (fst s) = Some h" "fr_chunk_size (fst s) = n"
    "unread (os (snd s)) h = Some []" "open_readers (snd s) = k + 1" "content (os (snd s)) = files"
    by (auto simp: file_has_def) (subst (asm) chunks_of.simps, auto split: if_splits)
  then obtain r' st' where "mulp_file_reader_read px (fst s) (snd s) = Some ([], r', st')"
    "fr_file r' = None" "open_readers st' = k" "content (os st') = files"
    using read_end [of "fst s" h "snd s"] by auto
  then show "\<exists>s'. file_pull px (\<lambda>_. False) s = Some (Inr None, s') \<and> file_released k files (file_close px s')"
    by (auto simp: file_pull_def file_close_def file_released_def mulp_file_reader_close_def)
next
  fix s :: "'s file_state" and cs
  assume "file_has n k files s cs"
  then show "file_released k files (file_close px s)"
    using close_read by (auto simp: file_has_def file_close_def file_released_def mulp_file_reader_close_def)
qed

lemma read_file:
  assumes "mulp_open_file_reader px p n st = (r, st')" and "mulp_file_reader_is_open r" and "0 < n" and "n \<le> 2 ^ 30"
    and "0 \<le> m" and "m < 2 ^ 30"
  shows "\<exists>c b r' st''. content (os st) (cstr p) = Some c \<and>
    read_all m (byte_stream_from_pull_with_close (file_pull px (\<lambda>_. False)) (file_close px)) (r, st') =
      Some (if int (length c) \<le> m then Inr (concat (map decoded (chunks_of (nat n) c)))
            else Inl (exceeded m), b, r', st'') \<and>
    open_readers st'' = open_readers st \<and> content (os st'') = content (os st)"
proof -
  obtain h c where o: "fr_file r = Some h" "fr_chunk_size r = n" "content (os st) (cstr p) = Some c"
    "unread (os st') h = Some c" "open_readers st' = open_readers st + 1" "content (os st') = content (os st)"
    using open_reader_ok [OF assms(1,2)] by blast
  let ?cs = "chunks_of (nat n) c"
  have "file_has n (open_readers st) (content (os st)) (r, st') ?cs"
    using o assms(3) by (auto simp: file_has_def)
  moreover have "list_all (\<lambda>c. length c \<le> 2 ^ 30) ?cs"
    using chunks_of_bounded [of "nat n" c] assms(4) by (auto simp: list_all_iff)
  ultimately obtain b s' where
    "read_all_loop m (byte_stream_from_pull_with_close (file_pull px (\<lambda>_. False)) (file_close px)) (r, st') [] 0 =
      Some (if 0 + int (length (concat ?cs)) \<le> m then Inr (concat [] @ concat (map decoded ?cs))
            else Inl (exceeded m), b, s')"
    "file_released (open_readers st) (content (os st)) s'"
    using file_source.read_all_loop_result [of n "open_readers st" "content (os st)" "(r, st')" ?cs 0 m "[]"] assms(5,6)
    by auto
  then show ?thesis
    using o(3) assms(3) by (cases s') (auto simp: read_all_def concat_chunks_of file_released_def)
qed

end

subsection \<open>Properties\<close>

lemma read_text_file_eq:
  assumes "stdio px content unread target" and "utf8_encode path = Some p"
    and "px_fopen px (cstr p) Read_Binary (os st) = (Some h, s)"
  shows "\<exists>c st'. content (os st) (cstr p) = Some c \<and>
    read_text_file px path st =
      Some (if length c \<le> 1048576 then Inr (concat (map decoded (chunks_of 4096 c)))
            else Inl (exceeded 1048576), st') \<and>
    open_readers st' = open_readers st \<and> content (os st') = content (os st)"
proof -
  let ?r = "\<lparr>fr_file = Some h, fr_chunk_size = 4096\<rparr>"
    and ?st = "st\<lparr>os := s, open_readers := open_readers st + 1\<rparr>"
  have open_file: "mulp_open_file_reader px p 4096 st = (?r, ?st)"
    using assms(3) by (simp add: mulp_open_file_reader_def)
  have is_open: "mulp_file_reader_is_open ?r" by (simp add: mulp_file_reader_is_open_def)
  obtain c b r' st' where r: "content (os st) (cstr p) = Some c"
    "read_all 1048576 (byte_stream_from_pull_with_close (file_pull px (\<lambda>_. False)) (file_close px)) (?r, ?st) =
      Some (if int (length c) \<le> 1048576 then Inr (concat (map decoded (chunks_of (nat 4096) c)))
            else Inl (exceeded 1048576), b, r', st')"
    "open_readers st' = open_readers st" "content (os st') = content (os st)"
    using stdio.read_file [OF assms(1) open_file is_open, of 1048576] by auto
  moreover have "int (length c) \<le> 1048576 \<longleftrightarrow> length c \<le> 1048576" by simp
  ultimately show ?thesis
    using assms(2) open_file is_open
    by (intro exI [of _ c] exI [of _ st'])
      (simp add: read_text_file_def file_byte_stream_def file_byte_stream_with_cancel_check_def Let_def)
qed

text \<open>
  Property C7. Reading a configuration file that can be opened returns, closes the reader and leaves
  the files alone; up to a mebibyte it gives the 4096-byte chunks of the contents, each decoded
  on its own, beyond that the error of the limit.
\<close>

theorem read_text_file_result:
  assumes "stdio px content unread target" and "utf8_encode path = Some p"
    and "px_fopen px (cstr p) Read_Binary (os st) = (Some h, s)"
  shows "\<exists>c st'. content (os st) (cstr p) = Some c \<and>
    read_text_file px path st =
      Some (if length c \<le> 1048576 then Inr (concat (map decoded (chunks_of 4096 c)))
            else Inl (exceeded 1048576), st') \<and>
    open_readers st' = open_readers st \<and> content (os st') = content (os st)"
  using assms by (rule read_text_file_eq)

definition disk_with :: "bytes \<Rightarrow> bytes \<Rightarrow> disk stream_state" where
  "disk_with path contents = \<lparr>open_readers = 0, open_writers = 0, os = (empty_disk 3)\<lparr>dk_files := [path \<mapsto> contents]\<rparr>\<rparr>"

lemma disk_with_opens:
  obtains h s where
    "px_fopen disk_px (cstr (str ''m'')) Read_Binary (os (disk_with (str ''m'') c)) = (Some h, s)"
  by (simp add: disk_px_def disk_fopen_def disk_with_def empty_disk_def cstr_def)

theorem read_text_file_result_witness:
  "\<exists>st'. read_text_file disk_px (str ''m'') (disk_with (str ''m'') (str ''task'')) = Some (Inr (str ''task''), st') \<and>
    open_readers st' = 0"
proof -
  obtain h s where o: "px_fopen disk_px (cstr (str ''m'')) Read_Binary (os (disk_with (str ''m'') (str ''task''))) =
      (Some h, s)"
    by (rule disk_with_opens)
  have e: "utf8_encode (str ''m'') = Some (str ''m'')"
    by (simp add: utf8_encode_eq is_leading_surrogate_def is_trailing_surrogate_def char_bytes.simps)
  have "decoded (str ''task'') = str ''task''"
    by (simp add: utf8_match_def unit_of_def)
  then have "concat (map decoded (chunks_of 4096 (str ''task''))) = str ''task''"
    by (subst chunks_of_short) simp_all
  with read_text_file_result [OF disk.stdio_axioms e o] show ?thesis
    by (auto simp: disk_with_def cstr_def)
qed

text \<open>
  Property C8. A well-formed text of up to a mebibyte is read back from the file that holds its encoding
  exactly when none of the 4096-byte chunks of the file begins inside a character; a text of characters
  that the chunks cut is read as another one.
\<close>

theorem read_text_file_round_trip:
  assumes "stdio px content unread target" and "utf8_encode path = Some p"
    and "px_fopen px (cstr p) Read_Binary (os st) = (Some h, s)"
    and "content (os st) (cstr p) = Some c" and "utf8_encode text = Some c" and "length c \<le> 1048576"
  shows "(\<exists>st'. read_text_file px path st = Some (Inr text, st')) \<longleftrightarrow> list_all (\<lambda>chunk. \<not> cont (hd chunk)) (chunks_of 4096 c)"
proof -
  have t: "utf16_ok text" "encoding text = c" using assms(5) by (simp_all add: utf8_encode_eq split: if_splits)
  have "(\<exists>st'. read_text_file px path st = Some (Inr text, st')) \<longleftrightarrow> concat (map decoded (chunks_of 4096 c)) = text"
    using read_text_file_eq [OF assms(1-3)] assms(4,6) by auto
  then show ?thesis using decode_chunks [OF t, of 4096] by simp
qed

text \<open>The text has a character in the second chunk, which begins with it.\<close>

theorem read_text_file_round_trip_witness:
  "\<exists>st'. read_text_file disk_px (str ''m'') (disk_with (str ''m'') (replicate 4096 97 @ [0xC3, 0xA9])) =
    Some (Inr (replicate 4096 97 @ [0xE9]), st')"
proof -
  let ?c = "replicate 4096 97 @ [0xC3, 0xA9] :: bytes"
  obtain h s where o: "px_fopen disk_px (cstr (str ''m'')) Read_Binary (os (disk_with (str ''m'') ?c)) = (Some h, s)"
    by (rule disk_with_opens)
  have ascii: "utf16_ok (replicate n 97 @ s) = utf16_ok s \<and> encoding (replicate n 97 @ s) = replicate n 97 @ encoding s" for n s
    by (induction n) (simp_all add: utf16_ok_plain is_surrogate_def is_leading_surrogate_def char_bytes.simps)
  have e: "utf8_encode (str ''m'') = Some (str ''m'')" "utf8_encode (replicate 4096 97 @ [0xE9]) = Some ?c"
    using ascii [of 4096 "[0xE9]"]
    by (simp_all add: utf8_encode_eq is_leading_surrogate_def is_trailing_surrogate_def char_bytes.simps)
  have "chunks_of 4096 ?c = [replicate 4096 97, [0xC3, 0xA9]]"
    by (subst chunks_of.simps) (simp add: chunks_of_short)
  then have "list_all (\<lambda>chunk. \<not> cont (hd chunk)) (chunks_of 4096 ?c)" by (simp add: in_range_def)
  with read_text_file_round_trip [OF disk.stdio_axioms e(1) o _ e(2)] show ?thesis
    by (simp add: disk_with_def cstr_def)
qed

text \<open>
  Decoding chunk by chunk loses characters: one whose bytes lie on both sides of a chunk
  boundary is read as two replacement characters, while the whole contents decode to it.
\<close>

theorem chunk_boundary_splits_character:
  "\<exists>st'. read_text_file disk_px (str ''m'') (disk_with (str ''m'') (replicate 4095 97 @ [0xC3, 0xA9])) =
      Some (Inr (replicate 4095 97 @ [0xFFFD, 0xFFFD]), st') \<and>
    decode_lossy (replicate 4095 97 @ [0xC3, 0xA9]) False = Some (replicate 4095 97 @ [0xE9])"
proof -
  let ?c = "replicate 4095 97 @ [0xC3, 0xA9] :: bytes"
  obtain h s where o: "px_fopen disk_px (cstr (str ''m'')) Read_Binary (os (disk_with (str ''m'') ?c)) = (Some h, s)"
    by (rule disk_with_opens)
  have e: "utf8_encode (str ''m'') = Some (str ''m'')"
    by (simp add: utf8_encode_eq is_leading_surrogate_def is_trailing_surrogate_def char_bytes.simps)
  have ascii: "decoded (replicate 4095 97 @ bs) = replicate 4095 97 @ decoded bs" for bs
    by (subst decoded_ascii) (simp_all add: list_all_iff unit_of_def)
  have single: "decoded [0xC3] = [0xFFFD]" "decoded [0xA9] = [0xFFFD]" "decoded [0xC3, 0xA9] = [0xE9]"
    by (simp_all add: utf8_match_def match_two_def in_range_def unit_of_def char_of_two_eq)
  have "chunks_of 4096 ?c = [replicate 4095 97 @ [0xC3], [0xA9]]"
    by (subst chunks_of.simps) (simp add: chunks_of_short)
  then have "concat (map decoded (chunks_of 4096 ?c)) = replicate 4095 97 @ [0xFFFD, 0xFFFD]"
    by (simp add: ascii single del: decoded.simps)
  moreover have "decode_lossy ?c False = Some (replicate 4095 97 @ [0xE9])"
    by (simp add: decode_lossy_eq strip_bom_def ascii single del: decoded.simps)
  ultimately show ?thesis
    using read_text_file_eq [OF disk.stdio_axioms e o] by (auto simp: disk_with_def cstr_def)
qed

end
