(* ===== verification/Chokidar_Sync.thy ===== *)
theory Chokidar_Sync
  imports Chokidar_Cycle
begin

text \<open>
  A listener follows the tree: who replays the events of a polling watcher, and takes away what the
  watcher still holds back, has the tree of the last scan. The removals that the watcher holds back
  make this more than the difference of two snapshots: an event may overtake a removal.
\<close>

subsection \<open>What a listener knows\<close>

definition heard :: "'c \<Rightarrow> ('c \<times> event) list \<Rightarrow> event list" where
  "heard c log = map snd (filter (\<lambda>x. fst x = c) log)"

lemma heard_append [simp]: "heard c (xs @ ys) = heard c xs @ heard c ys"
  by (simp add: heard_def)

type_synonym tree = "mstring \<Rightarrow> node option"

definition listener_tree :: "('w \<Rightarrow> ('c \<times> event) list) \<Rightarrow> 'c \<Rightarrow> tree \<Rightarrow> ('c, 'w) watching \<Rightarrow> tree" where
  "listener_tree lg c m s = replay (heard c (lg (snd (snd s)))) m"

definition held_events :: "watch_state \<Rightarrow> event list" where
  "held_events st = map pt_event (ws_pending_unlinks st)"

definition held :: "watch_state \<Rightarrow> mstring set" where
  "held st = ev_path ` set (held_events st)"

definition expected_tree :: "('w \<Rightarrow> ('c \<times> event) list) \<Rightarrow> 'c \<Rightarrow> tree \<Rightarrow> ('c, 'w) watching \<Rightarrow> tree" where
  "expected_tree lg c m s = replay (held_events (state_of s)) (listener_tree lg c m s)"

definition held_ok :: "watch_state \<Rightarrow> bool" where
  "held_ok st \<longleftrightarrow> list_all (\<lambda>e. ev_name e = Unlink) (held_events st) \<and> distinct (map ev_path (held_events st)) \<and>
     (wo_atomic (ws_options st) = AtomicOff \<longrightarrow> held_events st = [])"

lemma replay_removals:
  "list_all (\<lambda>e. ev_name e = Unlink) es \<Longrightarrow> replay es m = (\<lambda>p. if p \<in> ev_path ` set es then None else m p)"
  by (induction es arbitrary: m) (auto simp: apply_event_def fun_eq_iff)

text \<open>An event at a path that is not held back commutes with the removals that are.\<close>

lemma replay_removals_commute:
  assumes "list_all (\<lambda>e. ev_name e = Unlink) es" and "ev_path x \<notin> ev_path ` set es"
  shows "replay es (apply_event x m) = apply_event x (replay es m)"
  using assms by (auto simp: replay_removals apply_event_def fun_eq_iff)

subsection \<open>Events that are reported one for one\<close>

definition kind_of_event :: "event \<Rightarrow> bool" where
  "kind_of_event e \<longleftrightarrow> ev_name e = Add \<or> ev_name e = Change \<or> ev_name e = AddDir \<or> ev_name e = Unlink \<or> ev_name e = UnlinkDir"

text \<open>
  Given the paths held back and the paths that may have been reported changed: the event is not
  ignored, a removal is not of a swap file, and only an addition may be at a path that is held back.
\<close>

definition plain_event_at :: "watch_options \<Rightarrow> mstring set \<Rightarrow> mstring set \<Rightarrow> event \<Rightarrow> bool" where
  "plain_event_at opts H T e \<longleftrightarrow>
     kind_of_event e \<and> is_ignored (ev_path e) (ev_stats e) (wo_ignored opts) = Some False \<and>
     (if ev_name e = Unlink then wo_atomic opts = AtomicOff \<or> is_dot_swap_file (ev_path e) = Some False \<and> ev_path e \<notin> H
      else if ev_name e = Add then ev_path e \<notin> T
      else ev_path e \<notin> H \<and> (ev_name e = Change \<longrightarrow> ev_path e \<notin> T))"

definition held_after :: "watch_options \<Rightarrow> event \<Rightarrow> mstring set \<Rightarrow> mstring set" where
  "held_after opts e H =
     (if wo_atomic opts = AtomicOff then H else if ev_name e = Unlink then insert (ev_path e) H
      else if ev_name e = Add then H - {ev_path e} else H)"

definition changed_after :: "event \<Rightarrow> mstring set \<Rightarrow> mstring set" where
  "changed_after e T = (if ev_name e = Add \<or> ev_name e = Change then insert (ev_path e) T else T)"

fun plain_events :: "watch_options \<Rightarrow> mstring set \<Rightarrow> mstring set \<Rightarrow> event list \<Rightarrow> bool" where
  "plain_events opts H T [] = True"
| "plain_events opts H T (e # es) \<longleftrightarrow>
     plain_event_at opts H T e \<and> plain_events opts (held_after opts e H) (changed_after e T) es"

text \<open>What a step leaves alone, and a watcher with one listener for everything.\<close>

definition same_rest :: "('c, 'w) watching \<Rightarrow> ('c, 'w) watching \<Rightarrow> bool" where
  "same_rest s s' \<longleftrightarrow> same_watcher s s' \<and> ws_snapshots (state_of s') = ws_snapshots (state_of s) \<and>
     ws_pending_events (state_of s') = ws_pending_events (state_of s) \<and>
     ws_pending_writes (state_of s') = ws_pending_writes (state_of s) \<and>
     ws_ready (state_of s') = ws_ready (state_of s) \<and> fst (snd s') = fst (snd s)"

lemma same_rest_refl [simp]: "same_rest s s"
  by (simp add: same_rest_def same_watcher_def)

lemma same_rest_trans: "same_rest s s' \<Longrightarrow> same_rest s' s'' \<Longrightarrow> same_rest s s''"
  by (simp add: same_rest_def same_watcher_def)

definition one_listener :: "'c \<Rightarrow> ('c, 'w) watching \<Rightarrow> bool" where
  "one_listener c s \<longleftrightarrow> listeners_of s = [\<lparr>le_event = All, le_callback = c\<rparr>] \<and> \<not> ws_closed (state_of s) \<and>
     wo_await (ws_options (state_of s)) = AwaitWriteFinishOff \<and> \<not> wo_always_stat (ws_options (state_of s)) \<and>
     held_ok (state_of s)"

lemma told_one: "kind_of_event e \<Longrightarrow> told [\<lparr>le_event = All, le_callback = c\<rparr>] e = [(c, e)]"
  by (auto simp: told_def forwarded_def kind_of_event_def)

text \<open>A step that tells the listener some events and changes what is held back.\<close>

lemma expected_after:
  assumes "lg (snd (snd s')) = lg (snd (snd s)) @ map (\<lambda>e. (c, e)) es"
  shows "expected_tree lg c m s' = replay (held_events (state_of s')) (replay es (listener_tree lg c m s))"
  using assms by (simp add: expected_tree_def listener_tree_def heard_def comp_def)

lemma emit_plain:
  assumes "logs host lg"
  shows "listeners_of s = [\<lparr>le_event = All, le_callback = c\<rparr>] \<Longrightarrow> list_all kind_of_event items \<Longrightarrow>
    distinct (ws_throttled_changes (state_of s) @ changes items) \<Longrightarrow>
    lg (snd (snd (emit_allowed host items s))) = lg (snd (snd s)) @ map (\<lambda>e. (c, e)) items \<and>
    state_of (emit_allowed host items s) =
      (state_of s)\<lparr>ws_throttled_changes := ws_throttled_changes (state_of s) @ changes items\<rparr> \<and>
    listeners_of (emit_allowed host items s) = listeners_of s \<and> fst (snd (emit_allowed host items s)) = fst (snd s)"
proof (induction items arbitrary: s)
  case (Cons e es)
  obtain self b w where s: "s = (self, b, w)" by (metis prod_cases3)
  let ?st = "(wt_state self)\<lparr>ws_throttled_changes := ws_throttled_changes (wt_state self) @ changes [e]\<rparr>"
  let ?s = "watcher_emit host e (self\<lparr>wt_state := ?st\<rparr>, b, w)"
  have "allow_event (ev_name e) (ev_path e) (wt_state self) = (True, ?st)"
    using Cons.prems(3) s by (auto simp: allow_event_def)
  then have step: "emit_allowed host (e # es) s = emit_allowed host es ?s" using s by simp
  have now: "lg (snd (snd ?s)) = lg w @ [(c, e)]" "state_of ?s = ?st" "listeners_of ?s = wt_listeners self" "fst (snd ?s) = b"
    using emit_log [OF assms] told_one [of e c] Cons.prems(1,2) s by (simp_all add: watcher_emit_def)
  have "changes (e # es) = changes [e] @ changes es" by simp
  then have "distinct (ws_throttled_changes (state_of ?s) @ changes es)"
    using Cons.prems(3) now(2) s by (simp del: changes_simps)
  from Cons.IH [OF _ _ this] show ?case
    using step now Cons.prems(1,2) s \<open>changes (e # es) = changes [e] @ changes es\<close> by (simp del: changes_simps)
qed simp

text \<open>The outcome of a step for the listener.\<close>

definition follows ::
    "('w \<Rightarrow> ('c \<times> event) list) \<Rightarrow> 'c \<Rightarrow> tree \<Rightarrow> event list \<Rightarrow> mstring set \<Rightarrow> mstring set \<Rightarrow>
     ('c, 'w) watching \<Rightarrow> ('c, 'w) watching \<Rightarrow> bool" where
  "follows lg c m es H T s s' \<longleftrightarrow> same_rest s s' \<and> held_ok (state_of s') \<and> held (state_of s') = H \<and>
     set (ws_throttled_changes (state_of s')) \<subseteq> T \<and> distinct (ws_throttled_changes (state_of s')) \<and>
     expected_tree lg c m s' = replay es (expected_tree lg c m s)"

lemma follows_by_items:
  assumes "logs host lg" and "s = (self, wd)" and "one_listener c s"
    and "st = (wt_state self)\<lparr>ws_pending_unlinks := ps\<rparr>" and "lg (snd wd') = lg (snd wd)" and "fst wd' = fst wd"
    and "list_all kind_of_event items" and "distinct (ws_throttled_changes (wt_state self) @ changes items)"
    and "set (ws_throttled_changes (wt_state self)) \<union> set (changes items) \<subseteq> T"
    and "held_ok st" and "held st = H"
    and "\<And>n. replay (held_events st) (replay items n) = replay es (replay (held_events (wt_state self)) n)"
  shows "follows lg c m es H T s (emit_allowed host items (self\<lparr>wt_state := st\<rparr>, wd'))"
proof -
  let ?s = "(self\<lparr>wt_state := st\<rparr>, wd')"
  have e: "lg (snd (snd (emit_allowed host items ?s))) = lg (snd wd) @ map (\<lambda>e. (c, e)) items"
    "state_of (emit_allowed host items ?s) = st\<lparr>ws_throttled_changes := ws_throttled_changes st @ changes items\<rparr>"
    "listeners_of (emit_allowed host items ?s) = wt_listeners self" "fst (snd (emit_allowed host items ?s)) = fst wd"
    using emit_plain [OF assms(1), of ?s c items] assms(2-8) by (simp_all add: one_listener_def)
  let ?s' = "emit_allowed host items ?s"
  have h: "held_events (state_of ?s') = held_events st" "held (state_of ?s') = held st" "held_ok (state_of ?s') = held_ok st"
    using e(2) by (simp_all add: held_events_def held_def held_ok_def)
  have "lg (snd (snd ?s')) = lg (snd (snd s)) @ map (\<lambda>e. (c, e)) items" using e(1) assms(2) by simp
  from expected_after [of lg, OF this] have "expected_tree lg c m ?s' = replay es (expected_tree lg c m s)"
    using assms(2,12) h(1) by (simp add: expected_tree_def)
  then show ?thesis
    using e h assms(2,4,8-11) by (simp add: follows_def same_rest_def same_watcher_def)
qed

lemma normalize_plain:
  "wo_atomic (ws_options st) = AtomicOff \<or> ev_name e \<noteq> Unlink \<and> (ev_name e = Add \<longrightarrow> pending_unlink_index st (ev_path e) = None) \<Longrightarrow>
   normalize_atomic clock e (st, wd) = Some ([e], st, wd)"
  by (auto simp: normalize_atomic_def)

lemma not_held: "ev_path e \<notin> held st \<longleftrightarrow> pending_unlink_index st (ev_path e) = None"
  unfolding held_def held_events_def pending_unlink_index_def first_index_None by force

lemma clock_world: "logs host lg \<Longrightarrow> world_clock host wd = (t, wd') \<Longrightarrow> lg (snd wd') = lg (snd wd) \<and> fst wd' = fst wd"
  using clock_log [of host lg wd] by (auto simp: world_clock_def split: prod.splits)

lemma dispatch_removal:
  assumes "logs host lg" and "one_listener c s" and "plain_event_at (ws_options (state_of s)) (held (state_of s)) T e"
    and "set (ws_throttled_changes (state_of s)) \<subseteq> T" and "distinct (ws_throttled_changes (state_of s))"
    and "s = (self, wd)" and "wo_atomic (ws_options (wt_state self)) \<noteq> AtomicOff" and "ev_name e = Unlink"
  shows "\<exists>s'. dispatch_ready_event host e s = Some s' \<and> follows lg c m [e] (insert (ev_path e) (held (wt_state self))) T s s'"
proof -
  obtain t wd' where c: "world_clock host wd = (t, wd')" by (metis surj_pair)
  let ?st = "wt_state self" and ?p = "\<lparr>pt_event = e, pt_created_at = t\<rparr>"
  let ?st' = "?st\<lparr>ws_pending_unlinks := ws_pending_unlinks ?st @ [?p]\<rparr>"
  have e: "is_dot_swap_file (ev_path e) = Some False" "ev_path e \<notin> held ?st"
    using assms(3,6-8) by (auto simp: plain_event_at_def)
  have h: "held_events ?st' = held_events ?st @ [e]" by (simp add: held_events_def)
  have "held_ok ?st'" "held ?st' = insert (ev_path e) (held ?st)"
    using assms(2,6-8) e(2) h by (auto simp: one_listener_def held_ok_def held_def)
  then have "follows lg c m [e] (insert (ev_path e) (held ?st)) T s (emit_allowed host [] (self\<lparr>wt_state := ?st'\<rparr>, wd'))"
    using clock_world [OF assms(1) c] assms(2,4-6) h
    by (intro follows_by_items [OF assms(1,6), where ps = "ws_pending_unlinks ?st @ [?p]"]) simp_all
  moreover have "normalize_atomic (world_clock host) e (?st, wd) = Some ([], ?st', wd')"
    using unlink_held_back [where self = ?st and u = e and clock = "world_clock host" and w = wd and t = t and w' = wd']
      assms(7,8) e(1) c by simp
  ultimately show ?thesis using assms(6) by (auto simp: dispatch_ready_event_def)
qed

lemma replay_around:
  assumes "list_all (\<lambda>x. ev_name x = Unlink) (as @ u # bs)" and "distinct (map ev_path (as @ u # bs))"
    and "ev_name e = Add" and "ev_path e = ev_path u"
  shows "replay (as @ bs) (replay (if b then [u, e] else [e\<lparr>ev_name := Change\<rparr>]) n) = replay [e] (replay (as @ u # bs) n)"
proof -
  have o: "ev_path e \<notin> ev_path ` set (as @ bs)" "list_all (\<lambda>x. ev_name x = Unlink) (as @ bs)" "ev_name u = Unlink"
    using assms by auto
  have items: "replay (if b then [u, e] else [e\<lparr>ev_name := Change\<rparr>]) n = apply_event e (apply_event u n)"
    using o(3) assms(3,4) by (auto simp: apply_event_def)
  have "replay (as @ u # bs) n = replay (as @ bs) (apply_event u n)"
    using o assms(1) replay_removals [OF assms(1)] replay_removals [OF o(2)] by (auto simp: apply_event_def fun_eq_iff)
  then show ?thesis using items replay_removals_commute [OF o(2,1)] by simp
qed

lemma dispatch_return:
  assumes "logs host lg" and "one_listener c s" and "plain_event_at (ws_options (state_of s)) (held (state_of s)) T e"
    and "set (ws_throttled_changes (state_of s)) \<subseteq> T" and "distinct (ws_throttled_changes (state_of s))"
    and "s = (self, wd)" and "wo_atomic (ws_options (wt_state self)) \<noteq> AtomicOff" and "ev_name e = Add"
    and "ev_path e \<in> held (wt_state self)"
  shows "\<exists>s'. dispatch_ready_event host e s = Some s' \<and>
    follows lg c m [e] (held (wt_state self) - {ev_path e}) (insert (ev_path e) T) s s'"
proof -
  let ?st = "wt_state self"
  obtain i where i: "pending_unlink_index ?st (ev_path e) = Some i" using assms(9) not_held by fastforce
  then obtain as bs where pend: "ws_pending_unlinks ?st = as @ ws_pending_unlinks ?st ! i # bs" "i = length as"
      "ev_path (pt_event (ws_pending_unlinks ?st ! i)) = ev_path e"
    unfolding pending_unlink_index_def by (rule first_index_split)
  define p where "p = ws_pending_unlinks ?st ! i"
  have p: "ws_pending_unlinks ?st = as @ p # bs" "ev_path (pt_event p) = ev_path e" using pend p_def by simp_all
  let ?st' = "?st\<lparr>ws_pending_unlinks := as @ bs\<rparr>"
  obtain b wd' where b: "timestamp_expired (world_clock host) (pt_created_at p) (unlink_window ?st) wd = (b, wd')"
    by (metis surj_pair)
  let ?items = "if b then [pt_event p, e] else [e\<lparr>ev_name := Change\<rparr>]"
  have ok: "list_all (\<lambda>x. ev_name x = Unlink) (map pt_event as @ pt_event p # map pt_event bs)"
      "distinct (map ev_path (map pt_event as @ pt_event p # map pt_event bs))"
    using assms(2,6) p(1) by (simp_all add: one_listener_def held_ok_def held_events_def)
  have h: "held_events ?st = map pt_event as @ pt_event p # map pt_event bs" "held_events ?st' = map pt_event as @ map pt_event bs"
    using p(1) by (simp_all add: held_events_def)
  have st': "held_ok ?st'" "held ?st' = held ?st - {ev_path e}"
    using ok h p(2) assms(7) by (auto simp: held_ok_def held_def dest!: not_in_map)
  have "lg (snd wd') = lg (snd wd)" "fst wd' = fst wd"
    using b clock_world [OF assms(1), of wd] by (auto simp: timestamp_expired_def split: prod.splits)
  moreover have "list_all kind_of_event ?items" "distinct (ws_throttled_changes ?st @ changes ?items)"
      "set (ws_throttled_changes ?st) \<union> set (changes ?items) \<subseteq> insert (ev_path e) T"
    using ok(1) assms(3-6,8) by (auto simp: kind_of_event_def plain_event_at_def)
  ultimately have "follows lg c m [e] (held ?st - {ev_path e}) (insert (ev_path e) T) s
      (emit_allowed host ?items (self\<lparr>wt_state := ?st'\<rparr>, wd'))"
    using st' replay_around [OF ok assms(8) p(2) [symmetric]] h assms(2)
    by (intro follows_by_items [OF assms(1,6), where ps = "as @ bs"]) simp_all
  moreover have "normalize_atomic (world_clock host) e (?st, wd) = Some (?items, ?st', wd')"
    using assms(7,8) i p(1) pend(2) b by (simp add: normalize_atomic_def Let_def p_def [symmetric])
  ultimately show ?thesis using assms(6) by (auto simp: dispatch_ready_event_def)
qed

lemma dispatch_plain:
  assumes "logs host lg" and "one_listener c s" and "plain_event_at (ws_options (state_of s)) (held (state_of s)) T e"
    and "set (ws_throttled_changes (state_of s)) \<subseteq> T" and "distinct (ws_throttled_changes (state_of s))"
  shows "\<exists>s'. dispatch_ready_event host e s = Some s' \<and>
    follows lg c m [e] (held_after (ws_options (state_of s)) e (held (state_of s))) (changed_after e T) s s'"
proof -
  obtain self wd where s: "s = (self, wd)" by (metis surj_pair)
  let ?st = "wt_state self"
  have ok: "held_ok ?st" and e: "kind_of_event e" using assms(2,3) s by (auto simp: one_listener_def plain_event_at_def)
  have keep: "?st = ?st\<lparr>ws_pending_unlinks := ws_pending_unlinks ?st\<rparr>" by simp
  have thr: "distinct (ws_throttled_changes ?st @ changes [e])" "set (ws_throttled_changes ?st) \<union> set (changes [e]) \<subseteq> changed_after e T"
    using assms(3-5) s by (auto simp: plain_event_at_def changed_after_def split: if_splits)
  have removals: "list_all (\<lambda>e. ev_name e = Unlink) (held_events ?st)" using ok by (simp add: held_ok_def)
  show ?thesis
  proof (cases "wo_atomic (ws_options ?st) = AtomicOff \<or> ev_name e \<noteq> Unlink \<and> ev_path e \<notin> held ?st")
    case True
    have "held_after (ws_options ?st) e (held ?st) = held ?st" using True ok by (auto simp: held_after_def)
    moreover have "ev_path e \<notin> ev_path ` set (held_events ?st)" using True ok by (auto simp: held_def held_ok_def)
    ultimately have "follows lg c m [e] (held_after (ws_options ?st) e (held ?st)) (changed_after e T) s
        (emit_allowed host [e] (self\<lparr>wt_state := ?st\<rparr>, wd))"
      using thr ok e removals replay_removals_commute assms(2)
      by (intro follows_by_items [OF assms(1) s _ keep]) simp_all
    moreover have "normalize_atomic (world_clock host) e (?st, wd) = Some ([e], ?st, wd)"
      using True not_held by (intro normalize_plain) auto
    ultimately show ?thesis using s by (auto simp: dispatch_ready_event_def)
  next
    case False
    then have on: "wo_atomic (ws_options ?st) \<noteq> AtomicOff" by simp
    have after: "held_after (ws_options ?st) e (held ?st) =
        (if ev_name e = Unlink then insert (ev_path e) (held ?st) else held ?st - {ev_path e})"
      "changed_after e T = (if ev_name e = Unlink then T else insert (ev_path e) T)"
      "ev_name e = Unlink \<or> ev_name e = Add"
      using False assms(3) s by (auto simp: held_after_def changed_after_def plain_event_at_def kind_of_event_def split: if_splits)
    show ?thesis
    proof (cases "ev_name e = Unlink")
      case True
      then show ?thesis using dispatch_removal [OF assms s on True] after(1,2) s by simp
    next
      case F: False
      then have "ev_name e = Add" "ev_path e \<in> held ?st" using False after(3) by auto
      then show ?thesis using dispatch_return [OF assms s on] after(1,2) s F by simp
    qed
  qed
qed

lemma follows_trans:
  assumes "follows lg c m es H T s s'" and "follows lg c m fs H' T' s' s''"
  shows "follows lg c m (es @ fs) H' T' s s''"
  using assms same_rest_trans [of s s' s''] by (simp add: follows_def)

lemma follows_one_listener: "follows lg c m es H T s s' \<Longrightarrow> one_listener c s \<Longrightarrow> one_listener c s'"
  by (auto simp: follows_def one_listener_def same_rest_def same_watcher_def)

lemma emit_event_plain:
  assumes "one_listener c s" and "plain_event_at (ws_options (state_of s)) H T e"
  shows "emit_event host e s = dispatch_ready_event host e s"
proof -
  obtain self b w where s: "s = (self, b, w)" by (metis prod_cases3)
  have "is_ignored (ev_path e) (ev_stats e) (wo_ignored (ws_options (wt_state self))) = Some False"
    using assms(2) s by (simp add: plain_event_at_def)
  then show ?thesis
    using assms(1) s
    by (cases "dispatch_ready_event host e (self, b, w)")
      (simp_all add: emit_event_def event_with_stats_def one_listener_def normalize_await_off)
qed

subsection \<open>Paths below a root\<close>

definition entry_path_ok :: "mstring \<Rightarrow> bool" where
  "entry_path_ok p \<longleftrightarrow> utf16_ok p \<and> (case path_form p of (b, ps) \<Rightarrow> \<not> b \<and> ps \<noteq> [] \<and> render_form (b, ps) = p)"

definition at_root :: "mstring \<Rightarrow> mstring \<Rightarrow> mstring" where
  "at_root root p = render_form (join_forms (path_form root) (path_form p))"

definition relocated :: "mstring \<Rightarrow> event \<Rightarrow> event" where
  "relocated root e = e\<lparr>ev_path := at_root root (ev_path e)\<rparr>"

lemma join_root: "utf16_ok root \<Longrightarrow> entry_path_ok p \<Longrightarrow> join_path root p = Some (at_root root p)"
  by (simp add: join_path_eq at_root_def entry_path_ok_def)

lemma root_forms:
  assumes "utf16_ok root" and "entry_path_ok p"
  shows "form_ok (join_forms (path_form root) (path_form p))"
    and "join_forms (path_form root) (path_form p) = (fst (path_form root), snd (path_form root) @ snd (path_form p))"
    and "snd (path_form p) \<noteq> []" and "path_form p = (False, snd (path_form p))"
proof -
  have p: "utf16_ok p" "path_form p = (False, snd (path_form p))" "snd (path_form p) \<noteq> []"
    using assms(2) by (auto simp: entry_path_ok_def split: prod.splits)
  then show "form_ok (join_forms (path_form root) (path_form p))" "snd (path_form p) \<noteq> []"
      "path_form p = (False, snd (path_form p))"
    using join_forms_ok path_form_ok assms(1) by blast+
  have "snd (path_form p) \<noteq> [dot]" using path_form_ok [OF p(1)] p(2) by (metis form_ok_def fst_conv)
  then show "join_forms (path_form root) (path_form p) = (fst (path_form root), snd (path_form root) @ snd (path_form p))"
    by (simp add: join_forms_def no_dot_def)
qed

lemma at_root_inj:
  assumes "utf16_ok root" and "entry_path_ok p" and "entry_path_ok q" and "at_root root p = at_root root q"
  shows "p = q"
proof -
  note p = root_forms [OF assms(1,2)] and q = root_forms [OF assms(1,3)]
  have "join_forms (path_form root) (path_form p) = join_forms (path_form root) (path_form q)"
    using arg_cong [OF assms(4), of path_form] path_form_render [OF p(1)] path_form_render [OF q(1)]
    by (simp add: at_root_def)
  then have "snd (path_form p) = snd (path_form q)" unfolding p(2) q(2) by simp
  then have "path_form p = path_form q" by (subst p(4), subst q(4)) simp
  moreover have "render_form (path_form p) = p" "render_form (path_form q) = q"
    using assms(2,3) by (auto simp: entry_path_ok_def split: prod.splits)
  ultimately show ?thesis by metis
qed

lemma record_returns:
  assumes "utf16_ok root" and "entry_path_ok (ev_path e)"
  shows "\<exists>ds. record_event_in_watched (relocated root e) st = Some (st\<lparr>ws_dirs := ds\<rparr>)"
proof -
  let ?p = "at_root root (ev_path e)" and ?ps = "snd (path_form (ev_path e))"
  note f = root_forms [OF assms]
  have "path_form ?p = (fst (path_form root), (snd (path_form root) @ butlast ?ps) @ [last ?ps])"
    using path_form_render [OF f(1)] f(2,3) by (simp add: at_root_def)
  moreover have "utf16_ok ?p" using render_form_utf16 [OF f(1)] by (simp add: at_root_def)
  ultimately have "\<exists>n d. path_basename ?p = Some n \<and> path_dirname ?p = Some d"
    using path_ends_eq by blast
  then have "\<exists>st'. record_event_in_watched (relocated root e) st = Some st'"
    by (auto simp: record_event_in_watched_def relocated_def)
  then show ?thesis using recorded_kept by blast
qed

subsection \<open>A scan\<close>

lemma follows_dirs:
  "follows lg c m es H T (self\<lparr>wt_state := (wt_state self)\<lparr>ws_dirs := ds\<rparr>\<rparr>, wd) s' \<longleftrightarrow> follows lg c m es H T (self, wd) s'"
  by (simp add: follows_def same_rest_def same_watcher_def expected_tree_def listener_tree_def held_events_def)

lemma one_listener_dirs:
  "one_listener c (self\<lparr>wt_state := (wt_state self)\<lparr>ws_dirs := ds\<rparr>\<rparr>, wd) \<longleftrightarrow> one_listener c (self, wd)"
  by (simp add: one_listener_def held_ok_def held_events_def)

lemma emit_scanned_step:
  assumes "logs host lg" and "one_listener c s" and "wo_cwd (ws_options (state_of s)) = None"
    and "utf16_ok root" and "entry_path_ok (ev_path e)"
    and "plain_event_at (ws_options (state_of s)) (held (state_of s)) T (relocated root e)"
    and "set (ws_throttled_changes (state_of s)) \<subseteq> T" and "distinct (ws_throttled_changes (state_of s))"
  shows "\<exists>s'. emit_scanned_event host root e s = Some s' \<and>
    follows lg c m [relocated root e] (held_after (ws_options (state_of s)) (relocated root e) (held (state_of s)))
      (changed_after (relocated root e) T) s s'"
proof -
  obtain self wd where s: "s = (self, wd)" by (metis surj_pair)
  let ?st = "wt_state self" and ?e = "relocated root e"
  obtain ds where r: "record_event_in_watched ?e ?st = Some (?st\<lparr>ws_dirs := ds\<rparr>)" using record_returns assms(4,5) by blast
  have "scanned_event root e (ws_options ?st) = Some ?e"
    using assms(3-5) s by (simp add: scanned_event_def join_root event_path_for_def relocated_def)
  then have step: "emit_scanned_event host root e s = emit_event host ?e (self\<lparr>wt_state := ?st\<lparr>ws_dirs := ds\<rparr>\<rparr>, wd)"
    using r s by (simp add: emit_scanned_event_def)
  have h: "held (?st\<lparr>ws_dirs := ds\<rparr>) = held ?st" by (simp add: held_def held_events_def)
  let ?s = "(self\<lparr>wt_state := ?st\<lparr>ws_dirs := ds\<rparr>\<rparr>, wd)"
  have one: "one_listener c ?s" using assms(2) s by (simp add: one_listener_dirs)
  have plain: "plain_event_at (ws_options (state_of ?s)) (held (state_of ?s)) T ?e" using assms(6) s h by simp
  have thr: "set (ws_throttled_changes (state_of ?s)) \<subseteq> T" "distinct (ws_throttled_changes (state_of ?s))"
    using assms(7,8) s by simp_all
  obtain s' where d: "dispatch_ready_event host ?e ?s = Some s'"
      "follows lg c m [?e] (held_after (ws_options (state_of ?s)) ?e (held (state_of ?s))) (changed_after ?e T) ?s s'"
    using dispatch_plain [OF assms(1) one plain thr] by blast
  have "emit_scanned_event host root e s = Some s'" using d(1) step emit_event_plain [OF one plain] by simp
  moreover have "follows lg c m [?e] (held_after (ws_options (state_of s)) ?e (held (state_of s))) (changed_after ?e T) s s'"
    using d(2) s h unfolding follows_dirs by simp
  ultimately show ?thesis by blast
qed

lemma emit_scanned_plain:
  assumes "logs host lg" and "utf16_ok root"
  shows "one_listener c s \<Longrightarrow> wo_cwd (ws_options (state_of s)) = None \<Longrightarrow> list_all (entry_path_ok \<circ> ev_path) es \<Longrightarrow>
    plain_events (ws_options (state_of s)) (held (state_of s)) T (map (relocated root) es) \<Longrightarrow>
    set (ws_throttled_changes (state_of s)) \<subseteq> T \<Longrightarrow> distinct (ws_throttled_changes (state_of s)) \<Longrightarrow>
    \<exists>s' H' T'. emit_scanned host root es s = Some s' \<and> follows lg c m (map (relocated root) es) H' T' s s'"
proof (induction es arbitrary: s T)
  case Nil
  then show ?case by (auto simp: follows_def one_listener_def intro: exI [of _ T])
next
  case (Cons e es)
  let ?e = "relocated root e" and ?o = "ws_options (state_of s)"
  let ?H = "held_after ?o ?e (held (state_of s))" and ?T = "changed_after ?e T"
  obtain s1 where s1: "emit_scanned_event host root e s = Some s1" "follows lg c m [?e] ?H ?T s s1"
    using emit_scanned_step [OF assms(1) Cons.prems(1,2) assms(2) _ _ Cons.prems(5,6), of e m] Cons.prems(3,4) by auto
  have o: "ws_options (state_of s1) = ?o" "held (state_of s1) = ?H"
    "set (ws_throttled_changes (state_of s1)) \<subseteq> ?T" "distinct (ws_throttled_changes (state_of s1))"
    using s1(2) by (simp_all add: follows_def same_rest_def same_watcher_def)
  have "\<exists>s' H' T'. emit_scanned host root es s1 = Some s' \<and> follows lg c m (map (relocated root) es) H' T' s1 s'"
    using Cons.prems(2-4) o by (intro Cons.IH [where T = ?T] follows_one_listener [OF s1(2) Cons.prems(1)]) simp_all
  then obtain s' H' T' where "emit_scanned host root es s1 = Some s'" "follows lg c m (map (relocated root) es) H' T' s1 s'" by blast
  then show ?case using s1(1) follows_trans [OF s1(2)] by fastforce
qed

text \<open>What is known of the paths below a root.\<close>

definition known_below :: "mstring \<Rightarrow> tree \<Rightarrow> tree" where
  "known_below root m = (\<lambda>p. if entry_path_ok p then m (at_root root p) else None)"

lemma known_below_replay:
  "utf16_ok root \<Longrightarrow> list_all (entry_path_ok \<circ> ev_path) es \<Longrightarrow>
   known_below root (replay (map (relocated root) es) m) = replay es (known_below root m)"
proof (induction es arbitrary: m)
  case (Cons e es)
  have "known_below root (apply_event (relocated root e) m) = apply_event e (known_below root m)"
    using Cons.prems at_root_inj [OF Cons.prems(1), of _ "ev_path e"]
    by (auto simp: known_below_def apply_event_def relocated_def fun_eq_iff)
  then show ?case using Cons by simp
qed simp

definition snapshot_ok :: "snapshot_entry list \<Rightarrow> bool" where
  "snapshot_ok es \<longleftrightarrow> distinct (map se_path es) \<and> list_all (entry_path_ok \<circ> se_path) es"

lemma diff_paths:
  assumes "snapshot_ok old" and "snapshot_ok new"
  shows "list_all (entry_path_ok \<circ> ev_path) (diff_snapshots old new)"
proof -
  have s: "set (sort_by entry_order es) = set es" for es using sorted_entries_mset [of es] by (metis set_mset_mset)
  have "ev_path x = se_path e" if "x \<in> set (entry_events (snapshot_find es (se_path e)) e)" for x e es
    using that snapshot_find_Some [of es "se_path e"]
    by (auto simp: entry_events_def event_from_entry_def split: option.splits if_splits)
  then show ?thesis
    using assms unfolding diff_snapshots_def Let_def added_loop_eq removed_loop_eq snapshot_ok_def list_all_iff
    by (fastforce simp: s unlink_of_def event_from_entry_def)
qed

subsection \<open>A cycle\<close>

definition idle :: "chokidar_backend \<Rightarrow> bool" where
  "idle b \<longleftrightarrow> cb_inotify_fd b < 0 \<and> cb_events b = [] \<and> \<not> cb_overflow b"

lemma drain_idle: "idle b \<Longrightarrow> backend_drain_events host (b, w) = Some ([], b, w)"
  by (cases b)
    (simp add: idle_def backend_drain_events_def chokidar_backend_event_count_def chokidar_native_poll_def drain_loop.simps
      chokidar_backend_clear_events_def)

text \<open>
  The watcher follows its root: it has one listener, for everything, it is past its first cycle, and
  the listener, less the removals held back, knows the last snapshot.
\<close>

definition following :: "('w \<Rightarrow> ('c \<times> event) list) \<Rightarrow> 'c \<Rightarrow> tree \<Rightarrow> mstring \<Rightarrow> ('c, 'w) watching \<Rightarrow> bool" where
  "following lg c m root s \<longleftrightarrow>
     one_listener c s \<and> ws_ready (state_of s) \<and> ws_pending_events (state_of s) = [] \<and> ws_pending_writes (state_of s) = [] \<and>
     ws_throttled_changes (state_of s) = [] \<and> wo_use_polling (ws_options (state_of s)) \<and> wo_cwd (ws_options (state_of s)) = None \<and>
     ws_root_paths (state_of s) = [root] \<and> utf16_ok root \<and> idle (fst (snd s)) \<and> snapshot_ok (snapshot_for (state_of s) root) \<and>
     known_below root (expected_tree lg c m s) = tree_of (snapshot_for (state_of s) root)"

lemma scan_root_plain:
  assumes "logs host lg" and "following lg c m root s"
    and "scan_snapshot (h_files host (snd (snd s))) root (ws_options (state_of s)) = Some (Inr new)" and "snapshot_ok new"
    and "plain_events (ws_options (state_of s)) (held (state_of s)) {} (map (relocated root) (diff_snapshots (snapshot_for (state_of s) root) new))"
  shows "\<exists>s' H T. scan_root host root False s = Some (None, s') \<and>
    follows lg c m (map (relocated root) (diff_snapshots (snapshot_for (state_of s) root) new)) H T
      (with_state (set_snapshot root new) s) s'"
proof -
  obtain self b w where s: "s = (self, b, w)" by (metis prod_cases3)
  let ?s = "with_state (set_snapshot root new) s" and ?es = "diff_snapshots (snapshot_for (state_of s) root) new"
  have f: "one_listener c s" "wo_cwd (ws_options (state_of s)) = None" "utf16_ok root" "ws_throttled_changes (state_of s) = []"
      "snapshot_ok (snapshot_for (state_of s) root)"
    using assms(2) by (simp_all add: following_def)
  have k: "state_of ?s = set_snapshot root new (state_of s)" "listeners_of ?s = listeners_of s"
    using s by (simp_all add: with_state_def)
  have o: "one_listener c ?s" "wo_cwd (ws_options (state_of ?s)) = None" "held (state_of ?s) = held (state_of s)"
      "ws_options (state_of ?s) = ws_options (state_of s)" "ws_throttled_changes (state_of ?s) = []"
    using f unfolding k one_listener_def by (simp_all add: set_snapshot_def held_ok_def held_events_def held_def)
  have "\<exists>s' H T. emit_scanned host root ?es ?s = Some s' \<and> follows lg c m (map (relocated root) ?es) H T ?s s'"
    using assms(5) o(3-5) by (intro emit_scanned_plain [OF assms(1) f(3) o(1,2) diff_paths [OF f(5) assms(4)], where T = "{}"]) simp_all
  then obtain s' H T where r: "emit_scanned host root ?es ?s = Some s'" "follows lg c m (map (relocated root) ?es) H T ?s s'"
    by blast
  have "scan_root host root False s = Some (None, s')" using assms(3) s r(1) by (simp add: scan_root_def with_state_def)
  then show ?thesis using r(2) by blast
qed

text \<open>The end of a cycle gives up the removals that are old enough; what is expected stays the same.\<close>

lemma flush_rest_world:
  "flush_rest (world_clock host) since window ps wd = (over, kept, wd') \<Longrightarrow> fst wd' = fst wd"
proof (induction ps arbitrary: wd over kept)
  case (Cons p ps)
  obtain b wd1 where b: "timestamp_expired (world_clock host) (since p) window wd = (b, wd1)" by (metis surj_pair)
  obtain o1 k1 wd2 where r: "flush_rest (world_clock host) since window ps wd1 = (o1, k1, wd2)" by (metis prod_cases3)
  have "fst wd1 = fst wd" using b by (auto simp: timestamp_expired_def world_clock_def split: prod.splits)
  then show ?case using Cons b r by (auto split: if_splits)
qed simp

lemma flush_keeps_expected:
  assumes "mset as = mset bs + mset cs" and "list_all (\<lambda>e. ev_name e = Unlink) as"
  shows "replay cs (replay bs m) = replay as m"
proof -
  have "set as = set bs \<union> set cs" using assms(1) by (metis set_mset_mset set_mset_union)
  moreover from this have "list_all (\<lambda>e. ev_name e = Unlink) bs" "list_all (\<lambda>e. ev_name e = Unlink) cs"
    using assms(2) by (simp_all add: list_all_iff)
  ultimately show ?thesis using assms(2) by (auto simp: replay_removals fun_eq_iff)
qed

lemma finish_follows:
  assumes "logs host lg" and "one_listener c s" and "ws_pending_writes (state_of s) = []"
    and "distinct (ws_throttled_changes (state_of s))"
  shows "\<exists>s'. finish_process_cycle host s = Some s' \<and> same_rest s s' \<and> held_ok (state_of s') \<and>
    ws_throttled_changes (state_of s') = [] \<and> expected_tree lg c m s' = expected_tree lg c m s"
proof -
  obtain self wd where s: "s = (self, wd)" by (metis surj_pair)
  let ?st = "wt_state self"
  have keep: "?st\<lparr>ws_pending_writes := []\<rparr> = ?st" using assms(3) s by simp
  have writes: "flush_stable_writes (world_clock host) (?st, wd) = ([], ?st, wd)"
    using assms(3) s keep by (simp add: flush_stable_writes_def flush_loop.simps)
  obtain over kept wd' where r: "flush_rest (world_clock host) pt_created_at (unlink_window ?st) (ws_pending_unlinks ?st) wd = (over, kept, wd')"
    by (metis prod_cases3)
  let ?st' = "?st\<lparr>ws_pending_unlinks := kept\<rparr>"
  have unlinks: "flush_expired_pending_unlinks (world_clock host) (?st, wd) = (map pt_event over, ?st', wd')"
    using r by (simp add: flush_expired_pending_unlinks_def flush_loop_all)
  have "reads_between (world_clock host) 0 (-1) UNIV" by (simp add: reads_between_def)
  from flush_rest_between [OF this _ r] have "mset (ws_pending_unlinks ?st) = mset over + mset kept" by simp
  then have m: "mset (held_events ?st) = mset (map pt_event over) + mset (held_events ?st')"
    by (simp add: held_events_def flip: image_mset_union)
  have ok: "held_ok ?st" using assms(2) s by (simp add: one_listener_def)
  then have u: "list_all (\<lambda>e. ev_name e = Unlink) (held_events ?st)" by (simp add: held_ok_def)
  have sub: "set (held_events ?st) = set (map pt_event over) \<union> set (held_events ?st')"
    using m by (metis set_mset_mset set_mset_union)
  have "mset (map ev_path (held_events ?st)) = mset (map ev_path (map pt_event over) @ map ev_path (held_events ?st'))"
    using m by (simp only: mset_map mset_append image_mset_union)
  from mset_eq_imp_distinct_iff [OF this] have "distinct (map ev_path (held_events ?st'))"
    using ok unfolding held_ok_def distinct_append by blast
  moreover have "list_all (\<lambda>e. ev_name e = Unlink) (held_events ?st')" using u unfolding list_all_iff sub by blast
  moreover have "wo_atomic (ws_options ?st) = AtomicOff \<longrightarrow> held_events ?st' = []"
    using ok sub by (metis held_ok_def Un_empty set_empty)
  ultimately have ok': "held_ok ?st'" by (simp add: held_ok_def)
  have ov: "list_all (\<lambda>e. ev_name e = Unlink) (map pt_event over)" using u unfolding list_all_iff sub by blast
  then have none: "changes (map pt_event over) = []" by (auto simp: changes_def filter_empty_conv list_all_iff)
  have kind: "list_all kind_of_event (map pt_event over)" using ov by (auto simp: list_all_iff kind_of_event_def)
  have "wd' = (fst wd, snd wd')" "lg (snd wd') = lg (snd wd)"
    using flush_rest_world [OF r] flush_rest_log [OF assms(1) r] by (metis prod.collapse, simp)
  then have w: "lg (snd wd') = lg (snd wd)" "fst wd' = fst wd" by (simp, metis fst_conv)
  define s1 where "s1 = emit_allowed host (map pt_event over) (self\<lparr>wt_state := ?st'\<rparr>, wd')"
  have f: "follows lg c m [] (held ?st') (set (ws_throttled_changes ?st)) s s1"
    unfolding s1_def using w kind none ok' assms(2,4) s flush_keeps_expected [OF m u]
    by (intro follows_by_items [OF assms(1) s, where ps = kept]) simp_all
  have fin: "finish_process_cycle host s = Some (with_state clear_throttles s1)"
    using s writes unlinks s1_def by (simp add: finish_process_cycle_def)
  have "same_rest s (with_state clear_throttles s1)" "held_ok (state_of (with_state clear_throttles s1))"
    "ws_throttled_changes (state_of (with_state clear_throttles s1)) = []"
    "expected_tree lg c m (with_state clear_throttles s1) = expected_tree lg c m s"
    using f by (auto simp: follows_def same_rest_def same_watcher_def with_state_def clear_throttles_def held_ok_def held_events_def
        expected_tree_def listener_tree_def split: prod.splits)
  then show ?thesis using fin by blast
qed

lemma no_pending: "ws_pending_events (state_of s) = [] \<Longrightarrow> with_state (\<lambda>st. st\<lparr>ws_pending_events := []\<rparr>) s = s"
proof -
  assume n: "ws_pending_events (state_of s) = []"
  obtain self wd where s: "s = (self, wd)" by (metis surj_pair)
  have "(wt_state self)\<lparr>ws_pending_events := []\<rparr> = wt_state self" using n s by simp
  then have "self\<lparr>wt_state := (wt_state self)\<lparr>ws_pending_events := []\<rparr>\<rparr> = self" by (cases self) simp
  then show ?thesis using s by (simp add: with_state_def)
qed

lemma cycle_follows:
  assumes "logs host lg" and "following lg c m root s"
    and "scan_snapshot (h_files host (snd (snd s))) root (ws_options (state_of s)) = Some (Inr new)" and "snapshot_ok new"
    and "plain_events (ws_options (state_of s)) (held (state_of s)) {} (map (relocated root) (diff_snapshots (snapshot_for (state_of s) root) new))"
  shows "\<exists>s'. watcher_process host s = Some (None, s') \<and> following lg c m root s' \<and> snapshot_for (state_of s') root = new"
proof -
  obtain self b w where s: "s = (self, b, w)" by (metis prod_cases3)
  let ?old = "snapshot_for (state_of s) root" and ?s1 = "with_state (set_snapshot root new) s"
  let ?es = "map (relocated root) (diff_snapshots ?old new)"
  obtain s2 H T where scan: "scan_root host root False s = Some (None, s2)" "follows lg c m ?es H T ?s1 s2"
    using scan_root_plain [OF assms] by blast
  note f = assms(2) [unfolded following_def]
  have one: "one_listener c ?s1" using f s by (simp add: one_listener_def with_state_def set_snapshot_def held_ok_def held_events_def)
  have r: "same_rest ?s1 s2" and d: "distinct (ws_throttled_changes (state_of s2))" using scan(2) by (simp_all add: follows_def)
  have "ws_pending_writes (state_of s2) = []" using r f s by (simp add: same_rest_def with_state_def set_snapshot_def)
  then obtain s3 where s3: "finish_process_cycle host s2 = Some s3" "same_rest s2 s3" "held_ok (state_of s3)"
      "ws_throttled_changes (state_of s3) = []" "expected_tree lg c m s3 = expected_tree lg c m s2"
    using finish_follows [OF assms(1) follows_one_listener [OF scan(2) one] _ d] by blast
  have raw: "process_raw_events host [] s = Some (None, s2)"
    using f scan(1) no_pending [of s] by (simp add: process_raw_events_def)
  have run: "watcher_process host s = Some (None, s3)"
    using f s raw s3(1) by (simp add: watcher_process_def one_listener_def drain_idle)
  have rest: "same_rest ?s1 s3" using same_rest_trans [OF r s3(2)] .
  have snap: "snapshot_for (state_of s3) root = new"
    using rest s by (simp add: same_rest_def with_state_def set_snapshot_def snapshot_for_def)
  have "expected_tree lg c m ?s1 = expected_tree lg c m s"
    using s by (simp add: with_state_def expected_tree_def listener_tree_def held_events_def set_snapshot_def)
  then have "known_below root (expected_tree lg c m s3) = known_below root (replay ?es (expected_tree lg c m s))"
    using s3(5) scan(2) by (simp add: follows_def)
  also have "\<dots> = replay (diff_snapshots ?old new) (tree_of ?old)"
    using known_below_replay diff_paths f assms(4) by auto
  also have "\<dots> = tree_of new" using replay_diff f assms(4) by (simp add: snapshot_ok_def)
  finally have "known_below root (expected_tree lg c m s3) = tree_of new" .
  moreover have "listeners_of s3 = listeners_of s" "ws_options (state_of s3) = ws_options (state_of s)"
      "ws_closed (state_of s3) = ws_closed (state_of s)" "ws_root_paths (state_of s3) = ws_root_paths (state_of s)"
      "fst (snd s3) = fst (snd s)" "ws_ready (state_of s3) = ws_ready (state_of s)"
      "ws_pending_events (state_of s3) = ws_pending_events (state_of s)" "ws_pending_writes (state_of s3) = ws_pending_writes (state_of s)"
    using rest s by (simp_all add: same_rest_def same_watcher_def with_state_def set_snapshot_def)
  ultimately have "following lg c m root s3"
    using f s3(3,4) snap assms(4) unfolding following_def one_listener_def by simp
  then show ?thesis using run snap by blast
qed

subsection \<open>Samples\<close>

text \<open>
  A watcher of \<open>/w\<close> that holds back the removal of \<open>/w/a\<close>, which the listener still knows; the file is
  there again at the next scan.
\<close>

definition known_file :: tree where
  "known_file = [str ''/w/a'' \<mapsto> Plain_node None]"

definition removal_of :: "mstring \<Rightarrow> event" where
  "removal_of p = (plain_event Unlink)\<lparr>ev_path := p\<rparr>"

definition waiting_watching :: "(nat, (nat \<times> event) list) watching" where
  "waiting_watching = with_state (\<lambda>st. st\<lparr>ws_ready := True,
     ws_pending_unlinks := [\<lparr>pt_event = removal_of (str ''/w/a''), pt_created_at = 1000\<rparr>]\<rparr>) sample_watching"

definition scanned_again :: "snapshot_entry list" where
  "scanned_again = projr (the (scan_snapshot (small_fs 2) (str ''/w'') polling_options))"

lemma waiting_state:
  "state_of waiting_watching = (new_watch_state polling_options)\<lparr>ws_root_paths := [str ''/w''], ws_snapshots := [str ''/w'' \<mapsto> []],
     ws_ready := True, ws_pending_unlinks := [\<lparr>pt_event = removal_of (str ''/w/a''), pt_created_at = 1000\<rparr>]\<rparr>"
  "listeners_of waiting_watching = [\<lparr>le_event = All, le_callback = 7\<rparr>]" "snd waiting_watching = (initial_backend, [])"
  by (simp_all add: waiting_watching_def with_state_def sample_watching_def set_snapshot_def remember_root_def new_watch_state_def)

lemma waiting_follows: "following (\<lambda>w. w) 7 known_file (str ''/w'') waiting_watching"
proof -
  have u: "utf16_ok (str ''/w'')" by code_simp
  have "held_events (state_of waiting_watching) = [removal_of (str ''/w/a'')]"
    by (simp add: waiting_state held_events_def)
  moreover have "expected_tree (\<lambda>w. w) 7 known_file waiting_watching = Map.empty"
    using calculation waiting_state(3)
    by (simp add: expected_tree_def listener_tree_def heard_def known_file_def apply_event_def removal_of_def plain_event_def)
  ultimately show ?thesis
    using u by (simp add: following_def one_listener_def held_ok_def waiting_state new_watch_state_def polling_options_def
        default_watch_options_def removal_of_def plain_event_def idle_def initial_backend_def snapshot_for_def snapshot_ok_def
        known_below_def tree_of_def fun_eq_iff del: str_Cons)
qed

subsection \<open>Properties\<close>

text \<open>
  Property C10. A cycle of a polling watcher that follows its root leads to one that does, with the new
  scan as its snapshot: whoever replays the events that the listener has heard, and takes away what
  the watcher still holds back, has exactly the tree of the last scan. It holds whenever the
  differences are reported one for one: no entry is ignored or a swap file, and what returns while
  its removal is held back returns as a file.
\<close>

theorem listener_follows_tree:
  assumes "logs host lg" and "following lg c m root s"
    and "scan_snapshot (h_files host (snd (snd s))) root (ws_options (wt_state (fst s))) = Some (Inr new)" and "snapshot_ok new"
    and "plain_events (ws_options (wt_state (fst s))) (held (wt_state (fst s))) {}
      (map (relocated root) (diff_snapshots (snapshot_for (wt_state (fst s)) root) new))"
  shows "\<exists>s'. watcher_process host s = Some (None, s') \<and> following lg c m root s' \<and> snapshot_for (wt_state (fst s')) root = new"
  by (rule cycle_follows [OF assms])

theorem listener_follows_tree_witness:
  "\<exists>s'. watcher_process (sample_host 2) waiting_watching = Some (None, s') \<and>
    following (\<lambda>w. w) 7 known_file (str ''/w'') s' \<and> snapshot_for (wt_state (fst s')) (str ''/w'') = scanned_again"
proof (rule listener_follows_tree [OF sample_logs waiting_follows])
  have o: "ws_options (state_of waiting_watching) = polling_options" "snapshot_for (state_of waiting_watching) (str ''/w'') = []"
    by (simp_all add: waiting_state new_watch_state_def snapshot_for_def del: str_Cons)
  have "scan_snapshot (small_fs 2) (str ''/w'') polling_options = Some (Inr scanned_again)" by code_simp
  then show "scan_snapshot (h_files (sample_host 2) (snd (snd waiting_watching))) (str ''/w'') (ws_options (state_of waiting_watching)) =
      Some (Inr scanned_again)"
    by (simp add: o sample_host_def del: str_Cons)
  show "snapshot_ok scanned_again" by code_simp
  have "plain_events polling_options {str ''/w/a''} {} (map (relocated (str ''/w'')) (diff_snapshots [] scanned_again))" by code_simp
  moreover have "held (state_of waiting_watching) = {str ''/w/a''}"
    by (simp add: waiting_state held_def held_events_def removal_of_def del: str_Cons)
  ultimately show "plain_events (ws_options (state_of waiting_watching)) (held (state_of waiting_watching)) {}
      (map (relocated (str ''/w'')) (diff_snapshots (snapshot_for (state_of waiting_watching) (str ''/w'')) scanned_again))"
    by (simp add: o del: str_Cons)
qed

end
