(* ===== verification/File_Pipe.thy ===== *)
theory File_Pipe
  imports Mulp_Error
begin

text \<open>
  Streams of files (\<open>vinyl_fs/dest.mbt\<close> and, the same code for its own type of files,
  \<open>stream/file_stream.mbt\<close>): an array as a stream, a stream that fails, a stream that writes the files
  it gives, pipes and \<open>collect\<close>. A closure of the code is a constructor with the state it keeps; the
  files are of any type, and so is the state that transformations and writes work on. A stream has
  one owner: who calls \<open>next\<close> goes on with the stream it gives back.
\<close>

datatype ('f, 's) file_stream =
    File_Stream (fs_pull: "('f, 's) stream_pull") (fs_closed: bool)
and ('f, 's) stream_pull =
    From_Files "'f list" nat
  | Failing mulp_error
  | Writing "'f list" nat "'f \<Rightarrow> 's \<Rightarrow> (unit result \<times> 's) run"
  | Piping "('f, 's) file_stream" "'f \<Rightarrow> 's \<Rightarrow> (('f, 's) file_stream \<times> 's) run" "('f, 's) file_stream option"

type_synonym ('f, 's) transform = "'f \<Rightarrow> 's \<Rightarrow> (('f, 's) file_stream \<times> 's) run"

definition vinyl_file_stream_from_pull :: "('f, 's) stream_pull \<Rightarrow> ('f, 's) file_stream" where
  "vinyl_file_stream_from_pull pull = File_Stream pull False"

definition vinyl_file_stream :: "'f list \<Rightarrow> ('f, 's) file_stream" where
  "vinyl_file_stream files = vinyl_file_stream_from_pull (From_Files files 0)"

definition vinyl_error_stream :: "mulp_error \<Rightarrow> ('f, 's) file_stream" where
  "vinyl_error_stream err = vinyl_file_stream_from_pull (Failing err)"

text \<open>Closing a pipe closes the stream in progress and then the one it takes its files from.\<close>

fun stream_close :: "('f, 's) file_stream \<Rightarrow> ('f, 's) file_stream"
  and close_pull :: "('f, 's) stream_pull \<Rightarrow> ('f, 's) stream_pull" where
  "stream_close (File_Stream pull closed) =
     (if \<not> closed then File_Stream (close_pull pull) True else File_Stream pull closed)"
| "close_pull (From_Files files index) = From_Files files index"
| "close_pull (Failing err) = Failing err"
| "close_pull (Writing files index write) = Writing files index write"
| "close_pull (Piping upstream transform current) =
     Piping (stream_close upstream) transform
       (case current of None \<Rightarrow> None | Some c \<Rightarrow> Some (stream_close c))"

definition stream_pipe :: "('f, 's) file_stream \<Rightarrow> ('f, 's) transform \<Rightarrow> ('f, 's) file_stream" where
  "stream_pipe self transform = vinyl_file_stream_from_pull (Piping self transform None)"

text \<open>The closures of the two streams over arrays.\<close>

definition pull_files :: "'f list \<Rightarrow> nat \<Rightarrow> 'f option result \<times> ('f, 's) stream_pull" where
  "pull_files files index =
     (if index \<ge> length files then (Inr None, From_Files files index)
      else (Inr (Some (files ! index)), From_Files files (index + 1)))"

definition pull_written ::
    "'f list \<Rightarrow> nat \<Rightarrow> ('f \<Rightarrow> 's \<Rightarrow> (unit result \<times> 's) run) \<Rightarrow> 's \<Rightarrow>
     ('f option result \<times> ('f, 's) stream_pull \<times> 's) run" where
  "pull_written files index write s =
     (if index \<ge> length files then Some (Inr None, Writing files index write, s)
      else do {
        (r, s) \<leftarrow> write (files ! index) s;
        case r of
          Inr _ \<Rightarrow> Some (Inr (Some (files ! index)), Writing files (index + 1) write, s)
        | Inl err \<Rightarrow> Some (Inl err, Writing files index write, s)
      })"

text \<open>What \<open>next\<close> does with the answer of the pull: the end and an error close the stream.\<close>

definition settle ::
    "'f option result \<Rightarrow> ('f, 's) stream_pull \<Rightarrow> 's \<Rightarrow> 'f option result \<times> ('f, 's) file_stream \<times> 's" where
  "settle r pull s =
     (case r of
        Inr (Some _) \<Rightarrow> (r, File_Stream pull False, s)
      | _ \<Rightarrow> (r, stream_close (File_Stream pull False), s))"

text \<open>
  \<open>next\<close> with the loop of the pipe's pull: a round that leaves the loop answers, one that stays in it
  goes on with the pipe as the round has left it.
\<close>

partial_function (option) stream_next ::
    "('f, 's) file_stream \<Rightarrow> 's \<Rightarrow> ('f option result \<times> ('f, 's) file_stream \<times> 's) run" where
  "stream_next self s =
     (if fs_closed self then Some (Inr None, self, s)
      else case fs_pull self of
        From_Files files index \<Rightarrow> (case pull_files files index of (r, pull) \<Rightarrow> Some (settle r pull s))
      | Failing err \<Rightarrow> Some (settle (Inl err) (Failing err) s)
      | Writing files index write \<Rightarrow> do {
          (r, pull, s) \<leftarrow> pull_written files index write s;
          Some (settle r pull s)
        }
      | Piping upstream transform current \<Rightarrow>
          (case current of
             Some c \<Rightarrow> do {
               (r, c, s) \<leftarrow> stream_next c s;
               case r of
                 Inr None \<Rightarrow> stream_next (File_Stream (Piping upstream transform None) False) s
               | _ \<Rightarrow> Some (settle r (Piping upstream transform (Some c)) s)
             }
           | None \<Rightarrow> do {
               (r, upstream, s) \<leftarrow> stream_next upstream s;
               case r of
                 Inr (Some f) \<Rightarrow> do {
                   (c, s) \<leftarrow> transform f s;
                   stream_next (File_Stream (Piping upstream transform (Some c)) False) s
                 }
               | _ \<Rightarrow> Some (settle r (Piping upstream transform None) s)
             }))"

partial_function (option) collect_loop ::
    "('s \<Rightarrow> bool) \<Rightarrow> ('f, 's) file_stream \<Rightarrow> 's \<Rightarrow> 'f list \<Rightarrow> ('f list result \<times> ('f, 's) file_stream \<times> 's) run" where
  "collect_loop is_cancelled self s files =
     (if is_cancelled s
      then Some (Inl (task_failed (str ''stream'') (str ''cancelled'')), stream_close self, s)
      else do {
        (r, self, s) \<leftarrow> stream_next self s;
        case r of
          Inr (Some f) \<Rightarrow> collect_loop is_cancelled self s (files @ [f])
        | Inr None \<Rightarrow> Some (Inr files, self, s)
        | Inl err \<Rightarrow> Some (Inl err, stream_close self, s)
      })"

definition stream_collect ::
    "('s \<Rightarrow> bool) \<Rightarrow> ('f, 's) file_stream \<Rightarrow> 's \<Rightarrow> ('f list result \<times> ('f, 's) file_stream \<times> 's) run" where
  "stream_collect is_cancelled self s = collect_loop is_cancelled self s []"

text \<open>The transformations that make a stream of a file: \<open>map_files\<close> and its kin.\<close>

definition map_files :: "('f \<Rightarrow> 's \<Rightarrow> ('f \<times> 's) run) \<Rightarrow> ('f, 's) transform" where
  "map_files g f s = do { (f, s) \<leftarrow> g f s; Some (vinyl_file_stream [f], s) }"

definition flat_map_files :: "('f \<Rightarrow> 'f list) \<Rightarrow> ('f, 's) transform" where
  "flat_map_files g f s = Some (vinyl_file_stream (g f), s)"

definition filter_files :: "('f \<Rightarrow> bool) \<Rightarrow> ('f, 's) transform" where
  "filter_files keep f s = Some (if keep f then vinyl_file_stream [f] else vinyl_file_stream [], s)"

subsection \<open>Streams that only give files\<close>

text \<open>The stream gives these files and then the end, whatever the state, and leaves the state alone.\<close>

inductive gives_files :: "('f, 's) file_stream \<Rightarrow> 'f list \<Rightarrow> bool" where
  at_end: "\<forall>s. \<exists>st. stream_next self s = Some (Inr None, st, s) \<Longrightarrow> gives_files self []"
| next_file: "\<forall>s. stream_next self s = Some (Inr (Some f), st, s) \<Longrightarrow> gives_files st fs \<Longrightarrow> gives_files self (f # fs)"

lemma gives_files_same:
  assumes "gives_files a fs" and "\<forall>s. stream_next b s = stream_next a s"
  shows "gives_files b fs"
  using assms by (cases rule: gives_files.cases) (auto intro: gives_files.intros)

lemma next_array:
  "stream_next (File_Stream (From_Files files i) False) s =
    Some (if i \<ge> length files then (Inr None, File_Stream (From_Files files i) True, s)
          else (Inr (Some (files ! i)), File_Stream (From_Files files (i + 1)) False, s))"
  by (subst stream_next.simps) (simp add: pull_files_def settle_def)

lemma gives_array: "gives_files (File_Stream (From_Files files i) False) (drop i files)"
proof (induction "length files - i" arbitrary: i)
  case 0
  then show ?case by (auto simp: next_array intro!: gives_files.at_end)
next
  case (Suc n)
  then have i: "i < length files" by simp
  have d: "drop i files = files ! i # drop (i + 1) files" using i by (simp add: Cons_nth_drop_Suc)
  show ?case
    unfolding d using i Suc.hyps(2)
    by (intro gives_files.next_file [OF _ Suc.hyps(1) [of "i + 1"]]) (simp_all add: next_array)
qed

lemma gives_vinyl_file_stream: "gives_files (vinyl_file_stream files) files"
  using gives_array [of files 0] by (simp add: vinyl_file_stream_def vinyl_file_stream_from_pull_def)

abbreviation piping :: "('f, 's) file_stream \<Rightarrow> ('f, 's) transform \<Rightarrow> ('f, 's) file_stream option \<Rightarrow> ('f, 's) file_stream" where
  "piping up tr cur \<equiv> File_Stream (Piping up tr cur) False"

lemma next_pipe_current:
  "stream_next (piping up tr (Some c)) s = do {
     (r, c, s) \<leftarrow> stream_next c s;
     case r of
       Inr None \<Rightarrow> stream_next (piping up tr None) s
     | _ \<Rightarrow> Some (settle r (Piping up tr (Some c)) s)
   }"
  by (subst stream_next.simps) simp

lemma next_pipe_upstream:
  "stream_next (piping up tr None) s = do {
     (r, up, s) \<leftarrow> stream_next up s;
     case r of
       Inr (Some f) \<Rightarrow> do { (c, s) \<leftarrow> tr f s; stream_next (piping up tr (Some c)) s }
     | _ \<Rightarrow> Some (settle r (Piping up tr None) s)
   }"
  by (subst stream_next.simps) simp

lemma gives_current:
  "gives_files c hs \<Longrightarrow> gives_files (piping up tr None) xs \<Longrightarrow> gives_files (piping up tr (Some c)) (hs @ xs)"
proof (induction rule: gives_files.induct)
  case (at_end c)
  have "stream_next (piping up tr (Some c)) s = stream_next (piping up tr None) s" for s
  proof -
    obtain st where "stream_next c s = Some (Inr None, st, s)" using at_end(1) by blast
    then show ?thesis by (simp add: next_pipe_current)
  qed
  with at_end(2) show ?case by (auto intro: gives_files_same)
next
  case (next_file c f c' hs)
  then have "stream_next (piping up tr (Some c)) s = Some (Inr (Some f), piping up tr (Some c'), s)" for s
    by (simp add: next_pipe_current settle_def)
  with next_file show ?case by (auto intro: gives_files.next_file)
qed

lemma gives_piped:
  "gives_files up fs \<Longrightarrow> \<forall>f \<in> set fs. \<exists>c. (\<forall>s. tr f s = Some (c, s)) \<and> gives_files c (g f) \<Longrightarrow>
   gives_files (piping up tr None) (concat (map g fs))"
proof (induction rule: gives_files.induct)
  case (at_end up)
  have "\<exists>st. stream_next (piping up tr None) s = Some (Inr None, st, s)" for s
  proof -
    obtain st where "stream_next up s = Some (Inr None, st, s)" using at_end(1) by blast
    then show ?thesis by (simp add: next_pipe_upstream settle_def)
  qed
  then show ?case by (auto intro: gives_files.at_end)
next
  case (next_file up f up' fs)
  obtain c where c: "\<forall>s. tr f s = Some (c, s)" "gives_files c (g f)" using next_file(4) by auto
  have "gives_files (piping up' tr (Some c)) (g f @ concat (map g fs))"
    using c(2) next_file by (intro gives_current) auto
  moreover have "stream_next (piping up tr None) s = stream_next (piping up' tr (Some c)) s" for s
    using next_file(1) c(1) by (subst next_pipe_upstream) simp
  ultimately show ?case by (auto intro: gives_files_same)
qed

definition collected :: "('r \<times> 'st \<times> 's) run \<Rightarrow> ('r \<times> 's) run" where
  "collected x = map_option (\<lambda>(r, _, s). (r, s)) x"

lemma collect_gives:
  "gives_files self fs \<Longrightarrow> collected (collect_loop (\<lambda>_. False) self s acc) = Some (Inr (acc @ fs), s)"
proof (induction arbitrary: acc rule: gives_files.induct)
  case (at_end self)
  obtain st where "stream_next self s = Some (Inr None, st, s)" using at_end by blast
  then show ?case by (subst collect_loop.simps) (simp add: collected_def)
next
  case (next_file self f st fs)
  then show ?case by (subst collect_loop.simps) simp
qed

text \<open>
  Property C17. Piping a stream of files through a transformation that makes a stream of files of each of them is the
  concatenation of what they give; collecting it leaves the state alone. Pipes can be chained.
\<close>
theorem collect_of_pipe:
  assumes "gives_files self fs" and "\<forall>f \<in> set fs. \<exists>c. (\<forall>s. tr f s = Some (c, s)) \<and> gives_files c (g f)"
  shows "gives_files (stream_pipe self tr) (concat (map g fs)) \<and>
    collected (stream_collect (\<lambda>_. False) (stream_pipe self tr) s) = Some (Inr (concat (map g fs)), s)"
proof -
  have g: "gives_files (stream_pipe self tr) (concat (map g fs))"
    using gives_piped [OF assms] by (simp add: stream_pipe_def vinyl_file_stream_from_pull_def)
  with collect_gives [OF this, of s "[]"] show ?thesis by (simp add: stream_collect_def)
qed

theorem collect_of_pipe_witness:
  "collected (stream_collect (\<lambda>_. False)
     (stream_pipe (vinyl_file_stream [1, 2, 3 :: nat]) (filter_files (\<lambda>f. f \<noteq> 2))) ()) = Some (Inr [1, 3], ())"
  using collect_of_pipe [OF gives_vinyl_file_stream [of "[1, 2, 3 :: nat]"],
      of "filter_files (\<lambda>f. f \<noteq> 2)" "\<lambda>f. if f \<noteq> 2 then [f] else []" "()"]
  by (auto simp: filter_files_def intro: gives_vinyl_file_stream)

subsection \<open>Pipes that write\<close>

definition writer ::
    "('f \<Rightarrow> 's \<Rightarrow> ('f list \<times> 's) run) \<Rightarrow> ('f \<Rightarrow> 's \<Rightarrow> (unit result \<times> 's) run) \<Rightarrow> ('f, 's) transform" where
  "writer prepare write f s = do {
     (outs, s) \<leftarrow> prepare f s;
     Some (vinyl_file_stream_from_pull (Writing outs 0 write), s)
   }"

text \<open>The specification: prepare a file, write what it becomes, go on; stop at the first error.\<close>

fun write_list :: "('f \<Rightarrow> 's \<Rightarrow> (unit result \<times> 's) run) \<Rightarrow> 'f list \<Rightarrow> 's \<Rightarrow> (unit result \<times> 's) run" where
  "write_list write [] s = Some (Inr (), s)"
| "write_list write (f # fs) s = do {
     (r, s) \<leftarrow> write f s;
     case r of Inl err \<Rightarrow> Some (Inl err, s) | Inr _ \<Rightarrow> write_list write fs s
   }"

fun write_each ::
    "('f \<Rightarrow> 's \<Rightarrow> ('f list \<times> 's) run) \<Rightarrow> ('f \<Rightarrow> 's \<Rightarrow> (unit result \<times> 's) run) \<Rightarrow> 'f list \<Rightarrow> 's \<Rightarrow> 'f list \<Rightarrow>
     ('f list result \<times> 's) run" where
  "write_each prepare write [] s acc = Some (Inr acc, s)"
| "write_each prepare write (f # fs) s acc = do {
     (outs, s) \<leftarrow> prepare f s;
     (r, s) \<leftarrow> write_list write outs s;
     case r of Inl err \<Rightarrow> Some (Inl err, s) | Inr _ \<Rightarrow> write_each prepare write fs s (acc @ outs)
   }"

lemma collect_same:
  "stream_next a s = stream_next b s \<Longrightarrow> collect_loop (\<lambda>_. False) a s acc = collect_loop (\<lambda>_. False) b s acc"
  by (subst (1 2) collect_loop.simps) simp

lemma collect_writing:
  "collected (collect_loop (\<lambda>_. False) (piping up tr (Some (File_Stream (Writing outs i write) False))) s acc) =
   do {
     (r, s) \<leftarrow> write_list write (drop i outs) s;
     case r of
       Inl err \<Rightarrow> Some (Inl err, s)
     | Inr _ \<Rightarrow> collected (collect_loop (\<lambda>_. False) (piping up tr None) s (acc @ drop i outs))
   }"
proof (induction "length outs - i" arbitrary: i s acc)
  case 0
  then have "stream_next (piping up tr (Some (File_Stream (Writing outs i write) False))) s = stream_next (piping up tr None) s"
    by (subst next_pipe_current, subst stream_next.simps) (simp add: pull_written_def settle_def)
  from collect_same [OF this, of acc] 0 show ?case by simp
next
  case (Suc n)
  then have i: "i < length outs" by simp
  let ?st = "\<lambda>j. piping up tr (Some (File_Stream (Writing outs j write) False))"
  have d: "drop i outs = outs ! i # drop (i + 1) outs" using i by (simp add: Cons_nth_drop_Suc)
  have nxt: "stream_next (?st i) s = do {
      (r, s) \<leftarrow> write (outs ! i) s;
      case r of
        Inr _ \<Rightarrow> Some (Inr (Some (outs ! i)), ?st (i + 1), s)
      | Inl err \<Rightarrow> Some (settle (Inl err) (Piping up tr (Some (File_Stream (Writing outs i write) True))) s)
    }"
    using i by (subst next_pipe_current, subst stream_next.simps)
      (auto simp: pull_written_def settle_def bind_eq_Some_conv split: sum.splits bind_splits)
  have IH: "collected (collect_loop (\<lambda>_. False) (?st (i + 1)) s (acc @ [outs ! i])) = do {
      (r, s) \<leftarrow> write_list write (drop (i + 1) outs) s;
      case r of
        Inl err \<Rightarrow> Some (Inl err, s)
      | Inr _ \<Rightarrow> collected (collect_loop (\<lambda>_. False) (piping up tr None) s (acc @ drop i outs))
    }" for s
  proof -
    have "(acc @ [outs ! i]) @ drop (i + 1) outs = acc @ drop i outs" using d by simp
    moreover have "n = length outs - (i + 1)" using Suc.hyps(2) by simp
    ultimately show ?thesis using Suc.hyps(1) [of "i + 1" s "acc @ [outs ! i]"] by (simp only:)
  qed
  show ?case
  proof (cases "write (outs ! i) s")
    case None
    then show ?thesis using nxt d by (subst collect_loop.simps) (simp add: collected_def)
  next
    case (Some x)
    obtain r s1 where x: "x = (r, s1)" by fastforce
    show ?thesis
    proof (cases r)
      case (Inl err)
      then show ?thesis using nxt d Some x by (subst collect_loop.simps) (simp add: collected_def settle_def)
    next
      case (Inr u)
      then show ?thesis using nxt d Some x IH by (subst collect_loop.simps) simp
    qed
  qed
qed

lemma collect_writer:
  "gives_files up fs \<Longrightarrow>
   collected (collect_loop (\<lambda>_. False) (piping up (writer prepare write) None) s acc) = write_each prepare write fs s acc"
proof (induction arbitrary: s acc rule: gives_files.induct)
  case (at_end up)
  obtain st where "stream_next up s = Some (Inr None, st, s)" using at_end by blast
  then have "\<exists>st. stream_next (piping up (writer prepare write) None) s = Some (Inr None, st, s)"
    by (simp add: next_pipe_upstream settle_def)
  then obtain st where "stream_next (piping up (writer prepare write) None) s = Some (Inr None, st, s)" by blast
  then show ?case by (subst collect_loop.simps) (simp add: collected_def)
next
  case (next_file up f up' fs)
  show ?case
  proof (cases "prepare f s")
    case None
    then have "stream_next (piping up (writer prepare write) None) s = None"
      using next_file(1) by (simp add: next_pipe_upstream writer_def)
    with None show ?thesis by (subst collect_loop.simps) (simp add: collected_def)
  next
    case (Some x)
    obtain outs s1 where x: "x = (outs, s1)" by fastforce
    let ?c = "File_Stream (Writing outs 0 write) False"
    have "stream_next (piping up (writer prepare write) None) s =
        stream_next (piping up' (writer prepare write) (Some ?c)) s1"
      using next_file(1) Some x by (subst next_pipe_upstream) (simp add: writer_def vinyl_file_stream_from_pull_def)
    then have "collect_loop (\<lambda>_. False) (piping up (writer prepare write) None) s acc =
        collect_loop (\<lambda>_. False) (piping up' (writer prepare write) (Some ?c)) s1 acc"
      by (subst (1 2) collect_loop.simps) simp
    then show ?thesis
      using collect_writing [of up' "writer prepare write" outs 0 "write" s1 acc] Some x next_file(3)
      by (simp cong: sum.case_cong)
  qed
qed

text \<open>
  Property C16. Collecting a pipe into a writer writes the files one after the other, each before the next one is
  taken: it is the plain loop that prepares a file, writes what it becomes and stops at the first
  error, with the same result, the same effects, and returning exactly when the loop does.
\<close>
theorem pipe_writes_in_order:
  assumes "gives_files up fs"
  shows "collected (stream_collect (\<lambda>_. False) (stream_pipe up (writer prepare write)) s) =
    write_each prepare write fs s []"
  using collect_writer [OF assms, of prepare "write" s "[]"]
  by (simp add: stream_collect_def stream_pipe_def vinyl_file_stream_from_pull_def)

theorem pipe_writes_in_order_witness:
  "collected (stream_collect (\<lambda>_. False) (stream_pipe (vinyl_file_stream [1, 0, 2 :: nat])
     (writer (\<lambda>f s. Some ([f], s)) (\<lambda>f s. Some (if f = 0 then Inl (stream_error []) else Inr (), s @ [f])))) []) =
   Some (Inl (stream_error []), [1, 0])"
  by (subst pipe_writes_in_order [OF gives_vinyl_file_stream]) simp

text \<open>A cancelled collection takes no file, and says so.\<close>

lemma collect_cancelled:
  "is_cancelled s \<Longrightarrow> collected (stream_collect is_cancelled self s) =
    Some (Inl (task_failed (str ''stream'') (str ''cancelled'')), s)"
  by (simp add: stream_collect_def collected_def) (subst collect_loop.simps, simp)

end
