(* ===== verification/Shell_Process.thy ===== *)
theory Shell_Process
  imports Posix_Shell
begin

text \<open>
  The C stub behind \<open>run_process\<close> (\<open>platform/process_stub.c\<close>, its POSIX branch): the growing
  output buffer, the temporary files, the quoting of their names, the shell line handed to
  \<open>system\<close> and the bytes returned. The operating system is a parameter: which allocations
  succeed, what \<open>mkstemp\<close> makes of a template, and the status and files \<open>system\<close> leaves.
\<close>

record shell_env =
  se_alloc :: "int \<Rightarrow> bool"
  se_mkstemp :: "bytes \<Rightarrow> bool \<times> bytes"
  se_system :: "bytes \<Rightarrow> 32 word \<times> (bytes \<Rightarrow> bytes option)"

text \<open>The wait status as Linux encodes it: low seven bits the signal, next byte the exit code.\<close>

definition mulp_exit_code :: "32 word \<Rightarrow> int" where
  "mulp_exit_code status =
     (if status = - 1 then 127
      else if and status 127 = 0 then uint (drop_bit 8 (and status 65280))
      else 128)"

subsection \<open>The growing buffer\<close>

record growbuf =
  gb_block :: "block option"
  gb_length :: int
  gb_capacity :: int

definition gb_empty :: growbuf where
  "gb_empty = \<lparr>gb_block = None, gb_length = 0, gb_capacity = 0\<rparr>"

text \<open>The doubling loop; a capacity that leaves 32 bits is undefined.\<close>

partial_function (option) grow_capacity :: "int \<Rightarrow> int \<Rightarrow> int run" where
  "grow_capacity need next_capacity =
     (if next_capacity < need
      then do { c \<leftarrow> int32 (next_capacity * 2); grow_capacity need c }
      else Some next_capacity)"

definition mulp_reserve :: "(int \<Rightarrow> bool) \<Rightarrow> growbuf \<Rightarrow> int \<Rightarrow> growbuf run" where
  "mulp_reserve alloc g need =
     (if need > gb_capacity g then do {
        next_capacity \<leftarrow> grow_capacity need (if gb_capacity g = 0 then 4096 else gb_capacity g);
        Some (if alloc next_capacity
              then g\<lparr>gb_block := Some (resize (gb_block g) (nat next_capacity)),
                     gb_capacity := next_capacity\<rparr>
              else gb_empty)
      } else Some g)"

definition mulp_append :: "(int \<Rightarrow> bool) \<Rightarrow> growbuf \<Rightarrow> bytes \<Rightarrow> growbuf run" where
  "mulp_append alloc g chunk = do {
     need \<leftarrow> int32 (gb_length g + int (length chunk));
     r \<leftarrow> mulp_reserve alloc g need;
     if need > gb_capacity g \<and> gb_block r = None then Some r
     else do {
       m \<leftarrow> gb_block r;
       m' \<leftarrow> copy_into m (nat (gb_length r)) chunk;
       len \<leftarrow> int32 (gb_length r + int (length chunk));
       Some (r\<lparr>gb_block := Some m', gb_length := len\<rparr>)
     }
   }"

subsection \<open>Temporary files and quoting\<close>

definition mulp_make_temp_file :: "shell_env \<Rightarrow> bytes \<Rightarrow> bool \<times> bytes" where
  "mulp_make_temp_file env name =
     se_mkstemp env (cstr (fst (snprintf 256 (str ''/tmp/'' @ name @ str ''-XXXXXX''))))"

fun quote_length :: "int \<Rightarrow> bytes \<Rightarrow> int run" where
  "quote_length len [] = Some len"
| "quote_length len (c # s) =
     do { l \<leftarrow> int32 (len + (if c = 39 then 4 else 1)); quote_length l s }"

fun quote_fill :: "block \<Rightarrow> nat \<Rightarrow> bytes \<Rightarrow> (block \<times> nat) run" where
  "quote_fill m index [] = Some (m, index)"
| "quote_fill m index (c # s) =
     (if c = 39 then do { m \<leftarrow> copy_into m index [39, 92, 39, 39]; quote_fill m (index + 4) s }
      else do { m \<leftarrow> store_at m index c; quote_fill m (index + 1) s })"

definition mulp_shell_quote :: "(int \<Rightarrow> bool) \<Rightarrow> bytes \<Rightarrow> block option run" where
  "mulp_shell_quote alloc value = do {
     len \<leftarrow> quote_length 2 (cstr value);
     if \<not> alloc (len + 1) then Some None
     else do {
       m \<leftarrow> store_at (fresh (nat (len + 1))) 0 39;
       (m, index) \<leftarrow> quote_fill m 1 (cstr value);
       m \<leftarrow> store_at m index 39;
       m \<leftarrow> store_at m (index + 1) 0;
       Some (Some m)
     }
   }"

subsection \<open>Reading a file back\<close>

text \<open>\<open>fread\<close> on a regular file: full chunks of 4096 bytes, then the rest.\<close>

fun file_chunks :: "bytes \<Rightarrow> bytes list" where
  "file_chunks bs = (if bs = [] then [] else take 4096 bs # file_chunks (drop 4096 bs))"

declare file_chunks.simps [simp del]

fun read_loop :: "(int \<Rightarrow> bool) \<Rightarrow> growbuf \<Rightarrow> bytes list \<Rightarrow> growbuf run" where
  "read_loop alloc g [] = Some g"
| "read_loop alloc g (chunk # chunks) = do {
     g \<leftarrow> mulp_append alloc g chunk;
     if gb_block g = None then Some g else read_loop alloc g chunks
   }"

definition mulp_read_file :: "(int \<Rightarrow> bool) \<Rightarrow> bytes option \<Rightarrow> growbuf run" where
  "mulp_read_file alloc contents =
     (case contents of None \<Rightarrow> Some gb_empty | Some bs \<Rightarrow> read_loop alloc gb_empty (file_chunks bs))"

subsection \<open>Running a command\<close>

record shell_outcome =
  so_result :: bytes
  so_line :: "bytes option"
  so_unlinked :: "bytes list"

text \<open>
  The result block: its size is the sum of the three parts, each part is copied in. The prefix
  is read back from the 32 bytes it was printed into.
\<close>

definition copy_output :: "block \<Rightarrow> nat \<Rightarrow> growbuf \<Rightarrow> block run" where
  "copy_output m offset g =
     (if gb_length g > 0 then do {
        b \<leftarrow> gb_block g;
        bs \<leftarrow> load_range b 0 (nat (gb_length g));
        copy_into m offset bs
      } else Some m)"

definition shell_result :: "int \<Rightarrow> growbuf \<Rightarrow> growbuf \<Rightarrow> bytes run" where
  "shell_result exit_code out err = do {
     let (head, prefix_length) = snprintf 32
       (format_d exit_code @ [10] @ format_d (gb_length out) @ [10] @ format_d (gb_length err) @ [10]);
     size \<leftarrow> int32 (prefix_length + gb_length out);
     total \<leftarrow> int32 (size + gb_length err);
     bs \<leftarrow> load_range (map Some head @ fresh (32 - length head)) 0 (nat prefix_length);
     m \<leftarrow> copy_into (replicate (nat total) (Some 0)) 0 bs;
     m \<leftarrow> copy_output m (nat prefix_length) out;
     m \<leftarrow> copy_output m (nat size) err;
     read_cells m
   }"

definition shell_line :: "bytes \<Rightarrow> bytes \<Rightarrow> bytes \<Rightarrow> bytes run" where
  "shell_line command stdout_quoted stderr_quoted = do {
     a \<leftarrow> int32 (int (length (cstr command)) + int (length stdout_quoted));
     b \<leftarrow> int32 (a + int (length stderr_quoted));
     command_length \<leftarrow> int32 (b + 16);
     Some (cstr (fst (snprintf (nat command_length)
       (str ''('' @ cstr command @ str '') > '' @ stdout_quoted @ str '' 2> '' @ stderr_quoted))))
   }"

text \<open>The inner body: what runs once both temporary files exist.\<close>

definition run_with_files ::
    "shell_env \<Rightarrow> bytes \<Rightarrow> bytes \<Rightarrow> bytes \<Rightarrow> (int \<times> growbuf \<times> growbuf \<times> bytes option) run" where
  "run_with_files env command stdout_path stderr_path = do {
     oq \<leftarrow> mulp_shell_quote (se_alloc env) stdout_path;
     eq \<leftarrow> mulp_shell_quote (se_alloc env) stderr_path;
     case (oq, eq) of
       (Some oq, Some eq) \<Rightarrow> do {
         o_name \<leftarrow> block_cstr oq;
         e_name \<leftarrow> block_cstr eq;
         if \<not> se_alloc env (int (length (cstr command)) + int (length o_name) + int (length e_name) + 16)
         then Some (127, gb_empty, gb_empty, None)
         else do {
           line \<leftarrow> shell_line command o_name e_name;
           let (status, files) = se_system env line;
           out \<leftarrow> mulp_read_file (se_alloc env) (files stdout_path);
           err \<leftarrow> mulp_read_file (se_alloc env) (files stderr_path);
           Some (mulp_exit_code status, out, err, Some line)
         }
       }
     | _ \<Rightarrow> Some (127, gb_empty, gb_empty, None)
   }"

definition mulp_run_shell :: "shell_env \<Rightarrow> bytes \<Rightarrow> shell_outcome run" where
  "mulp_run_shell env command = do {
     let (ok1, stdout_path) = mulp_make_temp_file env (str ''mulp-stdout'');
     let (ok2, stderr_path) =
       (if ok1 then mulp_make_temp_file env (str ''mulp-stderr'') else (False, []));
     (exit_code, out, err, line) \<leftarrow>
       (if ok1 \<and> ok2 then run_with_files env command stdout_path stderr_path
        else Some (127, gb_empty, gb_empty, None));
     result \<leftarrow> shell_result exit_code out err;
     Some \<lparr>so_result = result, so_line = line,
           so_unlinked = filter (\<lambda>p. p \<noteq> []) [stdout_path, stderr_path]\<rparr>
   }"

subsection \<open>The buffer holds what was appended\<close>

lemma grow_capacity_returns:
  assumes "0 < cap" and "need \<le> 2 ^ 30"
  shows "\<exists>c. grow_capacity need cap = Some c \<and> need \<le> c \<and> cap \<le> c"
  using assms
proof (induction "nat (need - cap)" arbitrary: cap rule: less_induct)
  case less
  show ?case
  proof (cases "cap < need")
    case True
    then have "int32_ok (cap * 2)" using less.prems by (simp add: int32_ok_def)
    moreover have "nat (need - cap * 2) < nat (need - cap)" using True less.prems by linarith
    ultimately show ?thesis
      using True less.prems less.hyps [of "cap * 2"]
      by (subst grow_capacity.simps) fastforce
  qed (simp add: grow_capacity.simps)
qed

definition holds :: "growbuf \<Rightarrow> bytes \<Rightarrow> bool" where
  "holds g bs \<longleftrightarrow> g = gb_empty \<and> bs = [] \<or>
     0 < gb_capacity g \<and> gb_length g = int (length bs) \<and> int (length bs) \<le> gb_capacity g \<and>
     gb_block g = Some (filled bs (nat (gb_capacity g)))"

lemma holds_empty [simp]: "holds gb_empty []"
  by (simp add: holds_def)

lemma holds_length: "holds g bs \<Longrightarrow> gb_length g = int (length bs)"
  by (auto simp: holds_def gb_empty_def)

lemma holds_capacity: "holds g bs \<Longrightarrow> 0 \<le> gb_capacity g"
  by (auto simp: holds_def gb_empty_def)

lemma reserve_holds:
  assumes "holds g bs" and "int (length bs) < need" and "need \<le> 2 ^ 30"
  shows "\<exists>r. mulp_reserve alloc g need = Some r \<and>
    (r = gb_empty \<and> need > gb_capacity g \<and> (\<exists>n. \<not> alloc n) \<or> holds r bs \<and> need \<le> gb_capacity r)"
proof (cases "need > gb_capacity g")
  case True
  let ?c = "if gb_capacity g = 0 then 4096 else gb_capacity g"
  have pos: "0 < ?c" using holds_capacity [OF assms(1)] by simp
  obtain c where c: "grow_capacity need ?c = Some c" "need \<le> c" "?c \<le> c"
    using grow_capacity_returns [OF pos assms(3)] by blast
  let ?r = "g\<lparr>gb_block := Some (resize (gb_block g) (nat c)), gb_capacity := c\<rparr>"
  have "resize (gb_block g) (nat c) = filled bs (nat c)"
    using assms(1) c(3)
    by (auto simp: holds_def gb_empty_def fresh_filled [symmetric] resize_filled)
      (simp add: resize_def)
  then have "holds ?r bs"
    using assms(1,2) c(2,3) pos by (auto simp: holds_def gb_empty_def)
  with True c show ?thesis by (auto simp: mulp_reserve_def)
next
  case False
  with assms show ?thesis by (auto simp: mulp_reserve_def holds_def gb_empty_def)
qed

lemma append_holds:
  assumes "holds g bs" and "chunk \<noteq> []" and "length bs + length chunk \<le> 2 ^ 30"
  shows "\<exists>g'. mulp_append alloc g chunk = Some g' \<and>
    (g' = gb_empty \<and> (\<exists>n. \<not> alloc n) \<or> holds g' (bs @ chunk) \<and> gb_block g' \<noteq> None)"
proof -
  let ?need = "gb_length g + int (length chunk)"
  note len = holds_length [OF assms(1)]
  have ok: "int32_ok ?need" and lt: "int (length bs) < ?need" and le: "?need \<le> 2 ^ 30"
    using len assms(2,3) by (auto simp: int32_ok_def)
  obtain r where r: "mulp_reserve alloc g ?need = Some r"
    and cases: "r = gb_empty \<and> ?need > gb_capacity g \<and> (\<exists>n. \<not> alloc n) \<or>
      holds r bs \<and> ?need \<le> gb_capacity r"
    using reserve_holds [OF assms(1) lt le] by blast
  show ?thesis
  proof (cases "holds r bs \<and> ?need \<le> gb_capacity r")
    case True
    then have b: "gb_block r = Some (filled bs (nat (gb_capacity r)))" "gb_length r = int (length bs)"
      "length bs + length chunk \<le> nat (gb_capacity r)"
      using len assms(2) by (auto simp: holds_def gb_empty_def)
    have "int32_ok (int (length bs) + int (length chunk))" using ok len by simp
    with True r b ok len show ?thesis
      by (auto simp: mulp_append_def holds_def gb_empty_def)
  next
    case False
    with cases r ok show ?thesis by (auto simp: mulp_append_def gb_empty_def)
  qed
qed

lemma read_loop_holds:
  assumes "\<forall>n. alloc n" and "holds g bs" and "\<forall>c \<in> set chunks. c \<noteq> []"
    and "length bs + length (concat chunks) \<le> 2 ^ 30"
  shows "\<exists>g'. read_loop alloc g chunks = Some g' \<and> holds g' (bs @ concat chunks)"
  using assms(2-4)
proof (induction chunks arbitrary: g bs)
  case (Cons chunk chunks)
  then obtain g1 where g1: "mulp_append alloc g chunk = Some g1" "gb_block g1 \<noteq> None"
      "holds g1 (bs @ chunk)"
    using append_holds [of g bs chunk alloc] assms(1) by fastforce
  then show ?case using Cons.IH [OF g1(3)] Cons.prems by auto
qed auto

lemma file_chunks_props:
  "concat (file_chunks bs) = bs \<and> (\<forall>c \<in> set (file_chunks bs). c \<noteq> [] \<and> length c \<le> 4096)"
proof (induction bs rule: file_chunks.induct)
  case (1 bs)
  then show ?case by (subst (1 2) file_chunks.simps) auto
qed

lemma read_file_holds:
  assumes "\<forall>n. alloc n" and "length bs \<le> 2 ^ 30"
  shows "\<exists>g. mulp_read_file alloc (Some bs) = Some g \<and> holds g bs"
  using read_loop_holds [OF assms(1) holds_empty, of "file_chunks bs"] file_chunks_props [of bs] assms(2)
  by (simp add: mulp_read_file_def)

subsection \<open>Quoting fills its block exactly\<close>

lemma length_quoted:
  "length (quoted s) = 2 + length s + 3 * length (filter (\<lambda>c. c = 39) s)"
  by (induction s) (auto simp: quoted_def)

lemma length_quoted_le: "length (quoted s) \<le> 2 + 4 * length s"
  using length_filter_le [of "\<lambda>c. c = 39" s] by (simp add: length_quoted)

lemma quote_length_eq:
  assumes "0 \<le> len" and "len + 4 * int (length s) < 2 ^ 31"
  shows "quote_length len s = Some (len + int (length (quoted s)) - 2)"
  using assms
proof (induction s arbitrary: len)
  case (Cons c s)
  then have "int32_ok (len + (if c = 39 then 4 else 1))" by (simp add: int32_ok_def)
  then show ?case using Cons by (simp add: length_quoted)
qed (simp add: quoted_def)

lemma quote_fill_eq:
  assumes "length bs + length (quoted s) - 2 \<le> n"
  shows "quote_fill (filled bs n) (length bs) s =
    Some (filled (bs @ butlast (tl (quoted s))) n, length bs + length (quoted s) - 2)"
  using assms
proof (induction s arbitrary: bs)
  case (Cons c s)
  show ?case
  proof (cases "c = 39")
    case True
    with Cons.prems Cons.IH [of "bs @ [39, 92, 39, 39]"]
    show ?thesis by (simp add: length_quoted) (simp add: quoted_def eval_nat_numeral)
  next
    case False
    with Cons.prems Cons.IH [of "bs @ [c]"]
    show ?thesis by (simp add: length_quoted) (simp add: quoted_def)
  qed
qed (simp add: quoted_def)

lemma shell_quote_eq:
  assumes "\<forall>n. alloc n" and "2 + 4 * int (length (cstr v)) < 2 ^ 31"
  shows "mulp_shell_quote alloc v = Some (Some (map Some (quoted (cstr v) @ [0])))"
proof -
  let ?q = "quoted (cstr v)"
  define n where "n = length ?q + 1"
  obtain b where q: "?q = [39] @ b @ [39]" and b: "b = butlast (tl ?q)"
    by (simp add: quoted_def)
  have lq: "length ?q = length b + 2" by (subst q) simp
  then have n: "n = length b + 3" by (simp add: n_def)
  have len: "quote_length 2 (cstr v) = Some (int (length ?q))"
    using quote_length_eq [of 2 "cstr v"] assms(2) by simp
  have nat: "nat (int (length ?q) + 1) = n" by (simp add: n_def)
  have 1: "store_at (fresh n) 0 39 = Some (filled [39] n)"
    using store_filled [of "[]" n 39] by (simp add: fresh_filled n)
  have 2: "quote_fill (filled [39] n) 1 (cstr v) = Some (filled ([39] @ b) n, length ([39] @ b))"
    using quote_fill_eq [of "[39]" "cstr v" n] lq by (simp add: b [symmetric] n)
  have 3: "store_at (filled ([39] @ b) n) (length ([39] @ b)) 39 = Some (filled ?q n)"
    unfolding q by (subst store_filled) (simp_all add: n)
  have 4: "store_at (filled ?q n) (length ([39] @ b) + 1) 0 = Some (filled (?q @ [0]) n)"
    using store_filled [of ?q n 0] lq by (simp add: n)
  have 5: "filled (?q @ [0]) n = map Some (?q @ [0])"
    by (rule filled_full) (simp add: n_def)
  show ?thesis
    unfolding mulp_shell_quote_def len bind.bind_lunit nat 1 2 prod.case 3 4 5
    using assms(1) by simp
qed

subsection \<open>The result block\<close>

lemma exit_code_range: "0 \<le> mulp_exit_code status \<and> mulp_exit_code status \<le> 255"
proof -
  have "uint (and status 65280) \<le> 65280"
    using AND_upper2 [of "65280 :: int" "uint status"] by (simp add: unsigned_and_eq)
  then have "uint (drop_bit 8 (and status 65280)) \<le> 255"
    unfolding unsigned_drop_bit_eq unfolding drop_bit_eq_div
    by (subst take_bit_int_eq_self) simp_all
  then show ?thesis by (simp add: mulp_exit_code_def)
qed

definition zeroed :: "bytes \<Rightarrow> nat \<Rightarrow> block" where
  "zeroed bs n = map Some bs @ replicate (n - length bs) (Some 0)"

lemma copy_zeroed:
  assumes "length bs + length cs \<le> n"
  shows "copy_into (zeroed bs n) (length bs) cs = Some (zeroed (bs @ cs) n)"
proof -
  obtain k where n: "n = length bs + length cs + k"
    using assms le_iff_add by blast
  show ?thesis by (simp add: copy_into_def zeroed_def n)
qed

lemma copy_output_holds:
  assumes "holds g cs" and "length bs + length cs \<le> n"
  shows "copy_output (zeroed bs n) (length bs) g = Some (zeroed (bs @ cs) n)"
proof (cases "cs = []")
  case True
  then show ?thesis using holds_length [OF assms(1)] by (simp add: copy_output_def)
next
  case False
  with assms(1) have g: "gb_block g = Some (filled cs (nat (gb_capacity g)))"
    "gb_length g = int (length cs)" "length cs \<le> nat (gb_capacity g)"
    by (auto simp: holds_def)
  then show ?thesis using False copy_zeroed [OF assms(2)] by (simp add: copy_output_def)
qed

lemma format_d_int [simp]: "format_d (int n) = decimal n"
  by (simp add: format_d_def)

lemma prefix_fits:
  assumes "a \<le> 255" and "b < 2 ^ 31" and "c < 2 ^ 31"
  shows "length (decimal a @ [10] @ decimal b @ [10] @ decimal c @ [10 :: byte]) \<le> 26"
proof -
  have "length (decimal a :: bytes) \<le> 3" using length_decimal [of a 2] assms(1) by simp
  moreover have "length (decimal b :: bytes) \<le> 10" using length_decimal [of b 9] assms(2) by simp
  moreover have "length (decimal c :: bytes) \<le> 10" using length_decimal [of c 9] assms(3) by simp
  ultimately show ?thesis by simp
qed

lemma shell_result_eq:
  assumes "holds out o1" and "holds err e1" and "code \<le> 255"
    and "length o1 + length e1 + 26 < 2 ^ 31"
  shows "shell_result (int code) out err = Some (encode_result code o1 e1)"
proof -
  define h :: bytes where
    "h = decimal code @ [10] @ decimal (length o1) @ [10] @ decimal (length e1) @ [10]"
  define n where "n = length h + length o1 + length e1"
  have lh: "length h \<le> 26"
    unfolding h_def using assms(3,4) by (intro prefix_fits) linarith+
  have printed: "snprintf 32 (format_d (int code) @ [10] @ format_d (gb_length out) @ [10] @
      format_d (gb_length err) @ [10]) = (h @ [0], int (length h))"
    using lh holds_length [OF assms(1)] holds_length [OF assms(2)]
    by (simp add: snprintf_def h_def)
  have i1: "int32 (int (length h) + gb_length out) = Some (int (length (h @ o1)))"
    and i2: "int32 (int (length (h @ o1)) + gb_length err) = Some (int n)"
    using lh assms(4) holds_length [OF assms(1)] holds_length [OF assms(2)]
    by (simp_all add: int32_def int32_ok_def n_def)
  have l: "load_range (map Some (h @ [0]) @ fresh (32 - length (h @ [0]))) 0 (nat (int (length h))) = Some h"
    by (simp add: load_range_def)
  have 1: "copy_into (replicate (nat (int n)) (Some 0)) 0 h = Some (zeroed h n)"
    unfolding nat_int using copy_zeroed [of "[]" h n] by (simp add: n_def zeroed_def)
  have 2: "copy_output (zeroed h n) (nat (int (length h))) out = Some (zeroed (h @ o1) n)"
    using copy_output_holds [OF assms(1), of h n] by (simp add: n_def)
  have 3: "copy_output (zeroed (h @ o1) n) (nat (int (length (h @ o1)))) err =
      Some (zeroed (h @ o1 @ e1) n)"
    unfolding nat_int using copy_output_holds [OF assms(2), of "h @ o1" n] by (simp add: n_def)
  have "zeroed (h @ o1 @ e1) n = map Some (encode_result code o1 e1)"
    by (simp add: zeroed_def n_def encode_result_def h_def)
  then show ?thesis
    unfolding shell_result_def printed Let_def prod.case i1 i2 l 1 2 3 bind.bind_lunit
    by (simp only: read_cells_Some)
qed

subsection \<open>The contract of the stub\<close>

text \<open>
  An operating system that allocates, makes both temporary files and, on a given line, leaves
  a status and the two outputs in them.
\<close>

definition shell_env_ok :: "shell_env \<Rightarrow> bytes \<Rightarrow> bytes \<Rightarrow> bool" where
  "shell_env_ok env p1 p2 \<longleftrightarrow> (\<forall>n. se_alloc env n) \<and>
     se_mkstemp env (str ''/tmp/mulp-stdout-XXXXXX'') = (True, p1) \<and>
     se_mkstemp env (str ''/tmp/mulp-stderr-XXXXXX'') = (True, p2) \<and>
     p1 \<noteq> [] \<and> p2 \<noteq> [] \<and> 0 \<notin> set p1 \<and> 0 \<notin> set p2 \<and> length p1 < 256 \<and> length p2 < 256"

definition redirected :: "bytes \<Rightarrow> bytes \<Rightarrow> bytes \<Rightarrow> bytes" where
  "redirected command p1 p2 =
     str ''('' @ command @ str '') > '' @ quoted p1 @ str '' 2> '' @ quoted p2"

lemma quoted_no_0: "0 \<notin> set p \<Longrightarrow> 0 \<notin> set (quoted (p :: bytes))"
  by (induction p) (auto simp: quoted_def)

lemma shell_line_eq:
  assumes "length (cstr command) < 2 ^ 30" and "length a < 2 ^ 20" and "length b < 2 ^ 20"
    and "0 \<notin> set a" and "0 \<notin> set b"
  shows "shell_line command a b =
    Some (str ''('' @ cstr command @ str '') > '' @ a @ str '' 2> '' @ b)"
proof -
  let ?t = "str ''('' @ cstr command @ str '') > '' @ a @ str '' 2> '' @ b"
  have "cstr (?t @ [0]) = ?t"
    using assms(4,5) cstr_no_0 [of command] by (intro cstr_append_0) simp
  then show ?thesis
    using assms by (simp add: shell_line_def int32_def int32_ok_def snprintf_def)
qed

lemma run_with_files_eq:
  assumes "shell_env_ok env p1 p2" and "length (cstr command) < 2 ^ 30"
    and "se_system env (redirected (cstr command) p1 p2) = (status, files)"
    and "files p1 = Some out" and "files p2 = Some err"
    and "length out \<le> 2 ^ 30" and "length err \<le> 2 ^ 30"
  shows "\<exists>g1 g2. run_with_files env command p1 p2 =
      Some (mulp_exit_code status, g1, g2, Some (redirected (cstr command) p1 p2)) \<and>
    holds g1 out \<and> holds g2 err"
proof -
  have al: "\<forall>n. se_alloc env n" and c: "cstr p1 = p1" "cstr p2 = p2"
    and z: "0 \<notin> set (quoted p1)" "0 \<notin> set (quoted p2)"
    and l: "length p1 < 256" "length p2 < 256"
    using assms(1) by (auto simp: shell_env_ok_def cstr_id quoted_no_0)
  have q: "mulp_shell_quote (se_alloc env) p1 = Some (Some (map Some (quoted p1) @ Some 0 # []))"
    "mulp_shell_quote (se_alloc env) p2 = Some (Some (map Some (quoted p2) @ Some 0 # []))"
    using shell_quote_eq [OF al] l by (simp_all add: c)
  have "length (quoted p1) < 2 ^ 20" "length (quoted p2) < 2 ^ 20"
    using length_quoted_le [of p1] length_quoted_le [of p2] l by simp_all
  then have line: "shell_line command (quoted p1) (quoted p2) = Some (redirected (cstr command) p1 p2)"
    using shell_line_eq [OF assms(2) _ _ z] by (simp add: redirected_def)
  obtain g1 g2 where "mulp_read_file (se_alloc env) (Some out) = Some g1" "holds g1 out"
    "mulp_read_file (se_alloc env) (Some err) = Some g2" "holds g2 err"
    using read_file_holds [OF al] assms(6,7) by blast
  then show ?thesis
    using q z al line assms(3-5) by (simp add: run_with_files_def del: append_Cons)
qed

lemma run_shell_eq:
  assumes "shell_env_ok env p1 p2" and "length (cstr command) < 2 ^ 30"
    and "se_system env (redirected (cstr command) p1 p2) = (status, files)"
    and "files p1 = Some out" and "files p2 = Some err"
    and "length out + length err \<le> 2 ^ 30"
  shows "mulp_run_shell env command =
    Some \<lparr>so_result = encode_result (nat (mulp_exit_code status)) out err,
          so_line = Some (redirected (cstr command) p1 p2), so_unlinked = [p1, p2]\<rparr>"
proof -
  obtain g1 g2 where r: "run_with_files env command p1 p2 =
      Some (mulp_exit_code status, g1, g2, Some (redirected (cstr command) p1 p2))"
    and h: "holds g1 out" "holds g2 err"
    using run_with_files_eq [OF assms(1-5)] assms(6) by auto
  have "shell_result (mulp_exit_code status) g1 g2 =
      Some (encode_result (nat (mulp_exit_code status)) out err)"
    using shell_result_eq [OF h, of "nat (mulp_exit_code status)"] exit_code_range [of status] assms(6)
    by (simp add: nat_le_iff)
  moreover have "mulp_make_temp_file env (str ''mulp-stdout'') = (True, p1)"
    "mulp_make_temp_file env (str ''mulp-stderr'') = (True, p2)" "p1 \<noteq> []" "p2 \<noteq> []"
    using assms(1) by (simp_all add: shell_env_ok_def mulp_make_temp_file_def snprintf_def cstr_def)
  ultimately show ?thesis
    by (simp add: mulp_run_shell_def r)
qed

text \<open>
  The stub runs exactly the given command in a subshell with its outputs sent to
  the two temporary files: the line is never cut by the buffer it is printed into, every block
  stays within its bounds, both files are removed, and the bytes returned are the exit code,
  the two lengths and the two outputs.
\<close>

theorem mulp_run_shell_result:
  assumes "shell_env_ok env p1 p2" and "length (cstr command) < 2 ^ 30"
    and "se_system env (redirected (cstr command) p1 p2) = (status, files)"
    and "files p1 = Some out" and "files p2 = Some err"
    and "length out + length err \<le> 2 ^ 30"
  shows "mulp_run_shell env command =
    Some \<lparr>so_result = encode_result (nat (mulp_exit_code status)) out err,
          so_line = Some (redirected (cstr command) p1 p2), so_unlinked = [p1, p2]\<rparr>"
  using assms by (rule run_shell_eq)

text \<open>A concrete system, for the instances of the properties.\<close>

definition demo_env :: shell_env where
  "demo_env = \<lparr>se_alloc = (\<lambda>_. True),
     se_mkstemp = (\<lambda>t. (True, if t = str ''/tmp/mulp-stdout-XXXXXX'' then str ''/tmp/o'' else str ''/tmp/e'')),
     se_system = (\<lambda>_. (512, (\<lambda>p. if p = str ''/tmp/o'' then Some (str ''hi'') else Some (str ''!''))))\<rparr>"

lemma demo_env_ok: "shell_env_ok demo_env (str ''/tmp/o'') (str ''/tmp/e'')"
  by (simp add: shell_env_ok_def demo_env_def)

theorem mulp_run_shell_result_witness:
  "mulp_run_shell demo_env (str ''ls'') =
    Some \<lparr>so_result = str ''2'' @ [10] @ str ''2'' @ [10] @ str ''1'' @ [10] @ str ''hi!'',
          so_line = Some (str ''(ls) > '' @ [39] @ str ''/tmp/o'' @ [39] @ str '' 2> '' @ [39] @ str ''/tmp/e'' @ [39]),
          so_unlinked = [str ''/tmp/o'', str ''/tmp/e'']\<rparr>"
  using mulp_run_shell_result [OF demo_env_ok, of "str ''ls''" 512 _ "str ''hi''" "str ''!''"]
  by (simp add: demo_env_def cstr_def mulp_exit_code_def encode_result_def redirected_def quoted_def
      decimal.simps)

text \<open>
  Property C2. End to end: running a process returns its exit code and its two outputs, byte
  for byte as characters, and the shell has run the intended words.
\<close>

theorem run_process_result:
  assumes "latin1_command c" and "shell_env_ok env p1 p2" and "length (command_bytes c) < 2 ^ 30"
    and "se_system env (redirected (command_bytes c) p1 p2) = (status, files)"
    and "files p1 = Some out" and "files p2 = Some err"
    and "length out + length err \<le> 2 ^ 30"
  shows "run_process (\<lambda>b. map_option so_result (mulp_run_shell env b)) c =
      Some (Inr \<lparr>pr_exit_code = word_of_int (mulp_exit_code status), pr_stdout = widen out,
                 pr_stderr = widen err, pr_output = widen out\<rparr>) \<and>
    shell_tokens (command_bytes c) = Some (intended_tokens c)"
proof -
  let ?line = "command_line (pc_cwd c) (pc_program c # pc_args c)"
  let ?code = "nat (mulp_exit_code status)"
  have code: "?code \<le> 255" "int ?code = mulp_exit_code status"
    using exit_code_range [of status] by (simp_all add: nat_le_iff)
  have "0 \<notin> set (command_bytes c)"
    using bytes_from_ascii_no_0 [OF command_line_bytes(2) [OF assms(1)]]
    unfolding command_line_bytes(1) [OF assms(1)] .
  then have cb: "cstr (command_bytes c) = command_bytes c" by (rule cstr_id)
  have run: "mulp_run_shell env (command_bytes c) =
      Some \<lparr>so_result = encode_result ?code out err,
            so_line = Some (redirected (command_bytes c) p1 p2), so_unlinked = [p1, p2]\<rparr>"
    using run_shell_eq [OF assms(2), of "command_bytes c"] assms(3-7) by (simp add: cb)
  have wide: "widen (encode_result ?code out err) = encode_result ?code (widen out) (widen err)"
    by (simp add: encode_result_def)
  have "length (decimal ?code @ [10] @ decimal (length out) @ [10] @ decimal (length err) @ [10 :: byte]) \<le> 26"
    using code(1) assms(7) by (intro prefix_fits) simp_all
  then have "length (encode_result ?code (widen out) (widen err)) < 2 ^ 31"
    using assms(7) by (simp add: encode_result_def length_decimal_units)
  then have parsed: "parse_process_result (widen (encode_result ?code out err)) =
      Some \<lparr>pr_exit_code = of_nat ?code, pr_stdout = widen out, pr_stderr = widen err,
            pr_output = widen out\<rparr>"
    unfolding wide by (intro parse_encode_result) simp_all
  have cw: "(of_nat ?code :: 32 word) = word_of_int (mulp_exit_code status)"
    using code(2) by (metis of_int_of_nat_eq)
  note line = to_shell_command_eq [OF latin1_command_ok [OF assms(1)]]
    and bytes = command_line_bytes(1) [OF assms(1)]
  show ?thesis
    unfolding run_process_def line bytes run bind.bind_lunit option.map shell_outcome.select_convs
      ascii_from_bytes_eq parsed cw
    using tokens_of_command_bytes by blast
qed

theorem run_process_result_witness:
  "run_process (\<lambda>b. map_option so_result (mulp_run_shell demo_env b))
     \<lparr>pc_program = str ''ls'', pc_args = [], pc_cwd = None\<rparr> =
   Some (Inr \<lparr>pr_exit_code = 2, pr_stdout = str ''hi'', pr_stderr = str ''!'', pr_output = str ''hi''\<rparr>) \<and>
   shell_tokens (command_bytes \<lparr>pc_program = str ''ls'', pc_args = [], pc_cwd = None\<rparr>) =
     Some [Word (str ''ls'')]"
  using run_process_result [OF _ demo_env_ok, of "\<lparr>pc_program = str ''ls'', pc_args = [], pc_cwd = None\<rparr>"
      512 _ "str ''hi''" "str ''!''"]
  by (simp add: demo_env_def latin1_command_def command_bytes_def mulp_exit_code_def quoted_def
      intended_tokens_def word_less_nat_alt)

text \<open>
  Appending to the output buffer: for up to a gigabyte in all, the buffer holds
  the old bytes followed by the chunk, or, when an allocation fails, it is empty again.
\<close>

theorem mulp_append_holds:
  assumes "holds g bs" and "chunk \<noteq> []" and "length bs + length chunk \<le> 2 ^ 30"
  shows "\<exists>g'. mulp_append alloc g chunk = Some g' \<and>
    (g' = gb_empty \<and> (\<exists>n. \<not> alloc n) \<or> holds g' (bs @ chunk) \<and> gb_block g' \<noteq> None)"
  using assms by (rule append_holds)

theorem mulp_append_holds_witness:
  "\<exists>g'. mulp_append (\<lambda>n. n < 5000) gb_empty (str ''abc'') = Some g' \<and>
    (g' = gb_empty \<and> (\<exists>n. \<not> n < (5000::int)) \<or>
     holds g' (str ''abc'') \<and> gb_block g' \<noteq> None)"
  using mulp_append_holds [OF holds_empty, of "str ''abc''" "\<lambda>n. n < 5000"] by simp

text \<open>
  The bound is needed: past a gigabyte the doubling of the capacity leaves the
  32-bit range, which C does not define.
\<close>

theorem mulp_append_overflow:
  assumes "2 ^ 30 < need"
  shows "grow_capacity need 4096 = None"
  using assms by (simp add: grow_capacity.simps int32_def int32_ok_def)

theorem mulp_append_overflow_witness: "grow_capacity 1500000000 4096 = None"
  using mulp_append_overflow [of 1500000000] by simp

text \<open>
  The quoting of a file name fills a block of exactly the computed size, and the
  shell reads the name back as one word.
\<close>

theorem mulp_shell_quote_exact:
  assumes "\<forall>n. alloc n" and "2 + 4 * int (length (cstr v)) < 2 ^ 31"
  shows "mulp_shell_quote alloc v = Some (Some (map Some (quoted (cstr v) @ [0]))) \<and>
    shell_tokens (quoted (cstr v)) = Some [Word (cstr v)]"
  using shell_quote_eq [OF assms] lex_words [of "[cstr v]"] by (simp add: shell_tokens_def)

theorem mulp_shell_quote_exact_witness:
  "mulp_shell_quote (\<lambda>_. True) (str ''a b'' @ [39, 0, 7]) =
     Some (Some (map Some (quoted (str ''a b'' @ [39]) @ [0]))) \<and>
   shell_tokens (quoted (str ''a b'' @ [39])) = Some [Word (str ''a b'' @ [39])]"
  using mulp_shell_quote_exact [of "\<lambda>_. True" "str ''a b'' @ [39, 0, 7]"] by (simp add: cstr_def)

end
