(* ===== verification/Vinyl_Path.thy ===== *)
theory Vinyl_Path
  imports Mulp_Paths
begin

text \<open>
  Paths of virtual files (\<open>vinyl/file.mbt\<close>): the test whether a path is normal already, the
  normalisation, the history of a file's paths, and the path of a file relative to a base. The
  test is a quick way round the normalisation; both are shown to agree.
\<close>

subsection \<open>The routines\<close>

abbreviation (input) dot_segment :: mstring where
  "dot_segment \<equiv> str ''.''"

abbreviation (input) up_segment :: mstring where
  "up_segment \<equiv> str ''..''"

definition trim_slash :: "mstring \<Rightarrow> mstring run" where
  "trim_slash value = do {
     b \<leftarrow> (if length value > 1 then has_suffix value slash else Some False);
     if b then string_sub value 0 (Some (int (length value) - 1)) else Some value
   }"

text \<open>The loop of \<open>path_needs_normalize\<close>: the start of the segment and the index.\<close>

function needs_loop :: "mstring \<Rightarrow> nat \<Rightarrow> nat \<Rightarrow> bool run" where
  "needs_loop value segment_start index =
     (if index \<le> length value then do {
        at_end \<leftarrow> (if index = length value then Some True
                   else do { c \<leftarrow> unit_at value index; Some (c = slash) });
        if at_end then
          (if index = segment_start then do {
             first \<leftarrow> (if index = 0 then has_prefix value slash else Some False);
             if first then needs_loop value 1 (Suc index) else Some True
           } else do {
             segment \<leftarrow> string_sub value (int segment_start) (Some (int index));
             if segment = dot_segment \<or> segment = up_segment then Some True
             else needs_loop value (Suc index) (Suc index)
           })
        else needs_loop value segment_start (Suc index)
      } else Some False)"
  by pat_completeness auto
termination by (relation "measure (\<lambda>(value, _, index). Suc (length value) - index)") auto

declare needs_loop.simps [simp del]

definition path_needs_normalize :: "mstring \<Rightarrow> bool run" where
  "path_needs_normalize value = needs_loop value 0 0"

text \<open>One round of the loop over the segments.\<close>

definition vinyl_step :: "bool \<Rightarrow> mstring list \<Rightarrow> mstring \<Rightarrow> mstring list" where
  "vinyl_step absolute parts part =
     (if part = [] \<or> part = dot_segment then parts
      else if part = up_segment then
        (if length parts > 0 \<and> parts ! (length parts - 1) \<noteq> up_segment then butlast parts
         else if \<not> absolute then parts @ [part] else parts)
      else parts @ [part])"

definition vinyl_normalize :: "mstring \<Rightarrow> mstring run" where
  "vinyl_normalize value =
     (if value = [] then Some []
      else do {
        trimmed \<leftarrow> trim_slash value;
        needs \<leftarrow> path_needs_normalize trimmed;
        if \<not> needs then Some trimmed
        else do {
          absolute \<leftarrow> has_prefix value slash;
          raws \<leftarrow> string_split value slash;
          let joined = array_join (foldl (vinyl_step absolute) [] raws) slash in
          if absolute then Some (if joined = [] then slash else slash @ joined)
          else if joined = [] then Some dot_segment
          else trim_slash joined
        }
      })"

definition append_path :: "mstring list \<Rightarrow> mstring \<Rightarrow> mstring list run" where
  "append_path history path = do {
     normalized \<leftarrow> vinyl_normalize path;
     if normalized = [] then Some history
     else if (if length history = 0 then None else Some (history ! (length history - 1))) \<noteq> Some normalized
     then Some (history @ [normalized])
     else Some history
   }"

definition vinyl_parts :: "mstring \<Rightarrow> mstring list run" where
  "vinyl_parts path = do {
     p \<leftarrow> vinyl_normalize path;
     raws \<leftarrow> string_split p slash;
     Some (filter (\<lambda>part. part \<noteq> [] \<and> part \<noteq> dot_segment) raws)
   }"

text \<open>The loop that counts the common segments.\<close>

fun common_length :: "mstring list \<Rightarrow> mstring list \<Rightarrow> nat" where
  "common_length (b # bs) (p # ps) = (if b = p then Suc (common_length bs ps) else 0)"
| "common_length _ _ = 0"

definition relative_between :: "mstring \<Rightarrow> mstring \<Rightarrow> mstring run" where
  "relative_between base path =
     (if path = base then Some []
      else do {
        inside \<leftarrow> (if base \<noteq> slash then has_prefix path (base @ slash) else Some False);
        if inside then string_sub path (int (length base) + 1) None
        else do {
          base_parts \<leftarrow> vinyl_parts base;
          path_parts \<leftarrow> vinyl_parts path;
          let common = common_length base_parts path_parts in
          Some (array_join (replicate (length base_parts - common) up_segment @ drop common path_parts) slash)
        }
      })"

text \<open>The position of the last unit equal to a one-unit text, by a scan from the front.\<close>

function last_index_loop :: "mstring \<Rightarrow> mstring \<Rightarrow> nat \<Rightarrow> nat option \<Rightarrow> nat option run" where
  "last_index_loop value needle index found =
     (if index < length value then do {
        c \<leftarrow> unit_at value index;
        last_index_loop value needle (Suc index) (if c = needle then Some index else found)
      } else Some found)"
  by pat_completeness auto
termination by (relation "measure (\<lambda>(value, _, index, _). length value - index)") auto

declare last_index_loop.simps [simp del]

definition last_index_of :: "mstring \<Rightarrow> mstring \<Rightarrow> nat option run" where
  "last_index_of value needle = last_index_loop value needle 0 None"

subsection \<open>The quick test\<close>

lemma trim_slash_eq:
  assumes "no_surrogates v"
  shows "trim_slash v = Some (if length v > 1 \<and> suffix slash v then butlast v else v)"
proof (cases "length v > 1 \<and> suffix slash v")
  case True
  then obtain q where v: "v = q @ [47]" by (auto simp: suffix_def slash_single)
  then have "string_sub v 0 (Some (int (length q))) = Some q"
    using sub_prefix [of v "length q"] cut_ok_no_surrogates [OF assms, of 0]
      cut_ok_no_surrogates [OF assms, of "length q"] by simp
  with True show ?thesis by (simp add: trim_slash_def has_suffix_spec v)
next
  case False
  then show ?thesis by (simp add: trim_slash_def has_suffix_spec)
qed

definition odd_segment :: "mstring \<Rightarrow> bool" where
  "odd_segment s \<longleftrightarrow> s = [] \<or> s = dot_segment \<or> s = up_segment"

lemma proper_odd: "47 \<notin> set s \<Longrightarrow> proper s \<longleftrightarrow> \<not> odd_segment s"
  by (auto simp: proper_def odd_segment_def)

lemma split_at_segment:
  assumes "i < length v" and "v ! i = 47" and "st \<le> i" and "47 \<notin> set (slice v st i)"
  shows "split_on 47 (drop st v) = slice v st i # split_on 47 (drop (Suc i) v)"
proof -
  have "drop st v = take (i - st) (drop st v) @ drop (i - st) (drop st v)"
    by (simp only: append_take_drop_id)
  also have "drop (i - st) (drop st v) = drop i v" using assms(3) by simp
  also have "\<dots> = 47 # drop (Suc i) v" using assms(1,2) by (metis Cons_nth_drop_Suc)
  finally have "drop st v = slice v st i @ 47 # drop (Suc i) v" by (simp add: slice_def)
  then show ?thesis using assms(4) by (simp add: split_on_append)
qed

lemma slice_Suc: "st \<le> i \<Longrightarrow> i < length v \<Longrightarrow> slice v st (Suc i) = slice v st i @ [v ! i]"
  by (simp add: slice_def Suc_diff_le take_Suc_conv_app_nth)

lemma sub_slice: "no_surrogates v \<Longrightarrow> i \<le> j \<Longrightarrow> j \<le> length v \<Longrightarrow>
    string_sub v (int i) (Some (int j)) = Some (slice v i j)"
  by (simp add: string_sub_eq cut_ok_no_surrogates)

lemma needs_loop_end: "index > length v \<Longrightarrow> needs_loop v st index = Some False"
  by (simp add: needs_loop.simps)

lemma needs_loop_eq:
  assumes "no_surrogates v" and "st \<le> i" and "i \<le> length v" and "47 \<notin> set (slice v st i)"
    and "0 < st \<or> \<not> prefix slash v"
  shows "needs_loop v st i = Some (list_ex odd_segment (split_on 47 (drop st v)))"
  using assms(2-5)
proof (induction "length v - i" arbitrary: st i rule: less_induct)
  case less
  have sub: "string_sub v (int st) (Some (int i)) = Some (slice v st i)"
    using less.prems assms(1) by (simp add: sub_slice)
  have first: "(if i = 0 then has_prefix v slash else Some False) = Some False" if "i = st"
    using that less.prems(4) by (auto simp: run_simps)
  show ?case
  proof (cases "i = length v")
    case True
    have seg: "slice v st i = drop st v" using True by simp
    then have split: "split_on 47 (drop st v) = [drop st v]" using less.prems(3) by (simp add: split_on_absent)
    show ?thesis
    proof (cases "i = st")
      case eq: True
      then show ?thesis using True first [OF eq] split
        by (subst needs_loop.simps) (auto simp: odd_segment_def)
    next
      case False
      then have "drop st v \<noteq> []" using True less.prems(1) by auto
      then show ?thesis using False True sub seg split
        by (subst needs_loop.simps) (auto simp: odd_segment_def needs_loop_end)
    qed
  next
    case False
    then have i: "i < length v" using less.prems(2) by simp
    have unit: "unit_at v i = Some [v ! i]" using assms(1) i by (simp add: run_simps)
    show ?thesis
    proof (cases "v ! i = 47")
      case True
      have split: "split_on 47 (drop st v) = slice v st i # split_on 47 (drop (Suc i) v)"
        using i True less.prems(1,3) by (rule split_at_segment)
      show ?thesis
      proof (cases "i = st")
        case eq: True
        then have "slice v st i = []" by (simp add: slice_def)
        then show ?thesis using i True eq first [OF eq] split unit
          by (subst needs_loop.simps) (auto simp: odd_segment_def slash_single)
      next
        case ne: False
        then have ne': "slice v st i \<noteq> []" using less.prems(1) i by (simp add: slice_def)
        have "needs_loop v (Suc i) (Suc i) = Some (list_ex odd_segment (split_on 47 (drop (Suc i) v)))"
          using i by (intro less.hyps) (auto simp: slice_def)
        then show ?thesis using i True ne ne' split unit sub
          by (subst needs_loop.simps) (auto simp: odd_segment_def slash_single)
      qed
    next
      case ne: False
      have "needs_loop v st (Suc i) = Some (list_ex odd_segment (split_on 47 (drop st v)))"
        using i ne less.prems by (intro less.hyps) (auto simp: slice_Suc)
      then show ?thesis using i ne unit
        by (subst needs_loop.simps) (simp add: slash_single)
    qed
  qed
qed

text \<open>The segments the test looks at: the empty one before a leading separator is left out.\<close>

definition tested_segments :: "mstring \<Rightarrow> mstring list" where
  "tested_segments v = (if is_absolute v then tl (segments v) else segments v)"

lemma segments_absolute: "segments (47 # v) = [] # segments v"
  by (simp add: segments_def)

lemma path_needs_normalize_eq [run_simps]:
  assumes "no_surrogates v"
  shows "path_needs_normalize v = Some (list_ex odd_segment (tested_segments v))"
proof (cases "is_absolute v")
  case True
  then obtain w where v: "v = 47 # w" by (auto simp: is_absolute_def prefix_def)
  have "needs_loop v 1 1 = Some (list_ex odd_segment (split_on 47 (drop 1 v)))"
    using assms by (intro needs_loop_eq) (auto simp: v slice_def)
  moreover have "needs_loop v 0 0 = needs_loop v 1 (Suc 0)"
    using assms by (subst needs_loop.simps) (simp add: run_simps v slash_single del: no_surrogates_Cons)
  ultimately show ?thesis
    using True by (simp add: path_needs_normalize_def tested_segments_def v segments_def)
next
  case False
  have "needs_loop v 0 0 = Some (list_ex odd_segment (split_on 47 (drop 0 v)))"
    using assms False by (intro needs_loop_eq) (auto simp: slice_def is_absolute_def slash_single)
  with False show ?thesis
    by (simp add: path_needs_normalize_def tested_segments_def segments_def)
qed

subsection \<open>Normal paths\<close>

text \<open>
  The segments of a normal path: some \<open>..\<close>, only when it is relative, and then names.
\<close>

definition normal_parts :: "bool \<Rightarrow> mstring list \<Rightarrow> bool" where
  "normal_parts absolute ps \<longleftrightarrow>
     (\<exists>k names. ps = replicate k up_segment @ names \<and> list_all proper names \<and> (absolute \<longrightarrow> k = 0))"

definition render_path :: "bool \<Rightarrow> mstring list \<Rightarrow> mstring" where
  "render_path absolute ps = (if \<not> absolute \<and> ps = [] then dot_segment else render absolute ps)"

definition normal_path :: "mstring \<Rightarrow> bool" where
  "normal_path p \<longleftrightarrow> p = [] \<or> (\<exists>a ps. normal_parts a ps \<and> p = render_path a ps)"

lemma normal_partsI: "list_all proper names \<Longrightarrow> normal_parts a names"
  unfolding normal_parts_def by (rule exI [of _ 0]) simp

lemma proper_not_up: "proper s \<Longrightarrow> s \<noteq> up_segment"
  by (simp add: proper_def)

lemma step_ups:
  assumes "list_all proper names"
  shows "vinyl_step a (replicate k up_segment @ names) up_segment =
    (if names \<noteq> [] then replicate k up_segment @ butlast names
     else if a then replicate k up_segment else replicate (Suc k) up_segment)"
proof (cases names rule: rev_cases)
  case Nil
  have ne: "(up_segment :: mstring) \<noteq> []" "(up_segment :: mstring) \<noteq> dot_segment" by simp_all
  show ?thesis
    unfolding vinyl_step_def Nil using ne
    by (cases "k = 0") (simp_all add: replicate_append_same del: str_Cons)
next
  case (snoc ns n)
  then have "n \<noteq> up_segment" using assms by (auto dest: proper_not_up)
  then show ?thesis using snoc by (auto simp: vinyl_step_def nth_append butlast_append)
qed

lemma step_normal:
  assumes "normal_parts a ps" and "47 \<notin> set s"
  shows "normal_parts a (vinyl_step a ps s)"
proof -
  obtain k names where ps: "ps = replicate k up_segment @ names" "list_all proper names" "a \<longrightarrow> k = 0"
    using assms(1) by (auto simp: normal_parts_def)
  show ?thesis
  proof (cases "odd_segment s")
    case True
    then consider "s = [] \<or> s = dot_segment" | "s = up_segment" by (auto simp: odd_segment_def)
    then show ?thesis
    proof cases
      case 1
      then show ?thesis using assms(1) by (auto simp: vinyl_step_def)
    next
      case 2
      have "list_all proper (butlast names)" using ps(2) by (auto simp: list_all_iff dest: in_set_butlastD)
      then show ?thesis
        unfolding 2 ps(1) step_ups [OF ps(2)] using ps(3)
        by (cases "names = []"; cases a)
          (auto simp: normal_parts_def intro: exI [of _ "[]"] exI [of _ "Suc k"])
    qed
  next
    case False
    then have "proper s" using assms(2) by (simp add: proper_odd)
    then have "list_all proper (names @ [s])" using ps(2) by simp
    moreover have "vinyl_step a ps s = replicate k up_segment @ names @ [s]"
      using False ps(1) by (auto simp: vinyl_step_def odd_segment_def)
    ultimately show ?thesis using ps(3) unfolding normal_parts_def by blast
  qed
qed

lemma foldl_normal:
  "normal_parts a ps \<Longrightarrow> \<forall>s \<in> set ss. 47 \<notin> set s \<Longrightarrow> normal_parts a (foldl (vinyl_step a) ps ss)"
  by (induction ss arbitrary: ps) (auto simp: step_normal)

lemma foldl_proper: "list_all proper ss \<Longrightarrow> foldl (vinyl_step a) ps ss = ps @ ss"
  by (induction ss arbitrary: ps) (auto simp: vinyl_step_def proper_def)

lemma foldl_ups: "foldl (vinyl_step False) (replicate j up_segment) (replicate k up_segment) = replicate (j + k) up_segment"
proof (induction k arbitrary: j)
  case (Suc k)
  have "vinyl_step False (replicate j up_segment) up_segment = replicate (Suc j) up_segment"
    using step_ups [of "[]" False j] by simp
  then show ?case using Suc [of "Suc j"] by simp
qed simp

lemma foldl_normal_id: "normal_parts a ps \<Longrightarrow> foldl (vinyl_step a) [] ps = ps"
  using foldl_ups [of 0] by (cases a) (auto simp: normal_parts_def foldl_proper)

lemma foldl_subset: "set (foldl (vinyl_step a) ps ss) \<subseteq> set ps \<union> set ss"
proof (induction ss arbitrary: ps)
  case (Cons s ss)
  have "set (vinyl_step a ps s) \<subseteq> set ps \<union> {s}"
    by (auto simp: vinyl_step_def dest: in_set_butlastD)
  with Cons [of "vinyl_step a ps s"] show ?case by auto
qed simp

lemma normal_parts_free: "normal_parts a ps \<Longrightarrow> s \<in> set ps \<Longrightarrow> s \<noteq> [] \<and> 47 \<notin> set s"
  unfolding normal_parts_def by (fastforce simp: list_all_iff proper_def)

lemma normal_parts_not_dot: "normal_parts a ps \<Longrightarrow> s \<in> set ps \<Longrightarrow> s \<noteq> dot_segment"
  unfolding normal_parts_def by (fastforce simp: list_all_iff proper_def)

definition path_parts_of :: "mstring \<Rightarrow> mstring list" where
  "path_parts_of v = foldl (vinyl_step (is_absolute v)) [] (segments v)"

lemma path_parts_of_normal: "normal_parts (is_absolute v) (path_parts_of v)"
  unfolding path_parts_of_def
  by (intro foldl_normal) (auto simp: normal_parts_def dest: segments_free)

lemma join_last:
  assumes "ps \<noteq> []" and "\<forall>s \<in> set ps. s \<noteq> [] \<and> 47 \<notin> set s"
  shows "join_with [47] ps \<noteq> []" and "\<not> suffix [47] (join_with [47] ps)"
proof -
  have "join_with [47] ps \<noteq> [] \<and> last (join_with [47] ps) \<noteq> 47"
    using assms
  proof (induction ps rule: induct_list012)
    case (2 x)
    then show ?case by (metis join_with.simps(2) last_in_set list.set_intros(1))
  qed auto
  then show "join_with [47] ps \<noteq> []" and "\<not> suffix [47] (join_with [47] ps)"
    by (auto simp: suffix_def)
qed

lemma no_surrogates_join_parts:
  "\<forall>p \<in> set ps. no_surrogates p \<Longrightarrow> no_surrogates (join_with [47] ps)"
  by (induction ps rule: induct_list012) (auto simp: is_leading_surrogate_def)

lemma no_surrogates_parts_of:
  assumes "no_surrogates v" and "p \<in> set (path_parts_of v)"
  shows "no_surrogates p"
proof -
  have "p \<in> set (segments v)" using assms(2) foldl_subset [of "is_absolute v" "[]"] by (auto simp: path_parts_of_def)
  then show ?thesis using assms(1) no_surrogates_split unfolding segments_def by blast
qed

lemma slow_normalize:
  assumes "no_surrogates v"
  shows "(if is_absolute v
      then Some (if join_with [47] (path_parts_of v) = [] then slash else slash @ join_with [47] (path_parts_of v))
      else if join_with [47] (path_parts_of v) = [] then Some dot_segment
      else trim_slash (join_with [47] (path_parts_of v))) =
    Some (render_path (is_absolute v) (path_parts_of v))"
proof -
  have free: "\<forall>s \<in> set (path_parts_of v). s \<noteq> [] \<and> 47 \<notin> set s"
    using normal_parts_free [OF path_parts_of_normal] by blast
  have "trim_slash (join_with [47] (path_parts_of v)) = Some (join_with [47] (path_parts_of v))"
    if "path_parts_of v \<noteq> []"
    using join_last(2) [OF that free] no_surrogates_join_parts no_surrogates_parts_of [OF assms]
    by (subst trim_slash_eq) (auto simp: slash_single)
  then show ?thesis
    using join_last(1) [OF _ free]
    by (cases "path_parts_of v = []") (auto simp: render_path_def render_def slash_single)
qed

lemma segments_snoc: "segments (q @ [47]) = segments q @ [[]]"
proof -
  have "split_on 47 (q @ [47]) = split_on 47 q @ [[]]"
    by (induction q) (auto split: list.split)
  then show ?thesis by (simp add: segments_def)
qed

lemma render_tested:
  assumes "list_all proper (tested_segments v)"
  shows "foldl (vinyl_step (is_absolute v)) [] (segments v) = tested_segments v"
    and "render_path (is_absolute v) (tested_segments v) = v"
proof -
  have seg: "segments v = (if is_absolute v then [[]] else []) @ tested_segments v"
    by (auto simp: tested_segments_def is_absolute_def prefix_def segments_absolute)
  then show "foldl (vinyl_step (is_absolute v)) [] (segments v) = tested_segments v"
    using assms by (auto simp: foldl_proper vinyl_step_def)
  have ne: "tested_segments v \<noteq> []"
    by (auto simp: tested_segments_def is_absolute_def prefix_def segments_absolute)
       (simp_all add: segments_def)
  have "join_with [47] (segments v) = v" by (simp add: segments_def join_split_on)
  then show "render_path (is_absolute v) (tested_segments v) = v"
    using ne seg by (auto simp: render_path_def render_def join_with_Cons split: if_splits)
qed

lemma fast_normalize:
  assumes "v \<noteq> []" and t: "t = (if length v > 1 \<and> suffix slash v then butlast v else v)"
    and "\<not> list_ex odd_segment (tested_segments t)"
  shows "render_path (is_absolute v) (path_parts_of v) = t"
proof -
  have free: "47 \<notin> set s" if "s \<in> set (tested_segments t)" for s
    using that segments_free [of s t] by (cases "segments t") (auto simp: tested_segments_def split: if_splits)
  have proper: "list_all proper (tested_segments t)"
    using assms(3) free by (auto simp: list_all_iff list_ex_iff proper_odd)
  have abs: "is_absolute t = is_absolute v"
    by (auto simp: t is_absolute_def prefix_def suffix_def slash_single)
  have "path_parts_of v = tested_segments t"
  proof (cases "length v > 1 \<and> suffix slash v")
    case True
    then obtain q where v: "v = q @ [47]" by (auto simp: suffix_def slash_single)
    then have "t = q" using True by (simp add: t)
    then show ?thesis
      using render_tested(1) [OF proper] abs by (simp add: path_parts_of_def v segments_snoc vinyl_step_def)
  next
    case False
    then have "t = v" by (auto simp: t)
    then show ?thesis using render_tested(1) [OF proper] by (simp add: path_parts_of_def)
  qed
  then show ?thesis using render_tested(2) [OF proper] abs by simp
qed

lemma no_surrogates_butlast: "no_surrogates v \<Longrightarrow> no_surrogates (butlast v)"
  by (auto simp: no_surrogates_def dest: in_set_butlastD)

text \<open>Both ways through the normalisation give the same path: the rendered resolved segments.\<close>

lemma vinyl_normalize_eq [run_simps]:
  assumes "no_surrogates v"
  shows "vinyl_normalize v = Some (if v = [] then [] else render_path (is_absolute v) (path_parts_of v))"
proof (cases "v = []")
  case False
  define t where "t = (if length v > 1 \<and> suffix slash v then butlast v else v)"
  have t: "trim_slash v = Some t" using trim_slash_eq [OF assms] by (simp add: t_def)
  have "no_surrogates t" using assms no_surrogates_butlast by (simp add: t_def)
  then have quick: "path_needs_normalize t = Some (list_ex odd_segment (tested_segments t))"
    by (rule path_needs_normalize_eq)
  show ?thesis
  proof (cases "list_ex odd_segment (tested_segments t)")
    case True
    have "vinyl_normalize v = (let joined = join_with [47] (path_parts_of v) in
        if is_absolute v then Some (if joined = [] then slash else slash @ joined)
        else if joined = [] then Some dot_segment else trim_slash joined)"
      using False True
      by (simp add: vinyl_normalize_def t quick has_prefix_spec slash_single string_split_single
          array_join_eq path_parts_of_def segments_def is_absolute_def)
    with False slow_normalize [OF assms] show ?thesis by (simp add: Let_def)
  next
    case quick_way: False
    then have "vinyl_normalize v = Some t" using False by (simp add: vinyl_normalize_def t quick)
    with False fast_normalize [OF False t_def quick_way] show ?thesis by simp
  qed
qed (simp add: vinyl_normalize_def)

lemma segments_join:
  assumes "ps \<noteq> []" and "\<forall>s \<in> set ps. 47 \<notin> set s"
  shows "segments (join_with [47] ps) = ps"
  unfolding segments_def using assms by (rule split_on_join)

lemma parts_of_render:
  assumes "normal_parts a ps"
  shows "is_absolute (render_path a ps) = a" and "path_parts_of (render_path a ps) = ps"
    and "render_path a ps \<noteq> []"
proof -
  have free: "\<forall>s \<in> set ps. s \<noteq> [] \<and> 47 \<notin> set s" using normal_parts_free [OF assms] by blast
  show abs: "is_absolute (render_path a ps) = a"
  proof (cases ps)
    case (Cons s rest)
    then obtain c cs where "s = c # cs" "c \<noteq> 47" using free by (cases s) auto
    then show ?thesis using Cons by (cases rest) (auto simp: is_absolute_def render_path_def render_def)
  qed (auto simp: is_absolute_def render_path_def render_def)
  show "path_parts_of (render_path a ps) = ps"
  proof (cases "ps = []")
    case True
    then show ?thesis unfolding path_parts_of_def abs
      by (auto simp: render_path_def render_def segments_def vinyl_step_def)
  next
    case False
    then have "segments (render_path a ps) = (if a then [[]] else []) @ ps"
      using segments_join [OF False] free by (auto simp: render_path_def render_def segments_absolute)
    moreover have "foldl (vinyl_step a) [] ((if a then [[]] else []) @ ps) = ps"
      using foldl_normal_id [OF assms] by (auto simp: vinyl_step_def)
    ultimately show ?thesis unfolding path_parts_of_def abs by simp
  qed
  show "render_path a ps \<noteq> []"
    using join_last(1) [OF _ free] by (auto simp: render_path_def render_def)
qed

lemma no_surrogates_render_path: "\<forall>p \<in> set ps. no_surrogates p \<Longrightarrow> no_surrogates (render_path a ps)"
  using no_surrogates_join_parts [of ps]
  by (auto simp: render_path_def render_def is_leading_surrogate_def is_trailing_surrogate_def)

lemma vinyl_normalize_render [run_simps]:
  "normal_parts a ps \<Longrightarrow> no_surrogates (render_path a ps) \<Longrightarrow>
   vinyl_normalize (render_path a ps) = Some (render_path a ps)"
  by (simp add: vinyl_normalize_eq parts_of_render)

lemma vinyl_normalize_normal: "normal_path p \<Longrightarrow> no_surrogates p \<Longrightarrow> vinyl_normalize p = Some p"
  unfolding normal_path_def by (auto simp: vinyl_normalize_render) (simp add: vinyl_normalize_def)

lemma vinyl_normalize_form:
  assumes "no_surrogates v"
  shows "\<exists>p. vinyl_normalize v = Some p \<and> normal_path p \<and> no_surrogates p \<and> (p = [] \<longleftrightarrow> v = [])"
proof -
  have "no_surrogates (render_path (is_absolute v) (path_parts_of v))"
    using no_surrogates_render_path no_surrogates_parts_of [OF assms] by blast
  then show ?thesis
    using path_parts_of_normal [of v] parts_of_render(3) [OF path_parts_of_normal]
    by (auto simp: vinyl_normalize_eq assms normal_path_def)
qed

text \<open>
  Property C19. Normalisation returns for every path without surrogates. What it returns is in normal form, so
  that normalising it again changes nothing.
\<close>
theorem vinyl_normalize_idempotent:
  assumes "no_surrogates v"
  shows "\<exists>p. vinyl_normalize v = Some p \<and> normal_path p \<and> vinyl_normalize p = Some p"
  using vinyl_normalize_form [OF assms] vinyl_normalize_normal by blast

theorem vinyl_normalize_idempotent_witness:
  "\<exists>p. vinyl_normalize (str ''a//b/../c/'') = Some p \<and> normal_path p \<and> vinyl_normalize p = Some p"
  by (rule vinyl_normalize_idempotent) (simp add: is_leading_surrogate_def is_trailing_surrogate_def)

text \<open>
  Paths with characters beyond the basic plane: the loops read a path one unit at a time, and a
  unit that is the first half of a pair cannot be cut off. A name with such a character aborts.
\<close>

lemma unit_at_pair: "i < length s \<Longrightarrow> Suc i < length s \<Longrightarrow> is_trailing_surrogate (s ! Suc i) \<Longrightarrow> unit_at s i = None"
  by (simp add: unit_at_def string_sub_def Let_def nat_add_distrib)

lemma normalize_pair_aborts:
  "vinyl_normalize (str ''a'' @ [55357, 56832] @ str ''.txt'') = None"
proof -
  have "unit_at (str ''a'' @ [55357, 56832] @ str ''.txt'') 1 = None"
    by (intro unit_at_pair) (simp_all add: is_trailing_surrogate_def)
  moreover have "unit_at (str ''a'' @ [55357, 56832] @ str ''.txt'') 0 = Some (str ''a'')"
    by (simp add: unit_at_def string_sub_def slice_def is_trailing_surrogate_def)
  ultimately have "path_needs_normalize (str ''a'' @ [55357, 56832] @ str ''.txt'') = None"
    unfolding path_needs_normalize_def
    by (subst needs_loop.simps, subst needs_loop.simps) (simp add: slash_def)
  moreover have "trim_slash (str ''a'' @ [55357, 56832] @ str ''.txt'') = Some (str ''a'' @ [55357, 56832] @ str ''.txt'')"
    by (simp add: trim_slash_def has_suffix_spec slash_def suffix_def)
  ultimately show ?thesis by (simp add: vinyl_normalize_def)
qed

subsection \<open>Relative paths\<close>

lemma vinyl_parts_render:
  assumes "normal_parts a ps" and "no_surrogates (render_path a ps)"
  shows "vinyl_parts (render_path a ps) = Some ps"
proof (cases "ps = []")
  case True
  then show ?thesis using vinyl_normalize_render [OF assms]
    by (cases a) (simp_all add: vinyl_parts_def render_path_def render_def slash_single run_simps)
next
  case False
  have free: "s \<noteq> [] \<and> 47 \<notin> set s \<and> s \<noteq> dot_segment" if "s \<in> set ps" for s
    using normal_parts_free [OF assms(1) that] normal_parts_not_dot [OF assms(1) that] by blast
  have "split_on 47 (render_path a ps) = (if a then [[]] else []) @ ps"
    using segments_join [OF False] free False
    by (auto simp: render_path_def render_def segments_def)
  moreover have "filter (\<lambda>part. part \<noteq> [] \<and> part \<noteq> dot_segment) ps = ps"
    using free by (simp add: filter_id_conv)
  ultimately show ?thesis using vinyl_normalize_render [OF assms]
    by (simp add: vinyl_parts_def slash_single string_split_single)
qed

lemma common_length_take: "take (common_length bs ps) bs = take (common_length bs ps) ps"
  by (induction bs ps rule: common_length.induct) auto

lemma common_length_le: "common_length bs ps \<le> length bs" "common_length bs ps \<le> length ps"
  by (induction bs ps rule: common_length.induct) auto

lemma foldl_up_absolute:
  assumes "list_all proper bs" and "k \<le> length bs"
  shows "foldl (vinyl_step True) bs (replicate k up_segment) = take (length bs - k) bs"
  using assms
proof (induction k arbitrary: bs)
  case (Suc k)
  then have ne: "bs \<noteq> []" by auto
  have "vinyl_step True bs up_segment = butlast bs"
    using step_ups [OF Suc.prems(1), of True 0] ne by simp
  moreover have "list_all proper (butlast bs)"
    using Suc.prems(1) by (auto simp: list_all_iff dest: in_set_butlastD)
  ultimately show ?case using Suc.IH [of "butlast bs"] Suc.prems(2) ne
    by (simp add: butlast_conv_take)
qed simp

lemma segments_append: "segments (p @ 47 # q) = segments p @ segments q"
proof -
  have "split_on 47 (p @ 47 # q) = split_on 47 p @ split_on 47 q"
    by (induction p) (auto split: list.split)
  then show ?thesis by (simp add: segments_def)
qed

lemma render_absolute: "render_path True ps = 47 # join_with [47] ps"
  by (simp add: render_path_def render_def)

text \<open>Joining a base and a path to it, resolved: the parts of the base come first.\<close>

lemma parts_of_joined:
  assumes "list_all proper bs"
  shows "path_parts_of (render_path True bs @ slash @ r) = foldl (vinyl_step True) bs (segments r)"
proof -
  have "segments (render_path True bs @ slash @ r) = [] # segments (join_with [47] bs) @ segments r"
    by (simp add: render_absolute slash_single segments_append segments_absolute)
  moreover have "foldl (vinyl_step True) [] (segments (join_with [47] bs)) = bs"
    using parts_of_render(1,2) [OF normal_partsI [OF assms], of True]
    by (simp add: path_parts_of_def render_absolute segments_absolute vinyl_step_def)
  moreover have "is_absolute (render_path True bs @ slash @ r)"
    by (simp add: render_absolute is_absolute_def)
  ultimately show ?thesis by (simp add: path_parts_of_def vinyl_step_def)
qed

lemma relative_between_ups:
  assumes "list_all proper bs" and "list_all proper ps"
    and "r = join_with [47] (replicate (length bs - common_length bs ps) up_segment @ drop (common_length bs ps) ps)"
  shows "foldl (vinyl_step True) bs (segments r) = ps"
proof -
  let ?n = "common_length bs ps"
  let ?rel = "replicate (length bs - ?n) up_segment @ drop ?n ps"
  have free: "\<forall>s \<in> set ?rel. 47 \<notin> set s"
  proof
    fix s assume "s \<in> set ?rel"
    then have "s = up_segment \<or> s \<in> set ps" by (auto simp del: str_Cons dest: in_set_dropD)
    then show "47 \<notin> set s" using proper_free [OF assms(2)] by auto
  qed
  have "foldl (vinyl_step True) bs (segments r) = foldl (vinyl_step True) bs ?rel"
  proof (cases "?rel = []")
    case True
    then have "r = []" using assms(3) by simp
    then show ?thesis unfolding True by (simp add: segments_def vinyl_step_def)
  next
    case False
    then show ?thesis using segments_join [OF False free] assms(3) by simp
  qed
  also have "\<dots> = foldl (vinyl_step True) (take ?n bs) (drop ?n ps)"
  proof -
    have "foldl (vinyl_step True) bs (replicate (length bs - ?n) up_segment) = take ?n bs"
      using foldl_up_absolute [OF assms(1), of "length bs - ?n"] common_length_le(1) [of bs ps] by simp
    then show ?thesis by (simp only: foldl_append)
  qed
  also have "\<dots> = take ?n bs @ drop ?n ps"
    using assms(2) by (intro foldl_proper) (auto simp: list_all_iff dest: in_set_dropD)
  also have "\<dots> = ps" by (metis append_take_drop_id common_length_take)
  finally show ?thesis .
qed

lemma no_surrogates_slash [simp]: "no_surrogates slash"
  by (simp add: slash_single is_leading_surrogate_def is_trailing_surrogate_def)

lemma no_surrogates_up: "no_surrogates up_segment"
  by (simp add: is_leading_surrogate_def is_trailing_surrogate_def)

lemma relative_between_absolute:
  assumes bs: "list_all proper bs" and ps: "list_all proper ps"
    and sb: "no_surrogates (render_path True bs)" and sp: "no_surrogates (render_path True ps)"
  shows "\<exists>r. relative_between (render_path True bs) (render_path True ps) = Some r \<and> no_surrogates r \<and>
    path_parts_of (render_path True bs @ slash @ r) = ps"
proof -
  let ?b = "render_path True bs" and ?p = "render_path True ps"
  consider "?p = ?b" | "?p \<noteq> ?b" "?b \<noteq> slash \<and> prefix (?b @ slash) ?p" | "?p \<noteq> ?b" "\<not> (?b \<noteq> slash \<and> prefix (?b @ slash) ?p)"
    by blast
  then show ?thesis
  proof cases
    case 1
    then have "ps = bs" using parts_of_render(2) normal_partsI bs ps by metis
    then have "path_parts_of (?b @ slash @ []) = ps"
      using parts_of_joined [OF bs, of "[]"] by (simp add: segments_def vinyl_step_def)
    with 1 show ?thesis by (auto simp: relative_between_def)
  next
    case 2
    then obtain r where p: "?p = ?b @ slash @ r" by (auto simp: prefix_def)
    have "string_sub ?p (int (length ?b + 1)) None = Some (drop (length ?b + 1) ?p)"
      using p sp cut_ok_no_surrogates [of ?p "length ?b + 1"]
      by (subst string_sub_from) (auto simp: slash_single)
    then have "relative_between ?b ?p = Some r"
      using 2 p by (simp add: relative_between_def has_prefix_spec slash_single add.commute)
    moreover have "no_surrogates r" using sp unfolding p by simp
    moreover have "path_parts_of (?b @ slash @ r) = ps"
      using parts_of_render(2) [OF normal_partsI [OF ps]] p by metis
    ultimately show ?thesis by blast
  next
    case 3
    let ?r = "join_with [47] (replicate (length bs - common_length bs ps) up_segment @ drop (common_length bs ps) ps)"
    have "relative_between ?b ?p = Some ?r"
      using 3 vinyl_parts_render [OF normal_partsI [OF bs] sb] vinyl_parts_render [OF normal_partsI [OF ps] sp]
      by (auto simp: relative_between_def has_prefix_spec array_join_eq slash_single Let_def)
    moreover have "no_surrogates ?r"
      using no_surrogates_parts_of [OF sp] parts_of_render(2) [OF normal_partsI [OF ps], of True] no_surrogates_up
      by (intro no_surrogates_join_parts) (auto dest: in_set_dropD)
    moreover have "path_parts_of (?b @ slash @ ?r) = ps"
      using parts_of_joined [OF bs] relative_between_ups [OF bs ps refl] by simp
    ultimately show ?thesis by blast
  qed
qed

text \<open>
  Property C18. The path of a file relative to a base leads back to the file: for normal absolute paths, joined to
  the base and normalised it gives the path, whether the file is below the base or elsewhere.
\<close>
theorem relative_leads_back:
  assumes "list_all proper bs" and "list_all proper ps"
    and "no_surrogates (render_path True bs)" and "no_surrogates (render_path True ps)"
  shows "\<exists>r. relative_between (render_path True bs) (render_path True ps) = Some r \<and>
    vinyl_normalize (render_path True bs @ slash @ r) = Some (render_path True ps)"
proof -
  obtain r where r: "relative_between (render_path True bs) (render_path True ps) = Some r"
    "no_surrogates r" "path_parts_of (render_path True bs @ slash @ r) = ps"
    using relative_between_absolute [OF assms] by blast
  have "is_absolute (render_path True bs @ slash @ r)" by (simp add: render_absolute is_absolute_def)
  then have "vinyl_normalize (render_path True bs @ slash @ r) = Some (render_path True ps)"
    using r(2,3) assms(3) by (subst vinyl_normalize_eq) (auto simp: is_leading_surrogate_def slash_single)
  with r(1) show ?thesis by blast
qed

theorem relative_leads_back_witness:
  "\<exists>r. relative_between (render_path True [str ''w'', str ''src'']) (render_path True [str ''w'', str ''a.txt'']) = Some r \<and>
    vinyl_normalize (render_path True [str ''w'', str ''src''] @ slash @ r) = Some (render_path True [str ''w'', str ''a.txt''])"
  by (rule relative_leads_back)
    (simp_all add: proper_def render_absolute is_leading_surrogate_def is_trailing_surrogate_def)

subsection \<open>The last position of a unit\<close>

lemma last_index_loop_eq:
  assumes "no_surrogates v" and "i \<le> length v"
  shows "last_index_loop v [c] i found =
    Some (case last_occ (drop i v) [c] of None \<Rightarrow> found | Some j \<Rightarrow> Some (i + j))"
  using assms(2)
proof (induction "length v - i" arbitrary: i found rule: less_induct)
  case less
  show ?case
  proof (cases "i < length v")
    case False
    moreover have "last_occ [] [c] = None" by (simp add: last_occ_None_iff occurs_at_single)
    ultimately show ?thesis using less.prems
      by (subst last_index_loop.simps) simp
  next
    case True
    have IH: "last_index_loop v [c] (Suc i) f =
        Some (case last_occ (drop (Suc i) v) [c] of None \<Rightarrow> f | Some j \<Rightarrow> Some (Suc i + j))" for f
      using True by (intro less.hyps) auto
    have d: "drop i v = v ! i # drop (Suc i) v" using True by (rule Cons_nth_drop_Suc [symmetric])
    have step: "last_occ (x # xs) [c] =
        (case last_occ xs [c] of None \<Rightarrow> (if x = c then Some 0 else None) | Some j \<Rightarrow> Some (Suc j))"
      for x :: code_unit and xs
    proof (cases "last_occ xs [c]")
      case None
      have absent: "xs ! j \<noteq> c" if "j < length xs" for j
      proof -
        have "\<not> occurs_at xs [c] j" using None that less_imp_le last_occ_None_iff by metis
        then show ?thesis using that by (simp add: occurs_at_single)
      qed
      have "last_occ (x # xs) [c] = (if x = c then Some 0 else None)"
        using absent
        by (auto simp: last_occ_Some_iff last_occ_None_iff occurs_at_single nth_Cons le_less split: nat.splits)
      with None show ?thesis by simp
    next
      case (Some j)
      then have "last_occ (x # xs) [c] = Some (Suc j)"
        by (auto simp: last_occ_Some_iff occurs_at_single nth_Cons split: nat.splits)
      with Some show ?thesis by simp
    qed
    have "last_index_loop v [c] i found = last_index_loop v [c] (Suc i) (if v ! i = c then Some i else found)"
      using True assms(1) by (subst last_index_loop.simps) (simp add: unit_at_eq)
    then show ?thesis using IH unfolding d step by (auto split: option.split)
  qed
qed

lemma last_index_of_eq [run_simps]:
  "no_surrogates v \<Longrightarrow> last_index_of v [c] = Some (last_occ v [c])"
  by (simp add: last_index_of_def last_index_loop_eq split: option.split)

end
