(* ===== verification/Vinyl_Codecs.thy ===== *)
theory Vinyl_Codecs
  imports Utf8 Glob Vinyl_Path
begin

text \<open>
  The text encodings of virtual files (\<open>vinyl_fs/codecs.mbt\<close>) and base64 (\<open>vinyl_fs/sourcemap.mbt\<close>):
  UTF-8 with and without its mark, and UTF-16 in both orders of bytes.
\<close>

datatype text_encoding = UTF8 | Raw | Charset mstring

subsection \<open>The byte order mark\<close>

definition has_utf8_bom :: "bytes \<Rightarrow> bool" where
  "has_utf8_bom bs =
     (if length bs \<ge> 3 then
        (if bs ! 0 = 239 then (if bs ! 1 = 187 then bs ! 2 = 191 else False) else False)
      else False)"

definition strip_utf8_bom :: "bytes \<Rightarrow> bytes" where
  "strip_utf8_bom bs =
     (if has_utf8_bom bs then map (\<lambda>index. bs ! (index + 3)) [0..<length bs - 3] else bs)"

subsection \<open>UTF-16\<close>

fun string_from_array :: "mstring \<Rightarrow> int list \<Rightarrow> mstring run" where
  "string_from_array buf [] = Some buf"
| "string_from_array buf (c # cs) = do { buf \<leftarrow> write_char buf c; string_from_array buf cs }"

text \<open>
  The loop of both decoders, with the index and the characters so far: the decoders differ in how two
  bytes make a unit. A byte without a partner at the end is dropped.
\<close>

function pair_chars :: "(int \<Rightarrow> int \<Rightarrow> int) \<Rightarrow> bytes \<Rightarrow> nat \<Rightarrow> int list \<Rightarrow> int list" where
  "pair_chars join2 bs i chars =
     (if i + 1 < length bs
      then pair_chars join2 bs (i + 2) (chars @ [join2 (uint (bs ! i)) (uint (bs ! (i + 1)))])
      else chars)"
  by pat_completeness auto
termination by (relation "measure (\<lambda>(_, bs, i, _). length bs - i)") auto

declare pair_chars.simps [simp del]

definition utf16le_to_utf8 :: "bytes \<Rightarrow> mstring run" where
  "utf16le_to_utf8 bs =
     (let start = (if (if length bs \<ge> 2 then (if bs ! 0 = 255 then bs ! 1 = 254 else False) else False) then 2 else 0)
      in string_from_array [] (pair_chars (\<lambda>low high. high * 256 + low) bs start []))"

definition utf16be_to_utf8 :: "bytes \<Rightarrow> mstring run" where
  "utf16be_to_utf8 bs =
     (let start = (if (if length bs \<ge> 2 then (if bs ! 0 = 254 then bs ! 1 = 255 else False) else False) then 2 else 0)
      in string_from_array [] (pair_chars (\<lambda>high low. high * 256 + low) bs start []))"

text \<open>Two bytes for every character, whatever its size.\<close>

definition utf8_to_utf16le :: "mstring \<Rightarrow> bytes" where
  "utf8_to_utf16le text =
     concat (map (\<lambda>cp. [word_of_int (cp mod 256), word_of_int (cp div 256)]) (string_chars text))"

definition utf8_to_utf16be :: "mstring \<Rightarrow> bytes" where
  "utf8_to_utf16be text =
     concat (map (\<lambda>cp. [word_of_int (cp div 256), word_of_int (cp mod 256)]) (string_chars text))"

subsection \<open>By name\<close>

definition utf16le_names :: "mstring list" where
  "utf16le_names = [str ''utf16le'', str ''utf-16le'', str ''ucs2'', str ''ucs-2'']"

definition utf16be_names :: "mstring list" where
  "utf16be_names = [str ''utf16be'', str ''utf-16be'']"

definition decode_text :: "bytes \<Rightarrow> mstring \<Rightarrow> mstring run" where
  "decode_text bs charset =
     (if charset \<in> set utf16le_names then utf16le_to_utf8 bs
      else if charset \<in> set utf16be_names then utf16be_to_utf8 bs
      else decode_lossy (strip_utf8_bom bs) False)"

definition encode_text :: "mstring \<Rightarrow> mstring \<Rightarrow> bytes run" where
  "encode_text text charset =
     (if charset \<in> set utf16le_names then Some (utf8_to_utf16le text)
      else if charset \<in> set utf16be_names then Some (utf8_to_utf16be text)
      else utf8_encode text)"

definition decode_src_bytes :: "bytes \<Rightarrow> text_encoding \<Rightarrow> bool \<Rightarrow> bytes run" where
  "decode_src_bytes bs enc remove_bom =
     (case enc of
        Raw \<Rightarrow> Some bs
      | UTF8 \<Rightarrow> Some (if remove_bom then strip_utf8_bom bs else bs)
      | Charset cs \<Rightarrow> do { text \<leftarrow> decode_text bs cs; utf8_encode text })"

definition encode_dest_bytes :: "bytes \<Rightarrow> text_encoding \<Rightarrow> bytes run" where
  "encode_dest_bytes bs enc =
     (case enc of
        UTF8 \<Rightarrow> Some bs
      | Raw \<Rightarrow> Some bs
      | Charset cs \<Rightarrow> do { text \<leftarrow> decode_lossy bs False; encode_text text cs })"

subsection \<open>Base64\<close>

definition base64_table :: mstring where
  "base64_table = str ''ABCDEFGHIJKLMNOPQRSTUVWXYZabcdefghijklmnopqrstuvwxyz0123456789+/''"

definition base64_digit :: "int \<Rightarrow> mstring run" where
  "base64_digit v = string_sub base64_table v (Some (v + 1))"

abbreviation (input) pad_sign :: mstring where
  "pad_sign \<equiv> str ''=''"

function base64_loop :: "bytes \<Rightarrow> nat \<Rightarrow> mstring list \<Rightarrow> mstring list run" where
  "base64_loop bs index parts =
     (if index < length bs then do {
        let first = uint (bs ! index);
        let has_second = index + 1 < length bs;
        let has_third = index + 2 < length bs;
        let second = (if has_second then uint (bs ! (index + 1)) else 0);
        let third = (if has_third then uint (bs ! (index + 2)) else 0);
        a \<leftarrow> base64_digit (first div 4);
        b \<leftarrow> base64_digit ((first mod 4) * 16 + second div 16);
        c \<leftarrow> (if has_second then base64_digit ((second mod 16) * 4 + third div 64) else Some pad_sign);
        d \<leftarrow> (if has_third then base64_digit (third mod 64) else Some pad_sign);
        base64_loop bs (index + 3) (parts @ [a, b, c, d])
      } else Some parts)"
  by pat_completeness auto
termination by (relation "measure (\<lambda>(bs, i, _). length bs - i)") auto

declare base64_loop.simps [simp del]

definition base64_encode :: "bytes \<Rightarrow> mstring run" where
  "base64_encode bs = do { parts \<leftarrow> base64_loop bs 0 []; Some (array_join parts []) }"

subsection \<open>UTF-16 units as bytes\<close>

definition unit_le :: "code_unit \<Rightarrow> bytes" where
  "unit_le u = [word_of_int (uint u mod 256), word_of_int (uint u div 256)]"

definition unit_be :: "code_unit \<Rightarrow> bytes" where
  "unit_be u = [word_of_int (uint u div 256), word_of_int (uint u mod 256)]"

lemma uint_low_high: "uint (word_of_int (uint (u :: code_unit) mod 256) :: byte) = uint u mod 256"
  "uint (word_of_int (uint u div 256) :: byte) = uint u div 256"
proof -
  have "0 \<le> uint u div 256" by (simp add: pos_imp_zdiv_nonneg_iff)
  moreover have "uint u div 256 < 256" using uint_lt2p [of u] by (simp add: div_less_iff_less_mult)
  ultimately have "uint u div 256 mod 256 = uint u div 256" by simp
  then show "uint (word_of_int (uint u mod 256) :: byte) = uint u mod 256"
    and "uint (word_of_int (uint u div 256) :: byte) = uint u div 256"
    by (simp_all add: uint_word_of_int)
qed

lemma write_unit: "write_char buf (uint (u :: code_unit)) = Some (buf @ [u])"
proof -
  have "(word_of_int (uint u) :: 32 word) = ucast u" by simp
  moreover have "(ucast u :: 32 word) \<le> 65535"
    using uint_lt2p [of u] by (simp add: word_le_def uint_up_ucast is_up)
  moreover have "(ucast (ucast u :: 32 word) :: code_unit) = u" by (simp add: ucast_up_ucast_id is_up)
  ultimately show ?thesis by (simp add: write_char_def Let_def)
qed

lemma string_from_units: "string_from_array buf (map uint (us :: mstring)) = Some (buf @ us)"
  by (induction us arbitrary: buf) (simp_all add: write_unit)

text \<open>Pairs of bytes that make the units are read back as the units.\<close>

definition pairs_of :: "(int \<Rightarrow> int \<Rightarrow> int) \<Rightarrow> (code_unit \<Rightarrow> bytes) \<Rightarrow> bool" where
  "pairs_of join2 f \<longleftrightarrow> (\<forall>u. \<exists>a b. f u = [a, b] \<and> join2 (uint a) (uint b) = uint u)"

lemma pairs_of_le: "pairs_of (\<lambda>low high. high * 256 + low) unit_le"
  by (simp add: pairs_of_def unit_le_def uint_low_high)

lemma pairs_of_be: "pairs_of (\<lambda>high low. high * 256 + low) unit_be"
  by (simp add: pairs_of_def unit_be_def uint_low_high)

lemma pairs_drop:
  assumes "pairs_of join2 f"
  shows "length (concat (map f us)) = 2 * length us" and "drop (2 * k) (concat (map f us)) = concat (map f (drop k us))"
proof -
  have two: "length (f u) = 2" for u using assms unfolding pairs_of_def by (metis length_Cons list.size(3) numeral_2_eq_2)
  show "length (concat (map f us)) = 2 * length us" by (induction us) (simp_all add: two)
  show "drop (2 * k) (concat (map f us)) = concat (map f (drop k us))"
    by (induction us arbitrary: k) (auto simp: two drop_Cons split: nat.split)
qed

lemma pair_chars_eq:
  assumes "pairs_of join2 f"
  shows "pair_chars join2 (concat (map f us)) (2 * k) chars = chars @ map uint (drop k us)"
proof (induction "length us - k" arbitrary: k chars)
  case 0
  then show ?case using pairs_drop(1) [OF assms] by (subst pair_chars.simps) simp
next
  case (Suc n)
  then have k: "k < length us" by simp
  obtain a b where ab: "f (us ! k) = [a, b]" "join2 (uint a) (uint b) = uint (us ! k)"
    using assms unfolding pairs_of_def by blast
  let ?bs = "concat (map f us)"
  have i: "2 * k + 1 < length ?bs" using k pairs_drop(1) [OF assms, of us] by simp
  have "drop (2 * k) ?bs = [a, b] @ concat (map f (drop (Suc k) us))"
    using pairs_drop(2) [OF assms, of k us] ab k by (simp add: Cons_nth_drop_Suc [symmetric])
  moreover have "?bs ! (2 * k) = drop (2 * k) ?bs ! 0" "?bs ! (2 * k + 1) = drop (2 * k) ?bs ! 1" using i by simp_all
  ultimately have at: "?bs ! (2 * k) = a" "?bs ! (2 * k + 1) = b" by simp_all
  have "pair_chars join2 ?bs (2 * k + 2) c = c @ map uint (drop (Suc k) us)" for c
    using Suc.hyps(1) [of "Suc k" c] Suc.hyps(2) by simp
  then show ?case
    using i at ab(2) by (subst pair_chars.simps) (simp add: Cons_nth_drop_Suc [OF k, symmetric])
qed

text \<open>The decoders give back every string of units that does not begin with a mark.\<close>

lemma utf16le_units: "\<not> prefix [65279] us \<Longrightarrow> utf16le_to_utf8 (concat (map unit_le us)) = Some us"
proof -
  assume bom: "\<not> prefix [65279] us"
  have "\<not> (length (concat (map unit_le us)) \<ge> 2 \<and> concat (map unit_le us) ! 0 = 255 \<and> concat (map unit_le us) ! 1 = 254)"
  proof (cases us)
    case (Cons u r)
    have "u = 65279" if "unit_le u = [255, 254]"
    proof -
      have "uint u mod 256 = uint (255 :: byte)" "uint u div 256 = uint (254 :: byte)"
        using that uint_low_high [of u] by (metis unit_le_def list.inject)+
      then have "uint u = 65279" using div_mult_mod_eq [of "uint u" 256] by simp
      then show ?thesis by (simp add: word_uint_eq_iff)
    qed
    with Cons bom show ?thesis by (auto simp: unit_le_def)
  qed simp
  then have "utf16le_to_utf8 (concat (map unit_le us)) =
      string_from_array [] (pair_chars (\<lambda>low high. high * 256 + low) (concat (map unit_le us)) (2 * 0) [])"
    by (auto simp: utf16le_to_utf8_def)
  then show ?thesis unfolding pair_chars_eq [OF pairs_of_le] by (simp add: string_from_units)
qed

lemma utf16be_units: "\<not> prefix [65279] us \<Longrightarrow> utf16be_to_utf8 (concat (map unit_be us)) = Some us"
proof -
  assume bom: "\<not> prefix [65279] us"
  have "\<not> (length (concat (map unit_be us)) \<ge> 2 \<and> concat (map unit_be us) ! 0 = 254 \<and> concat (map unit_be us) ! 1 = 255)"
  proof (cases us)
    case (Cons u r)
    have "u = 65279" if "unit_be u = [254, 255]"
    proof -
      have "uint u mod 256 = uint (255 :: byte)" "uint u div 256 = uint (254 :: byte)"
        using that uint_low_high [of u] by (metis unit_be_def list.inject)+
      then have "uint u = 65279" using div_mult_mod_eq [of "uint u" 256] by simp
      then show ?thesis by (simp add: word_uint_eq_iff)
    qed
    with Cons bom show ?thesis by (auto simp: unit_be_def)
  qed simp
  then have "utf16be_to_utf8 (concat (map unit_be us)) =
      string_from_array [] (pair_chars (\<lambda>high low. high * 256 + low) (concat (map unit_be us)) (2 * 0) [])"
    by (auto simp: utf16be_to_utf8_def)
  then show ?thesis unfolding pair_chars_eq [OF pairs_of_be] by (simp add: string_from_units)
qed

subsection \<open>Round trips of text\<close>

lemma utf16_plain:
  assumes "no_surrogates t"
  shows "utf8_to_utf16le t = concat (map unit_le t)" and "utf8_to_utf16be t = concat (map unit_be t)"
  using string_chars_plain [OF assms]
  by (simp_all add: utf8_to_utf16le_def utf8_to_utf16be_def unit_le_def [abs_def] unit_be_def [abs_def] comp_def)

lemma plain_utf16_ok: "no_surrogates t \<Longrightarrow> utf16_ok t"
  by (induction t rule: utf16_ok.induct) (auto simp: no_surrogates_def surrogate_cases)

text \<open>A mark at the beginning of the bytes is a mark at the beginning of the text.\<close>

lemma char_bytes_bom:
  fixes u :: code_unit
  assumes "char_bytes (uint u) @ r = 239 # 187 # 191 # s"
  shows "u = 65279"
proof -
  have u: "0 \<le> uint u" "uint u < 65536" using uint_lt2p [of u] by simp_all
  have b: "uint (word_of_int k :: byte) = k" if "0 \<le> k" "k < 256" for k using that by (simp add: uint_word_of_int)
  consider "uint u < 128" | "128 \<le> uint u" "uint u < 2048" | "2048 \<le> uint u" by linarith
  then show ?thesis
  proof cases
    case 1
    with assms have "word_of_int (uint u) = (239 :: byte)" by (simp add: char_bytes.simps)
    then have "uint u = uint (239 :: byte)" using b [of "uint u"] 1 u by simp
    with 1 show ?thesis by simp
  next
    case 2
    with assms have "word_of_int (192 + uint u div 64) = (239 :: byte)" by (simp add: char_bytes.simps)
    moreover have "0 \<le> uint u div 64" "uint u div 64 < 32" using 2 by (simp_all add: pos_imp_zdiv_nonneg_iff div_less_iff_less_mult)
    ultimately have "192 + uint u div 64 = uint (239 :: byte)" using b [of "192 + uint u div 64"] by simp
    with \<open>uint u div 64 < 32\<close> show ?thesis by simp
  next
    case 3
    have d: "0 \<le> uint u div 4096" "uint u div 4096 < 16" using u by (simp_all add: pos_imp_zdiv_nonneg_iff div_less_iff_less_mult)
    from assms 3 u have e: "word_of_int (224 + uint u div 4096) = (239 :: byte)"
      "word_of_int (128 + uint u div 64 mod 64) = (187 :: byte)" "word_of_int (128 + uint u mod 64) = (191 :: byte)"
      by (simp_all add: char_bytes.simps)
    have m: "0 \<le> uint u div 64 mod 64" "uint u div 64 mod 64 < 64" "0 \<le> uint u mod 64" "uint u mod 64 < 64" by simp_all
    have "224 + uint u div 4096 = uint (239 :: byte)" using e(1) d b [of "224 + uint u div 4096"] by simp
    moreover have "128 + uint u div 64 mod 64 = uint (187 :: byte)" using e(2) m b [of "128 + uint u div 64 mod 64"] by simp
    moreover have "128 + uint u mod 64 = uint (191 :: byte)" using e(3) m b [of "128 + uint u mod 64"] by simp
    moreover have "uint u div 4096 = uint u div 64 div 64" by (simp add: div_mult2_eq [symmetric])
    ultimately have "uint u = 64 * (64 * 15 + 59) + 63"
      using div_mult_mod_eq [of "uint u" 64] div_mult_mod_eq [of "uint u div 64" 64] by simp
    then show ?thesis by (simp add: word_uint_eq_iff)
  qed
qed

lemma bom_of_encoding:
  assumes "utf16_ok t" and "encoding t = 239 # 187 # 191 # s"
  shows "prefix [65279] t"
proof -
  have "t \<noteq> []" using assms(2) by auto
  with assms(1) show ?thesis
  proof (cases rule: utf16_ok_cases)
    case (Plain u r)
    then have "u = 65279" using assms(2) char_bytes_bom by metis
    with Plain show ?thesis by simp
  next
    case (Pair u v r)
    have "65536 \<le> code_point_of_surrogate_pair u v"
    proof -
      have "uint u \<ge> 55296" "uint v \<ge> 56320" using Pair(2,3)
        by (simp_all add: is_leading_surrogate_def is_trailing_surrogate_def word_le_def)
      then show ?thesis by (simp add: code_point_of_surrogate_pair_def)
    qed
    moreover have "code_point_of_surrogate_pair u v < 1114112"
    proof -
      have "uint u \<le> 56319" "uint v \<le> 57343" using Pair(2,3)
        by (simp_all add: is_leading_surrogate_def is_trailing_surrogate_def word_le_def)
      then show ?thesis by (simp add: code_point_of_surrogate_pair_def)
    qed
    moreover define c where "c = code_point_of_surrogate_pair u v"
    ultimately have c: "65536 \<le> c" "c < 1114112" by simp_all
    have "word_of_int (240 + c div 262144) = (239 :: byte)"
      using assms(2) Pair(5) c by (simp add: c_def char_bytes.simps)
    moreover have "uint (word_of_int (240 + c div 262144) :: byte) = 240 + c div 262144"
    proof -
      have "0 \<le> c div 262144" "c div 262144 < 16" using c by (simp_all add: pos_imp_zdiv_nonneg_iff div_less_iff_less_mult)
      then have "0 \<le> 240 + c div 262144" "240 + c div 262144 < 256" by simp_all
      then show ?thesis by (simp only: uint_word_of_int) simp
    qed
    ultimately have "240 + c div 262144 = uint (239 :: byte)" by metis
    moreover have "0 \<le> c div 262144" using c by (simp add: pos_imp_zdiv_nonneg_iff)
    ultimately show ?thesis by simp
  qed
qed

lemma has_bom_iff: "has_utf8_bom bs \<longleftrightarrow> (\<exists>s. bs = 239 # 187 # 191 # s)"
proof
  assume "has_utf8_bom bs"
  moreover from this obtain a b c s where "bs = a # b # c # s"
    by (auto simp: has_utf8_bom_def numeral_3_eq_3 Suc_le_length_iff split: if_splits)
  ultimately show "\<exists>s. bs = 239 # 187 # 191 # s" by (auto simp: has_utf8_bom_def split: if_splits)
qed (auto simp: has_utf8_bom_def)

lemma strip_utf8_bom_eq: "strip_utf8_bom bs = (if has_utf8_bom bs then drop 3 bs else bs)"
  by (auto simp: strip_utf8_bom_def add.commute intro!: nth_equalityI)

lemma strip_of_encoding: "utf16_ok t \<Longrightarrow> \<not> prefix [65279] t \<Longrightarrow> strip_utf8_bom (encoding t) = encoding t"
  using bom_of_encoding by (auto simp: strip_utf8_bom_eq has_bom_iff)

definition utf16_charset :: "mstring \<Rightarrow> bool" where
  "utf16_charset cs \<longleftrightarrow> cs \<in> set utf16le_names \<or> cs \<in> set utf16be_names"

lemma encode_then_decode:
  assumes "utf16_ok t" and "\<not> prefix [65279] t" and "utf16_charset cs \<longrightarrow> no_surrogates t"
  shows "\<exists>bs. encode_text t cs = Some bs \<and> decode_text bs cs = Some t"
proof (cases "utf16_charset cs")
  case True
  with assms show ?thesis
    by (auto simp: encode_text_def decode_text_def utf16_charset_def utf16_plain utf16le_units utf16be_units)
next
  case False
  with assms show ?thesis
    by (simp add: encode_text_def decode_text_def utf16_charset_def utf8_encode_eq strip_of_encoding
        decode_lossy_eq strip_bom_def decoded_encoding)
qed

text \<open>
  Property C40. Bytes that are the UTF-8 encoding of a text, written in any encoding and read in the same one, are the
  same bytes, when the text does not begin with a byte order mark and, for UTF-16, has no character
  beyond the basic plane.
\<close>
theorem charset_round_trip:
  assumes "utf8_encode t = Some bs" and "\<not> prefix [65279] t"
    and "\<forall>cs. enc = Charset cs \<and> utf16_charset cs \<longrightarrow> no_surrogates t"
  shows "\<exists>out. encode_dest_bytes bs enc = Some out \<and> decode_src_bytes out enc remove_bom = Some bs"
proof -
  have t: "utf16_ok t" "bs = encoding t" using assms(1) by (auto simp: utf8_encode_eq split: if_splits)
  show ?thesis
  proof (cases enc)
    case (Charset cs)
    have "decode_lossy bs False = Some t" using t by (simp add: decode_lossy_eq strip_bom_def decoded_encoding)
    moreover obtain out where "encode_text t cs = Some out" "decode_text out cs = Some t"
      using encode_then_decode [OF t(1) assms(2), of cs] assms(3) Charset by blast
    ultimately show ?thesis using assms(1) Charset by (simp add: encode_dest_bytes_def decode_src_bytes_def)
  qed (use t strip_of_encoding [OF t(1) assms(2)] in \<open>simp_all add: encode_dest_bytes_def decode_src_bytes_def\<close>)
qed

theorem charset_round_trip_witness:
  "\<exists>out. encode_dest_bytes [195, 169, 33] (Charset (str ''utf16be'')) = Some out \<and>
    decode_src_bytes out (Charset (str ''utf16be'')) True = Some [195, 169, 33]"
  by (rule charset_round_trip [of "[0xE9, 33]"])
    (simp_all add: utf8_encode_eq is_leading_surrogate_def is_trailing_surrogate_def char_bytes.simps)

text \<open>
  A character beyond the basic plane is written to UTF-16 as two bytes, so that another character is
  read back; and a file in UTF-16 with half a pair aborts.
\<close>

lemma utf16_pair_lost:
  "encode_dest_bytes [240, 159, 152, 128] (Charset (str ''utf16le'')) = Some [0, 246]"
  "decode_src_bytes [0, 246] (Charset (str ''utf16le'')) True = Some [239, 152, 128]"
proof -
  have e: "encoding [55357, 56832] = [240, 159, 152, 128]" "utf16_ok [55357, 56832]"
    by (simp_all add: is_leading_surrogate_def is_trailing_surrogate_def code_point_of_surrogate_pair_def char_bytes.simps)
  have "decode_lossy [240, 159, 152, 128] False = Some [55357, 56832]"
    using decoded_encoding [OF e(2)] e(1) by (simp add: decode_lossy_eq strip_bom_def)
  then show "encode_dest_bytes [240, 159, 152, 128] (Charset (str ''utf16le'')) = Some [0, 246]"
    by (simp add: encode_dest_bytes_def encode_text_def utf16le_names_def utf8_to_utf16le_def is_leading_surrogate_def
        is_trailing_surrogate_def code_point_of_surrogate_pair_def)
  have "utf16le_to_utf8 [0, 246] = Some [62976]" using utf16le_units [of "[62976]"] by (simp add: unit_le_def)
  then show "decode_src_bytes [0, 246] (Charset (str ''utf16le'')) True = Some [239, 152, 128]"
    by (simp add: decode_src_bytes_def decode_text_def utf16le_names_def utf8_encode_eq is_leading_surrogate_def
        is_trailing_surrogate_def char_bytes.simps)
qed

lemma lone_surrogate_aborts: "decode_src_bytes [0, 216] (Charset (str ''utf16le'')) True = None"
proof -
  have "utf16le_to_utf8 [0, 216] = Some [55296]" using utf16le_units [of "[55296]"] by (simp add: unit_le_def)
  then show ?thesis
    by (simp add: decode_src_bytes_def decode_text_def utf16le_names_def utf8_encode_eq is_leading_surrogate_def)
qed

subsection \<open>Base64 read back\<close>

text \<open>The decoder of RFC 4648: groups of four digits, the last one padded.\<close>

definition digit_value :: "code_unit \<Rightarrow> int option" where
  "digit_value c = map_option int (List.find (\<lambda>i. base64_table ! i = c) [0..<64])"

fun base64_decode :: "mstring \<Rightarrow> bytes option" where
  "base64_decode [] = Some []"
| "base64_decode (a # b # c # d # rest) = do {
     x \<leftarrow> digit_value a;
     y \<leftarrow> digit_value b;
     if c = 61 then
       (if d = 61 \<and> rest = [] \<and> y mod 16 = 0 then Some [word_of_int (x * 4 + y div 16)] else None)
     else do {
       z \<leftarrow> digit_value c;
       if d = 61 then
         (if rest = [] \<and> z mod 4 = 0
          then Some [word_of_int (x * 4 + y div 16), word_of_int (y mod 16 * 16 + z div 4)] else None)
       else do {
         w \<leftarrow> digit_value d;
         bs \<leftarrow> base64_decode rest;
         Some (word_of_int (x * 4 + y div 16) # word_of_int (y mod 16 * 16 + z div 4) #
           word_of_int (z mod 4 * 64 + w) # bs)
       }
     }
   }"
| "base64_decode _ = None"

lemma base64_table_facts: "length base64_table = 64" "distinct base64_table" "61 \<notin> set base64_table"
  by (simp_all add: base64_table_def)

definition digit :: "int \<Rightarrow> code_unit" where
  "digit v = base64_table ! nat v"

lemma base64_digit_eq:
  assumes "0 \<le> v" and "v < 64"
  shows "base64_digit v = Some [digit v]" and "digit_value (digit v) = Some v" and "digit v \<noteq> 61"
proof -
  obtain n where v: "v = int n" "n < 64" using assms by (metis nat_eq_iff2 nat_less_iff of_nat_numeral zless_nat_conj)
  have plain: "no_surrogates base64_table"
    by (simp add: base64_table_def no_surrogates_def is_leading_surrogate_def is_trailing_surrogate_def)
  show "base64_digit v = Some [digit v]"
    using unit_at_eq [OF plain, of n] v base64_table_facts(1) by (simp add: base64_digit_def unit_at_def digit_def add.commute)
  show "digit_value (digit v) = Some v"
  proof -
    have "List.find (\<lambda>i. base64_table ! i = base64_table ! n) [0..<64] = Some n"
      using v(2) base64_table_facts(1,2) by (auto simp: find_Some_iff nth_eq_iff_index_eq)
    with v show ?thesis by (simp add: digit_value_def digit_def)
  qed
  have "base64_table ! n \<in> set base64_table" using base64_table_facts(1) v(2) by (intro nth_mem) simp
  then show "digit v \<noteq> 61" using base64_table_facts(3) v(1) by (auto simp: digit_def)
qed

lemma shift_in:
  fixes a b k :: int
  assumes "0 \<le> b" and "b < k"
  shows "(a * k + b) div k = a" and "(a * k + b) mod k = b"
  using assms by (simp_all add: div_mult_self3 add.commute)

lemma six_bits:
  fixes x y z :: int
  assumes "0 \<le> x" "x < 256" "0 \<le> y" "y < 256" "0 \<le> z" "z < 256"
  shows "x div 4 * 4 + (x mod 4 * 16 + y div 16) div 16 = x"
    and "(x mod 4 * 16 + y div 16) mod 16 * 16 + (y mod 16 * 4 + z div 64) div 4 = y"
    and "(y mod 16 * 4 + z div 64) mod 4 * 64 + z mod 64 = z"
    and "0 \<le> x div 4" "x div 4 < 64" "0 \<le> x mod 4 * 16 + y div 16" "x mod 4 * 16 + y div 16 < 64"
    and "0 \<le> y mod 16 * 4 + z div 64" "y mod 16 * 4 + z div 64 < 64"
proof -
  have q: "0 \<le> y div 16" "y div 16 < 16" "0 \<le> z div 64" "z div 64 < 4"
    using assms by (simp_all add: pos_imp_zdiv_nonneg_iff div_less_iff_less_mult)
  have m: "0 \<le> x mod 4" "x mod 4 < 4" "0 \<le> y mod 16" "y mod 16 < 16" by simp_all
  show "x div 4 * 4 + (x mod 4 * 16 + y div 16) div 16 = x"
    unfolding shift_in(1) [OF q(1,2)] by (rule div_mult_mod_eq)
  show "(x mod 4 * 16 + y div 16) mod 16 * 16 + (y mod 16 * 4 + z div 64) div 4 = y"
    unfolding shift_in(2) [OF q(1,2)] shift_in(1) [OF q(3,4)] by (rule div_mult_mod_eq)
  show "(y mod 16 * 4 + z div 64) mod 4 * 64 + z mod 64 = z"
    unfolding shift_in(2) [OF q(3,4)] by (rule div_mult_mod_eq)
  show "0 \<le> x div 4" "x div 4 < 64" using assms by (simp_all add: pos_imp_zdiv_nonneg_iff div_less_iff_less_mult)
  show "0 \<le> x mod 4 * 16 + y div 16" "x mod 4 * 16 + y div 16 < 64"
    and "0 \<le> y mod 16 * 4 + z div 64" "y mod 16 * 4 + z div 64 < 64" using q m by linarith+
qed

lemma byte_range: "0 \<le> uint (b :: byte)" "uint b < 256"
  using uint_lt2p [of b] by simp_all

lemma base64_loop_decodes:
  "\<exists>ms. base64_loop bs i parts = Some (parts @ ms) \<and> base64_decode (concat ms) = Some (drop i bs)"
proof (induction "length bs - i" arbitrary: i parts rule: less_induct)
  case less
  show ?case
  proof (cases "i < length bs")
    case False
    then show ?thesis by (subst base64_loop.simps) simp
  next
    case True
    define x where "x = uint (bs ! i)"
    define y where "y = (if i + 1 < length bs then uint (bs ! (i + 1)) else 0)"
    define z where "z = (if i + 2 < length bs then uint (bs ! (i + 2)) else 0)"
    have range: "0 \<le> x" "x < 256" "0 \<le> y" "y < 256" "0 \<le> z" "z < 256"
      by (auto simp: x_def y_def z_def byte_range)
    note s = six_bits [OF range]
    note digits = base64_digit_eq [OF s(4,5)] base64_digit_eq [OF s(6,7)] base64_digit_eq [OF s(8,9)]
      base64_digit_eq [of "z mod 64"]
    let ?c = "if i + 1 < length bs then [digit (y mod 16 * 4 + z div 64)] else pad_sign"
    let ?d = "if i + 2 < length bs then [digit (z mod 64)] else pad_sign"
    let ?ms = "[[digit (x div 4)], [digit (x mod 4 * 16 + y div 16)], ?c, ?d]"
    have step: "base64_loop bs i parts = base64_loop bs (i + 3) (parts @ ?ms)"
      using True digits by (subst base64_loop.simps) (auto simp: Let_def x_def y_def z_def)
    have "length bs - (i + 3) < length bs - i" using True by simp
    from less [OF this, of "parts @ ?ms"] obtain ms
      where ms: "base64_loop bs (i + 3) (parts @ ?ms) = Some ((parts @ ?ms) @ ms)"
        "base64_decode (concat ms) = Some (drop (i + 3) bs)" by blast
    have empty: "ms = []" if "length bs \<le> i + 3"
    proof -
      have "base64_loop bs (i + 3) (parts @ ?ms) = Some (parts @ ?ms)" using that by (subst base64_loop.simps) simp
      with ms(1) show ?thesis by simp
    qed
    have vals: "digit_value (digit (x div 4)) = Some (x div 4)"
      "digit_value (digit (x mod 4 * 16 + y div 16)) = Some (x mod 4 * 16 + y div 16)"
      "digit_value (digit (y mod 16 * 4 + z div 64)) = Some (y mod 16 * 4 + z div 64)"
      "digit_value (digit (z mod 64)) = Some (z mod 64)"
      and signs: "(digit (y mod 16 * 4 + z div 64) = 61) = False" "(digit (z mod 64) = 61) = False"
      using digits by simp_all
    have "base64_decode (concat (?ms @ ms)) = Some (drop i bs)"
    proof -
      consider "i + 2 < length bs" | "i + 2 = length bs" | "i + 1 = length bs" using True by linarith
      then show ?thesis
      proof cases
        case 1
        then have "drop i bs = bs ! i # bs ! (i + 1) # bs ! (i + 2) # drop (i + 3) bs"
          by (simp add: Cons_nth_drop_Suc numeral_2_eq_2 numeral_3_eq_3)
        moreover have "word_of_int x = bs ! i" "word_of_int y = bs ! (i + 1)" "word_of_int z = bs ! (i + 2)"
          using 1 by (simp_all add: x_def y_def z_def)
        moreover have "concat (?ms @ ms) = digit (x div 4) # digit (x mod 4 * 16 + y div 16) #
            digit (y mod 16 * 4 + z div 64) # digit (z mod 64) # concat ms" using 1 by simp
        ultimately show ?thesis
          by (simp only: base64_decode.simps vals signs ms(2) s(1-3) bind.bind_lunit if_False)
      next
        case 2
        have z: "z = 0" using 2 by (simp add: z_def)
        have "drop i bs = [bs ! i, bs ! (i + 1)]" using 2 by (simp add: Cons_nth_drop_Suc [symmetric])
        moreover have "word_of_int x = bs ! i" "word_of_int y = bs ! (i + 1)"
          using 2 by (simp_all add: x_def y_def)
        moreover have "concat (?ms @ ms) = [digit (x div 4), digit (x mod 4 * 16 + y div 16), digit (y mod 16 * 4 + z div 64), 61]"
          using 2 empty by simp
        moreover have "(y mod 16 * 4 + z div 64) mod 4 = 0" using z by simp
        ultimately show ?thesis
          by (simp only: base64_decode.simps vals signs s(1-3) bind.bind_lunit if_False if_True simp_thms)
      next
        case 3
        have y: "y = 0" using 3 by (simp add: y_def)
        have "drop i bs = [bs ! i]" using 3 by (simp add: Cons_nth_drop_Suc [symmetric])
        moreover have "word_of_int x = bs ! i" by (simp add: x_def)
        moreover have "concat (?ms @ ms) = [digit (x div 4), digit (x mod 4 * 16 + y div 16), 61, 61]"
          using 3 empty by simp
        moreover have "(x mod 4 * 16 + y div 16) mod 16 = 0" using y by simp
        ultimately show ?thesis
          by (simp only: base64_decode.simps vals signs s(1-3) bind.bind_lunit if_False if_True simp_thms)
      qed
    qed
    with ms step show ?thesis by (intro exI [of _ "?ms @ ms"]) simp
  qed
qed

lemma join_with_empty: "join_with [] ss = concat ss"
  by (induction "[] :: 'a list" ss rule: join_with.induct) simp_all

text \<open>
  The base64 form of bytes is made for all bytes, and the decoder of the standard reads it back.
\<close>
theorem base64_decodes: "\<exists>s. base64_encode bs = Some s \<and> base64_decode s = Some bs"
  using base64_loop_decodes [of bs 0 "[]"] by (auto simp: base64_encode_def array_join_eq join_with_empty)

end
