(* ===== verification/Stream_Objects.thy ===== *)
theory Stream_Objects
  imports Byte_Stream
begin

text \<open>
  Byte streams as the objects files share (\<open>stream/byte_stream.mbt\<close>, \<open>vinyl/file.mbt\<close>): a stream is a
  cell with its source and the flag that it is used up. A virtual file wraps the stream it is given in
  a replay, which keeps the chunks it has read, so that every reader it hands out starts at the
  beginning. The cells are numbered as they are made; a cell refers to older cells only.
\<close>

datatype stream_source =
    Chunks "bytes list" nat
  | From_File file_reader
  | Replay_Reader nat nat
  | With_Footer nat bytes bool

record stream_object =
  so_source :: stream_source
  so_consumed :: bool

record replay_object =
  ro_source :: nat
  ro_cache :: "bytes list"
  ro_ended :: bool
  ro_error :: "mulp_error option"

record 's object_heap =
  hp_streams :: "stream_object list"
  hp_replays :: "replay_object list"
  hp_stub :: "'s stream_state"

subsection \<open>Making streams\<close>

definition new_stream :: "stream_source \<Rightarrow> 's object_heap \<Rightarrow> nat \<times> 's object_heap" where
  "new_stream source hp =
     (length (hp_streams hp),
      hp\<lparr>hp_streams := hp_streams hp @ [\<lparr>so_source = source, so_consumed = False\<rparr>]\<rparr>)"

definition byte_stream_from_bytes :: "bytes list \<Rightarrow> 's object_heap \<Rightarrow> nat \<times> 's object_heap" where
  "byte_stream_from_bytes chunks hp = new_stream (Chunks chunks 0) hp"

definition object_file_stream ::
    "'s posix \<Rightarrow> mstring \<Rightarrow> int \<Rightarrow> 's object_heap \<Rightarrow> (nat result \<times> 's object_heap) run" where
  "object_file_stream px path chunk_size hp =
     (if chunk_size \<le> 0
      then Some (Inl (stream_error (str ''file byte stream chunk size must be positive'')), hp)
      else do {
        p \<leftarrow> utf8_encode path;
        let (reader, st) = mulp_open_file_reader px p chunk_size (hp_stub hp);
        let hp = hp\<lparr>hp_stub := st\<rparr>;
        if \<not> mulp_file_reader_is_open reader
        then Some (Inl (file_system_error (str ''cannot open file: '' @ path)), hp)
        else (case new_stream (From_File reader) hp of (k, hp) \<Rightarrow> Some (Inr k, hp))
      })"

definition replayable_stream :: "nat \<Rightarrow> 's object_heap \<Rightarrow> nat \<times> 's object_heap" where
  "replayable_stream source hp =
     (length (hp_replays hp),
      hp\<lparr>hp_replays := hp_replays hp @
        [\<lparr>ro_source = source, ro_cache = [], ro_ended = False, ro_error = None\<rparr>]\<rparr>)"

definition replay_reader :: "nat \<Rightarrow> 's object_heap \<Rightarrow> nat \<times> 's object_heap" where
  "replay_reader i hp = new_stream (Replay_Reader i 0) hp"

definition append_stream_footer :: "nat \<Rightarrow> bytes \<Rightarrow> 's object_heap \<Rightarrow> nat \<times> 's object_heap" where
  "append_stream_footer stream footer hp = new_stream (With_Footer stream footer False) hp"

subsection \<open>Reading\<close>

definition set_source :: "nat \<Rightarrow> stream_source \<Rightarrow> 's object_heap \<Rightarrow> 's object_heap" where
  "set_source h source hp = hp\<lparr>hp_streams := (hp_streams hp)[h := (hp_streams hp ! h)\<lparr>so_source := source\<rparr>]\<rparr>"

definition set_replay :: "nat \<Rightarrow> replay_object \<Rightarrow> 's object_heap \<Rightarrow> 's object_heap" where
  "set_replay i r hp = hp\<lparr>hp_replays := (hp_replays hp)[i := r]\<rparr>"

text \<open>Closing: the flag is set first; only the stream of a file has something to release.\<close>

definition object_close :: "'s posix \<Rightarrow> nat \<Rightarrow> 's object_heap \<Rightarrow> 's object_heap" where
  "object_close px h hp =
     (let self = hp_streams hp ! h in
      if \<not> so_consumed self then
        (let hp = hp\<lparr>hp_streams := (hp_streams hp)[h := self\<lparr>so_consumed := True\<rparr>]\<rparr> in
         case so_source self of
           From_File reader \<Rightarrow>
             (case mulp_file_reader_close px reader (hp_stub hp) of (reader, st) \<Rightarrow>
                set_source h (From_File reader) (hp\<lparr>hp_stub := st\<rparr>))
         | _ \<Rightarrow> hp)
      else hp)"

type_synonym chunk_result = "bytes option result"

definition pull_chunks :: "nat \<Rightarrow> bytes list \<Rightarrow> nat \<Rightarrow> 's object_heap \<Rightarrow> chunk_result \<times> 's object_heap" where
  "pull_chunks h chunks index hp =
     (if index \<ge> length chunks then (Inr None, hp)
      else (Inr (Some (chunks ! index)), set_source h (Chunks chunks (index + 1)) hp))"

definition pull_file ::
    "'s posix \<Rightarrow> nat \<Rightarrow> file_reader \<Rightarrow> 's object_heap \<Rightarrow> (chunk_result \<times> 's object_heap) run" where
  "pull_file px h reader hp = do {
     (chunk, reader, st) \<leftarrow> mulp_file_reader_read px reader (hp_stub hp);
     let hp = set_source h (From_File reader) (hp\<lparr>hp_stub := st\<rparr>);
     Some (Inr (if length chunk = 0 then None else Some chunk), hp)
   }"

text \<open>
  A pull that may have to read another stream first: it answers, or it asks for that read and
  goes on with the result.
\<close>

datatype 'a asked = Answer 'a | Ask nat

definition reader_first :: "nat \<Rightarrow> nat \<Rightarrow> nat \<Rightarrow> 's object_heap \<Rightarrow> (chunk_result \<times> 's object_heap) asked" where
  "reader_first h i index hp =
     (let self = hp_replays hp ! i in
      if index < length (ro_cache self)
      then Answer (Inr (Some (ro_cache self ! index)), set_source h (Replay_Reader i (index + 1)) hp)
      else if ro_ended self then Answer (Inr None, hp)
      else case ro_error self of Some err \<Rightarrow> Answer (Inl err, hp) | None \<Rightarrow> Ask (ro_source self))"

definition reader_then ::
    "nat \<Rightarrow> nat \<Rightarrow> nat \<Rightarrow> chunk_result \<Rightarrow> 's object_heap \<Rightarrow> chunk_result \<times> 's object_heap" where
  "reader_then h i index r hp =
     (let self = hp_replays hp ! i in
      case r of
        Inr (Some chunk) \<Rightarrow>
          (Inr (Some chunk), set_source h (Replay_Reader i (index + 1))
             (set_replay i (self\<lparr>ro_cache := ro_cache self @ [chunk]\<rparr>) hp))
      | Inr None \<Rightarrow> (Inr None, set_replay i (self\<lparr>ro_ended := True\<rparr>) hp)
      | Inl err \<Rightarrow> (Inl err, set_replay i (self\<lparr>ro_error := Some err\<rparr>) hp))"

definition footer_first :: "nat \<Rightarrow> bool \<Rightarrow> 's object_heap \<Rightarrow> (chunk_result \<times> 's object_heap) asked" where
  "footer_first stream footer_sent hp = (if footer_sent then Answer (Inr None, hp) else Ask stream)"

definition footer_then ::
    "nat \<Rightarrow> nat \<Rightarrow> bytes \<Rightarrow> chunk_result \<Rightarrow> 's object_heap \<Rightarrow> chunk_result \<times> 's object_heap" where
  "footer_then h stream footer r hp =
     (case r of
        Inr (Some chunk) \<Rightarrow> (Inr (Some chunk), hp)
      | Inr None \<Rightarrow> (Inr (Some footer), set_source h (With_Footer stream footer True) hp)
      | Inl err \<Rightarrow> (Inl err, hp))"

text \<open>The end and an error close the stream.\<close>

definition after_pull :: "'s posix \<Rightarrow> nat \<Rightarrow> chunk_result \<Rightarrow> 's object_heap \<Rightarrow> chunk_result \<times> 's object_heap" where
  "after_pull px h r hp = (case r of Inr (Some _) \<Rightarrow> (r, hp) | _ \<Rightarrow> (r, object_close px h hp))"

text \<open>A cell that refers to no older cell would read itself for ever, or not exist: no answer.\<close>

function object_read :: "'s posix \<Rightarrow> nat \<Rightarrow> 's object_heap \<Rightarrow> (chunk_result \<times> 's object_heap) run" where
  "object_read px h hp =
     (if h < length (hp_streams hp) then
        (let self = hp_streams hp ! h in
         if so_consumed self then Some (Inl (stream_error (str ''byte stream already consumed'')), hp)
         else do {
           (r, hp) \<leftarrow> (case so_source self of
               Chunks chunks index \<Rightarrow> Some (pull_chunks h chunks index hp)
             | From_File reader \<Rightarrow> pull_file px h reader hp
             | Replay_Reader i index \<Rightarrow>
                 (case reader_first h i index hp of
                    Answer a \<Rightarrow> Some a
                  | Ask k \<Rightarrow>
                      if k < h then do { (r, hp) \<leftarrow> object_read px k hp; Some (reader_then h i index r hp) }
                      else None)
             | With_Footer stream footer sent \<Rightarrow>
                 (case footer_first stream sent hp of
                    Answer a \<Rightarrow> Some a
                  | Ask k \<Rightarrow>
                      if k < h then do { (r, hp) \<leftarrow> object_read px k hp; Some (footer_then h stream footer r hp) }
                      else None));
           Some (after_pull px h r hp)
         })
      else None)"
  by pat_completeness auto
termination by (relation "measure (\<lambda>(_, h, _). h)") auto

declare object_read.simps [simp del]

subsection \<open>Reading to the end\<close>

text \<open>The bytes are counted in 32 bits; empty chunks are dropped before the chunks are joined.\<close>

partial_function (option) object_bytes_loop ::
    "'s posix \<Rightarrow> int \<Rightarrow> nat \<Rightarrow> 's object_heap \<Rightarrow> bytes list \<Rightarrow> int \<Rightarrow> ((bytes list \<times> int) result \<times> 's object_heap) run" where
  "object_bytes_loop px max_bytes h hp chunks count = do {
     (r, hp) \<leftarrow> object_read px h hp;
     case r of
       Inr None \<Rightarrow> Some (Inr (chunks, count), hp)
     | Inl err \<Rightarrow> Some (Inl err, hp)
     | Inr (Some chunk) \<Rightarrow> do {
         count \<leftarrow> int32 (count + int (length chunk));
         if count > max_bytes then Some (Inl (exceeded max_bytes), object_close px h hp)
         else object_bytes_loop px max_bytes h hp
           (if length chunk > 0 then chunks @ [chunk] else chunks) count
       }
   }"

fun concat_loop :: "bytes list \<Rightarrow> nat \<Rightarrow> nat \<Rightarrow> nat \<Rightarrow> bytes run" where
  "concat_loop chunks chunk_index chunk_offset 0 = Some []"
| "concat_loop chunks chunk_index chunk_offset (Suc n) =
     (if chunk_index < length chunks \<and> chunk_offset < length (chunks ! chunk_index) then do {
        rest \<leftarrow> (if chunk_offset + 1 \<ge> length (chunks ! chunk_index)
                 then concat_loop chunks (chunk_index + 1) 0 n
                 else concat_loop chunks chunk_index (chunk_offset + 1) n);
        Some (chunks ! chunk_index ! chunk_offset # rest)
      } else None)"

definition concat_byte_chunks :: "bytes list \<Rightarrow> int \<Rightarrow> bytes run" where
  "concat_byte_chunks chunks count = (if count = 0 then Some [] else concat_loop chunks 0 0 (nat count))"

definition object_read_all_bytes ::
    "'s posix \<Rightarrow> int \<Rightarrow> nat \<Rightarrow> 's object_heap \<Rightarrow> (bytes result \<times> 's object_heap) run" where
  "object_read_all_bytes px max_bytes h hp = do {
     (r, hp) \<leftarrow> object_bytes_loop px max_bytes h hp [] 0;
     case r of
       Inl err \<Rightarrow> Some (Inl err, hp)
     | Inr (chunks, count) \<Rightarrow> do { bs \<leftarrow> concat_byte_chunks chunks count; Some (Inr bs, hp) }
   }"

partial_function (option) object_text_loop ::
    "'s posix \<Rightarrow> int \<Rightarrow> nat \<Rightarrow> 's object_heap \<Rightarrow> mstring list \<Rightarrow> int \<Rightarrow> (mstring result \<times> 's object_heap) run" where
  "object_text_loop px max_bytes h hp chunks count = do {
     (r, hp) \<leftarrow> object_read px h hp;
     case r of
       Inr None \<Rightarrow> Some (Inr (array_join chunks []), hp)
     | Inl err \<Rightarrow> Some (Inl err, hp)
     | Inr (Some chunk) \<Rightarrow> do {
         count \<leftarrow> int32 (count + int (length chunk));
         if count > max_bytes then Some (Inl (exceeded max_bytes), object_close px h hp)
         else do {
           text \<leftarrow> decode_lossy chunk False;
           object_text_loop px max_bytes h hp (chunks @ [text]) count
         }
       }
   }"

definition object_read_all :: "'s posix \<Rightarrow> int \<Rightarrow> nat \<Rightarrow> 's object_heap \<Rightarrow> (mstring result \<times> 's object_heap) run" where
  "object_read_all px max_bytes h hp = object_text_loop px max_bytes h hp [] 0"

subsection \<open>What a stream gives\<close>

text \<open>
  The chunks a stream that is not used up has left, with the cells and the replays that reading it
  touches. Streams over files are left out: what they give is with the operating system.
\<close>

abbreviation (input) open_on :: "'s object_heap \<Rightarrow> nat \<Rightarrow> stream_source \<Rightarrow> bool" where
  "open_on hp h source \<equiv> h < length (hp_streams hp) \<and>
     hp_streams hp ! h = \<lparr>so_source = source, so_consumed = False\<rparr>"

inductive gives :: "'s object_heap \<Rightarrow> nat \<Rightarrow> nat set \<Rightarrow> nat set \<Rightarrow> bytes list \<Rightarrow> bool" for hp where
  chunks: "open_on hp h (Chunks chunks i) \<Longrightarrow> gives hp h {h} {} (drop i chunks)"
| reader: "open_on hp h (Replay_Reader r k) \<Longrightarrow> r < length (hp_replays hp) \<Longrightarrow>
    hp_replays hp ! r = \<lparr>ro_source = s, ro_cache = cache, ro_ended = False, ro_error = None\<rparr> \<Longrightarrow>
    k \<le> length cache \<Longrightarrow> s < h \<Longrightarrow> gives hp s F G rest \<Longrightarrow> h \<notin> F \<Longrightarrow> r \<notin> G \<Longrightarrow>
    gives hp h (insert h F) (insert r G) (drop k (cache @ rest))"
| footer: "open_on hp h (With_Footer s f False) \<Longrightarrow> s < h \<Longrightarrow> gives hp s F G rest \<Longrightarrow> h \<notin> F \<Longrightarrow>
    gives hp h (insert h F) G (rest @ [f])"
| footer_sent: "open_on hp h (With_Footer s f True) \<Longrightarrow> h \<in> F \<Longrightarrow> F \<subseteq> {..h} \<Longrightarrow>
    G \<subseteq> {..<length (hp_replays hp)} \<Longrightarrow> gives hp h F G []"

text \<open>Two heaps that agree on some cells, and the effect of a read outside of what it touches.\<close>

definition agree :: "nat set \<Rightarrow> nat set \<Rightarrow> 's object_heap \<Rightarrow> 's object_heap \<Rightarrow> bool" where
  "agree F G hp hp' \<longleftrightarrow> length (hp_streams hp) \<le> length (hp_streams hp') \<and>
     length (hp_replays hp) \<le> length (hp_replays hp') \<and>
     (\<forall>x \<in> F. x < length (hp_streams hp) \<longrightarrow> hp_streams hp' ! x = hp_streams hp ! x) \<and>
     (\<forall>r \<in> G. r < length (hp_replays hp) \<longrightarrow> hp_replays hp' ! r = hp_replays hp ! r)"

definition touches :: "nat set \<Rightarrow> nat set \<Rightarrow> 's object_heap \<Rightarrow> 's object_heap \<Rightarrow> bool" where
  "touches F G hp hp' \<longleftrightarrow> agree (- F) (- G) hp hp' \<and> hp_stub hp' = hp_stub hp"

lemma gives_frame: "gives hp h F G cs \<Longrightarrow> agree F G hp hp' \<Longrightarrow> gives hp' h F G cs"
proof (induction rule: gives.induct)
  case (chunks h chunks i)
  then show ?case by (intro gives.chunks) (auto simp: agree_def)
next
  case (reader h r k s cache F G rest)
  moreover from this have "gives hp' s F G rest" by (auto simp: agree_def)
  ultimately show ?case by (intro gives.reader [where s = s]) (auto simp: agree_def)
next
  case (footer h s f F G rest)
  moreover from this have "gives hp' s F G rest" by (auto simp: agree_def)
  ultimately show ?case by (intro gives.footer [where s = s]) (auto simp: agree_def)
next
  case (footer_sent h s f)
  then show ?case by (intro gives.footer_sent [where s = s and f = f]) (auto simp: agree_def)
qed

lemma gives_frame_touched: "gives hp h F G cs \<Longrightarrow> touches A B hp hp' \<Longrightarrow> F \<inter> A = {} \<Longrightarrow> G \<inter> B = {} \<Longrightarrow>
    gives hp' h F G cs"
  by (erule gives_frame) (auto simp: touches_def agree_def)

lemma gives_in: "gives hp h F G cs \<Longrightarrow> h \<in> F \<and> h < length (hp_streams hp) \<and> F \<subseteq> {..h} \<and>
    G \<subseteq> {..<length (hp_replays hp)} \<and> \<not> so_consumed (hp_streams hp ! h)"
  by (induction rule: gives.induct) auto

lemma touches_refl: "touches F G hp hp"
  by (simp add: touches_def agree_def)

lemma touches_trans: "touches F G a b \<Longrightarrow> touches F G b c \<Longrightarrow> touches F G a c"
  by (auto simp: touches_def agree_def)

lemma touches_mono: "touches F G a b \<Longrightarrow> F \<subseteq> F' \<Longrightarrow> G \<subseteq> G' \<Longrightarrow> touches F' G' a b"
  by (auto simp: touches_def agree_def)

lemma touches_source: "touches {h} {} hp (set_source h source hp)"
  by (auto simp: touches_def agree_def set_source_def)

lemma touches_replay: "touches {} {r} hp (set_replay r x hp)"
  by (auto simp: touches_def agree_def set_replay_def)

definition no_file :: "stream_object \<Rightarrow> bool" where
  "no_file x = (case so_source x of From_File _ \<Rightarrow> False | _ \<Rightarrow> True)"

lemma close_plain:
  assumes "h < length (hp_streams hp)" and "no_file (hp_streams hp ! h)"
  shows "touches {h} {} hp (object_close px h hp)" and "so_consumed (hp_streams (object_close px h hp) ! h)"
  using assms by (auto simp: object_close_def Let_def touches_def agree_def no_file_def split: stream_source.splits)

lemma source_open:
  "open_on hp h x \<Longrightarrow> open_on (set_source h y hp) h y"
  by (simp add: set_source_def)

subsection \<open>Single reads\<close>

lemma read_chunk_at:
  assumes "open_on hp h (Chunks chunks i)"
  shows "object_read px h hp =
    Some (if i < length chunks then (Inr (Some (chunks ! i)), set_source h (Chunks chunks (i + 1)) hp)
          else (Inr None, object_close px h hp))"
  using assms by (subst object_read.simps) (simp add: pull_chunks_def after_pull_def)

lemma read_cached:
  assumes "open_on hp h (Replay_Reader r k)" and "k < length (ro_cache (hp_replays hp ! r))"
  shows "object_read px h hp =
    Some (Inr (Some (ro_cache (hp_replays hp ! r) ! k)), set_source h (Replay_Reader r (k + 1)) hp)"
  using assms by (subst object_read.simps) (simp add: reader_first_def Let_def after_pull_def)

lemma read_ended:
  assumes "open_on hp h (Replay_Reader r k)" and "\<not> k < length (ro_cache (hp_replays hp ! r))"
    and "ro_ended (hp_replays hp ! r)"
  shows "object_read px h hp = Some (Inr None, object_close px h hp)"
  using assms by (subst object_read.simps) (simp add: reader_first_def Let_def after_pull_def)

lemma read_through:
  assumes "open_on hp h (Replay_Reader r k)"
    and "hp_replays hp ! r = \<lparr>ro_source = s, ro_cache = cache, ro_ended = False, ro_error = None\<rparr>"
    and "\<not> k < length cache" and "s < h" and "object_read px s hp = Some (x, hp1)"
  shows "object_read px h hp = (case reader_then h r k x hp1 of (a, hp2) \<Rightarrow> Some (after_pull px h a hp2))"
  using assms by (subst object_read.simps) (simp add: reader_first_def Let_def split: prod.split)

lemma read_footer:
  assumes "open_on hp h (With_Footer s f False)" and "s < h" and "object_read px s hp = Some (x, hp1)"
  shows "object_read px h hp = (case footer_then h s f x hp1 of (a, hp2) \<Rightarrow> Some (after_pull px h a hp2))"
  using assms by (subst object_read.simps) (simp add: footer_first_def split: prod.split)

lemma read_after_footer:
  assumes "open_on hp h (With_Footer s f True)"
  shows "object_read px h hp = Some (Inr None, object_close px h hp)"
  using assms by (subst object_read.simps) (simp add: footer_first_def after_pull_def)

lemma read_consumed:
  assumes "h < length (hp_streams hp)" and "so_consumed (hp_streams hp ! h)"
  shows "object_read px h hp = Some (Inl (stream_error (str ''byte stream already consumed'')), hp)"
  using assms by (subst object_read.simps) simp

lemma open_kept: "open_on hp h x \<Longrightarrow> touches F G hp hp' \<Longrightarrow> h \<notin> F \<Longrightarrow> open_on hp' h x"
  by (auto simp: touches_def agree_def)

lemma replay_kept: "touches F G hp hp' \<Longrightarrow> r \<notin> G \<Longrightarrow> r < length (hp_replays hp) \<Longrightarrow>
    hp_replays hp' ! r = hp_replays hp ! r \<and> r < length (hp_replays hp')"
  by (auto simp: touches_def agree_def)

lemma set_source_replays [simp]: "hp_replays (set_source h x hp) = hp_replays hp"
  by (simp add: set_source_def)

lemma set_replay_streams [simp]: "hp_streams (set_replay r x hp) = hp_streams hp"
  by (simp add: set_replay_def)

lemma set_replay_nth [simp]: "r < length (hp_replays hp) \<Longrightarrow> hp_replays (set_replay r x hp) ! r = x"
  by (simp add: set_replay_def)

lemma length_set_replay [simp]: "length (hp_replays (set_replay r x hp)) = length (hp_replays hp)"
  by (simp add: set_replay_def)

text \<open>A stream gives its chunks one by one and then the end, and touches no other cell.\<close>

definition gives_next :: "'s posix \<Rightarrow> 's object_heap \<Rightarrow> nat \<Rightarrow> nat set \<Rightarrow> nat set \<Rightarrow> bytes list \<Rightarrow> bool" where
  "gives_next px hp h F G cs \<longleftrightarrow> (\<exists>hp'. touches F G hp hp' \<and>
     (case cs of
        [] \<Rightarrow> object_read px h hp = Some (Inr None, hp') \<and> so_consumed (hp_streams hp' ! h)
      | c # cs' \<Rightarrow> object_read px h hp = Some (Inr (Some c), hp') \<and> gives hp' h F G cs'))"

lemma gives_nextI:
  "object_read px h hp = Some (Inr (Some c), hp') \<Longrightarrow> touches F G hp hp' \<Longrightarrow> gives hp' h F G cs \<Longrightarrow>
   gives_next px hp h F G (c # cs)"
  by (auto simp: gives_next_def)

lemma gives_next_endI:
  "object_read px h hp = Some (Inr None, hp') \<Longrightarrow> touches F G hp hp' \<Longrightarrow> so_consumed (hp_streams hp' ! h) \<Longrightarrow>
   gives_next px hp h F G []"
  by (auto simp: gives_next_def)

lemma gives_read_chunks:
  assumes "open_on hp h (Chunks chunks i)"
  shows "gives_next px hp h {h} {} (drop i chunks)"
proof (cases "i < length chunks")
  case True
  then have d: "drop i chunks = chunks ! i # drop (i + 1) chunks" by (simp add: Cons_nth_drop_Suc)
  have g: "gives (set_source h (Chunks chunks (i + 1)) hp) h {h} {} (drop (i + 1) chunks)"
    using source_open [OF assms] by (rule gives.chunks)
  show ?thesis
    unfolding d using True by (intro gives_nextI [OF _ touches_source g]) (simp add: read_chunk_at [OF assms])
next
  case False
  have "touches {h} {} hp (object_close px h hp)" "so_consumed (hp_streams (object_close px h hp) ! h)"
    using assms by (auto simp: no_file_def intro!: close_plain)
  with False read_chunk_at [OF assms, of px] show ?thesis
    by (auto intro: gives_next_endI)
qed

lemma gives_read_reader:
  assumes o: "open_on hp h (Replay_Reader r k)" and r: "r < length (hp_replays hp)"
    and ro: "hp_replays hp ! r = \<lparr>ro_source = s, ro_cache = cache, ro_ended = False, ro_error = None\<rparr>"
    and k: "k \<le> length cache" and s: "s < h" and g: "gives hp s F G rest" and n: "h \<notin> F" "r \<notin> G"
    and IH: "gives_next px hp s F G rest"
  shows "gives_next px hp h (insert h F) (insert r G) (drop k (cache @ rest))"
proof (cases "k < length cache")
  case True
  let ?hp = "set_source h (Replay_Reader r (k + 1)) hp"
  have t: "touches {h} {} hp ?hp" by (rule touches_source)
  have "gives ?hp s F G rest" using gives_frame_touched [OF g t] n(1) by auto
  then have "gives ?hp h (insert h F) (insert r G) (drop (k + 1) (cache @ rest))"
    using True r ro s n by (intro gives.reader [OF source_open [OF o], where s = s]) auto
  moreover have "object_read px h hp = Some (Inr (Some (cache ! k)), ?hp)"
    using read_cached [OF o, of px] True ro by simp
  moreover have "drop k (cache @ rest) = cache ! k # drop (k + 1) (cache @ rest)"
    using True by (simp add: Cons_nth_drop_Suc [symmetric] nth_append)
  ultimately show ?thesis
    using touches_mono [OF t, of "insert h F" "insert r G"] by (simp add: gives_nextI)
next
  case False
  then have k: "k = length cache" using k by simp
  obtain x hp1 where x: "object_read px s hp = Some (x, hp1)" "touches F G hp hp1"
    using IH by (cases rest) (auto simp: gives_next_def)
  have o1: "open_on hp1 h (Replay_Reader r k)" using open_kept [OF o x(2) n(1)] .
  have ro1: "hp_replays hp1 ! r = hp_replays hp ! r" "r < length (hp_replays hp1)"
    using replay_kept [OF x(2) n(2)] r by simp_all
  have t1: "touches (insert h F) (insert r G) hp hp1" using x(2) by (rule touches_mono) auto
  note through = read_through [OF o ro False s x(1)]
  show ?thesis
  proof (cases rest)
    case Nil
    then have xN: "x = Inr None" using IH x by (simp add: gives_next_def)
    let ?hp2 = "set_replay r ((hp_replays hp1 ! r)\<lparr>ro_ended := True\<rparr>) hp1"
    have t2: "touches {h} {} ?hp2 (object_close px h ?hp2)" "so_consumed (hp_streams (object_close px h ?hp2) ! h)"
      using o1 by (auto simp: no_file_def intro!: close_plain)
    have "touches (insert h F) (insert r G) hp (object_close px h ?hp2)"
      by (rule touches_trans [OF t1]) (rule touches_trans [OF touches_mono [OF touches_replay]
          touches_mono [OF t2(1)]]; auto)
    moreover have "object_read px h hp = Some (Inr None, object_close px h ?hp2)"
      using through by (simp add: xN reader_then_def after_pull_def Let_def)
    moreover have "drop k (cache @ rest) = []" using k Nil by simp
    ultimately show ?thesis using t2(2) by (simp add: gives_next_endI)
  next
    case (Cons c cs)
    then have xc: "x = Inr (Some c)" "gives hp1 s F G cs" using IH x by (auto simp: gives_next_def)
    let ?ro = "(hp_replays hp1 ! r)\<lparr>ro_cache := cache @ [c]\<rparr>"
    let ?hp2 = "set_source h (Replay_Reader r (k + 1)) (set_replay r ?ro hp1)"
    have t2: "touches {h} {r} hp1 ?hp2"
      by (rule touches_trans [OF touches_mono [OF touches_replay] touches_mono [OF touches_source]]) auto
    have "gives ?hp2 s F G cs" using gives_frame_touched [OF xc(2) t2] n by auto
    then have "gives ?hp2 h (insert h F) (insert r G) (drop (k + 1) ((cache @ [c]) @ cs))"
      using o1 ro ro1 s n k by (intro gives.reader [where s = s] source_open) (auto simp: set_source_def set_replay_def)
    moreover have "object_read px h hp = Some (Inr (Some c), ?hp2)"
      using through ro ro1 by (simp add: xc reader_then_def after_pull_def Let_def)
    moreover have "touches (insert h F) (insert r G) hp ?hp2"
      by (rule touches_trans [OF t1 touches_mono [OF t2]]) auto
    ultimately show ?thesis using Cons k by (simp add: gives_nextI)
  qed
qed

lemma gives_read_footer:
  assumes o: "open_on hp h (With_Footer s f False)" and s: "s < h" and g: "gives hp s F G rest" and n: "h \<notin> F"
    and IH: "gives_next px hp s F G rest"
  shows "gives_next px hp h (insert h F) G (rest @ [f])"
proof -
  obtain x hp1 where x: "object_read px s hp = Some (x, hp1)" "touches F G hp hp1"
    using IH by (cases rest) (auto simp: gives_next_def)
  have o1: "open_on hp1 h (With_Footer s f False)" using open_kept [OF o x(2) n] .
  have t1: "touches (insert h F) G hp hp1" using x(2) by (rule touches_mono) auto
  note foot = read_footer [OF o s x(1)]
  show ?thesis
  proof (cases rest)
    case Nil
    then have xN: "x = Inr None" using IH x by (simp add: gives_next_def)
    let ?hp2 = "set_source h (With_Footer s f True) hp1"
    have "length (hp_replays hp) \<le> length (hp_replays hp1)" using x(2) by (simp add: touches_def agree_def)
    then have G: "G \<subseteq> {..<length (hp_replays ?hp2)}" using gives_in [OF g] by auto
    have F: "insert h F \<subseteq> {..h}" using gives_in [OF g] s by auto
    have "gives ?hp2 h (insert h F) G []"
      using source_open [OF o1] _ F G by (rule gives.footer_sent) simp
    moreover have "object_read px h hp = Some (Inr (Some f), ?hp2)"
      using foot by (simp add: xN footer_then_def after_pull_def)
    moreover have "touches (insert h F) G hp ?hp2"
      by (rule touches_trans [OF t1 touches_mono [OF touches_source]]) auto
    ultimately show ?thesis using Nil by (simp add: gives_nextI)
  next
    case (Cons c cs)
    then have xc: "x = Inr (Some c)" "gives hp1 s F G cs" using IH x by (auto simp: gives_next_def)
    have "gives hp1 h (insert h F) G (cs @ [f])" using o1 s xc(2) n by (rule gives.footer)
    moreover have "object_read px h hp = Some (Inr (Some c), hp1)"
      using foot by (simp add: xc footer_then_def after_pull_def)
    ultimately show ?thesis using Cons t1 by (simp add: gives_nextI)
  qed
qed

lemma gives_read: "gives hp h F G cs \<Longrightarrow> gives_next px hp h F G cs"
proof (induction rule: gives.induct)
  case (footer_sent h s f F G)
  have "touches {h} {} hp (object_close px h hp)" "so_consumed (hp_streams (object_close px h hp) ! h)"
    using footer_sent(1) by (auto simp: no_file_def intro!: close_plain)
  then show ?case
    using read_after_footer [OF footer_sent(1), of px] footer_sent(2)
    by (intro gives_next_endI) (auto elim: touches_mono)
next
  case (chunks h chunks i)
  then show ?case by (rule gives_read_chunks)
next
  case (reader h r k s cache F G rest)
  then show ?case by (intro gives_read_reader [where s = s])
next
  case (footer h s f F G rest)
  then show ?case by (intro gives_read_footer [where s = s])
qed

subsection \<open>Readers of one stream\<close>

text \<open>
  The state of a replay whose source gave or still gives the chunks \<open>all\<close>, and of a reader that has
  answered \<open>n\<close> times.
\<close>

definition replay_of :: "'s object_heap \<Rightarrow> nat \<Rightarrow> nat set \<Rightarrow> nat set \<Rightarrow> bytes list \<Rightarrow> bool" where
  "replay_of hp r F G chunks \<longleftrightarrow> r < length (hp_replays hp) \<and> r \<notin> G \<and>
     ro_error (hp_replays hp ! r) = None \<and> ro_source (hp_replays hp ! r) \<in> F \<and>
     F \<subseteq> {..ro_source (hp_replays hp ! r)} \<and>
     (if ro_ended (hp_replays hp ! r) then ro_cache (hp_replays hp ! r) = chunks
      else \<exists>rest. gives hp (ro_source (hp_replays hp ! r)) F G rest \<and> chunks = ro_cache (hp_replays hp ! r) @ rest)"

definition reader_after :: "'s object_heap \<Rightarrow> nat \<Rightarrow> nat \<Rightarrow> bytes list \<Rightarrow> nat \<Rightarrow> bool" where
  "reader_after hp r h chunks n \<longleftrightarrow> h < length (hp_streams hp) \<and> ro_source (hp_replays hp ! r) < h \<and>
     (if n \<le> length chunks
      then hp_streams hp ! h = \<lparr>so_source = Replay_Reader r n, so_consumed = False\<rparr> \<and>
           n \<le> length (ro_cache (hp_replays hp ! r))
      else so_consumed (hp_streams hp ! h))"

text \<open>What the \<open>n\<close>-th read of a stream answers, counted from 0.\<close>

definition answer :: "bytes list \<Rightarrow> nat \<Rightarrow> chunk_result" where
  "answer chunks n =
     (if n < length chunks then Inr (Some (chunks ! n))
      else if n = length chunks then Inr None
      else Inl (stream_error (str ''byte stream already consumed'')))"

lemma replay_ofD:
  assumes "replay_of hp r F G chunks" and "\<not> ro_ended (hp_replays hp ! r)"
  obtains rest where "gives hp (ro_source (hp_replays hp ! r)) F G rest"
    and "chunks = ro_cache (hp_replays hp ! r) @ rest"
    and "hp_replays hp ! r = \<lparr>ro_source = ro_source (hp_replays hp ! r), ro_cache = ro_cache (hp_replays hp ! r),
      ro_ended = False, ro_error = None\<rparr>"
proof -
  have "hp_replays hp ! r = \<lparr>ro_source = ro_source (hp_replays hp ! r), ro_cache = ro_cache (hp_replays hp ! r),
      ro_ended = False, ro_error = None\<rparr>"
    using assms by (auto simp: replay_of_def intro: replay_object.equality)
  with assms that show thesis by (auto simp: replay_of_def)
qed

lemma replay_of_touched:
  assumes "replay_of hp r F G chunks" and "touches {h} {} hp hp'" and "h \<notin> F"
  shows "replay_of hp' r F G chunks"
proof -
  have same: "hp_replays hp' ! r = hp_replays hp ! r" "r < length (hp_replays hp')"
    using replay_kept [OF assms(2), of r] assms(1) by (auto simp: replay_of_def)
  show ?thesis
    using assms(1,3) same(2) gives_frame_touched [OF _ assms(2), of _ F G]
    unfolding replay_of_def same(1) by (auto split: if_splits)
qed

lemma reader_read:
  assumes rp: "replay_of hp r F G chunks" and rd: "reader_after hp r h chunks n" and h: "h \<notin> F"
  shows "\<exists>hp'. object_read px h hp = Some (answer chunks n, hp') \<and> replay_of hp' r F G chunks \<and>
    reader_after hp' r h chunks (Suc n) \<and> touches (insert h F) (insert r G) hp hp' \<and>
    ro_source (hp_replays hp' ! r) = ro_source (hp_replays hp ! r) \<and>
    length (ro_cache (hp_replays hp ! r)) \<le> length (ro_cache (hp_replays hp' ! r))"
  (is "\<exists>hp'. ?P hp'")
proof -
  let ?ro = "hp_replays hp ! r" and ?close = "object_close px h hp"
  have r: "r < length (hp_replays hp)" "r \<notin> G" using rp by (auto simp: replay_of_def)
  have hl: "h < length (hp_streams hp)" "ro_source ?ro < h" using rd by (auto simp: reader_after_def)
  consider "n > length chunks" | "n \<le> length chunks" "n < length (ro_cache ?ro)" |
    "n \<le> length chunks" "\<not> n < length (ro_cache ?ro)" "ro_ended ?ro" |
    "n \<le> length chunks" "\<not> n < length (ro_cache ?ro)" "\<not> ro_ended ?ro" by linarith
  then show ?thesis
  proof cases
    case 1
    then have "so_consumed (hp_streams hp ! h)" using rd by (simp add: reader_after_def)
    then have "object_read px h hp = Some (answer chunks n, hp)"
      using read_consumed [OF hl(1)] 1 by (simp add: answer_def)
    moreover have "reader_after hp r h chunks (Suc n)" using rd 1 by (simp add: reader_after_def)
    ultimately show ?thesis using rp touches_refl by blast
  next
    case 2
    then have o: "open_on hp h (Replay_Reader r n)" using rd by (simp add: reader_after_def)
    let ?hp = "set_source h (Replay_Reader r (n + 1)) hp"
    have nth: "answer chunks n = Inr (Some (ro_cache ?ro ! n))" "n < length chunks"
      using rp 2 by (auto simp: replay_of_def answer_def nth_append split: if_splits)
    have t: "touches {h} {} hp ?hp" by (rule touches_source)
    have "reader_after ?hp r h chunks (Suc n)"
      using source_open [OF o, of "Replay_Reader r (n + 1)"] hl 2 nth(2) by (simp add: reader_after_def)
    with nth(1) read_cached [OF o 2(2), of px] replay_of_touched [OF rp t h] show ?thesis
      using touches_mono [OF t, of "insert h F" "insert r G"] by (intro exI [of _ ?hp]) auto
  next
    case 3
    then have o: "open_on hp h (Replay_Reader r n)" using rd by (simp add: reader_after_def)
    have "ro_cache ?ro = chunks" using rp 3 by (simp add: replay_of_def)
    then have n: "n = length chunks" using 3 by simp
    have t: "touches {h} {} hp ?close" "so_consumed (hp_streams ?close ! h)"
      using o by (auto simp: no_file_def intro!: close_plain)
    have "object_read px h hp = Some (answer chunks n, ?close)"
      using read_ended [OF o 3(2,3)] n by (simp add: answer_def)
    moreover have "reader_after ?close r h chunks (Suc n)"
      using t hl n replay_kept [OF t(1), of r] r(1) by (simp add: reader_after_def) (simp add: touches_def agree_def)
    ultimately show ?thesis using replay_of_touched [OF rp t(1) h] replay_kept [OF t(1), of r] r(1)
        touches_mono [OF t(1), of "insert h F" "insert r G"] by (intro exI [of _ ?close]) auto
  next
    case 4
    then have o: "open_on hp h (Replay_Reader r n)" and nc: "n = length (ro_cache ?ro)"
      using rd by (auto simp: reader_after_def)
    obtain rest where rest: "gives hp (ro_source ?ro) F G rest" "chunks = ro_cache ?ro @ rest"
      "?ro = \<lparr>ro_source = ro_source ?ro, ro_cache = ro_cache ?ro, ro_ended = False, ro_error = None\<rparr>"
      using replay_ofD [OF rp 4(3)] .
    let ?s = "ro_source ?ro"
    obtain x hp1 where x: "object_read px ?s hp = Some (x, hp1)" "touches F G hp hp1"
      using gives_read [OF rest(1), of px] by (cases rest) (auto simp: gives_next_def)
    have o1: "open_on hp1 h (Replay_Reader r n)" using open_kept [OF o x(2) h] .
    have ro1: "hp_replays hp1 ! r = ?ro" "r < length (hp_replays hp1)"
      using replay_kept [OF x(2) r(2)] r(1) by simp_all
    have t1: "touches (insert h F) (insert r G) hp hp1" using x(2) by (rule touches_mono) auto
    note through = read_through [OF o rest(3) _ hl(2) x(1)]
    have sF: "?s \<in> F" "F \<subseteq> {..?s}" using gives_in [OF rest(1)] by auto
    show ?thesis
    proof (cases rest)
      case Nil
      then have xN: "x = Inr None" using gives_read [OF rest(1), of px] x by (simp add: gives_next_def)
      let ?hp2 = "set_replay r (?ro\<lparr>ro_ended := True\<rparr>) hp1"
      let ?hp3 = "object_close px h ?hp2"
      have t2: "touches {h} {} ?hp2 ?hp3" "so_consumed (hp_streams ?hp3 ! h)"
        using o1 by (auto simp: no_file_def intro!: close_plain)
      have ro3: "hp_replays ?hp3 ! r = ?ro\<lparr>ro_ended := True\<rparr>" "r < length (hp_replays ?hp3)"
        using replay_kept [OF t2(1), of r] ro1(2) by simp_all
      have "length (hp_streams hp) \<le> length (hp_streams ?hp3)"
        using t2(1) x(2) by (simp add: touches_def agree_def)
      then have "reader_after ?hp3 r h chunks (Suc n)"
        using t2(2) hl rest(2) nc Nil by (simp add: reader_after_def ro3)
      moreover have "replay_of ?hp3 r F G chunks"
        using rp rest(2) Nil sF ro1(2) by (auto simp: replay_of_def ro3)
      moreover have "object_read px h hp = Some (answer chunks n, ?hp3)"
        using through 4(2) rest(2) nc Nil
        by (simp add: xN reader_then_def after_pull_def Let_def ro1 answer_def)
      moreover have "touches (insert h F) (insert r G) hp ?hp3"
        by (rule touches_trans [OF t1]) (rule touches_trans [OF touches_mono [OF touches_replay]
            touches_mono [OF t2(1)]]; auto)
      ultimately show ?thesis by (intro exI [of _ ?hp3]) (simp add: ro3)
    next
      case (Cons c cs)
      then have xc: "x = Inr (Some c)" "gives hp1 ?s F G cs"
        using gives_read [OF rest(1), of px] x by (auto simp: gives_next_def)
      let ?ro2 = "?ro\<lparr>ro_cache := ro_cache ?ro @ [c]\<rparr>"
      let ?hp2 = "set_source h (Replay_Reader r (n + 1)) (set_replay r ?ro2 hp1)"
      have t2: "touches {h} {r} hp1 ?hp2"
        by (rule touches_trans [OF touches_mono [OF touches_replay] touches_mono [OF touches_source]]) auto
      have ro2: "hp_replays ?hp2 ! r = ?ro2" "length (hp_replays ?hp2) = length (hp_replays hp1)"
        using ro1(2) by simp_all
      have "gives ?hp2 ?s F G cs" using gives_frame_touched [OF xc(2) t2] h r(2) by auto
      then have "replay_of ?hp2 r F G chunks"
        using rp rest(2) Cons ro1(2) 4(3) by (auto simp: replay_of_def ro2)
      moreover have "open_on ?hp2 h (Replay_Reader r (n + 1))"
        using o1 by (intro source_open) simp
      then have "reader_after ?hp2 r h chunks (Suc n)"
        using hl(2) rest(2) nc Cons ro1(2) by (auto simp: reader_after_def)
      moreover have "object_read px h hp = Some (answer chunks n, ?hp2)"
        using through 4(2) rest(2) nc Cons
        by (simp add: xc reader_then_def after_pull_def Let_def ro1 answer_def nth_append)
      moreover have "touches (insert h F) (insert r G) hp ?hp2"
        by (rule touches_trans [OF t1 touches_mono [OF t2]]) auto
      ultimately show ?thesis using ro1(2) by (intro exI [of _ ?hp2]) simp
    qed
  qed
qed

text \<open>Reads of several streams in any order, with what each answered.\<close>

fun read_each :: "'s posix \<Rightarrow> nat list \<Rightarrow> 's object_heap \<Rightarrow> ((nat \<times> chunk_result) list \<times> 's object_heap) run" where
  "read_each px [] hp = Some ([], hp)"
| "read_each px (h # hs) hp = do {
     (r, hp) \<leftarrow> object_read px h hp;
     (rs, hp) \<leftarrow> read_each px hs hp;
     Some ((h, r) # rs, hp)
   }"

definition answers_to :: "nat \<Rightarrow> (nat \<times> chunk_result) list \<Rightarrow> chunk_result list" where
  "answers_to h rs = map snd (filter (\<lambda>x. fst x = h) rs)"

lemma other_reader:
  assumes "reader_after hp r x chunks m" and "touches (insert h F) (insert r G) hp hp'" and "x \<noteq> h" and "x \<notin> F"
    and "ro_source (hp_replays hp' ! r) = ro_source (hp_replays hp ! r)"
    and "length (ro_cache (hp_replays hp ! r)) \<le> length (ro_cache (hp_replays hp' ! r))"
  shows "reader_after hp' r x chunks m"
proof -
  have "hp_streams hp' ! x = hp_streams hp ! x" "length (hp_streams hp) \<le> length (hp_streams hp')"
    using assms(1-4) by (auto simp: touches_def agree_def reader_after_def)
  with assms(1,5,6) show ?thesis by (auto simp: reader_after_def split: if_splits)
qed

lemma readers_read:
  assumes "replay_of hp r F G chunks" and "\<forall>h \<in> set hs. reader_after hp r h chunks (at h) \<and> h \<notin> F"
  shows "\<exists>rs hp'. read_each px hs hp = Some (rs, hp') \<and>
    (\<forall>h \<in> set hs. answers_to h rs = map (answer chunks) [at h..<at h + count_list hs h])"
  using assms
proof (induction hs arbitrary: hp at)
  case (Cons h hs)
  obtain hp1 where hp1: "object_read px h hp = Some (answer chunks (at h), hp1)" "replay_of hp1 r F G chunks"
    "reader_after hp1 r h chunks (Suc (at h))" "touches (insert h F) (insert r G) hp hp1"
    "ro_source (hp_replays hp1 ! r) = ro_source (hp_replays hp ! r)"
    "length (ro_cache (hp_replays hp ! r)) \<le> length (ro_cache (hp_replays hp1 ! r))"
    using reader_read [OF Cons.prems(1), of h "at h" px] Cons.prems(2) by auto
  let ?at = "at(h := Suc (at h))"
  have "reader_after hp1 r x chunks (?at x) \<and> x \<notin> F" if "x \<in> set hs" for x
    using that hp1(3) Cons.prems(2) other_reader [OF _ hp1(4) _ _ hp1(5,6), of x chunks "at x"]
    by (cases "x = h") auto
  then obtain rs hp2 where rs: "read_each px hs hp1 = Some (rs, hp2)"
    "\<forall>x \<in> set hs. answers_to x rs = map (answer chunks) [?at x..<?at x + count_list hs x]"
    using Cons.IH [OF hp1(2), of ?at] by blast
  have fst_rs: "map fst rs = hs" if "read_each px hs hp1 = Some (rs, hp2)" for hs hp1 rs hp2
    using that by (induction hs arbitrary: hp1 rs) (auto simp: bind_eq_Some_conv split: prod.splits)
  have "answers_to x ((h, answer chunks (at h)) # rs) = map (answer chunks) [at x..<at x + count_list (h # hs) x]"
    if "x = h \<or> x \<in> set hs" for x
  proof (cases "x = h")
    case True
    have "answers_to h rs = map (answer chunks) [Suc (at h)..<Suc (at h) + count_list hs h]"
    proof (cases "h \<in> set hs")
      case False
      then have "h \<notin> set (map fst rs)" using fst_rs [OF rs(1)] by simp
      then have "filter (\<lambda>x. fst x = h) rs = []" by (auto simp: filter_empty_conv)
      with False show ?thesis by (simp add: answers_to_def count_list_0_iff)
    qed (use rs(2) in simp)
    with True show ?thesis by (simp add: answers_to_def upt_conv_Cons del: upt_Suc)
  next
    case False
    with that rs(2) show ?thesis by (simp add: answers_to_def del: upt_Suc)
  qed
  with hp1(1) rs(1) show ?case by auto
qed simp

text \<open>Wrapping a stream in a replay, and handing out readers of it.\<close>

lemma touches_new: "touches {} {} hp (snd (new_stream source hp))"
  by (auto simp: new_stream_def touches_def agree_def nth_append)

lemma touches_wrap: "touches {} {} hp (snd (replayable_stream s hp))"
  by (auto simp: replayable_stream_def touches_def agree_def nth_append)

fun make_readers :: "nat \<Rightarrow> nat \<Rightarrow> 's object_heap \<Rightarrow> nat list \<times> 's object_heap" where
  "make_readers r 0 hp = ([], hp)"
| "make_readers r (Suc m) hp =
     (case replay_reader r hp of (h, hp) \<Rightarrow> case make_readers r m hp of (hs, hp) \<Rightarrow> (h # hs, hp))"

lemma wrap_replay_of:
  assumes "gives hp s F G chunks" and "replayable_stream s hp = (r, hp')"
  shows "replay_of hp' r F G chunks" and "s < length (hp_streams hp')" and "ro_source (hp_replays hp' ! r) = s"
    and "r < length (hp_replays hp')"
proof -
  have g: "gives hp' s F G chunks"
    using gives_frame_touched [OF assms(1) touches_wrap [of hp s]] assms(2) by simp
  then show "replay_of hp' r F G chunks" and "s < length (hp_streams hp')" and "ro_source (hp_replays hp' ! r) = s"
    and "r < length (hp_replays hp')"
    using assms gives_in [OF assms(1)] by (auto simp: replayable_stream_def replay_of_def)
qed

lemma new_reader:
  assumes "replay_of hp r F G chunks" and "replay_reader r hp = (h, hp')" and "ro_source (hp_replays hp ! r) < length (hp_streams hp)"
  shows "replay_of hp' r F G chunks" and "reader_after hp' r h chunks 0" and "h \<notin> F"
    and "ro_source (hp_replays hp' ! r) < length (hp_streams hp')"
    and "reader_after hp r x chunks n \<Longrightarrow> reader_after hp' r x chunks n"
proof -
  have r: "r < length (hp_replays hp)" using assms(1) by (simp add: replay_of_def)
  have same: "hp_replays hp' = hp_replays hp" using assms(2) by (auto simp: replay_reader_def new_stream_def)
  have t: "touches {} {} hp hp'" using touches_new [of hp "Replay_Reader r 0"] assms(2) by (simp add: replay_reader_def)
  have g: "gives hp' s F G cs" if "gives hp s F G cs" for s cs using gives_frame_touched [OF that t] by simp
  show "replay_of hp' r F G chunks"
    using assms(1) g unfolding replay_of_def same by (auto split: if_splits)
  show "reader_after hp' r h chunks 0"
    using assms(2,3) by (auto simp: replay_reader_def new_stream_def reader_after_def)
  show "h \<notin> F" using assms by (fastforce simp: replay_of_def replay_reader_def new_stream_def)
  show "ro_source (hp_replays hp' ! r) < length (hp_streams hp')"
    using assms(3) t by (simp add: same touches_def agree_def)
  show "reader_after hp r x chunks n \<Longrightarrow> reader_after hp' r x chunks n"
    using t by (auto simp: reader_after_def same touches_def agree_def split: if_splits)
qed

lemma new_readers:
  assumes "replay_of hp r F G chunks" and "make_readers r m hp = (hs, hp')" and "ro_source (hp_replays hp ! r) < length (hp_streams hp)"
  shows "replay_of hp' r F G chunks \<and> (\<forall>h \<in> set hs. reader_after hp' r h chunks 0 \<and> h \<notin> F) \<and>
    (\<forall>x n. reader_after hp r x chunks n \<longrightarrow> reader_after hp' r x chunks n)"
  using assms
proof (induction m arbitrary: hp hs)
  case (Suc m)
  obtain h hp1 hs1 where h: "replay_reader r hp = (h, hp1)" "make_readers r m hp1 = (hs1, hp')" "hs = h # hs1"
    using Suc.prems(2) by (auto split: prod.splits)
  note n = new_reader [OF Suc.prems(1) h(1) Suc.prems(3)]
  have "replay_of hp' r F G chunks \<and> (\<forall>h \<in> set hs1. reader_after hp' r h chunks 0 \<and> h \<notin> F) \<and>
      (\<forall>x n. reader_after hp1 r x chunks n \<longrightarrow> reader_after hp' r x chunks n)"
    using n(1) h(2) n(4) by (rule Suc.IH)
  with n h(3) show ?case by auto
qed auto

text \<open>
  Property C15. A stream that is wrapped in a replay can be read by any number of readers, one read at a time in any
  order: every reader gets all chunks of the stream from the first on, then the end once, and after
  that the error of a stream that is used up.
\<close>
theorem every_reader_reads_all:
  assumes "gives hp s F G chunks" and "replayable_stream s hp = (r, hp1)"
    and "make_readers r m hp1 = (readers, hp2)" and "set reads \<subseteq> set readers"
  shows "\<exists>rs hp3. read_each px reads hp2 = Some (rs, hp3) \<and>
    (\<forall>h \<in> set reads. answers_to h rs = map (answer chunks) [0..<count_list reads h])"
proof -
  note w = wrap_replay_of [OF assms(1,2)]
  have "replay_of hp2 r F G chunks" "\<forall>h \<in> set reads. reader_after hp2 r h chunks 0 \<and> h \<notin> F"
    using new_readers [OF w(1) assms(3)] w(2-4) assms(4) by auto
  then show ?thesis using readers_read [of hp2 r F G chunks reads "\<lambda>_. 0" px] by simp
qed

definition empty_heap :: "disk object_heap" where
  "empty_heap = \<lparr>hp_streams = [], hp_replays = [], hp_stub = \<lparr>open_readers = 0, open_writers = 0, os = empty_disk 3\<rparr>\<rparr>"

theorem every_reader_reads_all_witness:
  "\<exists>rs hp3. read_each disk_px [1, 2, 1] (snd (make_readers 0 2 (snd (replayable_stream 0
      (snd (byte_stream_from_bytes [[120], [121]] empty_heap)))))) = Some (rs, hp3) \<and>
    answers_to 1 rs = [Inr (Some [120]), Inr (Some [121])] \<and> answers_to 2 rs = [Inr (Some [120])]"
proof -
  let ?hp = "snd (byte_stream_from_bytes [[120], [121]] empty_heap)"
  have "gives ?hp 0 {0} {} (drop 0 [[120], [121]])"
    by (rule gives.chunks) (simp add: byte_stream_from_bytes_def new_stream_def empty_heap_def)
  then have "gives ?hp 0 {0} {} [[120], [121]]" by simp
  from every_reader_reads_all [OF this, of 0 "snd (replayable_stream 0 ?hp)" 2 "[1, 2]" _ "[1, 2, 1]" disk_px]
  show ?thesis
    by (force simp: replayable_stream_def byte_stream_from_bytes_def new_stream_def empty_heap_def
        replay_reader_def numeral_2_eq_2 answer_def)
qed

lemma gives_wrapped:
  assumes "gives hp s F G cs" and "replayable_stream s hp = (r, hp1)" and "replay_reader r hp1 = (h, hp2)"
  shows "gives hp2 h (insert h F) (insert r G) cs"
proof -
  note i = gives_in [OF assms(1)]
  have r: "r = length (hp_replays hp)" "hp1 = snd (replayable_stream s hp)"
    using assms(2) by (auto simp: replayable_stream_def)
  have h: "h = length (hp_streams hp)" "hp2 = snd (new_stream (Replay_Reader r 0) hp1)"
    using assms(3) r by (auto simp: replay_reader_def new_stream_def replayable_stream_def)
  have "touches {} {} hp hp2"
    unfolding h(2) r(2) by (rule touches_trans [OF touches_wrap touches_new])
  then have g: "gives hp2 s F G cs" using gives_frame_touched [OF assms(1)] by simp
  have "gives hp2 h (insert h F) (insert r G) (drop 0 ([] @ cs))"
    using i g by (intro gives.reader [where s = s and r = r])
      (auto simp: h r replayable_stream_def new_stream_def)
  then show ?thesis by simp
qed

subsection \<open>All bytes of a stream\<close>

lemma concat_loop_eq:
  assumes "chunk_index < length chunks \<longrightarrow> chunk_offset < length (chunks ! chunk_index)"
    and "chunk_index \<ge> length chunks \<longrightarrow> chunk_offset = 0"
    and "list_all (\<lambda>c. c \<noteq> []) chunks" and "n = length (drop chunk_offset (concat (drop chunk_index chunks)))"
  shows "concat_loop chunks chunk_index chunk_offset n = Some (drop chunk_offset (concat (drop chunk_index chunks)))"
  using assms(1,2,4)
proof (induction n arbitrary: chunk_index chunk_offset)
  case (Suc n)
  let ?c = "chunks ! chunk_index"
  have i: "chunk_index < length chunks" using Suc.prems by (cases "chunk_index < length chunks") auto
  then have o: "chunk_offset < length ?c" using Suc.prems by simp
  have d: "concat (drop chunk_index chunks) = ?c @ concat (drop (chunk_index + 1) chunks)"
    using i by (simp add: Cons_nth_drop_Suc [symmetric])
  have e: "drop chunk_offset (concat (drop chunk_index chunks)) =
      ?c ! chunk_offset # (drop (chunk_offset + 1) ?c @ concat (drop (chunk_index + 1) chunks))"
    using o unfolding d by (simp add: Cons_nth_drop_Suc [symmetric])
  show ?case
  proof (cases "chunk_offset + 1 \<ge> length ?c")
    case True
    have "chunk_index + 1 < length chunks \<longrightarrow> 0 < length (chunks ! (chunk_index + 1))"
      using assms(3) by (auto simp: list_all_length)
    then have "concat_loop chunks (chunk_index + 1) 0 n = Some (drop 0 (concat (drop (chunk_index + 1) chunks)))"
      using Suc.prems(3) True unfolding e by (intro Suc.IH) auto
    then show ?thesis using i o True unfolding e by simp
  next
    case False
    have "drop (chunk_offset + 1) (concat (drop chunk_index chunks)) =
        drop (chunk_offset + 1) ?c @ concat (drop (chunk_index + 1) chunks)"
      using o unfolding d by simp
    moreover have "concat_loop chunks chunk_index (chunk_offset + 1) n =
        Some (drop (chunk_offset + 1) (concat (drop chunk_index chunks)))"
      using Suc.prems(3) False i unfolding e by (intro Suc.IH) (auto simp: d)
    ultimately show ?thesis using i o False unfolding e by simp
  qed
qed simp

lemma concat_byte_chunks_eq:
  assumes "list_all (\<lambda>c. c \<noteq> []) chunks"
  shows "concat_byte_chunks chunks (int (length (concat chunks))) = Some (concat chunks)"
proof (cases "concat chunks = []")
  case False
  have "concat_loop chunks 0 0 (length (concat chunks)) = Some (drop 0 (concat (drop 0 chunks)))"
    using assms by (intro concat_loop_eq) (auto simp: list_all_length)
  with False show ?thesis by (simp add: concat_byte_chunks_def)
qed (simp add: concat_byte_chunks_def)

lemma concat_filter_nonempty: "concat (filter (\<lambda>c. c \<noteq> []) cs) = concat cs"
  by (induction cs) auto

lemma object_bytes_loop_eq:
  assumes "gives hp h F G cs" and "0 \<le> count" and "count \<le> m" and "m < 2 ^ 30"
    and "list_all (\<lambda>c. length c \<le> 2 ^ 30) cs"
  shows "\<exists>hp'. object_bytes_loop px m h hp acc count =
      Some (if count + int (length (concat cs)) \<le> m
            then Inr (acc @ filter (\<lambda>c. c \<noteq> []) cs, count + int (length (concat cs))) else Inl (exceeded m), hp') \<and>
    touches F G hp hp' \<and> so_consumed (hp_streams hp' ! h)"
  using assms(1-3,5)
proof (induction cs arbitrary: hp acc count rule: list.induct)
  case Nil
  then obtain hp' where "object_read px h hp = Some (Inr None, hp')" "touches F G hp hp'" "so_consumed (hp_streams hp' ! h)"
    using gives_read [OF Nil(1), of px] by (auto simp: gives_next_def)
  then show ?case using Nil by (subst object_bytes_loop.simps) auto
next
  case (Cons c cs)
  obtain hp1 where hp1: "object_read px h hp = Some (Inr (Some c), hp1)" "touches F G hp hp1" "gives hp1 h F G cs"
    using gives_read [OF Cons.prems(1), of px] by (auto simp: gives_next_def)
  have fits: "int32 (count + int (length c)) = Some (count + int (length c))"
  proof -
    have "int (length c) \<le> 2 ^ 30" using Cons.prems(4) by simp
    then show ?thesis using Cons.prems assms(4) by (simp add: int32_def int32_ok_def)
  qed
  show ?case
  proof (cases "count + int (length c) \<le> m")
    case False
    have plain: "no_file (hp_streams hp1 ! h)"
      using hp1(3) by (cases rule: gives.cases) (auto simp: no_file_def)
    have h: "h \<in> F" "h < length (hp_streams hp1)" using gives_in [OF hp1(3)] by auto
    have "touches F G hp (object_close px h hp1)"
      by (rule touches_trans [OF hp1(2) touches_mono [OF close_plain(1) [OF h(2) plain]]]) (use h in auto)
    moreover have "\<not> count + int (length (concat (c # cs))) \<le> m" using False by simp
    ultimately show ?thesis using False fits hp1(1) close_plain(2) [OF h(2) plain]
      by (subst object_bytes_loop.simps) auto
  next
    case True
    obtain hp' where "object_bytes_loop px m h hp1 (if length c > 0 then acc @ [c] else acc) (count + int (length c)) =
        Some (if count + int (length c) + int (length (concat cs)) \<le> m
              then Inr ((if length c > 0 then acc @ [c] else acc) @ filter (\<lambda>c. c \<noteq> []) cs,
                count + int (length c) + int (length (concat cs))) else Inl (exceeded m), hp')"
      "touches F G hp1 hp'" "so_consumed (hp_streams hp' ! h)"
      using Cons.IH [OF hp1(3), of "count + int (length c)" "if length c > 0 then acc @ [c] else acc"] Cons.prems True
      by auto
    with True fits hp1(1) touches_trans [OF hp1(2)] show ?thesis
      by (subst object_bytes_loop.simps) (auto simp: add.assoc)
  qed
qed

lemma object_read_all_bytes_eq:
  assumes "gives hp h F G cs" and "0 \<le> m" and "m < 2 ^ 30" and "list_all (\<lambda>c. length c \<le> 2 ^ 30) cs"
  shows "\<exists>hp'. object_read_all_bytes px m h hp =
      Some (if int (length (concat cs)) \<le> m then Inr (concat cs) else Inl (exceeded m), hp') \<and>
    touches F G hp hp' \<and> so_consumed (hp_streams hp' ! h)"
proof -
  obtain hp' where hp': "object_bytes_loop px m h hp [] 0 =
      Some (if 0 + int (length (concat cs)) \<le> m
            then Inr ([] @ filter (\<lambda>c. c \<noteq> []) cs, 0 + int (length (concat cs))) else Inl (exceeded m), hp')"
    "touches F G hp hp'" "so_consumed (hp_streams hp' ! h)"
    using object_bytes_loop_eq [OF assms(1) order.refl assms(2-4)] by blast
  have "list_all (\<lambda>c. c \<noteq> []) (filter (\<lambda>c. c \<noteq> []) cs)" by (simp add: list_all_iff)
  from concat_byte_chunks_eq [OF this] hp' show ?thesis
    by (auto simp: object_read_all_bytes_def concat_filter_nonempty)
qed

end
