(* ===== verification/Vinyl_File.thy ===== *)
theory Vinyl_File
  imports Vinyl_Path Stream_Objects
begin

text \<open>
  Virtual files (\<open>vinyl/file.mbt\<close>): the record of a file with the history of its paths, its
  construction, the accessors, the operations that give a changed copy, and cloning. Normal paths are
  an invariant of files; the cached relative path is always the right one.
\<close>

datatype vinyl_kind = Plain_File | Directory_Entry | Link_Entry

record vinyl_stat =
  vs_kind :: vinyl_kind
  vs_mode :: "32 word option"
  vs_mtime_ms :: "64 word option"

text \<open>A stream is the number of its cell.\<close>

datatype vinyl_contents = Null | Buffer bytes | Stream nat

type_synonym metadata = "(mstring \<times> mstring) list"

record vinyl_file =
  vf_cwd :: mstring
  vf_base :: mstring
  vf_history :: "mstring list"
  vf_contents :: vinyl_contents
  vf_stream_replay :: "nat option"
  vf_stat :: "vinyl_stat option"
  vf_symlink :: "mstring option"
  vf_source_map :: "mstring option"
  vf_metadata :: metadata
  vf_relative_cache :: "mstring option"

subsection \<open>Construction\<close>

definition prepare_contents :: "vinyl_contents \<Rightarrow> 's object_heap \<Rightarrow> vinyl_contents \<times> nat option \<times> 's object_heap" where
  "prepare_contents contents hp =
     (case contents of
        Stream source \<Rightarrow>
          (case replayable_stream source hp of (replay, hp) \<Rightarrow>
             case replay_reader replay hp of (reader, hp) \<Rightarrow> (Stream reader, Some replay, hp))
      | other \<Rightarrow> (other, None, hp))"

definition map_option_run :: "('a \<Rightarrow> 'b run) \<Rightarrow> 'a option \<Rightarrow> 'b option run" where
  "map_option_run f x = (case x of None \<Rightarrow> Some None | Some a \<Rightarrow> do { b \<leftarrow> f a; Some (Some b) })"

definition vinyl_file_inner ::
    "mstring \<Rightarrow> mstring \<Rightarrow> mstring option \<Rightarrow> mstring list \<Rightarrow> vinyl_contents \<Rightarrow> vinyl_stat option \<Rightarrow>
     mstring option \<Rightarrow> mstring option \<Rightarrow> metadata \<Rightarrow> 's object_heap \<Rightarrow> (vinyl_file \<times> 's object_heap) run" where
  "vinyl_file_inner cwd base path history contents stat symlink source_map metadata hp =
     (case prepare_contents contents hp of (prepared_contents, stream_replay, hp) \<Rightarrow> do {
        normalized_cwd \<leftarrow> vinyl_normalize cwd;
        normalized_base \<leftarrow> vinyl_normalize base;
        normalized_history \<leftarrow> (if length history = 0 then Some [] else those (map vinyl_normalize history));
        final_history \<leftarrow> (case path of
            Some value \<Rightarrow>
              if length normalized_history = 0 then do {
                normalized_path \<leftarrow> vinyl_normalize value;
                Some (if normalized_path = [] then [] else [normalized_path])
              } else append_path normalized_history value
          | None \<Rightarrow> Some normalized_history);
        normalized_symlink \<leftarrow> map_option_run vinyl_normalize symlink;
        Some (\<lparr>vf_cwd = normalized_cwd, vf_base = normalized_base, vf_history = final_history,
          vf_contents = prepared_contents, vf_stream_replay = stream_replay, vf_stat = stat,
          vf_symlink = normalized_symlink, vf_source_map = source_map, vf_metadata = metadata,
          vf_relative_cache = None\<rparr>, hp)
      })"

definition default_cwd :: "mstring option \<Rightarrow> mstring" where
  "default_cwd current_dir = (case current_dir of Some d \<Rightarrow> d | None \<Rightarrow> str ''.'')"

text \<open>The parameters a caller may leave out; the working directory is asked for only then.\<close>

definition make_vinyl_file ::
    "mstring option \<Rightarrow> mstring option \<Rightarrow> mstring option \<Rightarrow> mstring option \<Rightarrow> mstring list option \<Rightarrow>
     vinyl_contents option \<Rightarrow> vinyl_stat option \<Rightarrow> mstring option \<Rightarrow> mstring option \<Rightarrow> metadata option \<Rightarrow>
     's object_heap \<Rightarrow> (vinyl_file \<times> 's object_heap) run" where
  "make_vinyl_file current_dir cwd base path history contents stat symlink source_map metadata hp =
     (let cwd = (case cwd of None \<Rightarrow> default_cwd current_dir | Some c \<Rightarrow> c);
          base = (case base of None \<Rightarrow> cwd | Some b \<Rightarrow> b);
          history = (case history of None \<Rightarrow> [] | Some h \<Rightarrow> h);
          contents = (case contents of None \<Rightarrow> Null | Some c \<Rightarrow> c);
          metadata = (case metadata of None \<Rightarrow> [] | Some m \<Rightarrow> m)
      in vinyl_file_inner cwd base path history contents stat symlink source_map metadata hp)"

subsection \<open>Accessors\<close>

definition file_path :: "vinyl_file \<Rightarrow> mstring option" where
  "file_path self =
     (if length (vf_history self) = 0 then None
      else Some (vf_history self ! (length (vf_history self) - 1)))"

definition relative_result :: "vinyl_file \<Rightarrow> ((mstring + mstring) \<times> vinyl_file) run" where
  "relative_result self =
     (case vf_relative_cache self of
        Some value \<Rightarrow> Some (Inr value, self)
      | None \<Rightarrow>
          (case file_path self of
             None \<Rightarrow> Some (Inl (str ''No path specified! Can not get relative.''), self)
           | Some path \<Rightarrow> do {
               value \<leftarrow> relative_between (vf_base self) path;
               Some (Inr value, self\<lparr>vf_relative_cache := Some value\<rparr>)
             }))"

definition unwrap_or :: "'e + 'a \<Rightarrow> 'a \<Rightarrow> 'a" where
  "unwrap_or r d = (case r of Inl _ \<Rightarrow> d | Inr x \<Rightarrow> x)"

definition file_relative :: "vinyl_file \<Rightarrow> (mstring \<times> vinyl_file) run" where
  "file_relative self = do { (r, self) \<leftarrow> relative_result self; Some (unwrap_or r [], self) }"

definition dirname_result :: "vinyl_file \<Rightarrow> (mstring + mstring) run" where
  "dirname_result self =
     (case file_path self of
        None \<Rightarrow> Some (Inl (str ''No path specified! Can not get dirname.''))
      | Some path \<Rightarrow> do {
          i \<leftarrow> last_index_of path slash;
          case i of
            None \<Rightarrow> Some (Inr (str ''.''))
          | Some 0 \<Rightarrow> Some (Inr slash)
          | Some index \<Rightarrow> do { d \<leftarrow> string_sub path 0 (Some (int index)); Some (Inr d) }
        })"

definition file_dirname :: "vinyl_file \<Rightarrow> mstring run" where
  "file_dirname self = do { r \<leftarrow> dirname_result self; Some (unwrap_or r (str ''.'')) }"

definition basename_result :: "vinyl_file \<Rightarrow> (mstring + mstring) run" where
  "basename_result self =
     (case file_path self of
        None \<Rightarrow> Some (Inl (str ''No path specified! Can not get basename.''))
      | Some path \<Rightarrow> do {
          i \<leftarrow> last_index_of path slash;
          case i of
            Some index \<Rightarrow> do { b \<leftarrow> string_sub path (int index + 1) None; Some (Inr b) }
          | None \<Rightarrow> Some (Inr path)
        })"

definition file_basename :: "vinyl_file \<Rightarrow> mstring run" where
  "file_basename self = do { r \<leftarrow> basename_result self; Some (unwrap_or r []) }"

definition extname_result :: "vinyl_file \<Rightarrow> (mstring + mstring) run" where
  "extname_result self =
     (if file_path self = None then Some (Inl (str ''No path specified! Can not get extname.''))
      else do {
        name \<leftarrow> file_basename self;
        i \<leftarrow> last_index_of name (str ''.'');
        case i of
          None \<Rightarrow> Some (Inr [])
        | Some 0 \<Rightarrow> Some (Inr [])
        | Some index \<Rightarrow> do { e \<leftarrow> string_sub name (int index) None; Some (Inr e) }
      })"

definition stem_result :: "vinyl_file \<Rightarrow> (mstring + mstring) run" where
  "stem_result self =
     (if file_path self = None then Some (Inl (str ''No path specified! Can not get stem.''))
      else do {
        name \<leftarrow> file_basename self;
        i \<leftarrow> last_index_of name (str ''.'');
        case i of
          None \<Rightarrow> Some (Inr name)
        | Some 0 \<Rightarrow> Some (Inr name)
        | Some index \<Rightarrow> do { e \<leftarrow> string_sub name 0 (Some (int index)); Some (Inr e) }
      })"

definition is_null :: "vinyl_file \<Rightarrow> bool" where
  "is_null self = (case vf_contents self of Null \<Rightarrow> True | _ \<Rightarrow> False)"

definition is_directory :: "vinyl_file \<Rightarrow> bool" where
  "is_directory self =
     (is_null self \<and> (case vf_stat self of None \<Rightarrow> False | Some st \<Rightarrow> vs_kind st = Directory_Entry))"

definition is_symbolic :: "vinyl_file \<Rightarrow> bool" where
  "is_symbolic self =
     (is_null self \<and> (case vf_stat self of None \<Rightarrow> False | Some st \<Rightarrow> vs_kind st = Link_Entry))"

subsection \<open>Changed copies\<close>

definition with_path :: "vinyl_file \<Rightarrow> mstring \<Rightarrow> vinyl_file run" where
  "with_path self path = do {
     h \<leftarrow> append_path (vf_history self) path;
     Some (self\<lparr>vf_history := h, vf_relative_cache := None\<rparr>)
   }"

definition with_file_cwd :: "vinyl_file \<Rightarrow> mstring \<Rightarrow> vinyl_file run" where
  "with_file_cwd self cwd = do {
     normalized \<leftarrow> vinyl_normalize cwd;
     Some (self\<lparr>vf_cwd := normalized, vf_base := (if vf_base self = vf_cwd self then normalized else vf_base self),
       vf_relative_cache := None\<rparr>)
   }"

definition with_base :: "vinyl_file \<Rightarrow> mstring \<Rightarrow> vinyl_file run" where
  "with_base self base = do {
     normalized \<leftarrow> vinyl_normalize base;
     Some (self\<lparr>vf_base := normalized, vf_relative_cache := None\<rparr>)
   }"

definition with_contents :: "vinyl_file \<Rightarrow> vinyl_contents \<Rightarrow> 's object_heap \<Rightarrow> vinyl_file \<times> 's object_heap" where
  "with_contents self contents hp =
     (case prepare_contents contents hp of (prepared_contents, stream_replay, hp) \<Rightarrow>
        (self\<lparr>vf_contents := prepared_contents, vf_stream_replay := stream_replay\<rparr>, hp))"

definition with_source_map :: "vinyl_file \<Rightarrow> mstring option \<Rightarrow> vinyl_file" where
  "with_source_map self source_map = self\<lparr>vf_source_map := source_map\<rparr>"

definition with_symlink :: "vinyl_file \<Rightarrow> mstring \<Rightarrow> vinyl_file run" where
  "with_symlink self symlink = do {
     normalized \<leftarrow> vinyl_normalize symlink;
     Some (self\<lparr>vf_symlink := Some normalized\<rparr>)
   }"

definition join_name :: "mstring \<Rightarrow> mstring \<Rightarrow> mstring run" where
  "join_name dir name =
     (if dir = slash then Some (slash @ name)
      else do { b \<leftarrow> has_suffix dir slash; Some (if b then dir @ name else (dir @ slash) @ name) })"

definition with_dirname_result :: "vinyl_file \<Rightarrow> mstring \<Rightarrow> (mstring + vinyl_file) run" where
  "with_dirname_result self dirname = do {
     r \<leftarrow> basename_result self;
     case r of
       Inr name \<Rightarrow> do {
         d \<leftarrow> vinyl_normalize dirname;
         p \<leftarrow> join_name d name;
         f \<leftarrow> with_path self p;
         Some (Inr f)
       }
     | Inl _ \<Rightarrow> Some (Inl (str ''No path specified! Can not set dirname.''))
   }"

definition with_basename_result :: "vinyl_file \<Rightarrow> mstring \<Rightarrow> (mstring + vinyl_file) run" where
  "with_basename_result self basename = do {
     r \<leftarrow> dirname_result self;
     case r of
       Inr dir \<Rightarrow> do { p \<leftarrow> join_name dir basename; f \<leftarrow> with_path self p; Some (Inr f) }
     | Inl _ \<Rightarrow> Some (Inl (str ''No path specified! Can not set basename.''))
   }"

definition with_stem_result :: "vinyl_file \<Rightarrow> mstring \<Rightarrow> (mstring + vinyl_file) run" where
  "with_stem_result self stem = do {
     r \<leftarrow> extname_result self;
     case r of
       Inr extname \<Rightarrow> with_basename_result self (stem @ extname)
     | Inl _ \<Rightarrow> Some (Inl (str ''No path specified! Can not set stem.''))
   }"

definition with_extname_result :: "vinyl_file \<Rightarrow> mstring \<Rightarrow> (mstring + vinyl_file) run" where
  "with_extname_result self extname = do {
     r \<leftarrow> stem_result self;
     case r of
       Inr stem \<Rightarrow> with_basename_result self (stem @ extname)
     | Inl _ \<Rightarrow> Some (Inl (str ''No path specified! Can not set extname.''))
   }"

text \<open>A clone of a file with a stream gets a reader of its own.\<close>

definition clone_file :: "vinyl_file \<Rightarrow> bool \<Rightarrow> 's object_heap \<Rightarrow> vinyl_file \<times> 's object_heap" where
  "clone_file self contents hp =
     (case vf_contents self of
        Stream _ \<Rightarrow>
          (case vf_stream_replay self of
             Some replay \<Rightarrow>
               (case replay_reader replay hp of (reader, hp) \<Rightarrow> (self\<lparr>vf_contents := Stream reader\<rparr>, hp))
           | None \<Rightarrow> (self, hp))
      | Buffer bytes \<Rightarrow> (if contents then (self\<lparr>vf_contents := Buffer bytes\<rparr>, hp) else (self, hp))
      | Null \<Rightarrow> (self, hp))"

subsection \<open>Files stay well-formed\<close>

definition path_ok :: "mstring \<Rightarrow> bool" where
  "path_ok p \<longleftrightarrow> normal_path p \<and> no_surrogates p"

definition file_ok :: "vinyl_file \<Rightarrow> bool" where
  "file_ok f \<longleftrightarrow> path_ok (vf_cwd f) \<and> path_ok (vf_base f) \<and> list_all path_ok (vf_history f) \<and>
     (\<forall>s. vf_symlink f = Some s \<longrightarrow> path_ok s) \<and>
     (\<forall>v. vf_relative_cache f = Some v \<longrightarrow>
        (\<exists>p. file_path f = Some p \<and> relative_between (vf_base f) p = Some v))"

lemma normalize_ok: "no_surrogates v \<Longrightarrow> \<exists>p. vinyl_normalize v = Some p \<and> path_ok p \<and> (p = [] \<longleftrightarrow> v = [])"
  using vinyl_normalize_form by (auto simp: path_ok_def)

lemma those_normalize:
  "list_all no_surrogates vs \<Longrightarrow> \<exists>ps. those (map vinyl_normalize vs) = Some ps \<and> list_all path_ok ps \<and> length ps = length vs"
proof (induction vs)
  case (Cons v vs)
  then obtain p ps where "vinyl_normalize v = Some p" "path_ok p" "those (map vinyl_normalize vs) = Some ps"
    "list_all path_ok ps" "length ps = length vs" using normalize_ok [of v] by auto
  then show ?case by auto
qed simp

lemma append_path_ok:
  assumes "list_all path_ok h" and "no_surrogates p"
  shows "\<exists>h'. append_path h p = Some h' \<and> list_all path_ok h' \<and> prefix h h'"
proof -
  obtain q where "vinyl_normalize p = Some q" "path_ok q" using normalize_ok [OF assms(2)] by blast
  with assms(1) show ?thesis by (auto simp: append_path_def)
qed

lemma file_path_nonempty: "vf_history f \<noteq> [] \<Longrightarrow> file_path f = Some (last (vf_history f))"
  by (simp add: file_path_def last_conv_nth)

lemma file_path_None: "file_path f = None \<longleftrightarrow> vf_history f = []"
  by (simp add: file_path_def)

lemma file_path_ok: "file_ok f \<Longrightarrow> file_path f = Some p \<Longrightarrow> path_ok p"
  by (cases "vf_history f = []") (auto simp: file_path_nonempty file_path_None file_ok_def list_all_iff file_path_def)

text \<open>A file that is made of texts without surrogates is well-formed, with the paths it is given.\<close>

lemma vinyl_file_inner_ok:
  assumes "no_surrogates cwd" and "no_surrogates base" and "list_all no_surrogates history"
    and "\<forall>p. path = Some p \<longrightarrow> no_surrogates p" and "\<forall>s. symlink = Some s \<longrightarrow> no_surrogates s"
  shows "\<exists>f. vinyl_file_inner cwd base path history contents stat symlink source_map metadata hp =
      Some (f, snd (snd (prepare_contents contents hp))) \<and> file_ok f \<and>
    vf_contents f = fst (prepare_contents contents hp) \<and>
    vf_stream_replay f = fst (snd (prepare_contents contents hp)) \<and> vf_stat f = stat \<and>
    vf_source_map f = source_map \<and> vf_metadata f = metadata \<and> vf_relative_cache f = None \<and>
    Some (vf_cwd f) = vinyl_normalize cwd \<and> Some (vf_base f) = vinyl_normalize base \<and>
    (history = [] \<longrightarrow> (case path of None \<Rightarrow> vf_history f = []
       | Some p \<Rightarrow> if p = [] then vf_history f = [] else map Some (vf_history f) = [vinyl_normalize p])) \<and>
    Some (vf_symlink f) = map_option_run vinyl_normalize symlink"
proof -
  obtain pc pr hp' where pre: "prepare_contents contents hp = (pc, pr, hp')" by (cases "prepare_contents contents hp")
  obtain c where c: "vinyl_normalize cwd = Some c" "path_ok c" using normalize_ok [OF assms(1)] by blast
  obtain b where b: "vinyl_normalize base = Some b" "path_ok b" using normalize_ok [OF assms(2)] by blast
  obtain h where h: "those (map vinyl_normalize history) = Some h" "list_all path_ok h" "length h = length history"
    using those_normalize [OF assms(3)] by blast
  obtain sl where sl: "map_option_run vinyl_normalize symlink = Some sl" "\<forall>s. sl = Some s \<longrightarrow> path_ok s"
  proof (cases symlink)
    case (Some a)
    then obtain q where "vinyl_normalize a = Some q" "path_ok q" using assms(5) normalize_ok by blast
    with Some that show ?thesis by (simp add: map_option_run_def)
  qed (simp add: that map_option_run_def)
  have hist: "(if length history = 0 then Some [] else those (map vinyl_normalize history)) = Some h"
    using h by auto
  obtain fh where fh: "(case path of
        Some value \<Rightarrow> if length h = 0 then do { q \<leftarrow> vinyl_normalize value; Some (if q = [] then [] else [q]) }
          else append_path h value
      | None \<Rightarrow> Some h) = Some fh" "list_all path_ok fh"
    "history = [] \<longrightarrow> (case path of None \<Rightarrow> fh = []
       | Some p \<Rightarrow> if p = [] then fh = [] else map Some fh = [vinyl_normalize p])"
  proof (cases path)
    case (Some p)
    then obtain q where q: "vinyl_normalize p = Some q" "path_ok q" "q = [] \<longleftrightarrow> p = []"
      using assms(4) normalize_ok by blast
    show ?thesis
    proof (cases "h = []")
      case True
      with Some q that show ?thesis by (cases "q = []") auto
    next
      case False
      obtain h' where "append_path h p = Some h'" "list_all path_ok h'"
        using append_path_ok [OF h(2)] assms(4) Some by blast
      moreover have "history \<noteq> []" using False h(3) by auto
      ultimately show ?thesis using Some False that [of h'] by auto
    qed
  next
    case None
    have "history = [] \<longrightarrow> h = []" using h(3) by auto
    with None h(2) show ?thesis by (intro that [of h]) simp_all
  qed
  show ?thesis
    unfolding vinyl_file_inner_def pre c(1) b(1) prod.case bind.bind_lunit hist fh(1) sl(1)
    using c b fh(2,3) sl pre by (cases path) (simp_all add: file_ok_def)
qed

text \<open>The operations on a file; the ones that may fail leave it as it is then.\<close>

datatype file_op =
    Set_Path mstring | Set_Cwd mstring | Set_Base mstring | Set_Contents vinyl_contents
  | Set_Source_Map "mstring option" | Set_Symlink mstring | Set_Dirname mstring | Set_Basename mstring
  | Set_Stem mstring | Set_Extname mstring | Clone_File bool | Get_Relative

definition kept_or :: "vinyl_file \<Rightarrow> 's object_heap \<Rightarrow> (mstring + vinyl_file) run \<Rightarrow> (vinyl_file \<times> 's object_heap) run" where
  "kept_or self hp r = do { x \<leftarrow> r; Some (unwrap_or x self, hp) }"

fun apply_op :: "file_op \<Rightarrow> vinyl_file \<Rightarrow> 's object_heap \<Rightarrow> (vinyl_file \<times> 's object_heap) run" where
  "apply_op (Set_Path p) f hp = do { f \<leftarrow> with_path f p; Some (f, hp) }"
| "apply_op (Set_Cwd p) f hp = do { f \<leftarrow> with_file_cwd f p; Some (f, hp) }"
| "apply_op (Set_Base p) f hp = do { f \<leftarrow> with_base f p; Some (f, hp) }"
| "apply_op (Set_Contents c) f hp = Some (with_contents f c hp)"
| "apply_op (Set_Source_Map m) f hp = Some (with_source_map f m, hp)"
| "apply_op (Set_Symlink p) f hp = do { f \<leftarrow> with_symlink f p; Some (f, hp) }"
| "apply_op (Set_Dirname p) f hp = kept_or f hp (with_dirname_result f p)"
| "apply_op (Set_Basename p) f hp = kept_or f hp (with_basename_result f p)"
| "apply_op (Set_Stem p) f hp = kept_or f hp (with_stem_result f p)"
| "apply_op (Set_Extname p) f hp = kept_or f hp (with_extname_result f p)"
| "apply_op (Clone_File b) f hp = Some (clone_file f b hp)"
| "apply_op Get_Relative f hp = do { (_, f) \<leftarrow> file_relative f; Some (f, hp) }"

fun op_text :: "file_op \<Rightarrow> mstring" where
  "op_text (Set_Path p) = p"
| "op_text (Set_Cwd p) = p"
| "op_text (Set_Base p) = p"
| "op_text (Set_Symlink p) = p"
| "op_text (Set_Dirname p) = p"
| "op_text (Set_Basename p) = p"
| "op_text (Set_Stem p) = p"
| "op_text (Set_Extname p) = p"
| "op_text _ = []"

lemma with_path_ok:
  assumes "file_ok f" and "no_surrogates p"
  shows "\<exists>f'. with_path f p = Some f' \<and> file_ok f' \<and> prefix (vf_history f) (vf_history f')"
  using append_path_ok [OF _ assms(2), of "vf_history f"] assms(1)
  by (auto simp: with_path_def file_ok_def)

lemma join_name_ok: "no_surrogates d \<Longrightarrow> no_surrogates n \<Longrightarrow> \<exists>p. join_name d n = Some p \<and> no_surrogates p"
  by (auto simp: join_name_def has_suffix_spec)

lemma last_slash_parts:
  assumes "no_surrogates p" and "last_index_of p slash = Some (Some i)"
  shows "no_surrogates (take i p)" and "no_surrogates (drop (i + 1) p)"
    and "string_sub p 0 (Some (int i)) = Some (take i p)" and "string_sub p (int i + 1) None = Some (drop (i + 1) p)"
proof -
  have "last_occ p [47] = Some i" using assms by (simp add: slash_single last_index_of_eq)
  then have i: "i < length p" by (simp add: last_occ_Some_iff occurs_at_single)
  show "no_surrogates (take i p)" and "no_surrogates (drop (i + 1) p)"
    using assms(1) by (auto simp: no_surrogates_def dest: in_set_takeD in_set_dropD)
  show "string_sub p 0 (Some (int i)) = Some (take i p)"
    using i assms(1) by (intro sub_prefix cut_ok_no_surrogates) auto
  show "string_sub p (int i + 1) None = Some (drop (i + 1) p)"
    using string_sub_from [of "i + 1" p] i assms(1) cut_ok_no_surrogates [of p "i + 1"] by (simp add: add.commute)
qed

lemma last_index_runs: "no_surrogates p \<Longrightarrow> \<exists>i. last_index_of p slash = Some i"
  by (simp add: slash_single last_index_of_eq)

lemma dirname_ok:
  assumes "file_ok f"
  shows "\<exists>r. dirname_result f = Some r \<and> (\<forall>d. r = Inr d \<longrightarrow> no_surrogates d)"
proof (cases "file_path f")
  case (Some p)
  then have p: "no_surrogates p" using file_path_ok [OF assms] by (simp add: path_ok_def)
  obtain i where i: "last_index_of p slash = Some i" using last_index_runs [OF p] by blast
  show ?thesis
  proof (cases i)
    case (Some j)
    then show ?thesis using last_slash_parts [OF p] i \<open>file_path f = Some p\<close>
      by (cases j) (auto simp: dirname_result_def)
  qed (use i Some in \<open>simp add: dirname_result_def is_leading_surrogate_def is_trailing_surrogate_def\<close>)
qed (simp add: dirname_result_def)

lemma basename_ok:
  assumes "file_ok f"
  shows "\<exists>r. basename_result f = Some r \<and> (\<forall>d. r = Inr d \<longrightarrow> no_surrogates d) \<and> ((\<exists>d. r = Inr d) \<longleftrightarrow> file_path f \<noteq> None)"
proof (cases "file_path f")
  case (Some p)
  then have p: "no_surrogates p" using file_path_ok [OF assms] by (simp add: path_ok_def)
  obtain i where i: "last_index_of p slash = Some i" using last_index_runs [OF p] by blast
  show ?thesis
    using last_slash_parts [OF p] i Some p by (cases i) (auto simp: basename_result_def)
qed (simp add: basename_result_def)

lemma last_dot_parts:
  assumes "no_surrogates n" and "last_index_of n (str ''.'') = Some (Some i)"
  shows "no_surrogates (take i n)" and "no_surrogates (drop i n)"
    and "string_sub n 0 (Some (int i)) = Some (take i n)" and "string_sub n (int i) None = Some (drop i n)"
proof -
  have "last_occ n [46] = Some i" using assms by (simp add: last_index_of_eq)
  then have i: "i < length n" by (simp add: last_occ_Some_iff occurs_at_single)
  show "no_surrogates (take i n)" and "no_surrogates (drop i n)"
    using assms(1) by (auto simp: no_surrogates_def dest: in_set_takeD in_set_dropD)
  show "string_sub n 0 (Some (int i)) = Some (take i n)"
    using i assms(1) by (intro sub_prefix cut_ok_no_surrogates) auto
  show "string_sub n (int i) None = Some (drop i n)"
    using i assms(1) by (simp add: string_sub_from cut_ok_no_surrogates)
qed

lemma extname_ok:
  assumes "file_ok f"
  shows "\<exists>r. extname_result f = Some r \<and> (\<forall>d. r = Inr d \<longrightarrow> no_surrogates d)"
    and "\<exists>r. stem_result f = Some r \<and> (\<forall>d. r = Inr d \<longrightarrow> no_surrogates d)"
proof -
  obtain r where r: "basename_result f = Some r" "\<forall>d. r = Inr d \<longrightarrow> no_surrogates d"
    using basename_ok [OF assms] by blast
  then have name: "file_basename f = Some (unwrap_or r [])" by (simp add: file_basename_def)
  have n: "no_surrogates (unwrap_or r [])" using r(2) by (cases r) (auto simp: unwrap_or_def)
  obtain i where i: "last_index_of (unwrap_or r []) (str ''.'') = Some i"
    using n by (simp add: last_index_of_eq)
  show "\<exists>r. extname_result f = Some r \<and> (\<forall>d. r = Inr d \<longrightarrow> no_surrogates d)"
  proof (cases "i = None \<or> i = Some 0")
    case True
    with i name show ?thesis by (auto simp: extname_result_def)
  next
    case False
    then obtain j where "i = Some (Suc j)" by (metis not0_implies_Suc option.exhaust)
    with i name last_dot_parts [OF n] show ?thesis by (auto simp: extname_result_def)
  qed
  show "\<exists>r. stem_result f = Some r \<and> (\<forall>d. r = Inr d \<longrightarrow> no_surrogates d)"
  proof (cases "i = None \<or> i = Some 0")
    case True
    with i name n show ?thesis by (auto simp: stem_result_def)
  next
    case False
    then obtain j where "i = Some (Suc j)" by (metis not0_implies_Suc option.exhaust)
    with i name last_dot_parts [OF n] show ?thesis by (auto simp: stem_result_def)
  qed
qed

lemma with_basename_ok:
  assumes "file_ok f" and "no_surrogates n"
  shows "\<exists>r. with_basename_result f n = Some r \<and>
    (\<forall>f'. r = Inr f' \<longrightarrow> file_ok f' \<and> prefix (vf_history f) (vf_history f'))"
proof -
  obtain r where r: "dirname_result f = Some r" "\<forall>d. r = Inr d \<longrightarrow> no_surrogates d"
    using dirname_ok [OF assms(1)] by blast
  show ?thesis
  proof (cases r)
    case (Inr d)
    then obtain p where "join_name d n = Some p" "no_surrogates p" using r(2) join_name_ok assms(2) by blast
    with r(1) Inr with_path_ok [OF assms(1)] show ?thesis by (fastforce simp: with_basename_result_def)
  qed (use r in \<open>simp add: with_basename_result_def\<close>)
qed

lemma kept_ok:
  assumes "file_ok f" and "r = Some x" and "\<forall>f'. x = Inr f' \<longrightarrow> file_ok f' \<and> prefix (vf_history f) (vf_history f')"
  shows "\<exists>f' hp'. kept_or f hp r = Some (f', hp') \<and> file_ok f' \<and> prefix (vf_history f) (vf_history f')"
  using assms by (cases x) (auto simp: kept_or_def unwrap_or_def)

lemma relative_between_runs:
  assumes "path_ok b" and "path_ok p"
  shows "\<exists>r. relative_between b p = Some r"
proof -
  have parts: "\<exists>ps. vinyl_parts q = Some ps" if "path_ok q" for q
    using that vinyl_normalize_normal [of q]
    by (simp add: path_ok_def vinyl_parts_def slash_single string_split_single)
  obtain bs ps where "vinyl_parts b = Some bs" "vinyl_parts p = Some ps" using parts assms by metis
  moreover have "\<exists>r. string_sub p (int (length b) + 1) None = Some r" if "prefix (b @ slash) p"
  proof -
    have "length b + 1 \<le> length p" using that prefix_length_le by (fastforce simp: slash_single)
    then show ?thesis using string_sub_from [of "length b + 1" p] cut_ok_no_surrogates [of p "length b + 1"] assms(2)
      by (simp add: path_ok_def add.commute)
  qed
  ultimately show ?thesis by (auto simp: relative_between_def has_prefix_spec Let_def)
qed

text \<open>
  Property C14. Every operation on a well-formed file returns, for a text without surrogates, and gives a
  well-formed file: paths stay normal, a cached relative path is the one of the file's path and base.
  The paths the file has had stay the beginning of its history.
\<close>
theorem file_operations_keep_files_ok:
  assumes "file_ok f" and "no_surrogates (op_text op)"
  shows "\<exists>f' hp'. apply_op op f hp = Some (f', hp') \<and> file_ok f' \<and> prefix (vf_history f) (vf_history f')"
proof (cases op)
  case (Set_Path p)
  then show ?thesis using with_path_ok [OF assms(1), of p] assms(2) by auto
next
  case (Set_Cwd p)
  then show ?thesis using normalize_ok [of p] assms by (auto simp: with_file_cwd_def file_ok_def)
next
  case (Set_Base p)
  then show ?thesis using normalize_ok [of p] assms by (auto simp: with_base_def file_ok_def)
next
  case (Set_Contents c)
  then show ?thesis using assms(1)
    by (auto simp: with_contents_def file_ok_def file_path_def split: prod.split)
next
  case (Set_Symlink p)
  then show ?thesis using normalize_ok [of p] assms by (auto simp: with_symlink_def file_ok_def file_path_def)
next
  case (Set_Dirname p)
  obtain r where r: "basename_result f = Some r" "\<forall>d. r = Inr d \<longrightarrow> no_surrogates d"
    using basename_ok [OF assms(1)] by blast
  have "\<exists>x. with_dirname_result f p = Some x \<and> (\<forall>f'. x = Inr f' \<longrightarrow> file_ok f' \<and> prefix (vf_history f) (vf_history f'))"
  proof (cases r)
    case (Inr n)
    obtain d where d: "vinyl_normalize p = Some d" "no_surrogates d"
      using normalize_ok [of p] assms(2) Set_Dirname by (auto simp: path_ok_def)
    then obtain q where "join_name d n = Some q" "no_surrogates q" using r(2) Inr join_name_ok by blast
    with r(1) Inr d with_path_ok [OF assms(1)] show ?thesis by (fastforce simp: with_dirname_result_def)
  qed (use r in \<open>simp add: with_dirname_result_def\<close>)
  with kept_ok [OF assms(1)] Set_Dirname show ?thesis by auto
next
  case (Set_Basename p)
  then show ?thesis using with_basename_ok [OF assms(1), of p] assms(2) kept_ok [OF assms(1)] by auto
next
  case (Set_Stem p)
  obtain r where r: "extname_result f = Some r" "\<forall>d. r = Inr d \<longrightarrow> no_surrogates d"
    using extname_ok(1) [OF assms(1)] by blast
  then have "\<exists>x. with_stem_result f p = Some x \<and> (\<forall>f'. x = Inr f' \<longrightarrow> file_ok f' \<and> prefix (vf_history f) (vf_history f'))"
    using with_basename_ok [OF assms(1)] assms(2) Set_Stem by (cases r) (auto simp: with_stem_result_def)
  with kept_ok [OF assms(1)] Set_Stem show ?thesis by auto
next
  case (Set_Extname p)
  obtain r where r: "stem_result f = Some r" "\<forall>d. r = Inr d \<longrightarrow> no_surrogates d"
    using extname_ok(2) [OF assms(1)] by blast
  then have "\<exists>x. with_extname_result f p = Some x \<and> (\<forall>f'. x = Inr f' \<longrightarrow> file_ok f' \<and> prefix (vf_history f) (vf_history f'))"
    using with_basename_ok [OF assms(1)] assms(2) Set_Extname by (cases r) (auto simp: with_extname_result_def)
  with kept_ok [OF assms(1)] Set_Extname show ?thesis by auto
next
  case (Clone_File b)
  then show ?thesis using assms(1)
    by (auto simp: clone_file_def file_ok_def file_path_def split: vinyl_contents.split option.split prod.split)
next
  case Get_Relative
  show ?thesis
  proof (cases "vf_relative_cache f = None \<and> file_path f \<noteq> None")
    case True
    then obtain p where p: "file_path f = Some p" "vf_relative_cache f = None" by auto
    have "path_ok (vf_base f)" "path_ok p" using file_path_ok [OF assms(1) p(1)] assms(1) by (simp_all add: file_ok_def)
    then obtain v where "relative_between (vf_base f) p = Some v" using relative_between_runs by blast
    with p Get_Relative assms(1) show ?thesis
      by (auto simp: file_relative_def relative_result_def file_ok_def file_path_def)
  next
    case False
    with Get_Relative assms(1) show ?thesis
      by (auto simp: file_relative_def relative_result_def split: option.split)
  qed
qed (use assms in \<open>auto simp: with_source_map_def file_ok_def file_path_def\<close>)

definition sample_vinyl_file :: vinyl_file where
  "sample_vinyl_file = \<lparr>vf_cwd = str ''/w'', vf_base = str ''/w/src'', vf_history = [str ''/w/src/a.css''],
     vf_contents = Null, vf_stream_replay = None, vf_stat = None, vf_symlink = None, vf_source_map = None,
     vf_metadata = [], vf_relative_cache = None\<rparr>"

lemma sample_vinyl_file_ok: "file_ok sample_vinyl_file"
proof -
  have w: "proper (str ''w'')" "proper (str ''src'')" "proper (str ''a.css'')" by (simp_all add: proper_def)
  have "normal_path (str ''/w'')" unfolding normal_path_def
    by (rule disjI2, rule exI [of _ True], rule exI [of _ "[str ''w'']"])
      (use w in \<open>simp add: normal_partsI render_absolute\<close>)
  moreover have "normal_path (str ''/w/src'')" unfolding normal_path_def
    by (rule disjI2, rule exI [of _ True], rule exI [of _ "[str ''w'', str ''src'']"])
      (use w in \<open>simp add: normal_partsI render_absolute\<close>)
  moreover have "normal_path (str ''/w/src/a.css'')" unfolding normal_path_def
    by (rule disjI2, rule exI [of _ True], rule exI [of _ "[str ''w'', str ''src'', str ''a.css'']"])
      (use w in \<open>simp add: normal_partsI render_absolute\<close>)
  ultimately show ?thesis
    by (simp add: file_ok_def sample_vinyl_file_def path_ok_def is_leading_surrogate_def is_trailing_surrogate_def)
qed

theorem file_operations_keep_files_ok_witness:
  "\<exists>f' hp'. apply_op (Set_Extname (str ''.min'')) sample_vinyl_file empty_heap = Some (f', hp') \<and> file_ok f' \<and>
    prefix (vf_history sample_vinyl_file) (vf_history f')"
  by (rule file_operations_keep_files_ok [OF sample_vinyl_file_ok])
    (simp add: is_leading_surrogate_def is_trailing_surrogate_def)

text \<open>
  The contents of a new file are a reader of a replay of the stream it was given, with the same chunks,
  and touch older cells only by reading.
\<close>

lemma prepare_stream:
  assumes "gives hp s F G cs"
  shows "\<exists>h r hp'. prepare_contents (Stream s) hp = (Stream h, Some r, hp') \<and>
    gives hp' h (insert h F) (insert r G) cs \<and> touches {} {} hp hp'"
proof -
  obtain r hp1 where r: "replayable_stream s hp = (r, hp1)" by fastforce
  obtain h hp2 where h: "replay_reader r hp1 = (h, hp2)" by fastforce
  have "touches {} {} hp hp1" using touches_wrap [of hp s] r by simp
  moreover have "touches {} {} hp1 hp2" using touches_new [of hp1 "Replay_Reader r 0"] h by (simp add: replay_reader_def)
  ultimately have "touches {} {} hp hp2" by (rule touches_trans)
  with r h gives_wrapped [OF assms r h] show ?thesis by (simp add: prepare_contents_def)
qed

end
