(* ===== verification/Vinyl_Fs.thy ===== *)
theory Vinyl_Fs
  imports File_Stream
begin

text \<open>
  The C stub of the virtual file system (\<open>vinyl_fs/vinyl_fs_stub.c\<close>, its POSIX branch): the
  growing text buffer, the walk over a directory tree, metadata and links, and the writers of
  destination files.
\<close>

definition path_max :: nat where
  "path_max = 4096"

text \<open>The calls this stub makes beyond those of the stream stub.\<close>

record 's posix_tree =
  pt_readdir :: "bytes \<Rightarrow> 's \<Rightarrow> bytes list option"
  pt_readlink :: "bytes \<Rightarrow> nat \<Rightarrow> 's \<Rightarrow> bytes option"
  pt_chmod :: "bytes \<Rightarrow> nat \<Rightarrow> 's \<Rightarrow> bool \<times> 's"
  pt_utime :: "bytes \<Rightarrow> int \<Rightarrow> int \<Rightarrow> 's \<Rightarrow> bool \<times> 's"

subsection \<open>The text buffer\<close>

record vinyl_buffer =
  vb_data :: "block option"
  vb_length :: nat
  vb_capacity :: nat

definition vb_empty :: vinyl_buffer where
  "vb_empty = \<lparr>vb_data = None, vb_length = 0, vb_capacity = 0\<rparr>"

partial_function (option) vinyl_capacity :: "nat \<Rightarrow> nat \<Rightarrow> nat run" where
  "vinyl_capacity need next_capacity =
     (if next_capacity < need then vinyl_capacity need (next_capacity * 2) else Some next_capacity)"

definition mulp_vinyl_fs_buffer_append ::
    "(nat \<Rightarrow> bool) \<Rightarrow> vinyl_buffer \<Rightarrow> bytes \<Rightarrow> (bool \<times> vinyl_buffer) run" where
  "mulp_vinyl_fs_buffer_append alloc b text = do {
     let len = length text;
     let need = vb_length b + len + 1;
     next \<leftarrow> (if need > vb_capacity b
              then vinyl_capacity need (if vb_capacity b = 0 then 256 else vb_capacity b)
              else Some (vb_capacity b));
     if need > vb_capacity b \<and> \<not> alloc next then Some (False, b)
     else do {
       m \<leftarrow> (if need > vb_capacity b then Some (resize (vb_data b) next) else vb_data b);
       m \<leftarrow> copy_into m (vb_length b) text;
       m \<leftarrow> store_at m (vb_length b + len) 0;
       Some (True, \<lparr>vb_data = Some m, vb_length = vb_length b + len, vb_capacity = next\<rparr>)
     }
   }"

text \<open>
  The array of bytes is made with the length cast to 32 bits, and the whole buffer is copied into it:
  from 2 GiB on, where the cast changes the length, the copy leaves the array.
\<close>

definition mulp_vinyl_fs_buffer_to_bytes :: "vinyl_buffer \<Rightarrow> bytes run" where
  "mulp_vinyl_fs_buffer_to_bytes b =
     (if vb_length b \<ge> 2 ^ 31 then None
      else if vb_length b > 0 then do { m \<leftarrow> vb_data b; load_range m 0 (vb_length b) } else Some [])"

subsection \<open>The walk\<close>

definition mulp_vinyl_fs_join :: "nat \<Rightarrow> bytes \<Rightarrow> bytes \<Rightarrow> bool \<times> bytes" where
  "mulp_vinyl_fs_join out_size left right =
     (let separator = (if length left > 0 \<and> left ! (length left - 1) = 47 then [] else [47]);
          (out, len) = snprintf out_size (left @ separator @ right)
      in (len < int out_size, cstr out))"

text \<open>The path of the directory to open: the root itself, or the root joined with \<open>rel\<close>.\<close>

definition walk_dir_path :: "bytes \<Rightarrow> bytes \<Rightarrow> bool \<times> bytes" where
  "walk_dir_path root rel =
     (if rel = [] then (length root < path_max, root) else mulp_vinyl_fs_join path_max root rel)"

definition walk_child :: "bytes \<Rightarrow> bytes \<Rightarrow> bool \<times> bytes" where
  "walk_child rel name =
     (if rel = [] then (length name < path_max, name) else mulp_vinyl_fs_join path_max rel name)"

definition append_entry ::
    "(nat \<Rightarrow> bool) \<Rightarrow> vinyl_buffer \<Rightarrow> bytes \<Rightarrow> (bool \<times> vinyl_buffer) run" where
  "append_entry alloc buffer child = do {
     (ok, buffer) \<leftarrow> mulp_vinyl_fs_buffer_append alloc buffer child;
     if ok then mulp_vinyl_fs_buffer_append alloc buffer [10] else Some (False, buffer)
   }"

definition walks_into :: "'s posix \<Rightarrow> 's \<Rightarrow> bytes \<Rightarrow> bool" where
  "walks_into px s path =
     (case px_lstat px path s of None \<Rightarrow> False | Some info \<Rightarrow> st_kind info = Directory)"

text \<open>
  The loop over the entries of one directory; the recursive call on a subdirectory opens it
  and runs the same loop over its entries.
\<close>

partial_function (option) walk_loop ::
    "'s posix \<Rightarrow> 's posix_tree \<Rightarrow> 's \<Rightarrow> bytes \<Rightarrow> bytes \<Rightarrow> bytes list \<Rightarrow> vinyl_buffer \<Rightarrow>
     (bool \<times> vinyl_buffer) run" where
  "walk_loop px pt s root rel entries buffer =
     (case entries of
        [] \<Rightarrow> Some (True, buffer)
      | name # rest \<Rightarrow>
          if name = [46] \<or> name = [46, 46] then walk_loop px pt s root rel rest buffer
          else (case walk_child rel name of (ok, child_rel) \<Rightarrow>
            if \<not> ok then Some (False, buffer)
            else (case mulp_vinyl_fs_join path_max root child_rel of (ok, child_abs) \<Rightarrow>
              if \<not> ok then Some (False, buffer)
              else do {
                (ok, buffer) \<leftarrow> append_entry (px_alloc px) buffer child_rel;
                if \<not> ok then Some (False, buffer)
                else do {
                  (ok, buffer) \<leftarrow>
                    (if walks_into px s child_abs then
                       (case walk_dir_path root child_rel of (ok, dir_path) \<Rightarrow>
                          if \<not> ok then Some (False, buffer)
                          else (case pt_readdir pt dir_path s of
                              None \<Rightarrow> Some (True, buffer)
                            | Some es \<Rightarrow> walk_loop px pt s root child_rel es buffer))
                     else Some (True, buffer));
                  if ok then walk_loop px pt s root rel rest buffer else Some (False, buffer)
                }
              })))"

definition mulp_vinyl_fs_walk ::
    "'s posix \<Rightarrow> 's posix_tree \<Rightarrow> 's \<Rightarrow> bytes \<Rightarrow> bytes \<Rightarrow> vinyl_buffer \<Rightarrow> (bool \<times> vinyl_buffer) run" where
  "mulp_vinyl_fs_walk px pt s root rel buffer =
     (case walk_dir_path root rel of (ok, dir_path) \<Rightarrow>
        if \<not> ok then Some (False, buffer)
        else (case pt_readdir pt dir_path s of
            None \<Rightarrow> Some (True, buffer)
          | Some es \<Rightarrow> walk_loop px pt s root rel es buffer))"

text \<open>The verdict of the walk is dropped: a failed walk returns what it had listed.\<close>

definition mulp_vinyl_fs_discover_paths ::
    "'s posix \<Rightarrow> 's posix_tree \<Rightarrow> 's \<Rightarrow> bytes \<Rightarrow> bytes run" where
  "mulp_vinyl_fs_discover_paths px pt s root = do {
     (ok, buffer) \<leftarrow> mulp_vinyl_fs_walk px pt s (cstr root) [] vb_empty;
     mulp_vinyl_fs_buffer_to_bytes buffer
   }"

subsection \<open>Metadata, links and times\<close>

definition mulp_vinyl_fs_metadata_bytes ::
    "'s posix \<Rightarrow> bytes \<Rightarrow> bool \<Rightarrow> 's \<Rightarrow> bytes run" where
  "mulp_vinyl_fs_metadata_bytes px path follow_symlink s =
     (case (if follow_symlink then px_stat px path s else px_lstat px path s) of
        None \<Rightarrow> Some []
      | Some info \<Rightarrow> metadata_line info)"

definition mulp_vinyl_fs_stat_metadata :: "'s posix \<Rightarrow> bytes \<Rightarrow> 's \<Rightarrow> bytes run" where
  "mulp_vinyl_fs_stat_metadata px path s = mulp_vinyl_fs_metadata_bytes px (cstr path) True s"

definition mulp_vinyl_fs_read_symlink :: "'s posix_tree \<Rightarrow> bytes \<Rightarrow> 's \<Rightarrow> bytes" where
  "mulp_vinyl_fs_read_symlink pt path s =
     (case pt_readlink pt (cstr path) (path_max - 1) s of None \<Rightarrow> [] | Some target \<Rightarrow> target)"

definition mulp_vinyl_fs_path_exists :: "'s posix \<Rightarrow> bytes \<Rightarrow> 's \<Rightarrow> bool" where
  "mulp_vinyl_fs_path_exists px path s = (px_lstat px (cstr path) s \<noteq> None)"

definition mulp_vinyl_fs_path_exists_for_test :: "'s posix \<Rightarrow> bytes \<Rightarrow> 's \<Rightarrow> bool" where
  "mulp_vinyl_fs_path_exists_for_test px path s = (px_stat px (cstr path) s \<noteq> None)"

definition mulp_vinyl_fs_remove_path_for_test :: "'s posix \<Rightarrow> bytes \<Rightarrow> 's \<Rightarrow> bool \<times> 's" where
  "mulp_vinyl_fs_remove_path_for_test px path s = px_unlink px (cstr path) s"

definition mulp_vinyl_fs_chmod_path :: "'s posix_tree \<Rightarrow> bytes \<Rightarrow> nat \<Rightarrow> 's \<Rightarrow> bool \<times> 's" where
  "mulp_vinyl_fs_chmod_path pt path mode s = pt_chmod pt (cstr path) mode s"

text \<open>C division truncates towards zero.\<close>

definition seconds_of_ms :: "int \<Rightarrow> int" where
  "seconds_of_ms ms = (if ms < 0 then - (- ms div 1000) else ms div 1000)"

definition mulp_vinyl_fs_set_mtime_path ::
    "'s posix \<Rightarrow> 's posix_tree \<Rightarrow> bytes \<Rightarrow> int \<Rightarrow> 's \<Rightarrow> bool \<times> 's" where
  "mulp_vinyl_fs_set_mtime_path px pt path mtime_ms s =
     (case px_stat px (cstr path) s of
        None \<Rightarrow> (False, s)
      | Some info \<Rightarrow> pt_utime pt (cstr path) (st_atime info) (seconds_of_ms mtime_ms) s)"

subsection \<open>Destination writers\<close>

record dest_writer =
  dw_file :: "nat option"
  dw_skipped :: bool

definition mulp_vinyl_fs_mkdir_if_needed :: "'s posix \<Rightarrow> bytes \<Rightarrow> 's \<Rightarrow> bool \<times> 's" where
  "mulp_vinyl_fs_mkdir_if_needed px path s =
     (if path = [] then (True, s)
      else case px_mkdir px path s of (r, s') \<Rightarrow> (r = Made \<or> r = Exists, s'))"

function vinyl_parents_loop :: "'s posix \<Rightarrow> bytes \<Rightarrow> nat \<Rightarrow> 's \<Rightarrow> bool \<times> 's" where
  "vinyl_parents_loop px copy index s =
     (if index < length copy then
        (if copy ! index = 47 \<or> copy ! index = 92 then
           (case mulp_vinyl_fs_mkdir_if_needed px (take index copy) s of (ok, s') \<Rightarrow>
              if ok then vinyl_parents_loop px copy (Suc index) s' else (False, s'))
         else vinyl_parents_loop px copy (Suc index) s)
      else (True, s))"
  by pat_completeness auto
termination by (relation "measure (\<lambda>(_, copy, index, _). length copy - index)") auto

declare vinyl_parents_loop.simps [simp del]

definition mulp_vinyl_fs_ensure_parent_dirs :: "'s posix \<Rightarrow> bytes \<Rightarrow> 's \<Rightarrow> bool \<times> 's" where
  "mulp_vinyl_fs_ensure_parent_dirs px path s =
     (if \<not> px_alloc px (length (cstr path) + 1) then (False, s)
      else vinyl_parents_loop px (cstr path) 1 s)"

definition mulp_vinyl_fs_open_dest_writer ::
    "'s posix \<Rightarrow> bytes \<Rightarrow> bool \<Rightarrow> bool \<Rightarrow> 's \<Rightarrow> dest_writer \<times> 's" where
  "mulp_vinyl_fs_open_dest_writer px path append_mode overwrite s =
     (if \<not> overwrite \<and> px_stat px (cstr path) s \<noteq> None
      then (\<lparr>dw_file = None, dw_skipped = True\<rparr>, s)
      else case mulp_vinyl_fs_ensure_parent_dirs px (cstr path) s of (ok, s) \<Rightarrow>
        if \<not> ok then (\<lparr>dw_file = None, dw_skipped = False\<rparr>, s)
        else case px_fopen px (cstr path) (if append_mode then Append_Binary else Write_Binary) s of
          (file, s) \<Rightarrow> (\<lparr>dw_file = file, dw_skipped = False\<rparr>, s))"

definition mulp_vinyl_fs_dest_writer_is_ready :: "dest_writer \<Rightarrow> bool" where
  "mulp_vinyl_fs_dest_writer_is_ready writer = (dw_skipped writer \<or> dw_file writer \<noteq> None)"

definition mulp_vinyl_fs_dest_writer_is_skipped :: "dest_writer \<Rightarrow> bool" where
  "mulp_vinyl_fs_dest_writer_is_skipped writer = dw_skipped writer"

definition mulp_vinyl_fs_dest_writer_write ::
    "'s posix \<Rightarrow> dest_writer \<Rightarrow> bytes \<Rightarrow> 's \<Rightarrow> bool \<times> 's" where
  "mulp_vinyl_fs_dest_writer_write px writer chunk s =
     (if dw_skipped writer then (True, s)
      else case dw_file writer of
        None \<Rightarrow> (False, s)
      | Some h \<Rightarrow> (case px_fwrite px h chunk s of (n, s) \<Rightarrow> (n = length chunk, s)))"

definition mulp_vinyl_fs_dest_writer_close ::
    "'s posix \<Rightarrow> dest_writer \<Rightarrow> 's \<Rightarrow> bool \<times> dest_writer \<times> 's" where
  "mulp_vinyl_fs_dest_writer_close px writer s =
     (case dw_file writer of
        None \<Rightarrow> (True, writer, s)
      | Some h \<Rightarrow> (case px_fclose px h s of (ok, s) \<Rightarrow> (ok, writer\<lparr>dw_file := None\<rparr>, s)))"

subsection \<open>The buffer holds its text\<close>

lemma vinyl_capacity_returns:
  assumes "0 < cap"
  shows "\<exists>c. vinyl_capacity need cap = Some c \<and> need \<le> c \<and> cap \<le> c"
  using assms
proof (induction "need - cap" arbitrary: cap rule: less_induct)
  case less
  show ?case
  proof (cases "cap < need")
    case True
    then have "need - cap * 2 < need - cap" using less.prems by linarith
    then show ?thesis
      using True less.prems less.hyps [of "cap * 2"]
      by (subst vinyl_capacity.simps) fastforce
  qed (simp add: vinyl_capacity.simps)
qed

definition vb_holds :: "vinyl_buffer \<Rightarrow> bytes \<Rightarrow> bool" where
  "vb_holds b bs \<longleftrightarrow> b = vb_empty \<and> bs = [] \<or>
     vb_length b = length bs \<and> length bs < vb_capacity b \<and>
     (\<exists>m. vb_data b = Some (map Some bs @ m) \<and> length bs + length m = vb_capacity b)"

lemma vb_holds_empty [simp]: "vb_holds vb_empty []"
  by (simp add: vb_holds_def)

lemma copy_into_tail:
  "length cs \<le> length m \<Longrightarrow>
   copy_into (map Some bs @ m) (length bs) cs = Some (map Some (bs @ cs) @ drop (length cs) m)"
  by (simp add: copy_into_def)

lemma store_at_tail:
  "m \<noteq> [] \<Longrightarrow> store_at (map Some bs @ m) (length bs) b = Some (map Some bs @ Some b # tl m)"
  by (cases m) (simp_all add: store_at_def list_update_append)

lemma vb_append_cases:
  assumes "vb_holds b bs"
  shows "(\<exists>b'. mulp_vinyl_fs_buffer_append alloc b text = Some (True, b') \<and> vb_holds b' (bs @ text)) \<or>
    mulp_vinyl_fs_buffer_append alloc b text = Some (False, b) \<and> (\<exists>n. \<not> alloc n)"
proof -
  let ?need = "vb_length b + length text + 1"
  let ?start = "if vb_capacity b = 0 then 256 else vb_capacity b"
  have len: "vb_length b = length bs" using assms by (auto simp: vb_holds_def vb_empty_def)
  obtain next_cap m where nm:
    "(if ?need > vb_capacity b then vinyl_capacity ?need ?start else Some (vb_capacity b)) = Some next_cap"
    "(if ?need > vb_capacity b then Some (resize (vb_data b) next_cap) else vb_data b) = Some (map Some bs @ m)"
    "length bs + length m = next_cap" "?need \<le> next_cap"
  proof (cases "?need > vb_capacity b")
    case True
    have pos: "0 < ?start" by simp
    obtain c where c: "vinyl_capacity ?need ?start = Some c" "?need \<le> c" "?start \<le> c"
      using vinyl_capacity_returns [OF pos, of ?need] by blast
    have "\<exists>m. resize (vb_data b) c = map Some bs @ m \<and> length bs + length m = c"
      using assms c(2,3)
      by (auto simp: vb_holds_def vb_empty_def resize_def split: if_splits)
    with True c that show ?thesis by auto
  next
    case False
    with assms that show ?thesis by (auto simp: vb_holds_def vb_empty_def)
  qed
  have m: "length text < length m" using nm(3,4) len by simp
  have 1: "copy_into (map Some bs @ m) (vb_length b) text =
      Some (map Some (bs @ text) @ drop (length text) m)"
    unfolding len using m by (intro copy_into_tail) simp
  have 2: "store_at (map Some (bs @ text) @ drop (length text) m) (vb_length b + length text) 0 =
      Some (map Some (bs @ text) @ Some 0 # tl (drop (length text) m))"
    using store_at_tail [of "drop (length text) m" "bs @ text" 0] m by (simp add: len)
  show ?thesis
    unfolding mulp_vinyl_fs_buffer_append_def Let_def nm(1) bind.bind_lunit nm(2) 1 2
    using m nm(3,4) by (auto simp: vb_holds_def len)
qed


lemma vb_to_bytes:
  "vb_holds b bs \<Longrightarrow> mulp_vinyl_fs_buffer_to_bytes b = (if length bs < 2 ^ 31 then Some bs else None)"
  by (auto simp: vb_holds_def mulp_vinyl_fs_buffer_to_bytes_def vb_empty_def)

subsection \<open>The listing of a tree\<close>





lemma walk_loop_dots [simp]:
  "walk_loop px pt s root rel ([46] # es) b = walk_loop px pt s root rel es b"
  "walk_loop px pt s root rel ([46, 46] # es) b = walk_loop px pt s root rel es b"
  by (subst walk_loop.simps, simp)+


subsection \<open>The walk always ends\<close>

text \<open>File names as the system lists them: never empty, no terminator inside.\<close>

definition names_ok :: "'s posix_tree \<Rightarrow> 's \<Rightarrow> bool" where
  "names_ok pt s \<longleftrightarrow> (\<forall>dir es. pt_readdir pt dir s = Some es \<longrightarrow> (\<forall>n \<in> set es. n \<noteq> [] \<and> 0 \<notin> set n))"

lemma join_text:
  assumes "fst (mulp_vinyl_fs_join n left right)" and "0 \<notin> set left" and "0 \<notin> set right"
  shows "snd (mulp_vinyl_fs_join n left right) =
      left @ (if length left > 0 \<and> left ! (length left - 1) = 47 then [] else [47]) @ right"
    and "length (snd (mulp_vinyl_fs_join n left right)) < n"
proof -
  let ?sep = "if length left > 0 \<and> left ! (length left - 1) = 47 then [] else [47 :: byte]"
  let ?t = "left @ ?sep @ right"
  have len: "length ?t < n"
    using assms(1) by (simp add: mulp_vinyl_fs_join_def snprintf_def Let_def split: if_splits)
  have "0 \<notin> set ?t" using assms(2,3) by auto
  then have "snd (mulp_vinyl_fs_join n left right) = ?t"
    unfolding mulp_vinyl_fs_join_def Let_def snprintf_fits [OF len] prod.case snd_conv
    by (rule cstr_append_0)
  with len show "snd (mulp_vinyl_fs_join n left right) = ?t"
    and "length (snd (mulp_vinyl_fs_join n left right)) < n" by simp_all
qed

lemma walk_child_longer:
  assumes "fst (walk_child rel name)" and "0 \<notin> set rel" and "0 \<notin> set name" and "name \<noteq> []"
  shows "length rel < length (snd (walk_child rel name))"
    and "length (snd (walk_child rel name)) < path_max" and "0 \<notin> set (snd (walk_child rel name))"
  using assms join_text [of path_max rel name] by (auto simp: walk_child_def split: if_splits)

text \<open>What the loop does with the entry it has just listed.\<close>

definition walk_sub ::
    "'s posix \<Rightarrow> 's posix_tree \<Rightarrow> 's \<Rightarrow> bytes \<Rightarrow> bytes \<Rightarrow> vinyl_buffer \<Rightarrow> (bool \<times> vinyl_buffer) run" where
  "walk_sub px pt s root child buffer =
     (if walks_into px s (snd (mulp_vinyl_fs_join path_max root child))
      then mulp_vinyl_fs_walk px pt s root child buffer else Some (True, buffer))"

lemma walk_loop_step:
  assumes "name \<noteq> [46]" and "name \<noteq> [46, 46]" and "fst (walk_child rel name)"
    and "fst (mulp_vinyl_fs_join path_max root (snd (walk_child rel name)))"
  shows "walk_loop px pt s root rel (name # rest) b = do {
    (ok, b) \<leftarrow> append_entry (px_alloc px) b (snd (walk_child rel name));
    if \<not> ok then Some (False, b)
    else do {
      (ok, b) \<leftarrow> walk_sub px pt s root (snd (walk_child rel name)) b;
      if ok then walk_loop px pt s root rel rest b else Some (False, b)
    }
  }"
  using assms
  by (subst walk_loop.simps) (simp add: case_prod_unfold walk_sub_def mulp_vinyl_fs_walk_def cong: if_cong)

lemma append_entry_returns:
  assumes "vb_holds b bs"
  shows "\<exists>ok b' bs'. append_entry alloc b c = Some (ok, b') \<and> vb_holds b' bs'"
  using vb_append_cases [OF assms, of alloc c] vb_append_cases [of _ "bs @ c" alloc "[10]"] assms
  by (fastforce simp: append_entry_def)

lemma walk_loop_returns:
  assumes "names_ok pt s" and "\<forall>n \<in> set es. n \<noteq> [] \<and> 0 \<notin> set n" and "0 \<notin> set rel"
    and "vb_holds b bs"
  shows "\<exists>ok b' bs'. walk_loop px pt s root rel es b = Some (ok, b') \<and> vb_holds b' bs'"
  using assms(2-)
proof (induction "(path_max - length rel, length es)" arbitrary: rel es b bs
    rule: wf_induct_rule [OF wf_lex_prod [OF wf_less_than wf_less_than]])
  case (1 rel es b bs)
  show ?case
  proof (cases es)
    case Nil
    then show ?thesis using 1 by (subst walk_loop.simps) auto
  next
    case (Cons name rest)
    have name: "name \<noteq> []" "0 \<notin> set name" and rest: "\<forall>n \<in> set rest. n \<noteq> [] \<and> 0 \<notin> set n"
      using 1(2) Cons by auto
    have go: "\<exists>ok b' bs'. walk_loop px pt s root rel rest b1 = Some (ok, b') \<and> vb_holds b' bs'"
      if "vb_holds b1 bs1" for b1 bs1
      using 1(1) [OF _ rest 1(3) that] Cons by simp
    show ?thesis
    proof (cases "name = [46] \<or> name = [46, 46] \<or> \<not> fst (walk_child rel name) \<or>
        \<not> fst (mulp_vinyl_fs_join path_max root (snd (walk_child rel name)))")
      case True
      then show ?thesis using go [OF 1(4)] 1(4) Cons
        by (subst walk_loop.simps) (auto split: prod.splits)
    next
      case False
      let ?c = "snd (walk_child rel name)"
      have c: "length rel < length ?c" "length ?c < path_max" "0 \<notin> set ?c"
        using walk_child_longer [of rel name] False 1(3) name by auto
      obtain ok1 b1 bs1 where b1: "append_entry (px_alloc px) b ?c = Some (ok1, b1)" "vb_holds b1 bs1"
        using append_entry_returns [OF 1(4)] by blast
      have down: "\<exists>ok b' bs'. walk_loop px pt s root ?c es' b1 = Some (ok, b') \<and> vb_holds b' bs'"
        if "pt_readdir pt dir s = Some es'" for dir es'
      proof (rule 1(1) [OF _ _ c(3) b1(2)])
        have "path_max - length ?c < path_max - length rel" using c(1,2) by linarith
        then show "((path_max - length ?c, length es'), path_max - length rel, length es)
            \<in> less_than <*lex*> less_than" by simp
        show "\<forall>n \<in> set es'. n \<noteq> [] \<and> 0 \<notin> set n"
          using assms(1) that by (auto simp: names_ok_def)
      qed
      have "\<exists>ok2 b2 bs2. walk_sub px pt s root ?c b1 = Some (ok2, b2) \<and> vb_holds b2 bs2"
      proof (cases "walks_into px s (snd (mulp_vinyl_fs_join path_max root ?c)) \<and>
          fst (walk_dir_path root ?c)")
        case True
        then show ?thesis using down [of "snd (walk_dir_path root ?c)"] b1(2)
          by (cases "pt_readdir pt (snd (walk_dir_path root ?c)) s")
            (auto simp: walk_sub_def mulp_vinyl_fs_walk_def case_prod_unfold)
      next
        case False
        then show ?thesis using b1(2)
          by (cases "walks_into px s (snd (mulp_vinyl_fs_join path_max root ?c))")
            (auto simp: walk_sub_def mulp_vinyl_fs_walk_def case_prod_unfold)
      qed
      then obtain ok2 b2 bs2 where b2: "walk_sub px pt s root ?c b1 = Some (ok2, b2)" "vb_holds b2 bs2"
        by blast
      show ?thesis using False b1 b2 go [OF b2(2)] Cons
        by (cases ok1; cases ok2) (auto simp: walk_loop_step)
    qed
  qed
qed

text \<open>The writes of a list of chunks, stopping at the first failure.\<close>

fun dest_write_all :: "'s posix \<Rightarrow> dest_writer \<Rightarrow> bytes list \<Rightarrow> 's \<Rightarrow> bool \<times> 's" where
  "dest_write_all px w [] s = (True, s)"
| "dest_write_all px w (c # cs) s =
     (case mulp_vinyl_fs_dest_writer_write px w c s of
        (ok, s) \<Rightarrow> if ok then dest_write_all px w cs s else (False, s))"

context stdio
begin

lemma dest_write_target:
  assumes "dw_file w = Some h" and "\<not> dw_skipped w" and "target s h = Some (p, c)"
    and "mulp_vinyl_fs_dest_writer_write px w chunk s = (True, s')"
  shows "target s' h = Some (p, c @ chunk)"
  using assms(1,2,4) write_chunk [OF assms(3), of chunk s']
  by (auto simp: mulp_vinyl_fs_dest_writer_write_def split: prod.splits)

lemma dest_write_all_target:
  assumes "dw_file w = Some h" and "\<not> dw_skipped w" and "target s h = Some (p, c)"
    and "dest_write_all px w chunks s = (True, s')"
  shows "target s' h = Some (p, c @ concat chunks)"
  using assms(3,4)
proof (induction chunks arbitrary: s c)
  case (Cons chunk chunks)
  obtain s1 where "mulp_vinyl_fs_dest_writer_write px w chunk s = (True, s1)"
    and "dest_write_all px w chunks s1 = (True, s')"
    using Cons.prems(2) by (auto split: prod.splits if_splits)
  with dest_write_target [OF assms(1,2) Cons.prems(1)] Cons.IH show ?case by fastforce
qed simp

lemma dest_writer_content:
  assumes "mulp_vinyl_fs_open_dest_writer px path append_mode overwrite s = (w, s1)"
    and "mulp_vinyl_fs_dest_writer_is_ready w" and "\<not> mulp_vinyl_fs_dest_writer_is_skipped w"
    and "dest_write_all px w chunks s1 = (True, s2)"
    and "mulp_vinyl_fs_dest_writer_close px w s2 = (True, w', s3)"
  shows "\<exists>s0. mulp_vinyl_fs_ensure_parent_dirs px (cstr path) s = (True, s0) \<and> dw_file w' = None \<and>
    content s3 (cstr path) =
      Some ((if append_mode then (case content s0 (cstr path) of None \<Rightarrow> [] | Some c \<Rightarrow> c) else []) @ concat chunks)"
proof -
  obtain s0 h where s0: "mulp_vinyl_fs_ensure_parent_dirs px (cstr path) s = (True, s0)"
    and f: "px_fopen px (cstr path) (if append_mode then Append_Binary else Write_Binary) s0 = (Some h, s1)"
    and w: "w = \<lparr>dw_file = Some h, dw_skipped = False\<rparr>"
    using assms(1-3)
    by (auto simp: mulp_vinyl_fs_open_dest_writer_def mulp_vinyl_fs_dest_writer_is_ready_def
        mulp_vinyl_fs_dest_writer_is_skipped_def split: if_splits prod.splits)
  let ?c = "if append_mode then (case content s0 (cstr path) of None \<Rightarrow> [] | Some c \<Rightarrow> c) else []"
  have "target s1 h = Some (cstr path, ?c)"
    using f open_write [of "cstr path" s0 h s1] open_append [of "cstr path" s0 h s1] by (auto split: if_splits)
  then have "target s2 h = Some (cstr path, ?c @ concat chunks)"
    using dest_write_all_target [of w h s1 "cstr path" ?c chunks s2] assms(4) w by simp
  moreover have "px_fclose px h s2 = (True, s3)" "dw_file w' = None"
    using assms(5) by (auto simp: mulp_vinyl_fs_dest_writer_close_def w split: prod.splits)
  ultimately show ?thesis using s0 close_write by simp
qed

end

subsection \<open>Properties\<close>


definition demo_tree :: "disk posix_tree" where
  "demo_tree = \<lparr>pt_readdir = (\<lambda>p _. if p = str ''/w'' then Some [[46], [46, 46], str ''a'', str ''d'']
       else if p = str ''/w/d'' then Some [[46], [46, 46], str ''b''] else None),
     pt_readlink = (\<lambda>_ _ _. None), pt_chmod = (\<lambda>_ _ s. (True, s)), pt_utime = (\<lambda>_ _ _ s. (True, s))\<rparr>"

definition demo_disk :: disk where
  "demo_disk = (empty_disk 9)\<lparr>dk_dirs := [str ''/w'', str ''/w/d''],
     dk_files := [str ''/w/a'' \<mapsto> [], str ''/w/d/b'' \<mapsto> []]\<rparr>"



text \<open>
  The walk returns on every system that lists non-empty names, even when the
  listed directories loop: each level adds to a relative path that cannot exceed the path limit.
\<close>

theorem discover_paths_returns:
  assumes "names_ok pt s"
  shows "\<exists>ok buffer text. mulp_vinyl_fs_walk px pt s (cstr root) [] vb_empty = Some (ok, buffer) \<and>
    mulp_vinyl_fs_discover_paths px pt s root = (if length text < 2 ^ 31 then Some text else None)"
proof -
  have "\<exists>ok b bs. mulp_vinyl_fs_walk px pt s (cstr root) [] vb_empty = Some (ok, b) \<and> vb_holds b bs"
  proof (cases "pt_readdir pt (cstr root) s")
    case (Some es)
    then have "\<forall>n \<in> set es. n \<noteq> [] \<and> 0 \<notin> set n" using assms by (auto simp: names_ok_def)
    from walk_loop_returns [OF assms this _ vb_holds_empty, of "[]"] Some show ?thesis
      by (auto simp: mulp_vinyl_fs_walk_def walk_dir_path_def intro: vb_holds_empty)
  qed (auto simp: mulp_vinyl_fs_walk_def walk_dir_path_def intro: vb_holds_empty)
  then obtain ok b bs where "mulp_vinyl_fs_walk px pt s (cstr root) [] vb_empty = Some (ok, b)" "vb_holds b bs" by blast
  then show ?thesis by (intro exI [of _ ok] exI [of _ b] exI [of _ bs]) (simp add: mulp_vinyl_fs_discover_paths_def vb_to_bytes)
qed

theorem discover_paths_returns_witness:
  "\<exists>ok buffer text. mulp_vinyl_fs_walk disk_px (demo_tree\<lparr>pt_readdir := (\<lambda>_ _. Some [str ''loop''])\<rparr>) demo_disk
      (cstr (str ''/w'')) [] vb_empty = Some (ok, buffer) \<and>
    mulp_vinyl_fs_discover_paths disk_px (demo_tree\<lparr>pt_readdir := (\<lambda>_ _. Some [str ''loop''])\<rparr>) demo_disk (str ''/w'') =
      (if length text < 2 ^ 31 then Some text else None)"
  by (rule discover_paths_returns) (simp add: names_ok_def)

text \<open>
  Property C38. When the opening of a destination writer, every write and the close report success,
  the file holds exactly the chunks written, after its old contents when it was opened for appending,
  on every system whose files keep the laws of buffered streams; a close that fails promises nothing.
\<close>

theorem dest_writer_contents:
  assumes "stdio px content unread target"
    and "mulp_vinyl_fs_open_dest_writer px path append_mode overwrite s = (w, s1)"
    and "mulp_vinyl_fs_dest_writer_is_ready w" and "\<not> mulp_vinyl_fs_dest_writer_is_skipped w"
    and "dest_write_all px w chunks s1 = (True, s2)"
    and "mulp_vinyl_fs_dest_writer_close px w s2 = (True, w', s3)"
  shows "\<exists>s0. mulp_vinyl_fs_ensure_parent_dirs px (cstr path) s = (True, s0) \<and> dw_file w' = None \<and>
    content s3 (cstr path) =
      Some ((if append_mode then (case content s0 (cstr path) of None \<Rightarrow> [] | Some c \<Rightarrow> c) else []) @ concat chunks)"
  using stdio.dest_writer_content [OF assms] .

text \<open>A file \<open>/w/a\<close> of one byte to which two chunks are appended, the second past the buffer.\<close>

definition demo_file_disk :: "nat \<Rightarrow> disk" where
  "demo_file_disk room = demo_disk\<lparr>dk_files := [str ''/w/a'' \<mapsto> [7]], dk_room := room\<rparr>"

abbreviation demo_written :: "nat \<Rightarrow> bool \<times> disk" where
  "demo_written room \<equiv> dest_write_all disk_px \<lparr>dw_file = Some 0, dw_skipped = False\<rparr> [[1], [2, 3, 4, 5], [6]]
     (snd (mulp_vinyl_fs_open_dest_writer disk_px (str ''/w/a'') True True (demo_file_disk room)))"

lemmas demo_writer_simps = mulp_vinyl_fs_open_dest_writer_def mulp_vinyl_fs_ensure_parent_dirs_def
  vinyl_parents_loop.simps mulp_vinyl_fs_mkdir_if_needed_def disk_mkdir_def disk_fopen_def
  disk_fwrite_def disk_flush_def disk_fclose_def buffer_size_def mulp_vinyl_fs_dest_writer_write_def
  mulp_vinyl_fs_dest_writer_close_def Let_def demo_disk_def demo_file_disk_def disk_px_def
  disk_stat_def empty_disk_def cstr_def

theorem dest_writer_contents_witness:
  "\<exists>s0. mulp_vinyl_fs_ensure_parent_dirs disk_px (str ''/w/a'') (demo_file_disk 9) = (True, s0) \<and>
    dk_files (snd (snd (mulp_vinyl_fs_dest_writer_close disk_px \<lparr>dw_file = Some 0, dw_skipped = False\<rparr>
      (snd (demo_written 9))))) (str ''/w/a'') =
    Some ((case dk_files s0 (str ''/w/a'') of None \<Rightarrow> [] | Some c \<Rightarrow> c) @ [1, 2, 3, 4, 5, 6])"
proof -
  let ?w = "\<lparr>dw_file = Some 0, dw_skipped = False\<rparr>"
  let ?s1 = "snd (mulp_vinyl_fs_open_dest_writer disk_px (str ''/w/a'') True True (demo_file_disk 9))"
  have "fst (mulp_vinyl_fs_open_dest_writer disk_px (str ''/w/a'') True True (demo_file_disk 9)) = ?w"
    and "fst (demo_written 9)"
    by (simp_all add: demo_writer_simps)
  then have open_ok: "mulp_vinyl_fs_open_dest_writer disk_px (str ''/w/a'') True True (demo_file_disk 9) = (?w, ?s1)"
    and write_ok: "demo_written 9 = (True, snd (demo_written 9))"
    by (metis prod.collapse)+
  have close_ok: "mulp_vinyl_fs_dest_writer_close disk_px ?w (snd (demo_written 9)) =
      (True, ?w\<lparr>dw_file := None\<rparr>, snd (snd (mulp_vinyl_fs_dest_writer_close disk_px ?w (snd (demo_written 9)))))"
    by (simp add: demo_writer_simps)
  from dest_writer_contents [OF disk.stdio_axioms open_ok _ _ write_ok close_ok] show ?thesis
    by (simp add: mulp_vinyl_fs_dest_writer_is_ready_def mulp_vinyl_fs_dest_writer_is_skipped_def cstr_def
        del: dest_write_all.simps)
qed

text \<open>
  The result of the close matters: on a disk with room for five bytes every write reports success,
  the close does not, and the last byte is lost.
\<close>

lemma close_reports_lost_bytes:
  "fst (demo_written 5) \<and>
   (case mulp_vinyl_fs_dest_writer_close disk_px \<lparr>dw_file = Some 0, dw_skipped = False\<rparr> (snd (demo_written 5)) of
      (ok, w, s) \<Rightarrow> \<not> ok \<and> dk_files s (str ''/w/a'') = Some [7, 1, 2, 3, 4, 5])"
  by (simp add: demo_writer_simps)

text \<open>
  Without the overwrite option an existing file is left alone: the writer is
  skipped, accepts every chunk, and nothing of the system changes.
\<close>

theorem dest_writer_skips_existing:
  assumes "px_stat px (cstr path) s \<noteq> None"
  shows "\<exists>w. mulp_vinyl_fs_open_dest_writer px path append_mode False s = (w, s) \<and>
    mulp_vinyl_fs_dest_writer_is_skipped w \<and> dest_write_all px w chunks s = (True, s) \<and>
    mulp_vinyl_fs_dest_writer_close px w s = (True, w, s)"
proof -
  have "dest_write_all px \<lparr>dw_file = None, dw_skipped = True\<rparr> chunks s = (True, s)"
    by (induction chunks) (simp_all add: mulp_vinyl_fs_dest_writer_write_def)
  with assms show ?thesis
    by (simp add: mulp_vinyl_fs_open_dest_writer_def mulp_vinyl_fs_dest_writer_is_skipped_def
        mulp_vinyl_fs_dest_writer_close_def)
qed

theorem dest_writer_skips_existing_witness:
  "\<exists>w. mulp_vinyl_fs_open_dest_writer disk_px (str ''/w/a'') False False demo_disk = (w, demo_disk) \<and>
    mulp_vinyl_fs_dest_writer_is_skipped w \<and>
    dest_write_all disk_px w [[1], [2]] demo_disk = (True, demo_disk) \<and>
    mulp_vinyl_fs_dest_writer_close disk_px w demo_disk = (True, w, demo_disk)"
  by (rule dest_writer_skips_existing) (simp add: demo_disk_def disk_px_def disk_stat_def cstr_def)

end
