(* ===== verification/Vinyl_Glob.thy ===== *)
theory Vinyl_Glob
  imports Vinyl_Path
begin

text \<open>
  The selection of source files (\<open>platform/glob.mbt\<close>, \<open>vinyl_fs/glob_stream.mbt\<close>): this library has its
  own patterns, of segments with stars and of double stars, and its own reading of a list of patterns,
  in which their order matters.
\<close>

subsection \<open>Patterns\<close>

definition non_empty_segments :: "mstring \<Rightarrow> mstring list run" where
  "non_empty_segments path = do {
     parts \<leftarrow> string_split path slash;
     Some (filter (\<lambda>value. value \<noteq> []) parts)
   }"

function segment_matches :: "mstring \<Rightarrow> mstring \<Rightarrow> nat \<Rightarrow> nat \<Rightarrow> bool run" where
  "segment_matches pattern value pi vi =
     (if pi = length pattern then Some (vi = length value)
      else if pi < length pattern then do {
        unit \<leftarrow> unit_at pattern pi;
        if unit = str ''*'' then do {
          rest \<leftarrow> segment_matches pattern value (pi + 1) vi;
          if rest then Some True
          else if vi < length value then segment_matches pattern value pi (vi + 1)
          else Some False
        } else if vi < length value then do {
          v \<leftarrow> unit_at value vi;
          if unit = v then segment_matches pattern value (pi + 1) (vi + 1) else Some False
        } else Some False
      } else None)"
  by pat_completeness auto
termination by (relation "measure (\<lambda>(p, v, pi, vi). length p - pi + (length v - vi))") auto

declare segment_matches.simps [simp del]

function path_segments_match :: "mstring list \<Rightarrow> mstring list \<Rightarrow> nat \<Rightarrow> nat \<Rightarrow> bool run" where
  "path_segments_match pattern path pi si =
     (if pi = length pattern then Some (si = length path)
      else if pi < length pattern then
        (if pattern ! pi = str ''**'' then do {
           rest \<leftarrow> path_segments_match pattern path (pi + 1) si;
           if rest then Some True
           else if si < length path then path_segments_match pattern path pi (si + 1)
           else Some False
         } else do {
           b \<leftarrow> (if si < length path then segment_matches (pattern ! pi) (path ! si) 0 0 else Some False);
           if b then path_segments_match pattern path (pi + 1) (si + 1) else Some False
         })
      else None)"
  by pat_completeness auto
termination by (relation "measure (\<lambda>(p, v, pi, si). length p - pi + (length v - si))") (auto split: if_splits)

declare path_segments_match.simps [simp del]

definition glob_matches :: "mstring \<Rightarrow> mstring \<Rightarrow> bool run" where
  "glob_matches pattern path = do {
     p \<leftarrow> non_empty_segments pattern;
     s \<leftarrow> non_empty_segments path;
     path_segments_match p s 0 0
   }"

subsection \<open>Lists of patterns\<close>

definition contains_path :: "mstring list \<Rightarrow> mstring \<Rightarrow> bool" where
  "contains_path paths path = list_ex (\<lambda>item. item = path) paths"

fun any_dot :: "mstring list \<Rightarrow> bool run" where
  "any_dot [] = Some False"
| "any_dot (value # parts) = do { b \<leftarrow> has_prefix value (str ''.''); if b then Some True else any_dot parts }"

definition path_has_dot_segment :: "mstring \<Rightarrow> bool run" where
  "path_has_dot_segment path = do { parts \<leftarrow> string_split path slash; any_dot parts }"

definition path_matches_glob_option :: "mstring \<Rightarrow> mstring \<Rightarrow> bool \<Rightarrow> bool run" where
  "path_matches_glob_option path pattern dot = do {
     shown \<leftarrow> (if dot then Some True else do { d \<leftarrow> path_has_dot_segment path; Some (\<not> d) });
     if shown then glob_matches pattern path else Some False
   }"

fun remove_matching :: "mstring list \<Rightarrow> mstring \<Rightarrow> bool \<Rightarrow> mstring list run" where
  "remove_matching [] pattern dot = Some []"
| "remove_matching (path # selected) pattern dot = do {
     b \<leftarrow> path_matches_glob_option path pattern dot;
     next \<leftarrow> remove_matching selected pattern dot;
     Some (if b then next else path # next)
   }"

fun add_matching :: "mstring list \<Rightarrow> mstring \<Rightarrow> bool \<Rightarrow> mstring list \<Rightarrow> mstring list run" where
  "add_matching [] glob dot selected = Some selected"
| "add_matching (path # paths) glob dot selected = do {
     b \<leftarrow> path_matches_glob_option path glob dot;
     add_matching paths glob dot (if b \<and> \<not> contains_path selected path then selected @ [path] else selected)
   }"

fun select_loop :: "mstring list \<Rightarrow> mstring list \<Rightarrow> bool \<Rightarrow> mstring list \<Rightarrow> mstring list run" where
  "select_loop paths [] dot selected = Some selected"
| "select_loop paths (glob # globs) dot selected = do {
     negative \<leftarrow> has_prefix glob (str ''!'');
     selected \<leftarrow> (if negative then do {
         pattern \<leftarrow> string_sub glob 1 None;
         remove_matching selected pattern dot
       } else add_matching paths glob dot selected);
     select_loop paths globs dot selected
   }"

definition ordered_glob_paths :: "mstring list \<Rightarrow> mstring list \<Rightarrow> bool \<Rightarrow> mstring list run" where
  "ordered_glob_paths paths globs dot = select_loop paths globs dot []"

definition select_glob_stream_paths :: "mstring list \<Rightarrow> mstring list \<Rightarrow> bool \<Rightarrow> mstring list run" where
  "select_glob_stream_paths paths globs dot = ordered_glob_paths paths globs dot"

subsection \<open>The language of a pattern\<close>

inductive in_segment :: "mstring \<Rightarrow> mstring \<Rightarrow> bool" where
  segment_end: "in_segment [] []"
| segment_star: "in_segment p v \<Longrightarrow> in_segment (42 # p) (w @ v)"
| segment_unit: "c \<noteq> 42 \<Longrightarrow> in_segment p v \<Longrightarrow> in_segment (c # p) (c # v)"

inductive in_path :: "mstring list \<Rightarrow> mstring list \<Rightarrow> bool" where
  path_end: "in_path [] []"
| path_stars: "in_path ps ss \<Longrightarrow> in_path (str ''**'' # ps) (ws @ ss)"
| path_segment: "p \<noteq> str ''**'' \<Longrightarrow> in_segment p s \<Longrightarrow> in_path ps ss \<Longrightarrow> in_path (p # ps) (s # ss)"

inductive_simps in_segment_simps [simp]: "in_segment [] v" "in_segment (c # p) []"
inductive_simps in_path_simps [simp]: "in_path [] ss"
inductive_cases in_segment_cases: "in_segment (c # p) v"
inductive_cases in_path_cases: "in_path (p # ps) ss"

lemma in_segment_star: "in_segment (42 # p) v \<longleftrightarrow> in_segment p v \<or> (v \<noteq> [] \<and> in_segment (42 # p) (tl v))"
proof
  assume "in_segment (42 # p) v"
  then obtain w u where v: "v = w @ u" "in_segment p u" by (auto elim: in_segment_cases)
  then show "in_segment p v \<or> (v \<noteq> [] \<and> in_segment (42 # p) (tl v))"
    by (cases w) (auto intro: segment_star)
next
  assume "in_segment p v \<or> (v \<noteq> [] \<and> in_segment (42 # p) (tl v))"
  then show "in_segment (42 # p) v"
  proof
    assume "in_segment p v"
    then show ?thesis using segment_star [of p v "[]"] by simp
  next
    assume v: "v \<noteq> [] \<and> in_segment (42 # p) (tl v)"
    then obtain w u where "tl v = w @ u" "in_segment p u" by (auto elim: in_segment_cases)
    with v show ?thesis using segment_star [of p u "hd v # w"] by (cases v) auto
  qed
qed

lemma in_path_stars:
  "in_path (str ''**'' # ps) ss \<longleftrightarrow> in_path ps ss \<or> (ss \<noteq> [] \<and> in_path (str ''**'' # ps) (tl ss))"
proof
  assume "in_path (str ''**'' # ps) ss"
  then obtain ws us where v: "ss = ws @ us" "in_path ps us" by (auto elim: in_path_cases)
  then show "in_path ps ss \<or> (ss \<noteq> [] \<and> in_path (str ''**'' # ps) (tl ss))"
    by (cases ws) (auto simp del: str_Cons intro: path_stars)
next
  assume "in_path ps ss \<or> (ss \<noteq> [] \<and> in_path (str ''**'' # ps) (tl ss))"
  then show "in_path (str ''**'' # ps) ss"
  proof
    assume "in_path ps ss"
    then show ?thesis using path_stars [of ps ss "[]"] by simp
  next
    assume v: "ss \<noteq> [] \<and> in_path (str ''**'' # ps) (tl ss)"
    then obtain ws us where "tl ss = ws @ us" "in_path ps us" by (auto elim: in_path_cases)
    with v show ?thesis using path_stars [of ps us "hd ss # ws"] by (cases ss) auto
  qed
qed

lemma segment_matches_eq:
  assumes "no_surrogates p" and "no_surrogates v"
  shows "pi \<le> length p \<Longrightarrow> vi \<le> length v \<Longrightarrow>
    segment_matches p v pi vi = Some (in_segment (drop pi p) (drop vi v))"
proof (induction "length p - pi + (length v - vi)" arbitrary: pi vi rule: less_induct)
  case less
  show ?case
  proof (cases "pi = length p")
    case True
    then show ?thesis by (subst segment_matches.simps) (use less.prems in auto)
  next
    case False
    then have pi: "pi < length p" using less.prems by simp
    have d: "drop pi p = p ! pi # drop (pi + 1) p" using pi by (simp add: Cons_nth_drop_Suc)
    have u: "unit_at p pi = Some [p ! pi]" using assms(1) pi by (rule unit_at_eq)
    have rest: "segment_matches p v (pi + 1) vi = Some (in_segment (drop (pi + 1) p) (drop vi v))"
      using pi less.prems by (intro less.hyps) auto
    show ?thesis
    proof (cases "vi < length v")
      case False
      then have vi: "drop vi v = []" by simp
      show ?thesis
        using False pi u rest unfolding d vi by (subst segment_matches.simps) (auto simp: in_segment_star)
    next
      case True
      have dv: "drop vi v = v ! vi # drop (vi + 1) v" using True by (simp add: Cons_nth_drop_Suc)
      have uv: "unit_at v vi = Some [v ! vi]" using assms(2) True by (rule unit_at_eq)
      have more: "segment_matches p v pi (vi + 1) = Some (in_segment (drop pi p) (drop (vi + 1) v))"
        "segment_matches p v (pi + 1) (vi + 1) = Some (in_segment (drop (pi + 1) p) (drop (vi + 1) v))"
        using True pi less.prems by (intro less.hyps; simp)+
      have lit: "in_segment (c # q) (e # w) \<longleftrightarrow> c = e \<and> in_segment q w" if "c \<noteq> 42" for c q e w
        using that by (auto elim: in_segment_cases intro: segment_unit)
      show ?thesis
      proof (cases "p ! pi = 42")
        case star: True
        have "segment_matches p v pi vi =
            Some (in_segment (drop (pi + 1) p) (drop vi v) \<or> in_segment (drop pi p) (drop (vi + 1) v))"
          using pi u rest more True star by (subst segment_matches.simps) simp
        moreover have "in_segment (drop pi p) (drop vi v) \<longleftrightarrow>
            in_segment (drop (pi + 1) p) (drop vi v) \<or> in_segment (drop pi p) (drop (vi + 1) v)"
          unfolding d star dv by (subst in_segment_star) simp
        ultimately show ?thesis by simp
      next
        case other: False
        then show ?thesis
          using pi u uv more True unfolding d dv by (subst segment_matches.simps) (simp add: lit)
      qed
    qed
  qed
qed

lemma path_segments_match_eq:
  assumes "list_all no_surrogates p" and "list_all no_surrogates v"
  shows "pi \<le> length p \<Longrightarrow> si \<le> length v \<Longrightarrow>
    path_segments_match p v pi si = Some (in_path (drop pi p) (drop si v))"
proof (induction "length p - pi + (length v - si)" arbitrary: pi si rule: less_induct)
  case less
  show ?case
  proof (cases "pi = length p")
    case True
    then show ?thesis by (subst path_segments_match.simps) (use less.prems in auto)
  next
    case False
    then have pi: "pi < length p" using less.prems by simp
    have d: "drop pi p = p ! pi # drop (pi + 1) p" using pi by (simp add: Cons_nth_drop_Suc)
    have rest: "path_segments_match p v (pi + 1) si = Some (in_path (drop (pi + 1) p) (drop si v))"
      using pi less.prems by (intro less.hyps) auto
    have seg: "segment_matches (p ! pi) (v ! si) 0 0 = Some (in_segment (p ! pi) (v ! si))" if "si < length v"
      using segment_matches_eq [of "p ! pi" "v ! si" 0 0] assms pi that by (simp add: list_all_length)
    have lit: "in_path (q # ps) (e # w) \<longleftrightarrow> in_segment q e \<and> in_path ps w" "\<not> in_path (q # ps) []"
      if "q \<noteq> str ''**''" for q ps e w
      using that by (auto elim!: in_path_cases intro: path_segment)
    show ?thesis
    proof (cases "si < length v")
      case False
      then have si: "drop si v = []" by simp
      show ?thesis
      proof (cases "p ! pi = str ''**''")
        case True
        have "path_segments_match p v pi si = Some (in_path (drop (pi + 1) p) [])"
          using False pi rest True unfolding si by (subst path_segments_match.simps) simp
        moreover have "in_path (drop pi p) [] \<longleftrightarrow> in_path (drop (pi + 1) p) []"
          unfolding d True by (subst in_path_stars) simp
        ultimately show ?thesis unfolding si by simp
      next
        case other: False
        have "path_segments_match p v pi si = Some False"
          using False pi other by (subst path_segments_match.simps) simp
        then show ?thesis unfolding si d by (simp add: lit(2) [OF other])
      qed
    next
      case True
      have dv: "drop si v = v ! si # drop (si + 1) v" using True by (simp add: Cons_nth_drop_Suc)
      have more: "path_segments_match p v pi (si + 1) = Some (in_path (drop pi p) (drop (si + 1) v))"
        "path_segments_match p v (pi + 1) (si + 1) = Some (in_path (drop (pi + 1) p) (drop (si + 1) v))"
        using True pi less.prems by (intro less.hyps; simp)+
      show ?thesis
      proof (cases "p ! pi = str ''**''")
        case star: True
        have "path_segments_match p v pi si =
            Some (in_path (drop (pi + 1) p) (drop si v) \<or> in_path (drop pi p) (drop (si + 1) v))"
          using pi rest more True star by (subst path_segments_match.simps) simp
        moreover have "in_path (drop pi p) (drop si v) \<longleftrightarrow>
            in_path (drop (pi + 1) p) (drop si v) \<or> in_path (drop pi p) (drop (si + 1) v)"
          unfolding d star dv by (subst in_path_stars) simp
        ultimately show ?thesis by simp
      next
        case other: False
        then show ?thesis
          using pi seg [OF True] more True unfolding d dv
          by (subst path_segments_match.simps) (simp add: lit(1) [OF other])
      qed
    qed
  qed
qed

definition glob_segments :: "mstring \<Rightarrow> mstring list" where
  "glob_segments path = filter (\<lambda>s. s \<noteq> []) (split_on 47 path)"

lemma non_empty_segments_eq: "non_empty_segments path = Some (glob_segments path)"
  by (simp add: non_empty_segments_def slash_single string_split_single glob_segments_def)

lemma glob_segments_plain: "no_surrogates s \<Longrightarrow> list_all no_surrogates (glob_segments s)"
  by (auto simp: glob_segments_def list_all_iff no_surrogates_split)

text \<open>
  Property C39. A path matches a pattern exactly when its segments are in the language of the pattern's segments: a
  star is any run of units of a segment, a double star any run of segments.
\<close>
theorem vinyl_glob_language:
  assumes "no_surrogates pattern" and "no_surrogates path"
  shows "glob_matches pattern path = Some (in_path (glob_segments pattern) (glob_segments path))"
  using path_segments_match_eq [OF glob_segments_plain [OF assms(1)] glob_segments_plain [OF assms(2)], of 0 0]
  by (simp add: glob_matches_def non_empty_segments_eq)

theorem vinyl_glob_language_witness:
  "glob_matches (str ''src/**/*.js'') (str ''src/a/b.js'') =
     Some (in_path (glob_segments (str ''src/**/*.js'')) (glob_segments (str ''src/a/b.js'')))"
  by (rule vinyl_glob_language) (simp_all add: is_leading_surrogate_def is_trailing_surrogate_def)

subsection \<open>Which paths a list of patterns selects\<close>

definition glob_shows :: "bool \<Rightarrow> mstring \<Rightarrow> mstring \<Rightarrow> bool" where
  "glob_shows dot pattern path \<longleftrightarrow>
     (dot \<or> list_all (\<lambda>s. \<not> prefix [46] s) (split_on 47 path)) \<and>
     in_path (glob_segments pattern) (glob_segments path)"

text \<open>The last pattern of the list that fits a path decides on it.\<close>

fun selects :: "bool \<Rightarrow> mstring list \<Rightarrow> mstring \<Rightarrow> bool \<Rightarrow> bool" where
  "selects dot [] path already = already"
| "selects dot (glob # globs) path already =
     selects dot globs path
       (if prefix [33] glob then already \<and> \<not> glob_shows dot (tl glob) path else already \<or> glob_shows dot glob path)"

lemma any_dot_eq: "any_dot parts = Some (list_ex (prefix [46]) parts)"
  by (induction parts) (simp_all add: has_prefix_spec)

lemma path_matches_eq:
  assumes "no_surrogates pattern" and "no_surrogates path"
  shows "path_matches_glob_option path pattern dot = Some (glob_shows dot pattern path)"
  using vinyl_glob_language [OF assms]
  by (auto simp: path_matches_glob_option_def path_has_dot_segment_def slash_single string_split_single any_dot_eq
      glob_shows_def list_all_iff list_ex_iff)

lemma remove_matching_eq:
  "no_surrogates pattern \<Longrightarrow> list_all no_surrogates selected \<Longrightarrow>
   remove_matching selected pattern dot = Some (filter (\<lambda>path. \<not> glob_shows dot pattern path) selected)"
  by (induction selected) (simp_all add: path_matches_eq)

lemma contains_path_iff [simp]: "contains_path paths path \<longleftrightarrow> path \<in> set paths"
  by (auto simp: contains_path_def list_ex_iff)

lemma add_matching_eq:
  assumes "no_surrogates glob"
  shows "list_all no_surrogates paths \<Longrightarrow> distinct selected \<Longrightarrow>
    \<exists>selected'. add_matching paths glob dot selected = Some selected' \<and> distinct selected' \<and> prefix selected selected' \<and>
      set selected' = set selected \<union> {p \<in> set paths. glob_shows dot glob p}"
proof (induction paths arbitrary: selected)
  case (Cons p ps)
  let ?sel = "if glob_shows dot glob p \<and> p \<notin> set selected then selected @ [p] else selected"
  have "list_all no_surrogates ps" "distinct ?sel" using Cons.prems by simp_all
  from Cons.IH [OF this] obtain selected' where "add_matching ps glob dot ?sel = Some selected'" "distinct selected'"
    "prefix ?sel selected'" "set selected' = set ?sel \<union> {p \<in> set ps. glob_shows dot glob p}" by blast
  moreover from \<open>prefix ?sel selected'\<close> have "prefix selected selected'"
    by (auto simp: prefix_def split: if_splits)
  ultimately show ?case using Cons.prems path_matches_eq [OF assms] by auto
qed simp

lemma select_loop_eq:
  "list_all no_surrogates globs \<Longrightarrow> list_all no_surrogates paths \<Longrightarrow> distinct selected \<Longrightarrow> set selected \<subseteq> set paths \<Longrightarrow>
   \<exists>selected'. select_loop paths globs dot selected = Some selected' \<and> distinct selected' \<and>
     set selected' = {p \<in> set paths. selects dot globs p (p \<in> set selected)}"
proof (induction globs arbitrary: selected)
  case (Cons glob globs)
  have negative: "has_prefix glob (str ''!'') = Some (prefix [33] glob)" by (simp add: has_prefix_spec)
  show ?case
  proof (cases "prefix [33] glob")
    case True
    then obtain g where g: "glob = 33 # g" by (auto simp: prefix_def)
    have "string_sub glob 1 None = Some g"
      using Cons.prems(1) g string_sub_from [of 1 glob] cut_ok_no_surrogates [of glob 1] by simp
    moreover have "no_surrogates g" using Cons.prems(1) g by (simp add: no_surrogates_def)
    moreover have "list_all no_surrogates selected" using Cons.prems(2,4) by (auto simp: list_all_iff)
    moreover let ?sel = "filter (\<lambda>path. \<not> glob_shows dot g path) selected"
    obtain selected' where "select_loop paths globs dot ?sel = Some selected'" "distinct selected'"
      "set selected' = {p \<in> set paths. selects dot globs p (p \<in> set ?sel)}"
      using Cons.IH [of ?sel] Cons.prems by auto
    ultimately show ?thesis using True negative g by (auto simp: remove_matching_eq)
  next
    case False
    have plain: "no_surrogates glob" using Cons.prems(1) by simp
    obtain sel where sel: "add_matching paths glob dot selected = Some sel" "distinct sel"
      "set sel = set selected \<union> {p \<in> set paths. glob_shows dot glob p}"
      using add_matching_eq [OF plain Cons.prems(2,3)] by blast
    then obtain selected' where "select_loop paths globs dot sel = Some selected'" "distinct selected'"
      "set selected' = {p \<in> set paths. selects dot globs p (p \<in> set sel)}"
      using Cons.IH [of sel] Cons.prems by auto
    with False negative sel(1,3) show ?thesis by auto
  qed
qed auto

text \<open>
  The selection returns each path at most once, and exactly the paths of the listing for which the last
  pattern that fits is a positive one; without \<open>dot\<close> no pattern fits a path with a hidden segment.
\<close>
theorem last_pattern_decides:
  assumes "list_all no_surrogates globs" and "list_all no_surrogates paths"
  shows "\<exists>selected. select_glob_stream_paths paths globs dot = Some selected \<and> distinct selected \<and>
    set selected = {p \<in> set paths. selects dot globs p False}"
  using select_loop_eq [OF assms, of "[]" dot] by (simp add: select_glob_stream_paths_def ordered_glob_paths_def)

theorem last_pattern_decides_witness:
  "\<exists>selected. select_glob_stream_paths [str ''a.js'', str ''b.js''] [str ''*.js'', str ''!a*''] False = Some selected \<and>
    distinct selected \<and> set selected = {p \<in> set [str ''a.js'', str ''b.js'']. selects False [str ''*.js'', str ''!a*''] p False}"
  by (rule last_pattern_decides) (simp_all add: is_leading_surrogate_def is_trailing_surrogate_def)

text \<open>
  A path with a character beyond the basic plane: comparing its first unit with one of the pattern cuts
  the pair, so that a selection aborts as soon as such a name is in the listing.
\<close>

lemma glob_pair_aborts: "glob_matches (str ''a.js'') [55357, 56832] = None"
proof -
  have "unit_at [55357, 56832 :: 16 word] 0 = None"
    by (rule unit_at_pair) (simp_all add: is_trailing_surrogate_def)
  moreover have "unit_at (str ''a.js'') 0 = Some (str ''a'')"
    by (simp add: unit_at_def string_sub_def slice_def is_trailing_surrogate_def)
  ultimately have "segment_matches (str ''a.js'') [55357, 56832] 0 0 = None"
    by (subst segment_matches.simps) simp
  then have "path_segments_match [str ''a.js''] [[55357, 56832]] 0 0 = None"
    by (subst path_segments_match.simps) simp
  then show ?thesis by (simp add: glob_matches_def non_empty_segments_eq glob_segments_def)
qed

end
