(* ===== verification/Spec2Isabelle.thy ===== *)
theory Spec2Isabelle
  imports Mulp_Watch Command_Words Byte_Stream Chokidar_Sync File_Pipe Shell_Process Vinyl_Codecs Vinyl_File Vinyl_Fs Vinyl_Glob
begin

text \<open>
  A verification development for \<open>mulp\<close>, the task runner of this repository.

  \<^bold>\<open>The program.\<close> \<open>mulp\<close> is written in MoonBit (\<open>src/cmd\<close>, \<open>src/cli\<close>, \<open>src/core\<close>, \<open>src/platform\<close>,
  \<open>src/stream\<close>, \<open>src/vinyl_fs\<close>), with C stubs beside it, and is compiled together with its packages
  \<open>chokidar\<close>, \<open>readdirp\<close> and \<open>glob-watcher\<close> (\<open>src/.mooncakes/i5ting\<close>) and the runtime library into one C
  file, \<open>src/_build/native/debug/build/cmd/mulp/mulp.c\<close>. The library that scripts are written with
  (\<open>src/vinyl\<close>, \<open>src/vinyl_fs\<close>, \<open>src/stream\<close>: virtual files, reading and writing them, pipes) is compiled
  together with a driver that times it into \<open>src/_build/native/debug/build/cmd/bench_compare/bench_compare.c\<close>.
  The definitions are translated from these two files and from the stubs; the comments name the MoonBit
  file a function comes from. A command line names
  a task, a listing or the watch mode. The command finds a configuration file in the working
  directory or above it, reads it, makes one \<open>moon run\<close> command line of it, quotes that for the shell,
  runs it through a stub and prints what it printed. In watch mode it does so once, and then again
  whenever a file below the working directory has changed, until it is interrupted.

  \<^bold>\<open>Conventions\<close> (\<open>Prelude\<close>). A function of the program that can abort, read out of bounds or run
  for ever has a result of type \<open>'a run\<close>, which is an option: \<open>None\<close> is that it does not return. An
  error the program handles is \<open>Inl\<close> of a sum. Strings are lists of 16-bit code units, as in MoonBit,
  byte strings lists of 8-bit words; integers that can wrap are words. What is outside (files, clock,
  kernel, shell, environment, callbacks) is a record of functions over a state that is a parameter.

  \<^bold>\<open>Strings and data.\<close>
  \<^item> \<open>String_Search\<close>, \<open>String_Ops\<close>: the searches (brute force and Boyer-Moore-Horspool, both ways, shown
    equal), substrings with their surrogate checks, split, join, trim.
  \<^item> \<open>Utf8\<close>, \<open>Utf8_Bytes\<close>, \<open>Readdirp_Utf8\<close>: the codec of the runtime library and the two that the packages
    carry; encoding and decoding are inverse on well-formed strings.
  \<^item> \<open>Sort_By\<close>: the sort of the runtime library with all its branches, over a locale \<open>comparison\<close> that is
    interpreted on the order of snapshot entries and on the order of strings.

  \<^bold>\<open>The command.\<close>
  \<^item> \<open>Mulp_Error\<close>, \<open>Mulp_Paths\<close>, \<open>Mulp_Args\<close>, \<open>Mulp_Config\<close>: errors, path strings and the searches of the
    ancestors (locale \<open>ancestor_search\<close>, interpreted on both searches), the arguments with their grammar,
    the configuration with its printed form.
  \<^item> \<open>Mulp_Command\<close>: from the arguments to the command line that is run; \<open>main\<close>; the loop of watch mode over
    an interface \<open>watch_env\<close>.
  \<^item> \<open>Platform_Process\<close>, \<open>Posix_Shell\<close>, \<open>Shell_Process\<close>: quoting, a reading of the token rules of the POSIX
    shell as its specification, and the stub that runs a line and hands back status and outputs.
  \<^item> \<open>Command_Words\<close>: units below 256 stay such units through the searches, the reader of the configuration and
    the passes over the arguments, so the one line the command gives to the shell is read as \<open>cd\<close> and
    one \<open>moon run\<close>.
  \<^item> \<open>C_Memory\<close>, \<open>Posix_IO\<close>, \<open>File_Stream\<close>, \<open>Byte_Stream\<close>, \<open>Vinyl_Fs\<close>, \<open>Signals\<close>: C blocks and bounded copies,
    the laws of buffered files as a locale (what is written is in the file once the close reports success,
    and nothing is promised before) with an instance in memory that buffers and runs out of room, file
    readers and writers with their counters, streams of chunks, the listing of a tree, the mailbox of
    signals and the flag of \<open>main\<close>. A text is read back as it was exactly when no chunk begins inside a
    character.

  \<^bold>\<open>The file watcher.\<close>
  \<^item> \<open>Glob\<close>, \<open>Glob_Braces\<close>: patterns, their language, the directory a pattern starts from, braces, and the
    positive and negated patterns of a list.
  \<^item> \<open>Readdirp\<close>, \<open>Readdirp_Tree\<close>: the walk of a directory tree with its warnings; on a tree of plain files
    and directories it reports exactly the entries wanted.
  \<^item> \<open>Chokidar_Paths\<close>, \<open>Chokidar_Scan\<close>, \<open>Chokidar_Snapshot\<close>, \<open>Chokidar_Tree\<close>: paths by their parts; snapshots,
    their order and their difference, whose replay on the old tree gives the new one; the scan of a
    root with its filters and the stat cache; a scan finds exactly the tree.
  \<^item> \<open>Chokidar_State\<close>, \<open>Chokidar_Timing\<close>: what a watcher remembers, and the events it holds back: removals
    that may be half of an atomic write, and writes that may not be finished, with the histories of
    looks after which a write is reported.
  \<^item> \<open>Chokidar_Backend\<close>: the stub over inotify, its queue of 1024 events and its table of watches.
  \<^item> \<open>Chokidar_Watcher\<close>, \<open>Chokidar_Cycle\<close>, \<open>Chokidar_Sync\<close>: the watcher itself; what a cycle tells its
    listeners; and that a listener which replays the events of a polling watcher, less the removals
    still held back, has the tree of the last scan after every cycle.
  \<^item> \<open>Glob_Watcher\<close>: the debouncer (a burst of events gives its last one, once), the queue of callbacks
    (one run at a time, also when the callback calls the queue again), and the tick that puts the watcher, the patterns, the debouncer and the queue
    together.
  \<^item> \<open>Mulp_Watch\<close>: the interface \<open>watch_env\<close> of the command filled with the glob watcher: a round runs the
    command exactly when the debouncer gives an event; a tick never reports the error that the loop would
    end with.

  \<^bold>\<open>The library of virtual files.\<close>
  \<^item> \<open>Vinyl_Path\<close>: the normalisation of paths with its quick test, and relative paths, which lead back to
    the path they were made from.
  \<^item> \<open>Stream_Objects\<close>: streams of bytes as cells that files share; the replay that gives every reader
    all chunks from the beginning; reading to the end.
  \<^item> \<open>Vinyl_File\<close>: the record of a file with the history of its paths; every operation returns and keeps
    it well formed.
  \<^item> \<open>File_Pipe\<close>: streams of files, pipes and \<open>collect\<close>, over any type of files: a pipe gives the
    concatenation of what its transformation makes, and a pipe that writes does so in order up to the
    first error.
  \<^item> \<open>Vinyl_Codecs\<close>: the text encodings files are read and written in, with their round trip, and base64,
    read back by a decoder of its definition.
  \<^item> \<open>Vinyl_Glob\<close>: the patterns of the library with their language, and what an ordered list of patterns
    selects: the last pattern that fits a path decides.

  \<^bold>\<open>Loops and bounds.\<close> There is no fuel. Loops that are structural or have a measure are \<open>fun\<close> and
  \<open>function\<close>; those that may run for ever are \<open>partial_function (option)\<close>: the searches and splits, the
  growing of buffers, the reads to the end of a stream, the walk of a tree, the reads of the inotify
  queue, the queue of callbacks and the watch loop. The properties about them state that they return
  (\<open>\<exists>y. f x = Some y\<close> or an equation with \<open>Some\<close>), or exactly when they do. The 32-bit and 64-bit
  additions that can wrap are done on words: capacities of buffers, delays and time stamps. Statements
  about times suppose that the time stamp plus the delay stays below the end of its range.

  \<^bold>\<open>What is supposed.\<close> Memory suffices where a stub of the packages allocates. One report of the directory
  reader sees one state of the file system. A callback does not work on the watcher that calls it, except
  through the queue of the glob watcher. The answers of system calls, clock, shell and environment
  are parameters; where a property needs a law of them it is a hypothesis or a law of a locale, with an
  instance. The laws of files are for regular files that one stream at a time writes. \<open>logs\<close> only says that a world has a log to which callbacks append and which reading the
  clock or the kernel's queue leaves alone.

  \<^bold>\<open>What modelling showed.\<close> The lemmas named in the list of findings show, among others: quoting broken by
  units beyond a byte; outputs encoded twice; removed files reported as added, and directories
  reported before the removal they replace; a dangling link that fails a whole scan; and watch mode
  going on silently when its scans fail.

  \<^bold>\<open>Not modelled.\<close> The branches for Windows and kqueue. The package of regular expressions: a matcher with
  one is a parameter. Reference counting, hash maps, printing of numbers and the start-up code of the
  runtime. The asynchronous event loop and thread pool vendored with the language, which the command
  does not call. Of \<open>bench_compare.c\<close> the driver, the reading and writing of virtual files around the parts
  above (\<open>src\<close>, \<open>dest\<close>, source maps) and the destinations of the stream package. The counter of watch
  handles has no bound in the model. The release build, which is the same program compiled with
  optimisation. The examples. The functions \<open>run\<close>, \<open>on\<close>, \<open>get_watched\<close> and \<open>unwatch\<close> of the
  watcher packages, which are not in the compiled program.
\<close>

end
